(* ===== verification/Prelude.thy ===== *)
theory Prelude
  imports Main "HOL-Library.AList" "HOL-Library.Char_ord"
begin

text \<open>
  Shared vocabulary of the development: the strings, decimal numerals and insertion-ordered
  maps of the TypeScript sources, with the lemmas the components use about them.

  Strings are lists of characters (ASCII; a JavaScript string is a sequence of UTF-16 code
  units, and everything this code builds or compares is in the ASCII range except the dash
  of two refusal texts, which is spelled as its UTF-8 bytes).  A \<open>bigint\<close> and an integer
  \<open>number\<close> are \<open>int\<close>; integers beyond 2^53 in a JSON number are outside the model.
  A JavaScript \<open>Map\<close> is an association list without duplicate keys: \<open>AList.update\<close> overwrites
  in place and appends a new key at the end, as \<open>Map.set\<close> does.
\<close>

named_theorems kv_simps \<open>what one command of the counter store does to counters and markers\<close>
named_theorems key_simps \<open>store keys that can never be equal\<close>

subsection \<open>Characters\<close>

definition code :: "char \<Rightarrow> nat" where
  "code c = of_char c"

definition is_digit :: "char \<Rightarrow> bool" where
  "is_digit c \<longleftrightarrow> 48 \<le> code c \<and> code c \<le> 57"

definition digit_val :: "char \<Rightarrow> nat" where
  "digit_val c = code c - 48"

definition digit_char :: "nat \<Rightarrow> char" where
  "digit_char n = char_of (48 + n)"

text \<open>The white space \<open>String.prototype.trim\<close> and \<open>parseInt\<close> skip, within the character range.\<close>

definition is_space :: "char \<Rightarrow> bool" where
  "is_space c \<longleftrightarrow> code c \<in> {9, 10, 11, 12, 13, 32, 160}"

definition to_lower :: "char \<Rightarrow> char" where
  "to_lower c = (if 65 \<le> code c \<and> code c \<le> 90 then char_of (code c + 32) else c)"

definition to_upper :: "char \<Rightarrow> char" where
  "to_upper c = (if 97 \<le> code c \<and> code c \<le> 122 then char_of (code c - 32) else c)"

definition toLowerCase :: "string \<Rightarrow> string" where
  "toLowerCase s = map to_lower s"

definition toUpperCase :: "string \<Rightarrow> string" where
  "toUpperCase s = map to_upper s"

definition trim :: "string \<Rightarrow> string" where
  "trim s = rev (dropWhile is_space (rev (dropWhile is_space s)))"

definition padStart :: "nat \<Rightarrow> string \<Rightarrow> string" where
  "padStart n s = replicate (n - length s) (CHR ''0'') @ s"

lemma code_char_of: "n < 256 \<Longrightarrow> code (char_of n) = n"
  by (simp add: code_def)

lemma digit_char_props [simp]:
  assumes "n < 10"
  shows "is_digit (digit_char n)" and "digit_val (digit_char n) = n"
  using assms by (simp_all add: is_digit_def digit_val_def digit_char_def code_char_of)

lemma digit_char_inj: "m < 10 \<Longrightarrow> n < 10 \<Longrightarrow> digit_char m = digit_char n \<longleftrightarrow> m = n"
  using digit_char_props(2) by metis

lemma is_digit_not_minus [simp]: "\<not> is_digit (CHR ''-'')"
  by (simp add: is_digit_def code_def)

lemma is_digit_not_space: "is_digit c \<Longrightarrow> \<not> is_space c"
  by (auto simp: is_digit_def is_space_def)

lemma to_lower_idem [simp]: "to_lower (to_lower c) = to_lower c"
  by (auto simp: to_lower_def code_char_of)

lemma toLowerCase_idem [simp]: "toLowerCase (toLowerCase s) = toLowerCase s"
  by (simp add: toLowerCase_def)

lemma length_toLowerCase [simp]: "length (toLowerCase s) = length s"
  by (simp add: toLowerCase_def)

subsection \<open>Decimal numerals\<close>

text \<open>The digits of a natural number, least significant first.\<close>

fun rdigits :: "nat \<Rightarrow> nat list" where
  "rdigits n = (if n < 10 then [n] else n mod 10 # rdigits (n div 10))"

declare rdigits.simps [simp del]

fun rvalue :: "nat list \<Rightarrow> nat" where
  "rvalue [] = 0"
| "rvalue (d # ds) = d + 10 * rvalue ds"

lemma rdigits_nonempty [simp]: "rdigits n \<noteq> []"
  by (subst rdigits.simps) simp

lemma rdigits_small: "d \<in> set (rdigits n) \<Longrightarrow> d < 10"
  by (induction n rule: rdigits.induct) (subst (asm) rdigits.simps, auto split: if_splits)

lemma rvalue_rdigits [simp]: "rvalue (rdigits n) = n"
proof (induction n rule: rdigits.induct)
  case (1 n)
  then show ?case by (subst rdigits.simps) auto
qed

definition show_nat :: "nat \<Rightarrow> string" where
  "show_nat n = map digit_char (rev (rdigits n))"

text \<open>\<open>BigInt.prototype.toString\<close>, and \<open>String\<close> of an integer.\<close>

definition show_int :: "int \<Rightarrow> string" where
  "show_int i = (if i < 0 then CHR ''-'' # show_nat (nat (- i)) else show_nat (nat i))"

definition nat_of_digits :: "string \<Rightarrow> nat" where
  "nat_of_digits s = rvalue (rev (map digit_val s))"

lemma show_nat_nonempty [simp]: "show_nat n \<noteq> []"
  by (simp add: show_nat_def)

lemma show_nat_digits: "c \<in> set (show_nat n) \<Longrightarrow> is_digit c"
  by (auto simp: show_nat_def dest: rdigits_small)

lemma list_all_show_nat [simp]: "list_all is_digit (show_nat n)"
  by (simp add: list_all_iff show_nat_digits)

lemma nat_of_digits_show_nat [simp]: "nat_of_digits (show_nat n) = n"
proof -
  have "map digit_val (show_nat n) = rev (rdigits n)"
    by (auto simp: show_nat_def rev_map [symmetric] o_def dest: rdigits_small intro!: map_idI)
  then show ?thesis by (simp add: nat_of_digits_def)
qed

lemma show_nat_inj [simp]: "show_nat m = show_nat n \<longleftrightarrow> m = n"
  by (metis nat_of_digits_show_nat)

lemma show_nat_no_minus: "show_nat n \<noteq> CHR ''-'' # s"
  using show_nat_digits [of "CHR ''-''" n] by auto

text \<open>
  \<open>BigInt(s)\<close>: white space around is ignored, the empty string is 0, a sign may precede
  decimal digits; anything else throws (\<open>None\<close>).  The radix-prefixed literals (0x, 0o, 0b)
  never occur in a counter of this program and are refused too.
\<close>

definition parse_digits :: "string \<Rightarrow> nat option" where
  "parse_digits s = (if s \<noteq> [] \<and> list_all is_digit s then Some (nat_of_digits s) else None)"

definition parse_bigint :: "string \<Rightarrow> int option" where
  "parse_bigint s0 = (let s = trim s0 in
     case s of
       [] \<Rightarrow> Some 0
     | c # cs \<Rightarrow>
         if c = CHR ''-'' then map_option (\<lambda>n. - int n) (parse_digits cs)
         else if c = CHR ''+'' then map_option int (parse_digits cs)
         else map_option int (parse_digits s))"

lemma parse_digits_show_nat [simp]: "parse_digits (show_nat n) = Some n"
  by (simp add: parse_digits_def)

lemma dropWhile_no_space: "(\<And>c. c \<in> set s \<Longrightarrow> \<not> is_space c) \<Longrightarrow> dropWhile is_space s = s"
  by (cases s) auto

lemma trim_no_space: "(\<And>c. c \<in> set s \<Longrightarrow> \<not> is_space c) \<Longrightarrow> trim s = s"
  using dropWhile_no_space [of s] dropWhile_no_space [of "rev s"] by (simp add: trim_def)

lemma show_int_no_space: "c \<in> set (show_int i) \<Longrightarrow> \<not> is_space c"
  by (auto simp: show_int_def is_space_def code_def split: if_splits
      dest!: show_nat_digits is_digit_not_space)

lemma trim_show_int [simp]: "trim (show_int i) = show_int i"
  by (rule trim_no_space) (rule show_int_no_space)

lemma parse_show_nat_aux:
  "(case show_nat n of [] \<Rightarrow> Some 0
    | c # cs \<Rightarrow> if c = CHR ''-'' then map_option (\<lambda>n. - int n) (parse_digits cs)
        else if c = CHR ''+'' then map_option int (parse_digits cs)
        else map_option int (parse_digits (show_nat n))) = Some (int n)"
proof (cases "show_nat n")
  case (Cons c cs)
  then have "is_digit c" using show_nat_digits [of c n] by simp
  then have "c \<noteq> CHR ''-''" and "c \<noteq> CHR ''+''" by (auto simp: is_digit_def code_def)
  then show ?thesis using Cons parse_digits_show_nat [of n] by simp
qed simp

lemma parse_show_int [simp]: "parse_bigint (show_int i) = Some i"
proof (cases "i < 0")
  case True
  then have "show_int i = CHR ''-'' # show_nat (nat (- i))" by (simp add: show_int_def)
  with True show ?thesis using trim_show_int [of i] by (simp add: parse_bigint_def Let_def)
next
  case False
  then have "show_int i = show_nat (nat i)" by (simp add: show_int_def)
  with False show ?thesis
    using parse_show_nat_aux [of "nat i"] trim_show_int [of i] by (simp add: parse_bigint_def Let_def)
qed

lemma show_int_inj [simp]: "show_int i = show_int j \<longleftrightarrow> i = j"
  by (metis option.inject parse_show_int)

lemma show_int_nonempty [simp]: "show_int i \<noteq> []"
  by (simp add: show_int_def)

text \<open>
  \<open>Number.parseInt(s, 10)\<close>: leading white space, an optional sign and the longest run of
  digits; \<open>None\<close> (NaN) when there is no digit.
\<close>

definition parseInt :: "string \<Rightarrow> int option" where
  "parseInt s0 = (let s = dropWhile is_space s0;
       (neg, body) = (case s of
           c # cs \<Rightarrow> if c = CHR ''-'' then (True, cs) else if c = CHR ''+'' then (False, cs) else (False, s)
         | [] \<Rightarrow> (False, []));
       ds = takeWhile is_digit body
     in if ds = [] then None
        else Some (if neg then - int (nat_of_digits ds) else int (nat_of_digits ds)))"

lemma parseInt_show_nat [simp]: "parseInt (show_nat n) = Some (int n)"
proof (cases "show_nat n")
  case (Cons c cs)
  have d: "\<And>x. x \<in> set (show_nat n) \<Longrightarrow> is_digit x" by (rule show_nat_digits)
  then have c: "is_digit c" using Cons by simp
  then have "c \<noteq> CHR ''-''" and "c \<noteq> CHR ''+''" and "\<not> is_space c"
    by (auto simp: is_digit_def code_def is_space_def)
  moreover have "takeWhile is_digit (show_nat n) = show_nat n"
    using d by (simp add: takeWhile_eq_all_conv)
  ultimately show ?thesis
    using Cons nat_of_digits_show_nat [of n] by (simp add: parseInt_def)
qed simp

text \<open>A number padded with zeros to a fixed width.\<close>

definition pad :: "nat \<Rightarrow> int \<Rightarrow> string" where
  "pad n i = padStart n (show_nat (nat i))"

lemma length_rdigits: "n < 10 ^ Suc k \<Longrightarrow> length (rdigits n) \<le> Suc k"
proof (induction k arbitrary: n)
  case 0
  then show ?case by (subst rdigits.simps) simp
next
  case (Suc k)
  then have "n div 10 < 10 ^ Suc k" by (simp add: less_mult_imp_div_less mult.commute)
  then have "length (rdigits (n div 10)) \<le> Suc k" by (rule Suc.IH)
  then show ?case by (subst rdigits.simps) simp
qed

lemma length_pad: "0 \<le> i \<Longrightarrow> i < 10 ^ Suc k \<Longrightarrow> length (pad (Suc k) i) = Suc k"
  using length_rdigits [of "nat i" k]
  by (simp add: pad_def padStart_def show_nat_def nat_less_iff)

lemma rvalue_append: "rvalue (xs @ ys) = rvalue xs + 10 ^ length xs * rvalue ys"
  by (induction xs) (simp_all add: algebra_simps)

lemma rvalue_zeros: "rvalue (replicate n 0) = 0"
  by (induction n) simp_all

lemma nat_of_digits_pad: "nat_of_digits (pad n i) = nat i"
proof -
  have z: "digit_val (CHR ''0'') = 0" by (simp add: digit_val_def code_def)
  have "nat_of_digits (replicate k (CHR ''0'') @ s) = nat_of_digits s" for k s
    by (simp add: nat_of_digits_def map_replicate rvalue_append rvalue_zeros z)
  then show ?thesis by (simp add: pad_def padStart_def)
qed

lemma pad_inj: "0 \<le> i \<Longrightarrow> 0 \<le> j \<Longrightarrow> pad n i = pad n j \<longleftrightarrow> i = j"
  by (metis nat_of_digits_pad int_nat_eq)

lemma length_pad_ge: "n \<le> length (pad n i)"
  by (simp add: pad_def padStart_def)

subsection \<open>Splitting at a separator\<close>

text \<open>\<open>String.prototype.split\<close> with a one-character separator.\<close>

fun split_on :: "char \<Rightarrow> string \<Rightarrow> string list" where
  "split_on c [] = [[]]"
| "split_on c (x # xs) =
     (if x = c then [] # split_on c xs
      else (case split_on c xs of [] \<Rightarrow> [[x]] | p # ps \<Rightarrow> (x # p) # ps))"

fun join :: "string \<Rightarrow> string list \<Rightarrow> string" where
  "join sep [] = []"
| "join sep [x] = x"
| "join sep (x # y # ys) = x @ sep @ join sep (y # ys)"

definition starts_with :: "string \<Rightarrow> string \<Rightarrow> bool" where
  "starts_with p s \<longleftrightarrow> take (length p) s = p"

lemma split_on_nonempty [simp]: "split_on c s \<noteq> []"
  by (induction s) (auto split: list.splits)

lemma split_on_no_sep: "c \<notin> set s \<Longrightarrow> split_on c s = [s]"
  by (induction s) auto

lemma join_split_on: "join [c] (split_on c s) = s"
proof (induction s)
  case (Cons x xs)
  obtain p ps where "split_on c xs = p # ps" by (cases "split_on c xs") auto
  with Cons show ?case by (cases ps) auto
qed simp

lemma append_sep_eq:
  "c \<notin> set xs \<Longrightarrow> c \<notin> set ys \<Longrightarrow> xs @ c # zs = ys @ c # ws \<longleftrightarrow> xs = ys \<and> zs = ws"
proof (induction xs arbitrary: ys)
  case Nil
  then show ?case by (cases ys) auto
next
  case (Cons x xs)
  then show ?case by (cases ys) auto
qed

lemma split_on_append_sep: "c \<notin> set xs \<Longrightarrow> split_on c (xs @ c # ys) = xs # split_on c ys"
  by (induction xs) auto

lemma split_on_join: "gs \<noteq> [] \<Longrightarrow> (\<And>g. g \<in> set gs \<Longrightarrow> c \<notin> set g) \<Longrightarrow> split_on c (join [c] gs) = gs"
proof (induction "[c]" gs rule: join.induct)
  case (3 x y ys)
  then show ?case by (simp add: split_on_append_sep)
qed (simp_all add: split_on_no_sep)

lemma in_set_split_on: "g \<in> set (split_on c s) \<Longrightarrow> set g \<subseteq> set s - {c}"
proof (induction s arbitrary: g)
  case (Cons x xs)
  then show ?case by (cases "split_on c xs") (fastforce split: if_splits)+
qed simp

subsection \<open>Insertion-ordered maps\<close>

lemma map_of_update [simp]: "map_of (AList.update k v m) = (map_of m)(k \<mapsto> v)"
  by (simp add: update_conv')

lemma map_of_delete [simp]: "map_of (AList.delete k m) = (map_of m)(k := None)"
  by (simp add: delete_conv')

lemma distinct_keys_update [simp]: "distinct (map fst m) \<Longrightarrow> distinct (map fst (AList.update k v m))"
  by (rule distinct_update)

lemma distinct_keys_delete [simp]: "distinct (map fst m) \<Longrightarrow> distinct (map fst (AList.delete k m))"
  by (rule distinct_delete)

text \<open>\<open>new Date(ms)\<close> and friends take milliseconds; a second has a thousand of them.\<close>

definition seconds :: "int \<Rightarrow> int" where
  "seconds s = s * 1000"

end
