(* ===== verification/KvStore.thy ===== *)
theory KvStore
  imports Prelude
begin

text \<open>
  The counter store as the repository itself implements it: apps/sponsor/src/cli/fake-kv.ts, the
  local stand-in for the Upstash Redis REST API, command by command.  The two maps \<open>store\<close> and
  \<open>expiry\<close> and the operator's \<open>gross\<close> map are the fields of one record; \<open>Date.now()\<close> is the
  argument \<open>t\<close>; a command is the list of strings the client sent; a thrown error is a reply.
  An expiry that is not a number (\<open>NaN\<close>) is \<open>None\<close>: it compares false with every instant.
\<close>

datatype kval = VStr string | VSet "string list" | VList "string list"

datatype rval = RNull | RStr string | RInt int | RList "rval list"

datatype reply = Result rval | Err string

record kv =
  entries :: "(string \<times> kval) list"
  expires :: "(string \<times> int option) list"
  gross :: "(string \<times> int) list"

definition empty_kv :: kv where
  "empty_kv = \<lparr>entries = [], expires = [], gross = []\<rparr>"

definition expired :: "int \<Rightarrow> kv \<Rightarrow> string \<Rightarrow> bool" where
  "expired t s k = (case map_of (expires s) k of Some (Some until) \<Rightarrow> until \<le> t | _ \<Rightarrow> False)"

definition kv_delete :: "string \<Rightarrow> kv \<Rightarrow> kv" where
  "kv_delete k s = s\<lparr>entries := AList.delete k (entries s), expires := AList.delete k (expires s)\<rparr>"

definition live :: "int \<Rightarrow> string \<Rightarrow> kv \<Rightarrow> kval option \<times> kv" where
  "live t k s = (if expired t s k then (None, kv_delete k s) else (map_of (entries s) k, s))"

definition getString :: "int \<Rightarrow> string \<Rightarrow> kv \<Rightarrow> string option \<times> kv" where
  "getString t k s = (case live t k s of
      (Some (VStr v), s') \<Rightarrow> (Some v, s')
    | (_, s') \<Rightarrow> (None, s'))"

definition setVal :: "string \<Rightarrow> kval \<Rightarrow> kv \<Rightarrow> kv" where
  "setVal k v s = s\<lparr>entries := AList.update k v (entries s)\<rparr>"

definition setString :: "string \<Rightarrow> string \<Rightarrow> kv \<Rightarrow> kv" where
  "setString k v s = setVal k (VStr v) s"

definition getSet :: "int \<Rightarrow> string \<Rightarrow> kv \<Rightarrow> string list \<times> kv" where
  "getSet t k s = (case live t k s of
      (Some (VSet m), s') \<Rightarrow> (m, s')
    | (_, s') \<Rightarrow> ([], setVal k (VSet []) s'))"

definition getList :: "int \<Rightarrow> string \<Rightarrow> kv \<Rightarrow> string list \<times> kv" where
  "getList t k s = (case live t k s of
      (Some (VList l), s') \<Rightarrow> (l, s')
    | (_, s') \<Rightarrow> ([], setVal k (VList []) s'))"

text \<open>A glob pattern as \<open>globToRegExp\<close> reads it: \<open>*\<close> any run, \<open>?\<close> one character, the rest literal.\<close>

fun globMatch :: "string \<Rightarrow> string \<Rightarrow> bool" where
  "globMatch [] s = (s = [])"
| "globMatch (g # gs) s =
     (if g = CHR ''*'' then globMatch gs s \<or> (case s of [] \<Rightarrow> False | _ # cs \<Rightarrow> globMatch (g # gs) cs)
      else case s of [] \<Rightarrow> False
        | c # cs \<Rightarrow> (if g = CHR ''?'' then globMatch gs cs else g = c \<and> globMatch gs cs))"

definition str_reply :: "string option \<Rightarrow> rval" where
  "str_reply v = (case v of None \<Rightarrow> RNull | Some x \<Rightarrow> RStr x)"

text \<open>The \<open>i\<close>-th argument as a string; a missing one reads as the empty string.\<close>

definition arg :: "string list \<Rightarrow> nat \<Rightarrow> string" where
  "arg args i = (if i < length args then args ! i else [])"

text \<open>
  \<open>Number(s)\<close> for the integers the service sends; \<open>None\<close> is \<open>NaN\<close> (a decimal fraction or an
  exponent is read as \<open>NaN\<close> here; the service sends neither).
\<close>

definition js_Number :: "string list \<Rightarrow> nat \<Rightarrow> int option" where
  "js_Number args i = (if i < length args then parse_bigint (args ! i) else None)"

subsection \<open>GET, GETDEL, SET, DEL, EXISTS\<close>

definition runGet :: "int \<Rightarrow> string \<Rightarrow> kv \<Rightarrow> reply \<times> kv" where
  "runGet t k s = (case getString t k s of (v, s') \<Rightarrow> (Result (str_reply v), s'))"

definition runGetDel :: "int \<Rightarrow> string \<Rightarrow> kv \<Rightarrow> reply \<times> kv" where
  "runGetDel t k s = (case getString t k s of (v, s1) \<Rightarrow>
     (case live t k s1 of (x, s2) \<Rightarrow>
       (Result (str_reply v), if x \<noteq> None then kv_delete k s2 else s2)))"

record set_opts =
  nx :: bool
  xx :: bool
  getOld :: bool
  keepTtl :: bool
  ttlMs :: "int option"

definition no_opts :: set_opts where
  "no_opts = \<lparr>nx = False, xx = False, getOld = False, keepTtl = False, ttlMs = None\<rparr>"

text \<open>The flag loop of SET: \<open>Inl\<close> is the error the command answers.\<close>

fun setFlags :: "string list \<Rightarrow> set_opts \<Rightarrow> string + set_opts" where
  "setFlags [] o0 = Inr o0"
| "setFlags (f # rest) o0 = (let flag = toUpperCase f in
     if flag = ''NX'' then setFlags rest (o0\<lparr>nx := True\<rparr>)
     else if flag = ''XX'' then setFlags rest (o0\<lparr>xx := True\<rparr>)
     else if flag = ''GET'' then setFlags rest (o0\<lparr>getOld := True\<rparr>)
     else if flag = ''KEEPTTL'' then setFlags rest (o0\<lparr>keepTtl := True\<rparr>)
     else if flag = ''EX'' \<or> flag = ''PX'' then
       (case rest of
          [] \<Rightarrow> Inl ''ERR invalid expire time in 'set' command''
        | a # rest' \<Rightarrow> (case parse_bigint a of
            Some n \<Rightarrow> if n \<le> 0 then Inl ''ERR invalid expire time in 'set' command''
                else setFlags rest' (o0\<lparr>ttlMs := Some (if flag = ''EX'' then n * 1000 else n)\<rparr>)
          | None \<Rightarrow> Inl ''ERR invalid expire time in 'set' command''))
     else Inl (''UNSUPPORTED SET flag '' @ flag))"

definition runSet :: "int \<Rightarrow> string \<Rightarrow> string list \<Rightarrow> kv \<Rightarrow> reply \<times> kv" where
  "runSet t k args s = (let value = arg args 1 in
     case setFlags (drop 2 args) no_opts of
       Inl e \<Rightarrow> (Err e, s)
     | Inr fl \<Rightarrow>
         if (nx fl \<and> xx fl) \<or> (keepTtl fl \<and> ttlMs fl \<noteq> None) then (Err ''ERR syntax error'', s)
         else (case getString t k s of (previous, s1) \<Rightarrow>
           (case live t k s1 of (cur, s2) \<Rightarrow>
             let exists = cur \<noteq> None in
             if (nx fl \<and> exists) \<or> (xx fl \<and> \<not> exists)
             then (Result (if getOld fl then str_reply previous else RNull), s2)
             else (let s3 = setString k value s2;
                       s4 = (case ttlMs fl of
                           Some ms \<Rightarrow> s3\<lparr>expires := AList.update k (Some (t + ms)) (expires s3)\<rparr>
                         | None \<Rightarrow> if keepTtl fl then s3 else s3\<lparr>expires := AList.delete k (expires s3)\<rparr>)
                   in (Result (if getOld fl then str_reply previous else RStr ''OK''), s4)))))"

fun delKeys :: "int \<Rightarrow> string list \<Rightarrow> kv \<Rightarrow> int \<times> kv" where
  "delKeys t [] s = (0, s)"
| "delKeys t (k # ks) s = (case live t k s of (v, s1) \<Rightarrow>
     (case delKeys t ks (kv_delete k s1) of (n, s2) \<Rightarrow> ((if v \<noteq> None then 1 else 0) + n, s2)))"

definition runDel :: "int \<Rightarrow> string list \<Rightarrow> kv \<Rightarrow> reply \<times> kv" where
  "runDel t args s = (case delKeys t args s of (n, s') \<Rightarrow> (Result (RInt n), s'))"

fun countLive :: "int \<Rightarrow> string list \<Rightarrow> kv \<Rightarrow> int \<times> kv" where
  "countLive t [] s = (0, s)"
| "countLive t (k # ks) s = (case live t k s of (v, s1) \<Rightarrow>
     (case countLive t ks s1 of (n, s2) \<Rightarrow> ((if v \<noteq> None then 1 else 0) + n, s2)))"

definition runExists :: "int \<Rightarrow> string list \<Rightarrow> kv \<Rightarrow> reply \<times> kv" where
  "runExists t args s = (case countLive t args s of (n, s') \<Rightarrow> (Result (RInt n), s'))"

subsection \<open>The counters and the expiries\<close>

text \<open>INCR, DECR, INCRBY and DECRBY by \<open>delta\<close>; a value that is no number throws.\<close>

definition runIncr :: "int \<Rightarrow> string \<Rightarrow> int \<Rightarrow> kv \<Rightarrow> reply \<times> kv" where
  "runIncr t k delta s = (let
       s0 = (if 0 < delta
             then s\<lparr>gross := AList.update k ((case map_of (gross s) k of None \<Rightarrow> 0 | Some g \<Rightarrow> g) + delta) (gross s)\<rparr>
             else s)
     in case getString t k s0 of (current, s1) \<Rightarrow>
       (case (case current of None \<Rightarrow> Some 0 | Some v \<Rightarrow> parse_bigint v) of
          None \<Rightarrow> (Err ''ERR Cannot convert to a BigInt'', s1)
        | Some n \<Rightarrow> (Result (RInt (n + delta)), setString k (show_int (n + delta)) s1)))"

definition runIncrBy :: "int \<Rightarrow> int \<Rightarrow> string \<Rightarrow> string list \<Rightarrow> kv \<Rightarrow> reply \<times> kv" where
  "runIncrBy sign t k args s = (case (if 1 < length args then parse_bigint (args ! 1) else None) of
       None \<Rightarrow> (Err ''ERR Cannot convert to a BigInt'', s)
     | Some d \<Rightarrow> runIncr t k (sign * d) s)"

definition runExpire :: "int \<Rightarrow> int \<Rightarrow> string \<Rightarrow> string list \<Rightarrow> kv \<Rightarrow> reply \<times> kv" where
  "runExpire unit t k args s = (case live t k s of
       (None, s1) \<Rightarrow> (Result (RInt 0), s1)
     | (Some _, s1) \<Rightarrow> (Result (RInt 1),
         s1\<lparr>expires := AList.update k (map_option (\<lambda>n. t + n * unit) (js_Number args 1)) (expires s1)\<rparr>))"

definition runTtl :: "int \<Rightarrow> string \<Rightarrow> kv \<Rightarrow> reply \<times> kv" where
  "runTtl t k s = (case live t k s of
       (None, s1) \<Rightarrow> (Result (RInt (- 2)), s1)
     | (Some _, s1) \<Rightarrow> (Result (case map_of (expires s) k of
           None \<Rightarrow> RInt (- 1)
         | Some None \<Rightarrow> RNull
         | Some (Some until) \<Rightarrow> RInt (max 0 ((until - t + 500) div 1000))), s1))"

subsection \<open>SCAN, the sets and the lists\<close>

fun liveKeys :: "int \<Rightarrow> string list \<Rightarrow> kv \<Rightarrow> string list \<times> kv" where
  "liveKeys t [] s = ([], s)"
| "liveKeys t (k # ks) s = (case live t k s of (v, s1) \<Rightarrow>
     (case liveKeys t ks s1 of (r, s2) \<Rightarrow> (if v \<noteq> None then k # r else r, s2)))"

fun argAfter :: "string \<Rightarrow> string list \<Rightarrow> string option" where
  "argAfter m [] = None"
| "argAfter m (a # as) = (if toUpperCase a = m
     then Some (case as of [] \<Rightarrow> ''undefined'' | b # _ \<Rightarrow> b) else argAfter m as)"

definition runScan :: "int \<Rightarrow> string list \<Rightarrow> kv \<Rightarrow> reply \<times> kv" where
  "runScan t args s = (case liveKeys t (map fst (entries s)) s of (ks, s') \<Rightarrow>
     (Result (RList [RStr ''0'', RList (map RStr
        (case argAfter ''MATCH'' args of None \<Rightarrow> ks | Some g \<Rightarrow> filter (globMatch g) ks))]), s'))"

fun addMembers :: "string list \<Rightarrow> string list \<Rightarrow> int \<times> string list" where
  "addMembers [] m = (0, m)"
| "addMembers (x # xs) m = (if x \<in> set m then addMembers xs m
     else (case addMembers xs (m @ [x]) of (n, m') \<Rightarrow> (1 + n, m')))"

fun removeMembers :: "string list \<Rightarrow> string list \<Rightarrow> int \<times> string list" where
  "removeMembers [] m = (0, m)"
| "removeMembers (x # xs) m = (if x \<in> set m
     then (case removeMembers xs (removeAll x m) of (n, m') \<Rightarrow> (1 + n, m'))
     else removeMembers xs m)"

definition runSAdd :: "int \<Rightarrow> string \<Rightarrow> string list \<Rightarrow> kv \<Rightarrow> reply \<times> kv" where
  "runSAdd t k args s = (case getSet t k s of (m, s1) \<Rightarrow>
     (case addMembers (drop 1 args) m of (n, m') \<Rightarrow> (Result (RInt n), setVal k (VSet m') s1)))"

definition runSRem :: "int \<Rightarrow> string \<Rightarrow> string list \<Rightarrow> kv \<Rightarrow> reply \<times> kv" where
  "runSRem t k args s = (case getSet t k s of (m, s1) \<Rightarrow>
     (case removeMembers (drop 1 args) m of (n, m') \<Rightarrow> (Result (RInt n), setVal k (VSet m') s1)))"

fun getSets :: "int \<Rightarrow> string list \<Rightarrow> kv \<Rightarrow> string list list \<times> kv" where
  "getSets t [] s = ([], s)"
| "getSets t (k # ks) s = (case getSet t k s of (m, s1) \<Rightarrow>
     (case getSets t ks s1 of (r, s2) \<Rightarrow> (m # r, s2)))"

definition runSInter :: "int \<Rightarrow> string list \<Rightarrow> kv \<Rightarrow> reply \<times> kv" where
  "runSInter t args s = (case getSets t args s of (ms, s') \<Rightarrow>
     (Result (RList (case ms of [] \<Rightarrow> []
        | m # rest \<Rightarrow> map RStr (filter (\<lambda>x. \<forall>r\<in>set rest. x \<in> set r) m))), s'))"

text \<open>\<open>Array.prototype.slice\<close>, negative positions counting from the end.\<close>

definition js_index :: "nat \<Rightarrow> int \<Rightarrow> nat" where
  "js_index len i = (if i < 0 then nat (int len + i) else min (nat i) len)"

definition js_slice :: "int \<Rightarrow> int \<Rightarrow> 'a list \<Rightarrow> 'a list" where
  "js_slice start stop xs =
     take (js_index (length xs) stop - js_index (length xs) start) (drop (js_index (length xs) start) xs)"

definition listRange :: "string list \<Rightarrow> string list \<Rightarrow> string list" where
  "listRange args l = (let
       start = (case js_Number args 1 of None \<Rightarrow> 0 | Some n \<Rightarrow> n);
       end = (case js_Number args 2 of None \<Rightarrow> 0
              | Some stop \<Rightarrow> if stop < 0 then int (length l) + stop + 1 else stop + 1)
     in js_slice start end l)"

definition runLPush :: "int \<Rightarrow> string \<Rightarrow> string list \<Rightarrow> kv \<Rightarrow> reply \<times> kv" where
  "runLPush t k args s = (case getList t k s of (l, s1) \<Rightarrow> (let l' = rev (drop 1 args) @ l in
     (Result (RInt (int (length l'))), setVal k (VList l') s1)))"

definition runRPush :: "int \<Rightarrow> string \<Rightarrow> string list \<Rightarrow> kv \<Rightarrow> reply \<times> kv" where
  "runRPush t k args s = (case getList t k s of (l, s1) \<Rightarrow> (let l' = l @ drop 1 args in
     (Result (RInt (int (length l'))), setVal k (VList l') s1)))"

definition runLTrim :: "int \<Rightarrow> string \<Rightarrow> string list \<Rightarrow> kv \<Rightarrow> reply \<times> kv" where
  "runLTrim t k args s = (case getList t k s of (l, s1) \<Rightarrow>
     (Result (RStr ''OK''), setVal k (VList (listRange args l)) s1))"

definition runLRange :: "int \<Rightarrow> string \<Rightarrow> string list \<Rightarrow> kv \<Rightarrow> reply \<times> kv" where
  "runLRange t k args s = (case getList t k s of (l, s1) \<Rightarrow>
     (Result (RList (map RStr (listRange args l))), s1))"

definition runLPop :: "int \<Rightarrow> string \<Rightarrow> kv \<Rightarrow> reply \<times> kv" where
  "runLPop t k s = (case getList t k s of (l, s1) \<Rightarrow> (case l of
       [] \<Rightarrow> (Result RNull, s1)
     | x # xs \<Rightarrow> (Result (RStr x), setVal k (VList xs) s1)))"

definition runRPop :: "int \<Rightarrow> string \<Rightarrow> kv \<Rightarrow> reply \<times> kv" where
  "runRPop t k s = (case getList t k s of (l, s1) \<Rightarrow> (case rev l of
       [] \<Rightarrow> (Result RNull, s1)
     | x # xs \<Rightarrow> (Result (RStr x), setVal k (VList (rev xs)) s1)))"

fun mget :: "int \<Rightarrow> string list \<Rightarrow> kv \<Rightarrow> rval list \<times> kv" where
  "mget t [] s = ([], s)"
| "mget t (k # ks) s = (case getString t k s of (v, s1) \<Rightarrow>
     (case mget t ks s1 of (r, s2) \<Rightarrow> (str_reply v # r, s2)))"

end
