(* ===== verification/KvEval.thy ===== *)
theory KvEval
  imports KvStore
begin

text \<open>
  The rest of fake-kv.ts: the interpreter of the one script family the service sends to EVAL
  (\<open>evalFenced\<close>: parsed before any of it runs), the channel pool's lease script, the command
  dispatch \<open>runOne\<close>, and the HTTP layer's \<open>/pipeline\<close> and single-command paths.
\<close>

subsection \<open>The fenced script family\<close>

definition strip_prefix :: "string \<Rightarrow> string \<Rightarrow> string option" where
  "strip_prefix p s = (if starts_with p s then Some (drop (length p) s) else None)"

text \<open>\<open>\s+\<close> and \<open>\s*\<close>; every literal that follows starts with no white space.\<close>

definition ws1 :: "string \<Rightarrow> string option" where
  "ws1 s = (case s of c # _ \<Rightarrow> if is_space c then Some (dropWhile is_space s) else None | [] \<Rightarrow> None)"

definition ws0 :: "string \<Rightarrow> string" where
  "ws0 s = dropWhile is_space s"

definition quote :: "string \<Rightarrow> string option" where
  "quote s = (case s of c # cs \<Rightarrow> if c = CHR 0x27 \<or> c = CHR 0x22 then Some cs else None | [] \<Rightarrow> None)"

text \<open>The regular expression \<open>FENCED\<close> up to its \<open>then\<close>: what follows it.\<close>

definition fencedHead :: "string \<Rightarrow> string option" where
  "fencedHead s =
     Option.bind (strip_prefix ''if'' s) (\<lambda>s. Option.bind (ws1 s) (\<lambda>s.
     Option.bind (strip_prefix ''redis.call('' s) (\<lambda>s. Option.bind (quote (ws0 s)) (\<lambda>s.
     Option.bind (if starts_with ''get'' s \<or> starts_with ''GET'' s then Some (drop 3 s) else None) (\<lambda>s.
     Option.bind (quote s) (\<lambda>s. Option.bind (strip_prefix '','' (ws0 s)) (\<lambda>s.
     Option.bind (strip_prefix ''KEYS[1]'' (ws0 s)) (\<lambda>s. Option.bind (strip_prefix '')'' (ws0 s)) (\<lambda>s.
     Option.bind (strip_prefix ''=='' (ws0 s)) (\<lambda>s. Option.bind (strip_prefix ''ARGV[1]'' (ws0 s)) (\<lambda>s.
     Option.bind (ws1 s) (\<lambda>s. strip_prefix ''then'' s))))))))))))"

text \<open>\<open>\s+else\s+return\s+0\s+end$\<close>\<close>

definition fencedTail :: "string \<Rightarrow> bool" where
  "fencedTail s \<longleftrightarrow>
     Option.bind (ws1 s) (\<lambda>s. Option.bind (strip_prefix ''else'' s) (\<lambda>s. Option.bind (ws1 s) (\<lambda>s.
     Option.bind (strip_prefix ''return'' s) (\<lambda>s. Option.bind (ws1 s) (\<lambda>s.
     Option.bind (strip_prefix ''0'' s) (\<lambda>s. Option.bind (ws1 s) (\<lambda>s. strip_prefix ''end'' s))))))) = Some []"

text \<open>The shortest non-empty body before the tail; the white space after \<open>then\<close> is given back
  to the body only where the match needs it.\<close>

fun bodyFrom :: "string \<Rightarrow> string \<Rightarrow> string option" where
  "bodyFrom acc [] = None"
| "bodyFrom acc (c # cs) = (if fencedTail cs then Some (rev (c # acc)) else bodyFrom (c # acc) cs)"

fun bodyAfterThen :: "nat \<Rightarrow> string \<Rightarrow> string option" where
  "bodyAfterThen 0 s = None"
| "bodyAfterThen (Suc n) s =
     (case bodyFrom [] (drop (Suc n) s) of Some b \<Rightarrow> Some b | None \<Rightarrow> bodyAfterThen n s)"

definition fencedBody :: "string \<Rightarrow> string option" where
  "fencedBody script = Option.bind (fencedHead (trim script))
     (\<lambda>r. bodyAfterThen (length (takeWhile is_space r)) r)"

text \<open>Statements end at a semicolon or a line break.\<close>

definition statements :: "string \<Rightarrow> string list" where
  "statements b = filter (\<lambda>s. s \<noteq> [])
     (map trim (split_on (CHR '';'') (map (\<lambda>c. if c = CHR 0x0A then CHR '';'' else c) b)))"

datatype operand = OKey nat | OArg nat | OLit

definition spanDigits :: "string \<Rightarrow> (string \<times> string) option" where
  "spanDigits s = (case takeWhile is_digit s of [] \<Rightarrow> None | ds \<Rightarrow> Some (ds, dropWhile is_digit s))"

text \<open>One operand: what it refers to, its text, and the rest.\<close>

definition parseRef :: "string \<Rightarrow> (nat \<Rightarrow> operand) \<Rightarrow> string \<Rightarrow> (operand \<times> string \<times> string) option" where
  "parseRef name f s = Option.bind (strip_prefix name s) (\<lambda>s1. Option.bind (spanDigits s1) (\<lambda>(ds, s2).
     map_option (\<lambda>s3. (f (nat_of_digits ds), name @ ds @ '']'', s3)) (strip_prefix '']'' s2)))"

definition parseLit :: "string \<Rightarrow> (operand \<times> string \<times> string) option" where
  "parseLit s = (case strip_prefix ''-'' s of
       Some s1 \<Rightarrow> map_option (\<lambda>(ds, s2). (OLit, CHR ''-'' # ds, s2)) (spanDigits s1)
     | None \<Rightarrow> map_option (\<lambda>(ds, s2). (OLit, ds, s2)) (spanDigits s))"

definition parseOperand :: "string \<Rightarrow> (operand \<times> string \<times> string) option" where
  "parseOperand s = (case parseRef ''KEYS['' OKey s of Some x \<Rightarrow> Some x | None \<Rightarrow>
     (case parseRef ''ARGV['' OArg s of Some x \<Rightarrow> Some x | None \<Rightarrow> parseLit s))"

text \<open>Every operand takes its comma, so the length of the text is enough fuel.\<close>

fun parseOperands :: "nat \<Rightarrow> string \<Rightarrow> ((operand \<times> string) list \<times> string) option" where
  "parseOperands 0 s = Some ([], s)"
| "parseOperands (Suc n) s = (case strip_prefix '','' s of
       None \<Rightarrow> Some ([], s)
     | Some s1 \<Rightarrow> (case parseOperand (ws0 s1) of
           None \<Rightarrow> None
         | Some (x, txt, s2) \<Rightarrow>
             map_option (\<lambda>(xs, r). ((x, txt) # xs, r)) (parseOperands n (ws0 s2))))"

definition is_letter :: "char \<Rightarrow> bool" where
  "is_letter c \<longleftrightarrow> 65 \<le> code c \<and> code c \<le> 90 \<or> 97 \<le> code c \<and> code c \<le> 122"

text \<open>The regular expression \<open>CALL\<close>: the command and its operands.\<close>

definition parseCall :: "string \<Rightarrow> (string \<times> (operand \<times> string) list) option" where
  "parseCall s = Option.bind (strip_prefix ''redis.call('' s) (\<lambda>s. Option.bind (quote (ws0 s)) (\<lambda>s.
     let cmd = takeWhile is_letter s in
     if cmd = [] then None else
     Option.bind (quote (dropWhile is_letter s)) (\<lambda>s.
     Option.bind (parseOperands (length s) (ws0 s)) (\<lambda>(xs, r).
       if r = '')'' then Some (cmd, xs) else None))))"

definition SCRIPT_COMMANDS :: "string list" where
  "SCRIPT_COMMANDS = [''DEL'', ''INCRBY'', ''DECRBY'', ''INCR'', ''DECR'', ''EXPIRE'', ''PEXPIRE'']"

text \<open>A statement before its operands are looked up.\<close>

datatype stmt = RetInt int | Call bool string "(operand \<times> string) list"

definition parseStmt :: "string \<Rightarrow> stmt option" where
  "parseStmt raw = (let isReturn = starts_with ''return '' raw;
       body = (if isReturn then trim (drop 7 raw) else raw)
     in case (if isReturn then parseLit body else None) of
          Some (OLit, txt, []) \<Rightarrow> map_option RetInt (parse_bigint txt)
        | _ \<Rightarrow> (case parseCall body of
             Some (cmd, xs) \<Rightarrow> if toUpperCase cmd \<in> set SCRIPT_COMMANDS
                 then Some (Call isReturn (toUpperCase cmd) xs) else None
           | None \<Rightarrow> None))"

datatype step = SValue int | SRun "string list" bool

definition lookupOperand :: "string list \<Rightarrow> string list \<Rightarrow> operand \<times> string \<Rightarrow> string option" where
  "lookupOperand keys argv x = (case x of
       (OKey n, _) \<Rightarrow> if 1 \<le> n \<and> n \<le> length keys then Some (keys ! (n - 1)) else None
     | (OArg n, _) \<Rightarrow> if 1 \<le> n \<and> n \<le> length argv then Some (argv ! (n - 1)) else None
     | (OLit, txt) \<Rightarrow> Some txt)"

fun lookupOperands :: "string list \<Rightarrow> string list \<Rightarrow> (operand \<times> string) list \<Rightarrow> string + string list" where
  "lookupOperands keys argv [] = Inr []"
| "lookupOperands keys argv (x # xs) = (case lookupOperand keys argv x of
       None \<Rightarrow> Inl (''ERR '' @ snd x @ '' is not set ('' @ show_nat (length keys) @ '' keys, ''
                    @ show_nat (length argv) @ '' args)'')
     | Some v \<Rightarrow> (case lookupOperands keys argv xs of Inl e \<Rightarrow> Inl e | Inr vs \<Rightarrow> Inr (v # vs)))"

text \<open>The statements in order; nothing may follow a return.\<close>

fun buildSteps :: "string \<Rightarrow> string list \<Rightarrow> string list \<Rightarrow> string list \<Rightarrow> string + step list" where
  "buildSteps unsupported keys argv [] = Inr []"
| "buildSteps unsupported keys argv (raw # raws) =
     (if starts_with ''return '' raw \<and> raws \<noteq> [] then Inl unsupported
      else case parseStmt raw of
          None \<Rightarrow> Inl unsupported
        | Some (RetInt n) \<Rightarrow>
            (case buildSteps unsupported keys argv raws of Inl e \<Rightarrow> Inl e | Inr ss \<Rightarrow> Inr (SValue n # ss))
        | Some (Call ret cmd xs) \<Rightarrow>
            (case lookupOperands keys argv xs of
               Inl e \<Rightarrow> Inl e
             | Inr vs \<Rightarrow> (case buildSteps unsupported keys argv raws of
                   Inl e \<Rightarrow> Inl e | Inr ss \<Rightarrow> Inr (SRun (cmd # vs) ret # ss))))"

subsection \<open>The commands\<close>

text \<open>Every command except EVAL; \<open>key\<close> is the first argument.\<close>

definition runBasic :: "int \<Rightarrow> string list \<Rightarrow> kv \<Rightarrow> reply \<times> kv" where
  "runBasic t cmd s = (let op0 = toUpperCase (case cmd of [] \<Rightarrow> [] | c # _ \<Rightarrow> c); args = drop 1 cmd; key = arg args 0 in
     if op0 = ''GET'' then runGet t key s
     else if op0 = ''GETDEL'' then runGetDel t key s
     else if op0 = ''SET'' then runSet t key args s
     else if op0 = ''DEL'' then runDel t args s
     else if op0 = ''EXISTS'' then runExists t args s
     else if op0 = ''INCR'' then runIncr t key 1 s
     else if op0 = ''DECR'' then runIncr t key (- 1) s
     else if op0 = ''INCRBY'' then runIncrBy 1 t key args s
     else if op0 = ''DECRBY'' then runIncrBy (- 1) t key args s
     else if op0 = ''EXPIRE'' then runExpire 1000 t key args s
     else if op0 = ''PEXPIRE'' then runExpire 1 t key args s
     else if op0 = ''TTL'' then runTtl t key s
     else if op0 = ''SCAN'' then runScan t args s
     else if op0 = ''SADD'' then runSAdd t key args s
     else if op0 = ''SREM'' then runSRem t key args s
     else if op0 = ''SMEMBERS'' then (case getSet t key s of (m, s1) \<Rightarrow> (Result (RList (map RStr m)), s1))
     else if op0 = ''SCARD'' then (case getSet t key s of (m, s1) \<Rightarrow> (Result (RInt (int (length m))), s1))
     else if op0 = ''SISMEMBER'' then (case getSet t key s of (m, s1) \<Rightarrow>
        (Result (RInt (if arg args 1 \<in> set m then 1 else 0)), s1))
     else if op0 = ''SINTER'' then runSInter t args s
     else if op0 = ''LPUSH'' then runLPush t key args s
     else if op0 = ''RPUSH'' then runRPush t key args s
     else if op0 = ''LTRIM'' then runLTrim t key args s
     else if op0 = ''LPOP'' then runLPop t key s
     else if op0 = ''RPOP'' then runRPop t key s
     else if op0 = ''LLEN'' then (case getList t key s of (l, s1) \<Rightarrow> (Result (RInt (int (length l))), s1))
     else if op0 = ''LRANGE'' then runLRange t key args s
     else if op0 = ''MGET'' then (case mget t args s of (vs, s1) \<Rightarrow> (Result (RList vs), s1))
     else (Err (''UNSUPPORTED '' @ op0), s))"

fun runSteps :: "int \<Rightarrow> step list \<Rightarrow> kv \<Rightarrow> reply \<times> kv" where
  "runSteps t [] s = (Result RNull, s)"
| "runSteps t (SValue n # ss) s = (Result (RInt n), s)"
| "runSteps t (SRun cmd ret # ss) s = (case runBasic t cmd s of
       (Err e, s1) \<Rightarrow> (Err e, s1)
     | (Result r, s1) \<Rightarrow> if ret then (Result r, s1) else runSteps t ss s1)"

definition evalFenced :: "int \<Rightarrow> string \<Rightarrow> string list \<Rightarrow> string list \<Rightarrow> kv \<Rightarrow> reply \<times> kv" where
  "evalFenced t script keys argv s = (let unsupported = ''UNSUPPORTED EVAL '' @ take 60 script in
     case fencedBody script of
       None \<Rightarrow> (Err unsupported, s)
     | Some b \<Rightarrow> (case buildSteps unsupported keys argv (statements b) of
           Inl e \<Rightarrow> (Err e, s)
         | Inr steps \<Rightarrow>
             (case (keys, argv) of
                (k # _, a # _) \<Rightarrow> (case getString t k s of (v, s1) \<Rightarrow>
                    if v \<noteq> Some a then (Result (RInt 0), s1) else runSteps t steps s1)
              | _ \<Rightarrow> (Err ''ERR the fence needs KEYS[1] and ARGV[1]'', s))))"

text \<open>lib/channels.ts: SET NX EX on each key in order; the 1-based index of the first that took.\<close>

definition ACQUIRE_ANY_SCRIPT :: string where
  "ACQUIRE_ANY_SCRIPT = ''for i = 1, #KEYS do if redis.call('set', KEYS[i], ARGV[1], 'NX', 'EX', ARGV[2]) then return i end end return 0''"

fun leaseFirst :: "int \<Rightarrow> int \<Rightarrow> string list \<Rightarrow> string \<Rightarrow> string \<Rightarrow> kv \<Rightarrow> reply \<times> kv" where
  "leaseFirst t i [] tok ttl s = (Result (RInt 0), s)"
| "leaseFirst t i (k # ks) tok ttl s = (case runBasic t [''SET'', k, tok, ''NX'', ''EX'', ttl] s of
       (Err e, s1) \<Rightarrow> (Err e, s1)
     | (Result r, s1) \<Rightarrow> if r = RStr ''OK'' then (Result (RInt (i + 1)), s1)
         else leaseFirst t (i + 1) ks tok ttl s1)"

definition runEval :: "int \<Rightarrow> string list \<Rightarrow> kv \<Rightarrow> reply \<times> kv" where
  "runEval t args s = (case js_Number args 1 of
       None \<Rightarrow> (Err ''ERR Number of keys can't be greater than number of args'', s)
     | Some numkeys \<Rightarrow>
         if numkeys < 0 \<or> int (length args) - 2 < numkeys
         then (Err ''ERR Number of keys can't be greater than number of args'', s)
         else (let n = nat numkeys; keys = take n (drop 2 args); argv = drop (2 + n) args in
           if arg args 0 = ACQUIRE_ANY_SCRIPT then
             (case argv of
                tok # ttl # _ \<Rightarrow> leaseFirst t 0 keys tok ttl s
              | _ \<Rightarrow> (Err ''ERR the lease script needs ARGV[1] and ARGV[2]'', s))
           else evalFenced t (arg args 0) keys argv s))"

definition runOne :: "int \<Rightarrow> string list \<Rightarrow> kv \<Rightarrow> reply \<times> kv" where
  "runOne t cmd s = (if toUpperCase (case cmd of [] \<Rightarrow> [] | c # _ \<Rightarrow> c) = ''EVAL''
     then runEval t (drop 1 cmd) s else runBasic t cmd s)"

subsection \<open>The HTTP layer\<close>

text \<open>\<open>POST /pipeline\<close>: the commands in order, one reply each.\<close>

fun kvPipeline :: "int \<Rightarrow> string list list \<Rightarrow> kv \<Rightarrow> reply list \<times> kv" where
  "kvPipeline t [] s = ([], s)"
| "kvPipeline t (c # cs) s = (case runOne t c s of (r, s1) \<Rightarrow>
     (case kvPipeline t cs s1 of (rs, s2) \<Rightarrow> (r # rs, s2)))"

text \<open>\<open>/<cmd>/<key>[/<arg>...]\<close>, a POST body as the last argument and the query flags after it.\<close>

definition kvPath :: "int \<Rightarrow> string list \<Rightarrow> string \<Rightarrow> (string \<times> string) list \<Rightarrow> kv \<Rightarrow> reply \<times> kv" where
  "kvPath t segs body query s =
     runOne t (segs @ (if body \<noteq> [] then [body] else []) @ concat (map (\<lambda>(k, v). [k, v]) query)) s"

definition kvReset :: "kv \<Rightarrow> reply \<times> kv" where
  "kvReset s = (Result (RStr ''OK''), empty_kv)"

definition kvGross :: "string \<Rightarrow> kv \<Rightarrow> reply" where
  "kvGross k s = Result (RStr (show_int (case map_of (gross s) k of None \<Rightarrow> 0 | Some g \<Rightarrow> g)))"

end
