(* ===== verification/KvRefine.thy ===== *)
theory KvRefine
  imports KvEval
begin

text \<open>
  What the store promises, and that fake-kv.ts keeps the promise.  The abstraction of a store
  at an instant is a map from keys to cells (a value and an optional expiry); time passing only
  drops cells whose expiry has come.  \<open>kv_wf\<close> is the invariant every command keeps: no key
  has an expiry without a value, and both maps have distinct keys.
\<close>

type_synonym cell = "kval \<times> int option"

definition until :: "kv \<Rightarrow> string \<Rightarrow> int option" where
  "until s k = (case map_of (expires s) k of Some (Some u) \<Rightarrow> Some u | _ \<Rightarrow> None)"

definition cell :: "int \<Rightarrow> kv \<Rightarrow> string \<Rightarrow> cell option" where
  "cell t s k = (if expired t s k then None else map_option (\<lambda>v. (v, until s k)) (map_of (entries s) k))"

definition lapse :: "int \<Rightarrow> cell option \<Rightarrow> cell option" where
  "lapse t c = (case c of Some (v, Some u) \<Rightarrow> if u \<le> t then None else c | _ \<Rightarrow> c)"

definition cell_str :: "cell option \<Rightarrow> string option" where
  "cell_str c = (case c of Some (VStr v, _) \<Rightarrow> Some v | _ \<Rightarrow> None)"

definition kv_wf :: "kv \<Rightarrow> bool" where
  "kv_wf s \<longleftrightarrow> distinct (map fst (entries s)) \<and> distinct (map fst (expires s)) \<and>
     dom (map_of (expires s)) \<subseteq> dom (map_of (entries s))"

lemma cell_str_simps [simp]:
  "cell_str None = None"
  "cell_str (Some (VStr v, e)) = Some v"
  by (simp_all add: cell_str_def)

lemma lapse_simps [simp]:
  "lapse t None = None"
  "lapse t (Some (v, None)) = Some (v, None)"
  "lapse t (Some (v, Some u)) = (if u \<le> t then None else Some (v, Some u))"
  by (simp_all add: lapse_def)

lemma kv_wf_empty [simp]: "kv_wf empty_kv"
  by (simp add: kv_wf_def empty_kv_def)

lemma cell_empty [simp]: "cell t empty_kv = (\<lambda>_. None)"
  by (auto simp: cell_def empty_kv_def expired_def)

lemma wf_expires_entries:
  "kv_wf s \<Longrightarrow> map_of (entries s) k = None \<Longrightarrow> map_of (expires s) k = None"
  by (auto simp: kv_wf_def)

lemma expired_mono: "t \<le> t' \<Longrightarrow> expired t s k \<Longrightarrow> expired t' s k"
  by (auto simp: expired_def split: option.splits)

lemma cell_lapse: "t \<le> t' \<Longrightarrow> cell t' s k = lapse t' (cell t s k)"
  by (auto simp: cell_def lapse_def expired_def until_def split: option.splits)

lemma cell_gross [simp]: "cell t (s\<lparr>gross := g\<rparr>) = cell t s"
  by (auto simp: cell_def expired_def until_def)

lemma wf_gross [simp]: "kv_wf (s\<lparr>gross := g\<rparr>) = kv_wf s"
  by (simp add: kv_wf_def)

subsection \<open>Reading a key\<close>

definition touch :: "int \<Rightarrow> string \<Rightarrow> kv \<Rightarrow> kv" where
  "touch t k s = snd (live t k s)"

lemma cell_kv_delete: "cell t (kv_delete k s) = (cell t s)(k := None)"
  by (auto simp: cell_def kv_delete_def expired_def until_def fun_eq_iff)

lemma wf_kv_delete [simp]: "kv_wf s \<Longrightarrow> kv_wf (kv_delete k s)"
  by (auto simp: kv_wf_def kv_delete_def)

lemma live_eq: "live t k s = (map_option fst (cell t s k), touch t k s)"
  by (auto simp: live_def cell_def touch_def option.map_comp o_def option.map_ident)

lemma wf_touch [simp]: "kv_wf s \<Longrightarrow> kv_wf (touch t k s)"
  by (simp add: touch_def live_def)

lemma cell_touch: "t \<le> t' \<Longrightarrow> cell t' (touch t k s) = cell t' s"
proof
  fix j assume "t \<le> t'"
  then show "cell t' (touch t k s) j = cell t' s j"
    using expired_mono [of t t' s k] by (cases "expired t s k") (auto simp: touch_def live_def cell_kv_delete, simp add: cell_def)
qed

lemma cell_touch_same [simp]: "cell t (touch t k s) = cell t s"
  by (rule cell_touch) simp

lemma getString_eq: "getString t k s = (cell_str (cell t s k), touch t k s)"
  by (auto simp: getString_def live_eq cell_str_def split: option.splits kval.splits)

text \<open>A key that was touched and has no live value has no stale record either.\<close>

lemma touched_none:
  assumes "kv_wf s" and "cell t s k = None"
  shows "map_of (entries (touch t k s)) k = None" and "map_of (expires (touch t k s)) k = None"
  using assms wf_expires_entries [OF assms(1), of k]
  by (auto simp: touch_def live_def kv_delete_def cell_def split: if_splits)

lemma touched_some:
  assumes "cell t s k = Some (v, e)"
  shows "touch t k s = s" and "map_of (entries s) k = Some v" and "until s k = e" and "\<not> expired t s k"
  using assms by (auto simp: touch_def live_def cell_def split: if_splits)

subsection \<open>Writing a key\<close>

lemma wf_setVal [simp]: "kv_wf s \<Longrightarrow> kv_wf (setVal k v s)"
  by (auto simp: kv_wf_def setVal_def)

lemma wf_setString [simp]: "kv_wf s \<Longrightarrow> kv_wf (setString k v s)"
  by (simp add: setString_def)

lemma cell_setVal_touch:
  assumes "kv_wf s"
  shows "cell t (setVal k v (touch t k s)) =
    (cell t s)(k \<mapsto> (v, case cell t s k of None \<Rightarrow> None | Some (_, e) \<Rightarrow> e))"
proof
  fix j
  show "cell t (setVal k v (touch t k s)) j =
    ((cell t s)(k \<mapsto> (v, case cell t s k of None \<Rightarrow> None | Some (_, e) \<Rightarrow> e))) j"
  proof (cases "j = k")
    case True
    show ?thesis
    proof (cases "cell t s k")
      case None
      then have "map_of (expires (touch t k s)) k = None" using touched_none [OF assms] by simp
      then show ?thesis using True None by (simp add: cell_def setVal_def expired_def until_def)
    next
      case (Some c)
      obtain w e where c: "c = (w, e)" by (cases c)
      note t = touched_some [OF Some [unfolded c]]
      then show ?thesis using True Some c by (simp add: cell_def setVal_def expired_def until_def)
    qed
  next
    case False
    then have "cell t (setVal k v s') j = cell t s' j" for s'
      by (simp add: cell_def setVal_def expired_def until_def)
    then show ?thesis using False by simp
  qed
qed

definition setUntil :: "string \<Rightarrow> int option option \<Rightarrow> kv \<Rightarrow> kv" where
  "setUntil k e s = s\<lparr>expires := (case e of None \<Rightarrow> AList.delete k (expires s)
     | Some u \<Rightarrow> AList.update k u (expires s))\<rparr>"

lemma wf_setUntil [simp]:
  "kv_wf s \<Longrightarrow> map_of (entries s) k \<noteq> None \<Longrightarrow> kv_wf (setUntil k e s)"
  by (cases e) (auto simp: kv_wf_def setUntil_def)

lemma cell_setUntil:
  "cell t (setUntil k e s) j = (if j = k
     then (case e of Some (Some u) \<Rightarrow> if u \<le> t then None else map_option (\<lambda>v. (v, Some u)) (map_of (entries s) k)
        | _ \<Rightarrow> map_option (\<lambda>v. (v, None)) (map_of (entries s) k))
     else cell t s j)"
  by (auto simp: setUntil_def cell_def expired_def until_def split: option.splits)

end
