(* ===== verification/KvLaws.thy ===== *)
theory KvLaws
  imports KvRefine
begin

text \<open>
  The laws of the store as its clients use them.  First the invariant: every command keeps
  \<open>kv_wf\<close>.  Then the locale \<open>redis\<close>: what the Upstash documentation promises of the commands
  this service sends, over any implementation; then its interpretation on fake-kv.ts, which
  discharges each promise for the repository's own store.
\<close>

subsection \<open>Every command keeps the invariant\<close>

lemma upper_ops [simp]:
  "toUpperCase ''GET'' = ''GET''" "toUpperCase ''GETDEL'' = ''GETDEL''" "toUpperCase ''SET'' = ''SET''"
  "toUpperCase ''DEL'' = ''DEL''" "toUpperCase ''INCR'' = ''INCR''" "toUpperCase ''INCRBY'' = ''INCRBY''"
  "toUpperCase ''EXPIRE'' = ''EXPIRE''" "toUpperCase ''PEXPIRE'' = ''PEXPIRE''" "toUpperCase ''EVAL'' = ''EVAL''"
  "toUpperCase ''NX'' = ''NX''" "toUpperCase ''XX'' = ''XX''" "toUpperCase ''EX'' = ''EX''"
  "toUpperCase ''del'' = ''DEL''" "toUpperCase ''incrby'' = ''INCRBY''" "toUpperCase ''get'' = ''GET''"
  "toUpperCase ''set'' = ''SET''" "toUpperCase ''SADD'' = ''SADD''" "toUpperCase ''SREM'' = ''SREM''"
  by code_simp+

lemma upper_Nil [simp]: "toUpperCase [] = []"
  by (simp add: toUpperCase_def)

lemma wf_getSet: "kv_wf s \<Longrightarrow> kv_wf (snd (getSet t k s))"
  by (auto simp: getSet_def live_eq split: option.splits kval.splits)

lemma wf_getList: "kv_wf s \<Longrightarrow> kv_wf (snd (getList t k s))"
  by (auto simp: getList_def live_eq split: option.splits kval.splits)

lemma wf_delKeys: "kv_wf s \<Longrightarrow> kv_wf (snd (delKeys t ks s))"
  by (induction ks arbitrary: s) (auto simp: live_eq case_prod_unfold)

lemma wf_countLive: "kv_wf s \<Longrightarrow> kv_wf (snd (countLive t ks s))"
  by (induction ks arbitrary: s) (auto simp: live_eq case_prod_unfold)

lemma wf_liveKeys: "kv_wf s \<Longrightarrow> kv_wf (snd (liveKeys t ks s))"
  by (induction ks arbitrary: s) (auto simp: live_eq case_prod_unfold)

lemma wf_getSets: "kv_wf s \<Longrightarrow> kv_wf (snd (getSets t ks s))"
  by (induction ks arbitrary: s) (auto simp: case_prod_unfold wf_getSet)

lemma wf_mget: "kv_wf s \<Longrightarrow> kv_wf (snd (mget t ks s))"
  by (induction ks arbitrary: s) (auto simp: getString_eq case_prod_unfold)

lemma entries_setString: "map_of (entries (setString k v s)) k = Some (VStr v)"
  by (simp add: setString_def setVal_def)

lemma set_expiry_eq:
  "s\<lparr>expires := AList.update k u (expires s)\<rparr> = setUntil k (Some u) s"
  "s\<lparr>expires := AList.delete k (expires s)\<rparr> = setUntil k None s"
  by (simp_all add: setUntil_def)

lemma wf_runSet: "kv_wf s \<Longrightarrow> kv_wf (snd (runSet t k args s))"
  by (auto simp: runSet_def Let_def getString_eq live_eq set_expiry_eq entries_setString
      split: sum.splits option.splits)

lemma wf_runExpire: "kv_wf s \<Longrightarrow> kv_wf (snd (runExpire u t k args s))"
  by (auto simp: runExpire_def live_eq set_expiry_eq touched_some split: option.splits
      intro!: wf_setUntil)

lemma wf_runIncr: "kv_wf s \<Longrightarrow> kv_wf (snd (runIncr t k d s))"
  by (auto simp: runIncr_def Let_def getString_eq split: option.splits)

lemmas wf_readers = wf_getSet wf_getList wf_delKeys wf_countLive wf_liveKeys wf_getSets wf_mget

lemmas wf_list_set_defs = runSAdd_def runSRem_def runSInter_def runLPush_def runRPush_def
  runLTrim_def runLRange_def runLPop_def runRPop_def runScan_def runExists_def runDel_def
  runGet_def runGetDel_def runTtl_def runIncrBy_def

lemma wf_list_set_cmds:
  assumes "kv_wf s"
  shows "kv_wf (snd (runSAdd t k args s))" "kv_wf (snd (runSRem t k args s))"
    "kv_wf (snd (runSInter t args s))" "kv_wf (snd (runLPush t k args s))"
    "kv_wf (snd (runRPush t k args s))" "kv_wf (snd (runLTrim t k args s))"
    "kv_wf (snd (runLRange t k args s))" "kv_wf (snd (runLPop t k s))" "kv_wf (snd (runRPop t k s))"
    "kv_wf (snd (runScan t args s))" "kv_wf (snd (runExists t args s))" "kv_wf (snd (runDel t args s))"
    "kv_wf (snd (runGet t k s))" "kv_wf (snd (runGetDel t k s))" "kv_wf (snd (runTtl t k s))"
    "kv_wf (snd (runIncrBy g t k args s))"
  using wf_readers [OF assms] assms wf_runIncr
  by (auto simp: wf_list_set_defs Let_def getString_eq live_eq case_prod_unfold
      split: list.splits option.splits)

lemma wf_runBasic: "kv_wf s \<Longrightarrow> kv_wf (snd (runBasic t cmd s))"
  using wf_getSet [of s] wf_getList [of s] wf_mget [of s]
  by (auto simp: runBasic_def Let_def wf_list_set_cmds wf_runSet wf_runExpire wf_runIncr
      case_prod_unfold)

lemma wf_runSteps: "kv_wf s \<Longrightarrow> kv_wf (snd (runSteps t ss s))"
proof (induction t ss s rule: runSteps.induct)
  case (3 t cmd ret ss s)
  then show ?case using wf_runBasic [of s t cmd] by (auto split: prod.splits reply.splits)
qed auto

lemma wf_evalFenced: "kv_wf s \<Longrightarrow> kv_wf (snd (evalFenced t script keys argv s))"
  by (auto simp: evalFenced_def Let_def getString_eq wf_runSteps split: option.splits sum.splits list.splits)

lemma wf_leaseFirst: "kv_wf s \<Longrightarrow> kv_wf (snd (leaseFirst t i ks tok ttl s))"
proof (induction t i ks tok ttl s rule: leaseFirst.induct)
  case (2 t i k ks tok ttl s)
  then show ?case
    using wf_runBasic [of s t "[''SET'', k, tok, ''NX'', ''EX'', ttl]"]
    by (auto split: prod.splits reply.splits)
qed auto

lemma wf_runOne: "kv_wf s \<Longrightarrow> kv_wf (snd (runOne t cmd s))"
  by (auto simp: runOne_def runEval_def Let_def wf_runBasic wf_evalFenced wf_leaseFirst
      split: option.splits list.splits)

text \<open>No command of the store, script or pipeline can leave an expiry without a value behind,
  or a key twice in either map.\<close>

theorem kvPipeline_keeps_wf: "kv_wf s \<Longrightarrow> kv_wf (snd (kvPipeline t cmds s))"
  by (induction cmds arbitrary: s) (auto simp: case_prod_unfold wf_runOne)

theorem kvPipeline_keeps_wf_witness:
  "kv_wf (snd (kvPipeline 0 [[''INCRBY'', ''k'', ''3''], [''EXPIRE'', ''k'', ''60''], [''DEL'', ''k'']] empty_kv))"
  by (rule kvPipeline_keeps_wf) simp


subsection \<open>The interface\<close>

text \<open>lib/caps.ts: the fenced release of one onboarding slot.\<close>

definition FENCED_SLOT_RELEASE :: string where
  "FENCED_SLOT_RELEASE = ''if redis.call('get', KEYS[1]) == ARGV[1] then redis.call('del', KEYS[1]); redis.call('incrby', KEYS[2], -1); redis.call('incrby', KEYS[3], -1); return 1 else return 0 end''"

text \<open>lib/channels.ts: compare-and-delete of a lease.\<close>

definition FENCED_DEL :: string where
  "FENCED_DEL = ''if redis.call('get', KEYS[1]) == ARGV[1] then return redis.call('del', KEYS[1]) else return 0 end''"

text \<open>A cell that is missing or a string; its integer value (a missing counter is 0); its expiry.\<close>

definition strish :: "cell option \<Rightarrow> bool" where
  "strish c = (case c of None \<Rightarrow> True | Some (VStr _, _) \<Rightarrow> True | _ \<Rightarrow> False)"

definition cell_int :: "cell option \<Rightarrow> int option" where
  "cell_int c = (case c of None \<Rightarrow> Some 0 | Some (VStr v, _) \<Rightarrow> parse_bigint v | _ \<Rightarrow> None)"

definition cell_exp :: "cell option \<Rightarrow> int option" where
  "cell_exp c = (case c of None \<Rightarrow> None | Some (_, e) \<Rightarrow> e)"

definition int_cell :: "int \<Rightarrow> int option \<Rightarrow> cell" where
  "int_cell n e = (VStr (show_int n), e)"

lemma cell_view_simps [simp]:
  "strish None" "strish (Some (VStr v, e))" "strish (Some (int_cell n e))"
  "cell_int None = Some 0" "cell_int (Some (VStr v, e)) = parse_bigint v"
  "cell_int (Some (int_cell n e)) = Some n"
  "cell_exp None = None" "cell_exp (Some (x, e)) = e" "cell_exp (Some (int_cell n e)) = e"
  "cell_str (Some (int_cell n e)) = Some (show_int n)"
  by (simp_all add: strish_def cell_int_def cell_exp_def int_cell_def)

lemma cell_int_strish: "cell_int c = Some n \<Longrightarrow> strish c"
  by (auto simp: cell_int_def strish_def split: option.splits prod.splits kval.splits)

text \<open>
  The promises of the Upstash REST API this service relies on (lib/caps.ts, "STORE FACTS"): each
  command is atomic; INCRBY answers the value after the increment and keeps the expiry; EXPIRE
  sets the expiry of an existing key; SET NX answers OK when it set the key and null when the key
  existed, SET XX the other way round; DEL answers how many keys it removed; a missing key GETs as
  null; a script runs as one command; time passing only removes expired keys.
\<close>

locale redis =
  fixes srv :: "int \<Rightarrow> string list \<Rightarrow> 'k \<Rightarrow> reply \<times> 'k"
    and view :: "int \<Rightarrow> 'k \<Rightarrow> string \<Rightarrow> cell option"
    and wf :: "'k \<Rightarrow> bool"
  assumes srv_wf: "wf s \<Longrightarrow> wf (snd (srv t cmd s))"
    and view_lapse: "wf s \<Longrightarrow> t \<le> t' \<Longrightarrow> view t' s k = lapse t' (view t s k)"
    and get_reply: "wf s \<Longrightarrow> strish (view t s k) \<Longrightarrow>
      fst (srv t [''GET'', k] s) = Result (str_reply (cell_str (view t s k)))"
    and get_view: "wf s \<Longrightarrow> view t (snd (srv t [''GET'', k] s)) = view t s"
    and getdel_reply: "wf s \<Longrightarrow> strish (view t s k) \<Longrightarrow>
      fst (srv t [''GETDEL'', k] s) = Result (str_reply (cell_str (view t s k)))"
    and getdel_view: "wf s \<Longrightarrow> strish (view t s k) \<Longrightarrow>
      view t (snd (srv t [''GETDEL'', k] s)) = (view t s)(k := None)"
    and del_reply: "wf s \<Longrightarrow>
      fst (srv t [''DEL'', k] s) = Result (RInt (if view t s k = None then 0 else 1))"
    and del_view: "wf s \<Longrightarrow> view t (snd (srv t [''DEL'', k] s)) = (view t s)(k := None)"
    and set_reply: "wf s \<Longrightarrow> fst (srv t [''SET'', k, v] s) = Result (RStr ''OK'')"
    and set_view: "wf s \<Longrightarrow> view t (snd (srv t [''SET'', k, v] s)) = (view t s)(k \<mapsto> (VStr v, None))"
    and setex_reply: "wf s \<Longrightarrow> 0 < n \<Longrightarrow> fst (srv t [''SET'', k, v, ''EX'', show_int n] s) = Result (RStr ''OK'')"
    and setex_view: "wf s \<Longrightarrow> 0 < n \<Longrightarrow>
      view t (snd (srv t [''SET'', k, v, ''EX'', show_int n] s)) = (view t s)(k \<mapsto> (VStr v, Some (t + n * 1000)))"
    and setnx_reply: "wf s \<Longrightarrow> 0 < n \<Longrightarrow> fst (srv t [''SET'', k, v, ''NX'', ''EX'', show_int n] s) =
      Result (if view t s k = None then RStr ''OK'' else RNull)"
    and setnx_view: "wf s \<Longrightarrow> 0 < n \<Longrightarrow> view t (snd (srv t [''SET'', k, v, ''NX'', ''EX'', show_int n] s)) =
      (if view t s k = None then (view t s)(k \<mapsto> (VStr v, Some (t + n * 1000))) else view t s)"
    and setxx_reply: "wf s \<Longrightarrow> 0 < n \<Longrightarrow> fst (srv t [''SET'', k, v, ''XX'', ''EX'', show_int n] s) =
      Result (if view t s k = None then RNull else RStr ''OK'')"
    and setxx_view: "wf s \<Longrightarrow> 0 < n \<Longrightarrow> view t (snd (srv t [''SET'', k, v, ''XX'', ''EX'', show_int n] s)) =
      (if view t s k = None then view t s else (view t s)(k \<mapsto> (VStr v, Some (t + n * 1000))))"
    and incrby_reply: "wf s \<Longrightarrow> cell_int (view t s k) = Some n \<Longrightarrow>
      fst (srv t [''INCRBY'', k, show_int d] s) = Result (RInt (n + d))"
    and incrby_view: "wf s \<Longrightarrow> cell_int (view t s k) = Some n \<Longrightarrow>
      view t (snd (srv t [''INCRBY'', k, show_int d] s)) = (view t s)(k \<mapsto> int_cell (n + d) (cell_exp (view t s k)))"
    and expire_view: "wf s \<Longrightarrow> 0 < n \<Longrightarrow> view t s k = Some (c, e) \<Longrightarrow>
      view t (snd (srv t [''EXPIRE'', k, show_int n] s)) = (view t s)(k \<mapsto> (c, Some (t + n * 1000)))"
    and expire_missing: "wf s \<Longrightarrow> 0 < n \<Longrightarrow> view t s k = None \<Longrightarrow>
      view t (snd (srv t [''EXPIRE'', k, show_int n] s)) = view t s"
    and slot_release_open: "wf s \<Longrightarrow> distinct [m, a, b] \<Longrightarrow> cell_str (view t s m) = Some tok \<Longrightarrow>
      cell_int (view t s a) = Some x \<Longrightarrow> cell_int (view t s b) = Some y \<Longrightarrow>
      view t (snd (srv t [''EVAL'', FENCED_SLOT_RELEASE, ''3'', m, a, b, tok] s)) =
        (view t s)(m := None, a \<mapsto> int_cell (x - 1) (cell_exp (view t s a)), b \<mapsto> int_cell (y - 1) (cell_exp (view t s b)))"
    and slot_release_shut: "wf s \<Longrightarrow> strish (view t s m) \<Longrightarrow> cell_str (view t s m) \<noteq> Some tok \<Longrightarrow>
      view t (snd (srv t [''EVAL'', FENCED_SLOT_RELEASE, ''3'', m, a, b, tok] s)) = view t s"
    and fenced_del_view: "wf s \<Longrightarrow> strish (view t s k) \<Longrightarrow>
      view t (snd (srv t [''EVAL'', FENCED_DEL, ''1'', k, tok] s)) =
        (if cell_str (view t s k) = Some tok then (view t s)(k := None) else view t s)"

subsection \<open>fake-kv.ts keeps the promises\<close>

lemma runOne_basic:
  "toUpperCase c \<noteq> ''EVAL'' \<Longrightarrow> runOne t (c # args) s = runBasic t (c # args) s"
  by (simp add: runOne_def)

lemma arg_simps [simp]: "arg (x # xs) 0 = x" "arg (x # xs) (Suc n) = arg xs n" "arg [] n = []"
  by (simp_all add: arg_def)

lemma arg_numeral [simp]: "arg (x # xs) (numeral n) = arg xs (pred_numeral n)"
  by (simp add: numeral_eq_Suc)

lemma arg_one [simp]: "arg (x # xs) 1 = arg xs 0"
  by simp

lemma run_simps:
  "runOne t [''GET'', k] s = runGet t k s"
  "runOne t [''GETDEL'', k] s = runGetDel t k s"
  "runOne t [''DEL'', k] s = runDel t [k] s"
  "runOne t (''SET'' # k # args) s = runSet t k (k # args) s"
  "runOne t [''INCRBY'', k, v] s = runIncrBy 1 t k [k, v] s"
  "runOne t [''EXPIRE'', k, v] s = runExpire 1000 t k [k, v] s"
  by (simp_all add: runOne_basic runBasic_def)

lemma runIncrBy_show: "runIncrBy 1 t k [k, show_int d] s = runIncr t k d s"
  by (simp add: runIncrBy_def)

lemma setFlags_lits [simp]:
  "setFlags [] no_opts = Inr no_opts"
  "0 < n \<Longrightarrow> setFlags [''EX'', show_int n] o0 = Inr (o0\<lparr>ttlMs := Some (n * 1000)\<rparr>)"
  "0 < n \<Longrightarrow> setFlags [''NX'', ''EX'', show_int n] o0 = Inr (o0\<lparr>nx := True, ttlMs := Some (n * 1000)\<rparr>)"
  "0 < n \<Longrightarrow> setFlags [''XX'', ''EX'', show_int n] o0 = Inr (o0\<lparr>xx := True, ttlMs := Some (n * 1000)\<rparr>)"
  by (simp_all add: Let_def)

lemma cell_setString_touch:
  "kv_wf s \<Longrightarrow> cell t (setString k v (touch t k s)) =
    (cell t s)(k \<mapsto> (VStr v, case cell t s k of None \<Rightarrow> None | Some (_, e) \<Rightarrow> e))"
  by (simp add: setString_def cell_setVal_touch)

lemma cell_write_expiring:
  assumes "kv_wf s" and "0 < n"
  shows "cell t (setUntil k (Some (Some (t + n))) (setString k v (touch t k s))) = (cell t s)(k \<mapsto> (VStr v, Some (t + n)))"
  using assms by (intro ext) (simp add: cell_setUntil entries_setString cell_setString_touch)

lemma cell_write_plain:
  assumes "kv_wf s"
  shows "cell t (setUntil k None (setString k v (touch t k s))) = (cell t s)(k \<mapsto> (VStr v, None))"
  using assms by (intro ext) (simp add: cell_setUntil entries_setString cell_setString_touch)

lemma touch_touch [simp]: "kv_wf s \<Longrightarrow> touch t k (touch t k s) = touch t k s"
  by (auto simp: touch_def live_def kv_delete_def expired_def split: option.splits)

lemma opts_simps [simp]:
  "nx no_opts = False" "xx no_opts = False" "getOld no_opts = False" "keepTtl no_opts = False"
  "ttlMs no_opts = None"
  by (simp_all add: no_opts_def)

lemmas runSet_simps = runSet_def Let_def getString_eq live_eq set_expiry_eq

lemma runSet_plain:
  "kv_wf s \<Longrightarrow> runSet t k [k, v] s = (Result (RStr ''OK''), setUntil k None (setString k v (touch t k s)))"
  by (simp add: runSet_simps)

lemma runSet_ex:
  "kv_wf s \<Longrightarrow> 0 < n \<Longrightarrow> runSet t k [k, v, ''EX'', show_int n] s =
    (Result (RStr ''OK''), setUntil k (Some (Some (t + n * 1000))) (setString k v (touch t k s)))"
  by (simp add: runSet_simps)

lemma runSet_nx:
  "kv_wf s \<Longrightarrow> 0 < n \<Longrightarrow> runSet t k [k, v, ''NX'', ''EX'', show_int n] s =
    (if cell t s k = None
     then (Result (RStr ''OK''), setUntil k (Some (Some (t + n * 1000))) (setString k v (touch t k s)))
     else (Result RNull, touch t k s))"
  by (simp add: runSet_simps)

lemma runSet_xx:
  "kv_wf s \<Longrightarrow> 0 < n \<Longrightarrow> runSet t k [k, v, ''XX'', ''EX'', show_int n] s =
    (if cell t s k = None then (Result RNull, touch t k s)
     else (Result (RStr ''OK''), setUntil k (Some (Some (t + n * 1000))) (setString k v (touch t k s))))"
  by (simp add: runSet_simps)

lemma runDel_one: "runDel t [k] s = (Result (RInt (if cell t s k = None then 0 else 1)), kv_delete k (touch t k s))"
  by (simp add: runDel_def live_eq)

lemma runIncr_eq:
  assumes "kv_wf s" and n: "cell_int (cell t s k) = Some n"
  shows "fst (runIncr t k d s) = Result (RInt (n + d))"
    and "cell t (snd (runIncr t k d s)) = (cell t s)(k \<mapsto> int_cell (n + d) (cell_exp (cell t s k)))"
proof -
  define s0 where "s0 = (if 0 < d
     then s\<lparr>gross := AList.update k ((case map_of (gross s) k of None \<Rightarrow> 0 | Some g \<Rightarrow> g) + d) (gross s)\<rparr> else s)"
  have s0: "kv_wf s0" "cell t s0 = cell t s" using assms(1) by (simp_all add: s0_def)
  have v: "(case cell_str (cell t s k) of None \<Rightarrow> Some 0 | Some v \<Rightarrow> parse_bigint v) = Some n"
    using n by (auto simp: cell_int_def cell_str_def split: option.splits kval.splits)
  have "runIncr t k d s = (Result (RInt (n + d)), setString k (show_int (n + d)) (touch t k s0))"
    using v by (simp add: runIncr_def s0_def [symmetric] Let_def getString_eq s0)
  then show "fst (runIncr t k d s) = Result (RInt (n + d))"
    and "cell t (snd (runIncr t k d s)) = (cell t s)(k \<mapsto> int_cell (n + d) (cell_exp (cell t s k)))"
    by (simp_all add: setString_def cell_setVal_touch s0 int_cell_def cell_exp_def)
qed

lemma runExpire_view:
  assumes "kv_wf s" "0 < n" "cell t s k = Some (v, e)"
  shows "cell t (snd (runExpire 1000 t k [k, show_int n] s)) = (cell t s)(k \<mapsto> (v, Some (t + n * 1000)))"
proof -
  have "js_Number [k, show_int n] 1 = Some n" by (simp add: js_Number_def)
  moreover note touched_some [OF assms(3)]
  ultimately have "snd (runExpire 1000 t k [k, show_int n] s) = setUntil k (Some (Some (t + n * 1000))) s"
    by (simp add: runExpire_def live_eq assms(3) set_expiry_eq)
  then show ?thesis using assms(2) touched_some [OF assms(3)] by (auto simp: cell_setUntil)
qed

lemma runGetDel_eq:
  "kv_wf s \<Longrightarrow> fst (runGetDel t k s) = Result (str_reply (cell_str (cell t s k)))"
  "kv_wf s \<Longrightarrow> cell t (snd (runGetDel t k s)) = (cell t s)(k := None)"
  by (cases "cell t s k"; auto simp: runGetDel_def getString_eq live_eq cell_kv_delete fun_eq_iff)+

text \<open>The two release scripts, parsed once.\<close>

lemma slot_release_parsed:
  "fencedBody FENCED_SLOT_RELEASE =
     Some ''redis.call('del', KEYS[1]); redis.call('incrby', KEYS[2], -1); redis.call('incrby', KEYS[3], -1); return 1''"
  by code_simp

lemma slot_release_statements:
  "statements ''redis.call('del', KEYS[1]); redis.call('incrby', KEYS[2], -1); redis.call('incrby', KEYS[3], -1); return 1'' =
     [''redis.call('del', KEYS[1])'', ''redis.call('incrby', KEYS[2], -1)'', ''redis.call('incrby', KEYS[3], -1)'', ''return 1'']"
  by code_simp

lemma slot_release_stmts:
  "parseStmt ''redis.call('del', KEYS[1])'' = Some (Call False ''DEL'' [(OKey 1, ''KEYS[1]'')])"
  "parseStmt ''redis.call('incrby', KEYS[2], -1)'' = Some (Call False ''INCRBY'' [(OKey 2, ''KEYS[2]''), (OLit, ''-1'')])"
  "parseStmt ''redis.call('incrby', KEYS[3], -1)'' = Some (Call False ''INCRBY'' [(OKey 3, ''KEYS[3]''), (OLit, ''-1'')])"
  "parseStmt ''return 1'' = Some (RetInt 1)"
  by code_simp+

lemma fenced_del_parsed:
  "fencedBody FENCED_DEL = Some ''return redis.call('del', KEYS[1])''"
  "statements ''return redis.call('del', KEYS[1])'' = [''return redis.call('del', KEYS[1])'']"
  "parseStmt ''return redis.call('del', KEYS[1])'' = Some (Call True ''DEL'' [(OKey 1, ''KEYS[1]'')])"
  by code_simp+


lemma run_eval_simps:
  "runOne t [''EVAL'', FENCED_SLOT_RELEASE, ''3'', m, a, b, tok] s =
     evalFenced t FENCED_SLOT_RELEASE [m, a, b] [tok] s"
  "runOne t [''EVAL'', FENCED_DEL, ''1'', k, tok] s = evalFenced t FENCED_DEL [k] [tok] s"
proof -
  have n: "parse_bigint ''3'' = Some 3" "parse_bigint ''1'' = Some 1" by code_simp+
  have d: "FENCED_SLOT_RELEASE \<noteq> ACQUIRE_ANY_SCRIPT" "FENCED_DEL \<noteq> ACQUIRE_ANY_SCRIPT"
    by (simp_all add: FENCED_SLOT_RELEASE_def FENCED_DEL_def ACQUIRE_ANY_SCRIPT_def)
  show "runOne t [''EVAL'', FENCED_SLOT_RELEASE, ''3'', m, a, b, tok] s =
     evalFenced t FENCED_SLOT_RELEASE [m, a, b] [tok] s"
    using d by (simp add: runOne_def runEval_def js_Number_def n numeral_3_eq_3)
  show "runOne t [''EVAL'', FENCED_DEL, ''1'', k, tok] s = evalFenced t FENCED_DEL [k] [tok] s"
    using d by (simp add: runOne_def runEval_def js_Number_def n)
qed

lemma minus_one_shown: "''-1'' = show_int (- 1)"
  by code_simp

lemma runBasic_simps:
  "runBasic t [''DEL'', k] s = runDel t [k] s"
  "runBasic t [''INCRBY'', k, ''-1''] s = runIncr t k (- 1) s"
  using runIncrBy_show [of t k "- 1" s] by (simp_all add: runBasic_def minus_one_shown)

lemma evalFenced_slot_release:
  "evalFenced t FENCED_SLOT_RELEASE [m, a, b] [tok] s =
    (if cell_str (cell t s m) \<noteq> Some tok then (Result (RInt 0), touch t m s)
     else runSteps t [SRun [''DEL'', m] False, SRun [''INCRBY'', a, ''-1''] False,
       SRun [''INCRBY'', b, ''-1''] False, SValue 1] (touch t m s))"
proof -
  have q: "\<not> starts_with ''return '' ''redis.call('del', KEYS[1])''"
    "\<not> starts_with ''return '' ''redis.call('incrby', KEYS[2], -1)''"
    "\<not> starts_with ''return '' ''redis.call('incrby', KEYS[3], -1)''" by code_simp+
  show ?thesis
    by (simp add: evalFenced_def slot_release_parsed slot_release_statements slot_release_stmts q
        getString_eq lookupOperand_def)
qed

lemma runIncr_result:
  "kv_wf s \<Longrightarrow> cell_int (cell t s k) = Some n \<Longrightarrow>
    \<exists>s'. runIncr t k d s = (Result (RInt (n + d)), s') \<and> kv_wf s' \<and>
      cell t s' = (cell t s)(k \<mapsto> int_cell (n + d) (cell_exp (cell t s k)))"
  by (metis prod.collapse runIncr_eq wf_runIncr)

lemma slot_release_open_kv:
  assumes wf: "kv_wf s" and dist: "distinct [m, a, b]" and tok: "cell_str (cell t s m) = Some tok"
    and x: "cell_int (cell t s a) = Some x" and y: "cell_int (cell t s b) = Some y"
  shows "cell t (snd (evalFenced t FENCED_SLOT_RELEASE [m, a, b] [tok] s)) =
    (cell t s)(m := None, a \<mapsto> int_cell (x - 1) (cell_exp (cell t s a)), b \<mapsto> int_cell (y - 1) (cell_exp (cell t s b)))"
proof -
  define s1 where "s1 = kv_delete m (touch t m s)"
  have s1: "kv_wf s1" "cell t s1 = (cell t s)(m := None)"
    using wf by (simp_all add: s1_def cell_kv_delete)
  obtain s2 where s2: "runIncr t a (- 1) s1 = (Result (RInt (x - 1)), s2)" "kv_wf s2"
    "cell t s2 = (cell t s1)(a \<mapsto> int_cell (x - 1) (cell_exp (cell t s1 a)))"
    using runIncr_result [OF s1(1), of t a x "- 1"] s1(2) x dist by auto
  obtain s3 where s3: "runIncr t b (- 1) s2 = (Result (RInt (y - 1)), s3)" "kv_wf s3"
    "cell t s3 = (cell t s2)(b \<mapsto> int_cell (y - 1) (cell_exp (cell t s2 b)))"
    using runIncr_result [OF s2(2), of t b y "- 1"] s2(3) s1(2) y dist by auto
  have "snd (evalFenced t FENCED_SLOT_RELEASE [m, a, b] [tok] s) = s3"
    using wf tok s2(1) s3(1)
    by (simp add: evalFenced_slot_release runBasic_simps runDel_one s1_def)
  then show ?thesis using s3(3) s2(3) s1(2) dist by (auto simp: fun_eq_iff)
qed

lemma fenced_del_kv:
  assumes "kv_wf s"
  shows "cell t (snd (evalFenced t FENCED_DEL [k] [tok] s)) =
    (if cell_str (cell t s k) = Some tok then (cell t s)(k := None) else cell t s)"
proof -
  have q: "starts_with ''return '' ''return redis.call('del', KEYS[1])''" by code_simp
  have "evalFenced t FENCED_DEL [k] [tok] s =
    (if cell_str (cell t s k) \<noteq> Some tok then (Result (RInt 0), touch t k s)
     else runDel t [k] (touch t k s))"
    by (simp add: evalFenced_def fenced_del_parsed q getString_eq lookupOperand_def
        runBasic_simps runDel_one)
  then show ?thesis using assms by (simp add: runDel_one cell_kv_delete)
qed

text \<open>fake-kv.ts is a model of the interface.\<close>

interpretation fake: redis runOne cell kv_wf
proof (unfold_locales, goal_cases)
  case 1 then show ?case by (rule wf_runOne)
next
  case 2 then show ?case by (simp add: cell_lapse)
next
  case 3 then show ?case by (simp add: run_simps runGet_def getString_eq)
next
  case 4 then show ?case by (simp add: run_simps runGet_def getString_eq)
next
  case 5 then show ?case by (simp add: run_simps runGetDel_eq)
next
  case 6 then show ?case by (simp add: run_simps runGetDel_eq)
next
  case 7 then show ?case by (simp add: run_simps runDel_one)
next
  case 8 then show ?case by (simp add: run_simps runDel_one cell_kv_delete)
next
  case 9 then show ?case by (simp add: run_simps runSet_plain)
next
  case 10 then show ?case by (simp add: run_simps runSet_plain cell_write_plain)
next
  case 11 then show ?case by (simp add: run_simps runSet_ex)
next
  case 12 then show ?case by (simp add: run_simps runSet_ex cell_write_expiring)
next
  case 13 then show ?case by (simp add: run_simps runSet_nx)
next
  case 14 then show ?case by (simp add: run_simps runSet_nx cell_write_expiring)
next
  case 15 then show ?case by (simp add: run_simps runSet_xx)
next
  case 16 then show ?case by (simp add: run_simps runSet_xx cell_write_expiring)
next
  case 17 then show ?case by (simp add: run_simps runIncrBy_show runIncr_eq)
next
  case 18 then show ?case by (simp add: run_simps runIncrBy_show runIncr_eq)
next
  case 19 then show ?case by (simp add: run_simps runExpire_view)
next
  case 20 then show ?case by (simp add: run_simps runExpire_def live_eq)
next
  case 21 then show ?case by (simp add: run_eval_simps slot_release_open_kv)
next
  case 22 then show ?case by (simp add: run_eval_simps evalFenced_slot_release)
next
  case 23 then show ?case by (simp add: run_eval_simps fenced_del_kv)
qed

end
