(* ===== verification/KvClient.thy ===== *)
theory KvClient
  imports KvLaws
begin

text \<open>
  The client side of the store: the process environment, the round trip of a pipeline, and what
  the network may do to it.  A world holds the environment, the server's clock, the store and
  the outcomes the coming round trips will have: \<open>Delivered\<close>, or \<open>Lost n\<close> when the first \<open>n\<close>
  commands ran and no usable answer came back (an HTTP error, a timeout, a dropped connection;
  \<open>Lost 0\<close> never reached the store).  The store itself is the argument \<open>srv\<close>.
\<close>

datatype net = Delivered | Lost nat

type_synonym environ = "string \<Rightarrow> string option"

record 'k world =
  env :: environ
  clock :: int
  kvs :: 'k
  nets :: "net list"

type_synonym 'k server = "int \<Rightarrow> string list \<Rightarrow> 'k \<Rightarrow> reply \<times> 'k"

text \<open>lib/rate-limit.ts \<open>kvConfigFromEnv\<close>: the address and token, when both are set and not empty.\<close>

definition kvConfigFromEnv :: "environ \<Rightarrow> (string \<times> string) option" where
  "kvConfigFromEnv e = (let
       url = (case e ''KV_REST_API_URL'' of Some u \<Rightarrow> Some u | None \<Rightarrow> e ''UPSTASH_REDIS_REST_URL'');
       token = (case e ''KV_REST_API_TOKEN'' of Some u \<Rightarrow> Some u | None \<Rightarrow> e ''UPSTASH_REDIS_REST_TOKEN'')
     in case (url, token) of
       (Some u, Some k) \<Rightarrow> if u \<noteq> [] \<and> k \<noteq> [] then Some (u, k) else None
     | _ \<Rightarrow> None)"

definition kvConfigured :: "'k world \<Rightarrow> bool" where
  "kvConfigured w \<longleftrightarrow> kvConfigFromEnv (env w) \<noteq> None"

definition network_of :: "environ \<Rightarrow> string" where
  "network_of e = (case e ''STELLAR_NETWORK'' of None \<Rightarrow> ''testnet'' | Some n \<Rightarrow> n)"

text \<open>The commands of one body in order.\<close>

fun execAll :: "'k server \<Rightarrow> int \<Rightarrow> string list list \<Rightarrow> 'k \<Rightarrow> reply list \<times> 'k" where
  "execAll srv t [] s = ([], s)"
| "execAll srv t (c # cs) s = (case srv t c s of (r, s1) \<Rightarrow>
     (case execAll srv t cs s1 of (rs, s2) \<Rightarrow> (r # rs, s2)))"

text \<open>One \<open>/pipeline\<close> round trip: \<open>Inl\<close> is the error the caller catches.\<close>

definition pipeline :: "'k server \<Rightarrow> string list list \<Rightarrow> 'k world \<Rightarrow> (string + reply list) \<times> 'k world" where
  "pipeline srv cmds w = (case nets w of
       Lost n # ns \<Rightarrow> (Inl ''caps store unavailable'',
          w\<lparr>kvs := snd (execAll srv (clock w) (take n cmds) (kvs w)), nets := ns\<rparr>)
     | _ \<Rightarrow> (case execAll srv (clock w) cmds (kvs w) of
          (rs, s') \<Rightarrow> (Inr rs, w\<lparr>kvs := s', nets := drop 1 (nets w)\<rparr>)))"

definition online :: "'k world \<Rightarrow> bool" where
  "online w \<longleftrightarrow> nets w = []"

lemma pipeline_online:
  "online w \<Longrightarrow> pipeline srv cmds w =
    (Inr (fst (execAll srv (clock w) cmds (kvs w))), w\<lparr>kvs := snd (execAll srv (clock w) cmds (kvs w))\<rparr>)"
  by (simp add: pipeline_def online_def case_prod_unfold)

lemma pipeline_frame [simp]:
  "env (snd (pipeline srv cmds w)) = env w" "clock (snd (pipeline srv cmds w)) = clock w"
  by (auto simp: pipeline_def case_prod_unfold split: list.splits net.splits)

lemma online_pipeline [simp]: "online w \<Longrightarrow> online (snd (pipeline srv cmds w))"
  by (simp add: pipeline_online) (simp add: online_def)

lemma kvConfigured_pipeline [simp]: "kvConfigured (snd (pipeline srv cmds w)) = kvConfigured w"
  by (simp add: kvConfigured_def)

lemma online_simps [simp]:
  "online (w\<lparr>kvs := s\<rparr>) = online w" "kvConfigured (w\<lparr>kvs := s\<rparr>) = kvConfigured w"
  by (simp_all add: online_def kvConfigured_def)

lemma execAll_length [simp]: "length (fst (execAll srv t cmds s)) = length cmds"
  by (induction cmds arbitrary: s) (auto simp: case_prod_unfold)

lemma execAll_append:
  "snd (execAll srv t (cs @ ds) s) = snd (execAll srv t ds (snd (execAll srv t cs s)))"
  "fst (execAll srv t (cs @ ds) s) = fst (execAll srv t cs s) @ fst (execAll srv t ds (snd (execAll srv t cs s)))"
  by (induction cs arbitrary: s) (auto simp: case_prod_unfold)

text \<open>fake-kv.ts answers a pipeline the way the client reads it.\<close>

lemma execAll_kvPipeline: "execAll runOne t cmds s = kvPipeline t cmds s"
  by (induction cmds arbitrary: s) (auto simp: case_prod_unfold)

context redis
begin

lemma wf_execAll: "wf s \<Longrightarrow> wf (snd (execAll srv t cmds s))"
  by (induction cmds arbitrary: s) (auto simp: case_prod_unfold srv_wf)

lemma wf_pipeline: "wf (kvs w) \<Longrightarrow> wf (kvs (snd (pipeline srv cmds w)))"
  by (auto simp: pipeline_def case_prod_unfold wf_execAll split: list.splits net.splits)

end

subsection \<open>A day counter and its expiry\<close>

text \<open>lib/caps.ts \<open>incrCmds\<close>: the pair every counter is moved with.\<close>

definition DAY_KEY_TTL_SECONDS :: int where
  "DAY_KEY_TTL_SECONDS = 172800"

definition incrCmds :: "string \<Rightarrow> int \<Rightarrow> string list list" where
  "incrCmds key delta =
     [[''INCRBY'', key, show_int delta], [''EXPIRE'', key, show_int DAY_KEY_TTL_SECONDS]]"

text \<open>\<open>BigInt(String(result))\<close> of a reply.\<close>

definition replyInt :: "reply \<Rightarrow> int option" where
  "replyInt r = (case r of Result (RInt n) \<Rightarrow> Some n | Result (RStr v) \<Rightarrow> parse_bigint v | _ \<Rightarrow> None)"

text \<open>Two commands per key; the INCRBY is the first of its pair.\<close>

definition readTotal :: "reply list \<Rightarrow> nat \<Rightarrow> string + int" where
  "readTotal results i = (if length results \<le> i then Inl ''caps store error: undefined''
     else case results ! i of
         Err e \<Rightarrow> Inl (''caps store error: '' @ e)
       | r \<Rightarrow> (case replyInt r of None \<Rightarrow> Inl ''Cannot convert to a BigInt'' | Some n \<Rightarrow> Inr n))"

fun incrTotals :: "reply list \<Rightarrow> string list \<Rightarrow> nat \<Rightarrow> string + int list" where
  "incrTotals results [] offset = Inr []"
| "incrTotals results (k # ks) offset = (case readTotal results offset of
        Inl e \<Rightarrow> Inl e
      | Inr n \<Rightarrow> (case incrTotals results ks (offset + 2) of Inl e \<Rightarrow> Inl e | Inr ns \<Rightarrow> Inr (n # ns)))"

definition addToDays :: "'k server \<Rightarrow> string list \<Rightarrow> int \<Rightarrow> 'k world \<Rightarrow> (string + int list) \<times> 'k world" where
  "addToDays srv keys delta w = (case pipeline srv (concat (map (\<lambda>k. incrCmds k delta) keys)) w of
       (Inl e, w') \<Rightarrow> (Inl e, w')
     | (Inr rs, w') \<Rightarrow> (incrTotals rs keys 0, w'))"

definition addToDay :: "'k server \<Rightarrow> string \<Rightarrow> int \<Rightarrow> 'k world \<Rightarrow> (string + int) \<times> 'k world" where
  "addToDay srv key delta w = (case addToDays srv [key] delta w of
       (Inl e, w') \<Rightarrow> (Inl e, w')
     | (Inr ns, w') \<Rightarrow> (Inr (hd ns), w'))"

text \<open>A counter's value, and that it is one.\<close>

definition counter :: "cell option \<Rightarrow> int" where
  "counter c = (case cell_int c of Some n \<Rightarrow> n | None \<Rightarrow> 0)"

definition is_counter :: "cell option \<Rightarrow> bool" where
  "is_counter c \<longleftrightarrow> cell_int c \<noteq> None"

lemma counter_simps [simp]:
  "counter None = 0" "counter (Some (int_cell n e)) = n" "is_counter None"
  "is_counter (Some (int_cell n e))"
  by (simp_all add: counter_def is_counter_def)

lemma is_counter_int: "is_counter c \<Longrightarrow> cell_int c = Some (counter c)"
  by (auto simp: counter_def is_counter_def)

text \<open>What one increment leaves in a cell.\<close>

definition day_cell :: "int \<Rightarrow> int \<Rightarrow> cell" where
  "day_cell n t = int_cell n (Some (t + DAY_KEY_TTL_SECONDS * 1000))"

lemma day_cell_simps [simp]:
  "counter (Some (day_cell n t)) = n" "is_counter (Some (day_cell n t))"
  by (simp_all add: day_cell_def)

context redis
begin

lemma incrCmds_exec:
  assumes "wf s" and "is_counter (view t s k)"
  shows "\<exists>r s'. execAll srv t (incrCmds k d) s = ([Result (RInt (counter (view t s k) + d)), r], s') \<and> wf s' \<and>
    view t s' = (view t s)(k \<mapsto> day_cell (counter (view t s k) + d) t)"
proof -
  define n where "n = counter (view t s k)"
  have n: "cell_int (view t s k) = Some n" using assms(2) by (simp add: n_def is_counter_int)
  define s1 where "s1 = snd (srv t [''INCRBY'', k, show_int d] s)"
  have r1: "srv t [''INCRBY'', k, show_int d] s = (Result (RInt (n + d)), s1)"
    using incrby_reply [OF assms(1) n] by (simp add: s1_def prod_eq_iff)
  have w1: "wf s1" using assms(1) by (simp add: s1_def srv_wf)
  have v1: "view t s1 = (view t s)(k \<mapsto> int_cell (n + d) (cell_exp (view t s k)))"
    using incrby_view [OF assms(1) n] by (simp add: s1_def)
  define s2 where "s2 = snd (srv t [''EXPIRE'', k, show_int DAY_KEY_TTL_SECONDS] s1)"
  have w2: "wf s2" using w1 by (simp add: s2_def srv_wf)
  have e: "view t s1 k = Some (VStr (show_int (n + d)), cell_exp (view t s k))"
    using v1 by (simp add: int_cell_def)
  have "0 < DAY_KEY_TTL_SECONDS" by (simp add: DAY_KEY_TTL_SECONDS_def)
  from expire_view [OF w1 this e]
  have v2: "view t s2 = (view t s1)(k \<mapsto> day_cell (n + d) t)"
    by (simp add: s2_def day_cell_def int_cell_def)
  show ?thesis
    unfolding n_def [symmetric]
    using r1 w2 v2 v1 by (auto simp: incrCmds_def case_prod_unfold s2_def)
qed

text \<open>One round trip moves every counter it names by \<open>d\<close>, and answers the new totals in order.\<close>

lemma addToDays_exec:
  assumes "wf s" and "distinct keys" and "\<forall>k\<in>set keys. is_counter (view t s k)"
  shows "\<exists>rs s'. execAll srv t (concat (map (\<lambda>k. incrCmds k d) keys)) s = (rs, s') \<and> wf s' \<and>
    (\<forall>pre. incrTotals (pre @ rs) keys (length pre) = Inr (map (\<lambda>k. counter (view t s k) + d) keys)) \<and>
    view t s' = (\<lambda>k. if k \<in> set keys then Some (day_cell (counter (view t s k) + d) t) else view t s k)"
  using assms
proof (induction keys arbitrary: s)
  case Nil
  then show ?case by auto
next
  case (Cons k ks)
  then have k: "is_counter (view t s k)" by simp
  obtain r s1 where s1: "execAll srv t (incrCmds k d) s = ([Result (RInt (counter (view t s k) + d)), r], s1)"
      "wf s1" "view t s1 = (view t s)(k \<mapsto> day_cell (counter (view t s k) + d) t)"
    using incrCmds_exec [OF Cons.prems(1) k] by blast
  have "\<forall>j\<in>set ks. is_counter (view t s1 j)" and "distinct ks" using Cons.prems s1(3) by auto
  from Cons.IH [OF s1(2) this(2,1)]
  obtain rs s2 where s2: "execAll srv t (concat (map (\<lambda>k. incrCmds k d) ks)) s1 = (rs, s2)" "wf s2"
      "\<And>pre. incrTotals (pre @ rs) ks (length pre) = Inr (map (\<lambda>k. counter (view t s1 k) + d) ks)"
      "view t s2 = (\<lambda>k. if k \<in> set ks then Some (day_cell (counter (view t s1 k) + d) t) else view t s1 k)"
    by blast
  have eq: "execAll srv t (concat (map (\<lambda>k. incrCmds k d) (k # ks))) s =
      ([Result (RInt (counter (view t s k) + d)), r] @ rs, s2)"
    using s1(1) s2(1) by (simp add: prod_eq_iff execAll_append)
  have tot: "incrTotals (pre @ [Result (RInt (counter (view t s k) + d)), r] @ rs) (k # ks) (length pre) =
      Inr (map (\<lambda>k. counter (view t s k) + d) (k # ks))" for pre
    using s2(3) [of "pre @ [Result (RInt (counter (view t s k) + d)), r]"] s1(3) Cons.prems(2)
    by (simp add: nth_append readTotal_def replyInt_def cong: map_cong)
  have vw: "view t s2 = (\<lambda>j. if j \<in> set (k # ks) then Some (day_cell (counter (view t s j) + d) t) else view t s j)"
    using s2(4) s1(3) Cons.prems(2) by (auto simp: fun_eq_iff)
  show ?case
    using eq s2(2) tot vw by blast
qed

lemma addToDays_online:
  assumes "wf (kvs w)" and "online w" and "distinct keys"
    and "\<forall>k\<in>set keys. is_counter (view (clock w) (kvs w) k)"
  shows "\<exists>s'. addToDays srv keys d w =
      (Inr (map (\<lambda>k. counter (view (clock w) (kvs w) k) + d) keys), w\<lparr>kvs := s'\<rparr>) \<and> wf s' \<and>
    view (clock w) s' = (\<lambda>k. if k \<in> set keys
      then Some (day_cell (counter (view (clock w) (kvs w) k) + d) (clock w)) else view (clock w) (kvs w) k)"
proof -
  obtain rs s' where s': "execAll srv (clock w) (concat (map (\<lambda>k. incrCmds k d) keys)) (kvs w) = (rs, s')" "wf s'"
      "incrTotals ([] @ rs) keys (length ([]::reply list)) = Inr (map (\<lambda>k. counter (view (clock w) (kvs w) k) + d) keys)"
      "view (clock w) s' = (\<lambda>k. if k \<in> set keys
        then Some (day_cell (counter (view (clock w) (kvs w) k) + d) (clock w)) else view (clock w) (kvs w) k)"
    using addToDays_exec [OF assms(1,3,4), of d] by meson
  then show ?thesis using assms(2) by (auto simp: addToDays_def pipeline_online)
qed

end

end
