(* ===== verification/UtcDay.thy ===== *)
theory UtcDay
  imports Prelude
begin

text \<open>
  The UTC date of an instant, as \<open>new Date(now).toISOString().slice(0, 10)\<close> spells it.  Every
  per-day counter key of the sponsor ends in (or contains) this date, so which instants share a
  counter is decided here.  The calendar is the proleptic Gregorian one of ECMAScript: a day
  number is turned into year, month and day by the era computation (400 years are 146097
  days), and the inverse computation shows that distinct days have distinct dates.
\<close>

definition MS_PER_DAY :: int where
  "MS_PER_DAY = 86400000"

definition day_number :: "int \<Rightarrow> int" where
  "day_number now = now div MS_PER_DAY"

text \<open>
  Position inside an era of 400 years that starts on 1 March: the century (the last one is a
  day longer), the four-year cycle, the year in the cycle, and the day of the year.
\<close>

definition century :: "int \<Rightarrow> int" where
  "century doe = min 3 (doe div 36524)"

definition day_of_century :: "int \<Rightarrow> int" where
  "day_of_century doe = doe - century doe * 36524"

definition cycle_year :: "int \<Rightarrow> int" where
  "cycle_year doc = min 3 (doc mod 1461 div 365)"

definition year_of_era :: "int \<Rightarrow> int" where
  "year_of_era doe =
     100 * century doe + 4 * (day_of_century doe div 1461) + cycle_year (day_of_century doe)"

definition day_of_year :: "int \<Rightarrow> int" where
  "day_of_year doe = day_of_century doe mod 1461 - 365 * cycle_year (day_of_century doe)"

definition march_month :: "int \<Rightarrow> int" where
  "march_month doy = (5 * doy + 2) div 153"

definition month_day :: "int \<Rightarrow> int" where
  "month_day doy = doy - (153 * march_month doy + 2) div 5 + 1"

definition civil_month :: "int \<Rightarrow> int" where
  "civil_month mp = (if mp < 10 then mp + 3 else mp - 9)"

definition civil_from_days :: "int \<Rightarrow> int \<times> int \<times> int" where
  "civil_from_days z = (let
       era = (z + 719468) div 146097;
       doe = (z + 719468) mod 146097;
       doy = day_of_year doe;
       m = civil_month (march_month doy)
     in (year_of_era doe + era * 400 + (if m \<le> 2 then 1 else 0), m, month_day doy))"

definition march_based :: "int \<Rightarrow> int" where
  "march_based m = (if m \<le> 2 then m + 9 else m - 3)"

definition days_from_civil :: "int \<times> int \<times> int \<Rightarrow> int" where
  "days_from_civil = (\<lambda>(y0, m, d). let
       y = (if m \<le> 2 then y0 - 1 else y0);
       yoe = y mod 400;
       doy = (153 * march_based m + 2) div 5 + d - 1
     in (y div 400) * 146097 + (365 * yoe + yoe div 4 - yoe div 100) + doy - 719468)"

lemma century_bounds:
  assumes "0 \<le> doe" "doe < 146097"
  shows "0 \<le> century doe" "century doe \<le> 3" "0 \<le> day_of_century doe" "day_of_century doe \<le> 36524"
proof -
  have d: "36524 * (doe div 36524) \<le> doe" "doe < 36524 * (doe div 36524) + 36524" by presburger+
  show "0 \<le> century doe" "century doe \<le> 3" using assms by (auto simp: century_def)
  show "0 \<le> day_of_century doe" "day_of_century doe \<le> 36524"
    using d assms by (auto simp: day_of_century_def century_def min_def)
qed

lemma cycle_year_bounds: "0 \<le> cycle_year c" "cycle_year c \<le> 3"
  by (auto simp: cycle_year_def pos_imp_zdiv_nonneg_iff)

lemma day_of_year_bounds: "0 \<le> day_of_year doe" "day_of_year doe < 366"
proof -
  define r where "r = day_of_century doe mod 1461"
  have r: "0 \<le> r" "r < 1461" by (auto simp: r_def)
  have q: "365 * (r div 365) \<le> r" "r < 365 * (r div 365) + 365" by presburger+
  have eq: "day_of_year doe = r - 365 * min 3 (r div 365)"
    by (simp add: day_of_year_def cycle_year_def r_def)
  show "0 \<le> day_of_year doe" "day_of_year doe < 366"
    unfolding eq using r q by (auto simp: min_def)
qed

lemma year_of_era_parts:
  assumes "0 \<le> doe" "doe < 146097"
  defines "y \<equiv> year_of_era doe"
  shows "0 \<le> y" "y < 400"
    and "365 * y + y div 4 - y div 100 + day_of_year doe = doe"
proof -
  define c where "c = century doe"
  define dc where "dc = day_of_century doe"
  define q where "q = dc div 1461"
  define k where "k = cycle_year dc"
  have c: "0 \<le> c" "c \<le> 3" and dc: "0 \<le> dc" "dc \<le> 36524"
    using century_bounds [OF assms(1,2)] by (simp_all add: c_def dc_def)
  have k: "0 \<le> k" "k \<le> 3" using cycle_year_bounds by (simp_all add: k_def)
  have q: "0 \<le> q" "q \<le> 24" using dc by (auto simp: q_def)
  have y: "y = 100 * c + 4 * q + k"
    by (simp add: y_def year_of_era_def c_def dc_def q_def k_def)
  show "0 \<le> y" "y < 400" using y c q k by linarith+
  have "y div 100 = c"
    by (rule int_div_pos_eq [where r = "4 * q + k"]) (use y c q k in simp_all)
  moreover have "y div 4 = 25 * c + q"
    by (rule int_div_pos_eq [where r = k]) (use y c q k in simp_all)
  moreover have "dc mod 1461 = dc - 1461 * q"
    by (simp add: q_def minus_mult_div_eq_mod)
  moreover have "dc = doe - c * 36524" by (simp add: dc_def day_of_century_def c_def)
  moreover have "day_of_year doe = dc mod 1461 - 365 * k"
    by (simp add: day_of_year_def dc_def k_def)
  ultimately show "365 * y + y div 4 - y div 100 + day_of_year doe = doe" using y by simp
qed

lemma march_month_bounds:
  assumes "0 \<le> doy" "doy < 366"
  shows "0 \<le> march_month doy" "march_month doy \<le> 11"
    and "1 \<le> month_day doy" and "month_day doy \<le> 31"
proof -
  define p where "p = (5 * doy + 2) div 153"
  have p: "153 * p \<le> 5 * doy + 2" "5 * doy + 2 < 153 * p + 153" unfolding p_def by presburger+
  define e where "e = (153 * p + 2) div 5"
  have e: "5 * e \<le> 153 * p + 2" "153 * p + 2 < 5 * e + 5" unfolding e_def by presburger+
  have md: "month_day doy = doy - e + 1"
    by (simp add: month_day_def march_month_def p_def e_def)
  have mm: "march_month doy = p" by (simp add: march_month_def p_def)
  show "0 \<le> march_month doy" "march_month doy \<le> 11" unfolding mm using p assms by linarith+
  show "1 \<le> month_day doy" "month_day doy \<le> 31" unfolding md using p e by linarith+
qed

lemma march_based_civil_month: "0 \<le> mp \<Longrightarrow> mp \<le> 11 \<Longrightarrow> march_based (civil_month mp) = mp"
  by (simp add: march_based_def civil_month_def)

lemma civil_month_bounds: "0 \<le> mp \<Longrightarrow> mp \<le> 11 \<Longrightarrow> 1 \<le> civil_month mp \<and> civil_month mp \<le> 12"
  by (simp add: civil_month_def)

lemma days_from_civil_parts:
  assumes "0 \<le> y" "y < 400" and "march_based m = mp"
  shows "days_from_civil (y + era * 400 + (if m \<le> 2 then 1 else 0), m, d) =
    era * 146097 + (365 * y + y div 4 - y div 100) + ((153 * mp + 2) div 5 + d - 1) - 719468"
proof -
  have "(y + era * 400) div 400 = era" "(y + era * 400) mod 400 = y" using assms by simp_all
  then show ?thesis using assms(3) by (simp add: days_from_civil_def Let_def)
qed

theorem days_from_civil_inverse: "days_from_civil (civil_from_days z) = z"
proof -
  define era where "era = (z + 719468) div 146097"
  define doe where "doe = (z + 719468) mod 146097"
  define doy where "doy = day_of_year doe"
  have doe: "0 \<le> doe" "doe < 146097" by (auto simp: doe_def)
  note y = year_of_era_parts [OF doe]
  have mp: "march_based (civil_month (march_month doy)) = march_month doy"
    using march_month_bounds(1,2) [OF day_of_year_bounds [of doe]]
    by (simp add: march_based_civil_month doy_def)
  have z: "z + 719468 = era * 146097 + doe" by (simp add: era_def doe_def)
  have "civil_from_days z = (year_of_era doe + era * 400
      + (if civil_month (march_month doy) \<le> 2 then 1 else 0), civil_month (march_month doy), month_day doy)"
    by (simp only: civil_from_days_def Let_def era_def doe_def doy_def)
  then have "days_from_civil (civil_from_days z) = era * 146097
      + (365 * year_of_era doe + year_of_era doe div 4 - year_of_era doe div 100)
      + ((153 * march_month doy + 2) div 5 + month_day doy - 1) - 719468"
    by (simp only: days_from_civil_parts [OF y(1,2) mp])
  also have "\<dots> = era * 146097 + doe - 719468"
    using y(3) by (simp add: month_day_def doy_def)
  also have "\<dots> = z" using z by simp
  finally show ?thesis .
qed

lemma civil_from_days_inj: "civil_from_days a = civil_from_days b \<longleftrightarrow> a = b"
  by (metis days_from_civil_inverse)

lemma civil_month_day_bounds:
  assumes "civil_from_days z = (y, m, d)"
  shows "1 \<le> m \<and> m \<le> 12 \<and> 1 \<le> d \<and> d \<le> 31"
proof -
  define doy where "doy = day_of_year ((z + 719468) mod 146097)"
  have doy: "0 \<le> doy" "doy < 366" using day_of_year_bounds by (simp_all add: doy_def)
  have "m = civil_month (march_month doy)" and "d = month_day doy"
    using assms by (simp_all add: civil_from_days_def Let_def doy_def)
  then show ?thesis using march_month_bounds [OF doy] civil_month_bounds by simp
qed

subsection \<open>The spelling\<close>

text \<open>Years 0 to 9999 have four digits; the others are signed and have six.\<close>

definition iso_year :: "int \<Rightarrow> string" where
  "iso_year y = (if 0 \<le> y \<and> y \<le> 9999 then pad 4 y
     else if 0 \<le> y then CHR ''+'' # pad 6 y else CHR ''-'' # pad 6 (- y))"

definition toISODate :: "int \<Rightarrow> string" where
  "toISODate now = (case civil_from_days (day_number now) of
     (y, m, d) \<Rightarrow> iso_year y @ ''-'' @ pad 2 m @ ''-'' @ pad 2 d)"

text \<open>\<open>slice(0, 10)\<close> of the ISO string; with a four-digit year that is the whole date.\<close>

definition utcDay :: "int \<Rightarrow> string" where
  "utcDay now = take 10 (toISODate now @ ''T'')"

text \<open>An instant whose year has four digits (every date this program will ever see).\<close>

definition iso_range :: "int \<Rightarrow> bool" where
  "iso_range now \<longleftrightarrow> (case civil_from_days (day_number now) of (y, m, d) \<Rightarrow> 0 \<le> y \<and> y \<le> 9999)"

lemma utcDay_spelling:
  assumes "iso_range now" and "civil_from_days (day_number now) = (y, m, d)"
  shows "utcDay now = pad 4 y @ ''-'' @ pad 2 m @ ''-'' @ pad 2 d"
    and "length (pad 4 y) = 4" and "length (pad 2 m) = 2" and "length (pad 2 d) = 2"
proof -
  have y: "0 \<le> y" "y \<le> 9999" using assms by (simp_all add: iso_range_def)
  note md = civil_month_day_bounds [OF assms(2)]
  show l: "length (pad 4 y) = 4" "length (pad 2 m) = 2" "length (pad 2 d) = 2"
    using y md length_pad [of y 3] length_pad [of m 1] length_pad [of d 1]
    by (simp_all add: eval_nat_numeral)
  show "utcDay now = pad 4 y @ ''-'' @ pad 2 m @ ''-'' @ pad 2 d"
    using y l by (simp add: utcDay_def toISODate_def assms(2) iso_year_def)
qed

lemma length_utcDay [simp]: "length (utcDay now) = 10"
proof -
  obtain y m d where c: "civil_from_days (day_number now) = (y, m, d)" by (metis prod_cases3)
  have "4 \<le> length (iso_year y)"
    using length_pad_ge [of 4 y] length_pad_ge [of 6 y] length_pad_ge [of 6 "- y"]
    by (auto simp: iso_year_def)
  then have "10 \<le> length (toISODate now)"
    using length_pad_ge [of 2 m] length_pad_ge [of 2 d] by (simp add: toISODate_def c)
  then show ?thesis by (simp add: utcDay_def)
qed

theorem utcDay_eq_iff:
  assumes "iso_range a" and "iso_range b"
  shows "utcDay a = utcDay b \<longleftrightarrow> day_number a = day_number b"
proof
  assume eq: "utcDay a = utcDay b"
  obtain y m d where a: "civil_from_days (day_number a) = (y, m, d)" by (metis prod_cases3)
  obtain y' m' d' where b: "civil_from_days (day_number b) = (y', m', d')" by (metis prod_cases3)
  note sa = utcDay_spelling [OF assms(1) a] and sb = utcDay_spelling [OF assms(2) b]
  have "pad 4 y = pad 4 y' \<and> pad 2 m = pad 2 m' \<and> pad 2 d = pad 2 d'"
    using eq sa sb by (simp add: append_eq_append_conv)
  then have "y = y' \<and> m = m' \<and> d = d'"
    using assms a b civil_month_day_bounds [OF a] civil_month_day_bounds [OF b]
    by (simp add: iso_range_def pad_inj)
  then have "civil_from_days (day_number a) = civil_from_days (day_number b)" using a b by simp
  then show "day_number a = day_number b" by (simp only: civil_from_days_inj)
next
  assume "day_number a = day_number b"
  then show "utcDay a = utcDay b" by (simp add: utcDay_def toISODate_def)
qed

text \<open>2026-10-08T12:00:00Z, an instant of the repository's own history.\<close>

lemma utcDay_example: "utcDay 1791460800000 = ''2026-10-08''"
  by code_simp

lemma iso_range_example: "iso_range 1791460800000"
  by code_simp

end
