(* ===== verification/Caps.thy ===== *)
theory Caps
  imports KvClient UtcDay
begin

text \<open>
  apps/sponsor/src/lib/caps.ts, the canary caps: a floor and a ceiling per escrow, a UTC-day
  total over all senders and one per sender, both reserved in one pipeline and given back
  together.  A verdict's \<open>release\<close> closure is data here: the keys and the amount it gives back.
\<close>

definition USDC_STROOPS :: int where
  "USDC_STROOPS = 10000000"

record caps_config =
  minDropStroops :: int
  maxDropStroops :: int
  maxDayStroops :: int
  maxDaySenderStroops :: "int option"
  failClosed :: bool

definition DEFAULT_MAINNET_SENDER_DAY_USDC :: int where
  "DEFAULT_MAINNET_SENDER_DAY_USDC = 25"

definition DEFAULT_MAINNET_DROP_USDC :: int where
  "DEFAULT_MAINNET_DROP_USDC = 5"

definition DEFAULT_MAINNET_DAY_USDC :: int where
  "DEFAULT_MAINNET_DAY_USDC = 50"

text \<open>
  \<open>usdc name\<close> is what \<open>usdcEnv\<close> reads from the variable \<open>name\<close>, in whole stroops: \<open>None\<close> when
  it is unset or not a positive number (the floating-point parse is the argument).
\<close>

definition usdcEnv :: "(string \<Rightarrow> int option) \<Rightarrow> string \<Rightarrow> int \<Rightarrow> int" where
  "usdcEnv usdc name fallbackStroops = (case usdc name of Some n \<Rightarrow> n | None \<Rightarrow> fallbackStroops)"

definition capsFromEnv :: "(string \<Rightarrow> int option) \<Rightarrow> environ \<Rightarrow> string \<Rightarrow> caps_config" where
  "capsFromEnv usdc e network = (let
       mainnet = (network = ''mainnet'');
       maxDay = usdcEnv usdc ''MAX_DAY_USDC'' ((if mainnet then DEFAULT_MAINNET_DAY_USDC else 1000) * USDC_STROOPS);
       senderFallback = (if mainnet then DEFAULT_MAINNET_SENDER_DAY_USDC * USDC_STROOPS else maxDay);
       perSender = usdcEnv usdc ''MAX_DAY_USDC_PER_SENDER'' senderFallback
     in \<lparr>minDropStroops = usdcEnv usdc ''MIN_DROP_USDC'' 100000,
         maxDropStroops = usdcEnv usdc ''MAX_DROP_USDC'' ((if mainnet then DEFAULT_MAINNET_DROP_USDC else 100) * USDC_STROOPS),
         maxDayStroops = maxDay,
         maxDaySenderStroops = Some (if perSender < maxDay then perSender else maxDay),
         failClosed = (mainnet \<or> e ''CAPS_FAIL_CLOSED'' = Some ''1'')\<rparr>)"

text \<open>
  \<open>stroopsToUsdc\<close>: "12.5", not "125000000".  The two divisions of a \<open>bigint\<close> truncate
  toward zero, so a negative amount keeps its sign in both parts.
\<close>

definition dropTrailingZeros :: "string \<Rightarrow> string" where
  "dropTrailingZeros s = rev (dropWhile (\<lambda>c. c = CHR ''0'') (rev s))"

definition truncDiv :: "int \<Rightarrow> int \<Rightarrow> int" where
  "truncDiv a b = sgn a * sgn b * (\<bar>a\<bar> div \<bar>b\<bar>)"

definition truncMod :: "int \<Rightarrow> int \<Rightarrow> int" where
  "truncMod a b = a - b * truncDiv a b"

definition stroopsToUsdc :: "int \<Rightarrow> string" where
  "stroopsToUsdc stroops = (let
       whole = truncDiv stroops USDC_STROOPS;
       frac = dropTrailingZeros (padStart 7 (show_int (truncMod stroops USDC_STROOPS)))
     in if frac \<noteq> [] then show_int whole @ ''.'' @ frac else show_int whole)"

text \<open>The keys.\<close>

definition dayKey :: "int \<Rightarrow> string \<Rightarrow> string" where
  "dayKey now network = ''caps:'' @ network @ '':day:'' @ utcDay now"

definition senderDayKey :: "int \<Rightarrow> string \<Rightarrow> string \<Rightarrow> string" where
  "senderDayKey now sender network = ''caps:'' @ network @ '':day:'' @ utcDay now @ '':sender:'' @ sender"

datatype cap_reason =
    NotPositive
  | BelowMinimum int int
  | OverDropCap int int
  | NotConfigured
  | CounterUnavailable string
  | OverSenderCap int
  | OverDayCap int

fun reason_text :: "cap_reason \<Rightarrow> string" where
  "reason_text NotPositive = ''escrow amount must be positive''"
| "reason_text (BelowMinimum a m) =
     ''amount '' @ stroopsToUsdc a @ '' USDC is below the minimum of '' @ stroopsToUsdc m @ '' USDC''"
| "reason_text (OverDropCap a m) =
     ''amount '' @ stroopsToUsdc a @ '' USDC exceeds the per-drop cap of '' @ stroopsToUsdc m @ '' USDC''"
| "reason_text NotConfigured = ''daily cap counter is not configured (fail-closed)''"
| "reason_text (CounterUnavailable e) = ''daily cap counter unavailable (fail-closed): '' @ e"
| "reason_text (OverSenderCap m) =
     ''your sends today add up to the per-sender limit of '' @ stroopsToUsdc m @ '' USDC; try again tomorrow''"
| "reason_text (OverDayCap m) =
     ''daily escrow cap of '' @ stroopsToUsdc m @ '' USDC reached; try again tomorrow''"

text \<open>A verdict; an allowed one may carry the keys and the amount its \<open>release\<close> gives back.\<close>

datatype cap_verdict = Refused cap_reason | Allowed "(string list \<times> int) option"

text \<open>Both counters go back together; a give-back the store does not answer is dropped.\<close>

definition giveBack :: "'k server \<Rightarrow> string list \<Rightarrow> int \<Rightarrow> 'k world \<Rightarrow> 'k world" where
  "giveBack srv keys amount w = snd (addToDays srv keys (- amount) w)"

definition runRelease :: "'k server \<Rightarrow> cap_verdict \<Rightarrow> 'k world \<Rightarrow> 'k world" where
  "runRelease srv v w = (case v of Allowed (Some (keys, amount)) \<Rightarrow> giveBack srv keys amount w | _ \<Rightarrow> w)"

text \<open>The bounds that need no store, in the source's order.\<close>

definition localRefusal :: "int \<Rightarrow> caps_config \<Rightarrow> cap_reason option" where
  "localRefusal amount caps =
     (if amount \<le> 0 then Some NotPositive
      else if amount < minDropStroops caps then Some (BelowMinimum amount (minDropStroops caps))
      else if maxDropStroops caps < amount then Some (OverDropCap amount (maxDropStroops caps))
      else None)"

definition capKeys :: "int \<Rightarrow> string option \<Rightarrow> string \<Rightarrow> string list" where
  "capKeys now senderPublicKey network = (let sender = trim (case senderPublicKey of None \<Rightarrow> [] | Some s \<Rightarrow> s)
     in if sender \<noteq> [] then [dayKey now network, senderDayKey now sender network] else [dayKey now network])"

definition maxSender :: "caps_config \<Rightarrow> int" where
  "maxSender caps = (case maxDaySenderStroops caps of Some m \<Rightarrow> m | None \<Rightarrow> maxDayStroops caps)"

text \<open>What the new totals mean: the sender's own share is judged first.\<close>

definition dayRefusal :: "caps_config \<Rightarrow> int list \<Rightarrow> cap_reason option" where
  "dayRefusal caps totals =
     (if 2 \<le> length totals \<and> maxSender caps < totals ! 1 then Some (OverSenderCap (maxSender caps))
      else if maxDayStroops caps < totals ! 0 then Some (OverDayCap (maxDayStroops caps))
      else None)"

definition checkCaps :: "'k server \<Rightarrow> int \<Rightarrow> caps_config \<Rightarrow> int \<Rightarrow> string option \<Rightarrow> 'k world \<Rightarrow> cap_verdict \<times> 'k world" where
  "checkCaps srv amount caps now senderPublicKey w = (case localRefusal amount caps of
       Some r \<Rightarrow> (Refused r, w)
     | None \<Rightarrow>
         if \<not> kvConfigured w then
           (if failClosed caps then (Refused NotConfigured, w) else (Allowed None, w))
         else (let keys = capKeys now senderPublicKey (network_of (env w)) in
           case addToDays srv keys amount w of
             (Inl e, w1) \<Rightarrow>
               (if failClosed caps then (Refused (CounterUnavailable e), w1) else (Allowed None, w1))
           | (Inr totals, w1) \<Rightarrow> (case dayRefusal caps totals of
                 Some r \<Rightarrow> (Refused r, giveBack srv keys amount w1)
               | None \<Rightarrow> (Allowed (Some (keys, amount)), w1))))"

subsection \<open>Keys\<close>

lemma senderDayKey_eq: "senderDayKey now s net = dayKey now net @ '':sender:'' @ s"
  by (simp add: senderDayKey_def dayKey_def)

lemma day_sender_distinct [key_simps]: "dayKey now net \<noteq> senderDayKey now s net"
  by (simp add: senderDayKey_eq)

lemma distinct_capKeys [simp]: "distinct (capKeys now sender net)"
  by (simp add: capKeys_def Let_def key_simps)

lemma senderDayKey_inj [simp]: "senderDayKey now s net = senderDayKey now s' net \<longleftrightarrow> s = s'"
  by (simp add: senderDayKey_eq)

definition net_name :: "string \<Rightarrow> bool" where
  "net_name n \<longleftrightarrow> CHR '':'' \<notin> set n"


text \<open>Two instants and networks share a day counter exactly when they are the same UTC day of the
  same network.\<close>

theorem dayKey_shared_iff:
  assumes "net_name n" and "net_name m" and "iso_range a" and "iso_range b"
  shows "dayKey a n = dayKey b m \<longleftrightarrow> n = m \<and> day_number a = day_number b"
proof -
  have "dayKey a n = dayKey b m \<longleftrightarrow> n = m \<and> utcDay a = utcDay b"
    using assms(1,2) append_sep_eq [of "CHR '':''" n m "''day:'' @ utcDay a" "''day:'' @ utcDay b"]
    by (simp add: dayKey_def net_name_def)
  then show ?thesis using utcDay_eq_iff assms(3,4) by simp
qed

theorem dayKey_shared_iff_witness:
  "dayKey 1791460800000 ''mainnet'' = dayKey 1791460801000 ''mainnet'' \<longleftrightarrow>
     ''mainnet'' = ''mainnet'' \<and> day_number 1791460800000 = day_number 1791460801000"
proof (rule dayKey_shared_iff)
  show "net_name ''mainnet''" by (simp add: net_name_def)
  show "net_name ''mainnet''" by (simp add: net_name_def)
  show "iso_range 1791460800000" by code_simp
  show "iso_range 1791460801000" by code_simp
qed

subsection \<open>What a verdict promises\<close>

lemma localRefusal_None:
  "localRefusal amount caps = None \<longleftrightarrow>
     0 < amount \<and> minDropStroops caps \<le> amount \<and> amount \<le> maxDropStroops caps"
  by (auto simp: localRefusal_def)

text \<open>Fail-closed (mainnet), an escrow is only ever allowed with a reservation behind it and
  inside the per-drop bounds, whatever the store and the network do.\<close>

theorem checkCaps_failClosed_reserved:
  assumes "failClosed caps" and "checkCaps srv amount caps now sender w = (Allowed rel, w')"
  shows "rel = Some (capKeys now sender (network_of (env w)), amount)
    \<and> 0 < amount \<and> minDropStroops caps \<le> amount \<and> amount \<le> maxDropStroops caps"
  using assms localRefusal_None [of amount caps]
  by (auto simp: checkCaps_def Let_def split: option.splits if_splits prod.splits sum.splits)

definition cnt :: "(int \<Rightarrow> 'k \<Rightarrow> string \<Rightarrow> cell option) \<Rightarrow> 'k world \<Rightarrow> string \<Rightarrow> int" where
  "cnt view w k = counter (view (clock w) (kvs w) k)"

definition all_counters :: "(int \<Rightarrow> 'k \<Rightarrow> string \<Rightarrow> cell option) \<Rightarrow> 'k world \<Rightarrow> string list \<Rightarrow> bool" where
  "all_counters view w keys \<longleftrightarrow> (\<forall>k\<in>set keys. is_counter (view (clock w) (kvs w) k))"

context redis
begin

lemma addToDays_counters:
  assumes "wf (kvs w)" "online w" "distinct keys" "all_counters view w keys"
  shows "\<exists>w'. addToDays srv keys d w = (Inr (map (\<lambda>k. cnt view w k + d) keys), w') \<and>
    wf (kvs w') \<and> online w' \<and> env w' = env w \<and> clock w' = clock w \<and> all_counters view w' keys \<and>
    (\<forall>k. cnt view w' k = cnt view w k + (if k \<in> set keys then d else 0)) \<and>
    (\<forall>k. k \<notin> set keys \<longrightarrow> view (clock w') (kvs w') k = view (clock w) (kvs w) k)"
  using addToDays_online [OF assms(1-3), of d] assms(2,4)
  by (auto simp: all_counters_def cnt_def)

lemma giveBack_counters:
  assumes "wf (kvs w)" "online w" "distinct keys" "all_counters view w keys"
  shows "wf (kvs (giveBack srv keys a w)) \<and> online (giveBack srv keys a w) \<and>
    (\<forall>k. cnt view (giveBack srv keys a w) k = cnt view w k - (if k \<in> set keys then a else 0))"
  using addToDays_counters [OF assms, of "- a"] by (auto simp: giveBack_def)

text \<open>The whole decision on a reachable store, branch by branch.\<close>

lemma checkCaps_decides:
  fixes amount now :: int and sender :: "string option"
  assumes "wf (kvs w)" "online w" "kvConfigured w"
  defines "keys \<equiv> capKeys now sender (network_of (env w))"
  assumes "all_counters view w keys" and "localRefusal amount caps = None"
  shows "\<exists>w'. checkCaps srv amount caps now sender w =
      (case dayRefusal caps (map (\<lambda>k. cnt view w k + amount) keys) of
         Some r \<Rightarrow> Refused r | None \<Rightarrow> Allowed (Some (keys, amount)), w') \<and>
    (\<forall>k. cnt view w' k = cnt view w k +
      (if dayRefusal caps (map (\<lambda>k. cnt view w k + amount) keys) = None \<and> k \<in> set keys then amount else 0))"
proof -
  have d: "distinct keys" by (simp add: keys_def)
  obtain w1 where w1: "addToDays srv keys amount w = (Inr (map (\<lambda>k. cnt view w k + amount) keys), w1)"
      "wf (kvs w1)" "online w1" "all_counters view w1 keys"
      "\<forall>k. cnt view w1 k = cnt view w k + (if k \<in> set keys then amount else 0)"
    using addToDays_counters [OF assms(1,2) d assms(5), of amount] by blast
  show ?thesis
  proof (cases "dayRefusal caps (map (\<lambda>k. cnt view w k + amount) keys)")
    case None
    then show ?thesis using assms(3,6) w1 by (simp add: checkCaps_def keys_def)
  next
    case (Some r)
    then show ?thesis using assms(3,6) w1 giveBack_counters [OF w1(2,3) d w1(4), of amount]
      by (simp add: checkCaps_def keys_def)
  qed
qed

end

text \<open>C1: on a reachable store an allowed escrow leaves the day's total and the sender's within their
  caps, and a refused one leaves every counter of the store as it was.\<close>

theorem checkCaps_bounds_and_restores:
  fixes now :: int and sender :: string
  assumes "kv_wf (kvs w)" "online w" "kvConfigured w"
    and "all_counters cell w (capKeys now (Some sender) (network_of (env w)))" and "trim sender \<noteq> []"
    and "checkCaps runOne amount caps now (Some sender) w = (v, w')"
  defines "day \<equiv> dayKey now (network_of (env w))"
    and "own \<equiv> senderDayKey now (trim sender) (network_of (env w))"
  shows "case v of
      Refused r \<Rightarrow> \<forall>k. cnt cell w' k = cnt cell w k
    | Allowed rel \<Rightarrow> cnt cell w' day = cnt cell w day + amount \<and> cnt cell w' day \<le> maxDayStroops caps \<and>
        cnt cell w' own = cnt cell w own + amount \<and> cnt cell w' own \<le> maxSender caps \<and>
        rel = Some ([day, own], amount)"
proof (cases "localRefusal amount caps")
  case (Some r)
  then show ?thesis using assms(6) by (auto simp: checkCaps_def)
next
  case None
  have keys: "capKeys now (Some sender) (network_of (env w)) = [day, own]"
    using assms(5) by (simp add: capKeys_def day_def own_def)
  have ne: "day \<noteq> own" by (simp add: day_def own_def key_simps)
  from fake.checkCaps_decides [OF assms(1,2,3,4) None] keys ne assms(6)
  show ?thesis by (auto simp: dayRefusal_def split: if_splits)
qed


text \<open>A configured mainnet Worker with an empty store, and the pilot's caps.\<close>

definition pilot_env :: environ where
  "pilot_env = [''KV_REST_API_URL'' \<mapsto> ''https://kv'', ''KV_REST_API_TOKEN'' \<mapsto> ''t'', ''STELLAR_NETWORK'' \<mapsto> ''mainnet'']"

definition pilot_world :: "kv world" where
  "pilot_world = \<lparr>env = pilot_env, clock = 1791460800000, kvs = empty_kv, nets = []\<rparr>"

definition pilot_caps :: caps_config where
  "pilot_caps = capsFromEnv (\<lambda>_. None) pilot_env ''mainnet''"

lemma pilot_world_simps [simp]:
  "kvs pilot_world = empty_kv" "online pilot_world" "kvConfigured pilot_world"
  "clock pilot_world = 1791460800000" "env pilot_world = pilot_env" "network_of pilot_env = ''mainnet''"
  "nets pilot_world = []"
  by (simp_all add: pilot_world_def online_def kvConfigured_def kvConfigFromEnv_def pilot_env_def
      network_of_def)

lemma all_counters_pilot [simp]: "all_counters cell pilot_world keys"
  by (simp add: all_counters_def)

lemma trim_lit [simp]: "trim ''GA'' = ''GA''"
  by code_simp

theorem checkCaps_bounds_and_restores_witness:
  "case fst (checkCaps runOne 10000000 pilot_caps 1791460800000 (Some ''GA'') pilot_world) of
      Refused r \<Rightarrow> \<forall>k. cnt cell (snd (checkCaps runOne 10000000 pilot_caps 1791460800000 (Some ''GA'') pilot_world)) k = cnt cell pilot_world k
    | Allowed rel \<Rightarrow>
        cnt cell (snd (checkCaps runOne 10000000 pilot_caps 1791460800000 (Some ''GA'') pilot_world)) (dayKey 1791460800000 ''mainnet'')
          = cnt cell pilot_world (dayKey 1791460800000 ''mainnet'') + 10000000
        \<and> rel = Some ([dayKey 1791460800000 ''mainnet'', senderDayKey 1791460800000 ''GA'' ''mainnet''], 10000000)"
  using checkCaps_bounds_and_restores [of pilot_world 1791460800000 "''GA''" 10000000 pilot_caps
      "fst (checkCaps runOne 10000000 pilot_caps 1791460800000 (Some ''GA'') pilot_world)"
      "snd (checkCaps runOne 10000000 pilot_caps 1791460800000 (Some ''GA'') pilot_world)"]
  by (auto split: cap_verdict.splits)

theorem checkCaps_failClosed_reserved_witness:
  "fst (checkCaps runOne 10000000 pilot_caps 1791460800000 None pilot_world) =
     Allowed (Some (capKeys 1791460800000 None ''mainnet'', 10000000))"
proof -
  have fc: "failClosed pilot_caps" by (simp add: pilot_caps_def capsFromEnv_def Let_def)
  have lr: "localRefusal 10000000 pilot_caps = None"
    by (simp add: localRefusal_None pilot_caps_def capsFromEnv_def Let_def usdcEnv_def USDC_STROOPS_def
        DEFAULT_MAINNET_DROP_USDC_def)
  have dr: "dayRefusal pilot_caps (map (\<lambda>k. cnt cell pilot_world k + 10000000) (capKeys 1791460800000 None ''mainnet'')) = None"
    by (simp add: dayRefusal_def capKeys_def trim_def cnt_def pilot_caps_def capsFromEnv_def Let_def usdcEnv_def
        USDC_STROOPS_def DEFAULT_MAINNET_DAY_USDC_def)
  obtain rel w' where r: "checkCaps runOne 10000000 pilot_caps 1791460800000 None pilot_world = (Allowed rel, w')"
    using fake.checkCaps_decides [of pilot_world 1791460800000 None 10000000 pilot_caps] lr dr by auto
  then show ?thesis using checkCaps_failClosed_reserved [OF fc r] by simp
qed

end
