(* ===== verification/KvMoves.thy ===== *)
theory KvMoves
  imports KvClient
begin

text \<open>
  Moving day counters over an unreliable network: what a pipeline of increments leaves behind when
  only its first commands ran.  \<open>delta k cs\<close> is what the commands \<open>cs\<close> add to the counter \<open>k\<close>; a counter
  is durable when it cannot expire before the instant \<open>tend\<close>.
\<close>

definition moveCmds :: "string list \<Rightarrow> int \<Rightarrow> string list list" where
  "moveCmds keys d = concat (map (\<lambda>k. incrCmds k d) keys)"

subsection \<open>What the executed commands added\<close>

definition delta1 :: "string \<Rightarrow> string list \<Rightarrow> int" where
  "delta1 k c = (case c of [op0, k', v] \<Rightarrow> if op0 = ''INCRBY'' \<and> k' = k
       then (case parse_bigint v of Some d \<Rightarrow> d | None \<Rightarrow> 0) else 0 | _ \<Rightarrow> 0)"

definition delta :: "string \<Rightarrow> string list list \<Rightarrow> int" where
  "delta k cs = (\<Sum>c\<leftarrow>cs. delta1 k c)"

lemma delta_simps [simp]:
  "delta k [] = 0" "delta k (c # cs) = delta1 k c + delta k cs" "delta k (cs @ ds) = delta k cs + delta k ds"
  "delta1 k [''INCRBY'', k', show_int d] = (if k' = k then d else 0)"
  "delta1 k [''EXPIRE'', k', v] = 0"
  by (simp_all add: delta_def delta1_def)

lemma delta_moveCmds: "distinct keys \<Longrightarrow> delta k (moveCmds keys d) = (if k \<in> set keys then d else 0)"
  by (induction keys) (auto simp: moveCmds_def incrCmds_def)

lemma moveCmds_mem:
  "c \<in> set (moveCmds keys d) \<Longrightarrow>
    \<exists>k\<in>set keys. c = [''INCRBY'', k, show_int d] \<or> c = [''EXPIRE'', k, show_int DAY_KEY_TTL_SECONDS]"
  by (auto simp: moveCmds_def incrCmds_def)

lemma delta_sign:
  assumes "\<forall>c\<in>set cs. c \<in> set (moveCmds keys d)"
  shows "0 \<le> d \<Longrightarrow> 0 \<le> delta k cs" and "d \<le> 0 \<Longrightarrow> delta k cs \<le> 0"
proof -
  have "0 \<le> d \<longrightarrow> 0 \<le> delta1 k c" "d \<le> 0 \<longrightarrow> delta1 k c \<le> 0" if "c \<in> set cs" for c
    using moveCmds_mem [of c keys d] assms that by auto
  then show "0 \<le> d \<Longrightarrow> 0 \<le> delta k cs" and "d \<le> 0 \<Longrightarrow> delta k cs \<le> 0"
    by (induction cs) (auto simp: add_nonpos_nonpos)
qed

text \<open>A request never holds less than nothing: what it gives back, it added before.\<close>

lemma delta_prefix_nonneg:
  assumes "cs @ ds = moveCmds keys d @ moveCmds keys (- d)" and "distinct keys" and "0 \<le> d"
  shows "0 \<le> delta k cs"
proof -
  consider es where "cs @ es = moveCmds keys d" | es where "cs = moveCmds keys d @ es" "es @ ds = moveCmds keys (- d)"
    using assms(1) by (auto simp: append_eq_append_conv2)
  then show ?thesis
  proof cases
    case 1
    then have "\<forall>c\<in>set cs. c \<in> set (moveCmds keys d)" by (metis Un_iff set_append)
    then show ?thesis using delta_sign(1) assms(3) by blast
  next
    case 2
    then have "\<forall>c\<in>set ds. c \<in> set (moveCmds keys (- d))" by (metis Un_iff set_append)
    then have "delta k ds \<le> 0" using delta_sign(2) [of ds keys "- d"] assms(3) by simp
    moreover have "delta k es + delta k ds = (if k \<in> set keys then - d else 0)"
      using arg_cong [OF 2(2), of "delta k"] delta_moveCmds [OF assms(2), of k "- d"] by simp
    ultimately show ?thesis using 2(1) delta_moveCmds [OF assms(2), of k d] by (auto split: if_splits)
  qed
qed


lemma delta_take_bounds:
  assumes "distinct keys"
  shows "0 \<le> d \<Longrightarrow> 0 \<le> delta k (take n (moveCmds keys d))"
    and "0 \<le> d \<Longrightarrow> - d \<le> delta k (take n (moveCmds keys (- d)))"
    and "k \<notin> set keys \<Longrightarrow> delta k (take n (moveCmds keys d)) = 0"
proof -
  have s: "\<forall>c\<in>set (take n (moveCmds keys x)). c \<in> set (moveCmds keys x)" for x by (meson in_set_takeD)
  have s': "\<forall>c\<in>set (drop n (moveCmds keys x)). c \<in> set (moveCmds keys x)" for x by (meson in_set_dropD)
  show "0 \<le> d \<Longrightarrow> 0 \<le> delta k (take n (moveCmds keys d))" using delta_sign(1) [OF s] .
  have t: "delta k (take n (moveCmds keys x)) + delta k (drop n (moveCmds keys x)) = (if k \<in> set keys then x else 0)" for x
    using delta_moveCmds [OF assms, of k x] delta_simps(3) [of k "take n (moveCmds keys x)" "drop n (moveCmds keys x)"] by simp
  show "- d \<le> delta k (take n (moveCmds keys (- d)))" if "0 \<le> d"
    using t [of "- d"] delta_sign(2) [OF s', of "- d" k] that by (auto split: if_splits)
  assume k: "k \<notin> set keys"
  have "delta1 k c = 0" if "c \<in> set (take n (moveCmds keys d))" for c
    using moveCmds_mem [OF in_set_takeD [OF that]] k by auto
  then have m: "map (delta1 k) (take n (moveCmds keys d)) = map (\<lambda>_. 0) (take n (moveCmds keys d))" by (intro map_cong) auto
  show "delta k (take n (moveCmds keys d)) = 0" unfolding delta_def m by simp
qed

text \<open>A counter that will not expire before \<open>tend\<close>.\<close>

definition durable :: "int \<Rightarrow> cell option \<Rightarrow> bool" where
  "durable tend c \<longleftrightarrow> is_counter c \<and> (case cell_exp c of None \<Rightarrow> True | Some u \<Rightarrow> tend < u)"

lemma durable_simps [simp]:
  "durable tend None" "durable tend (Some (int_cell n None))"
  "durable tend (Some (int_cell n (Some u))) \<longleftrightarrow> tend < u"
  by (simp_all add: durable_def)

lemma durable_lapse: "durable tend c \<Longrightarrow> t \<le> tend \<Longrightarrow> lapse t c = c"
  by (auto simp: durable_def lapse_def cell_exp_def split: option.splits prod.splits)

definition window :: "int \<Rightarrow> int \<Rightarrow> int \<Rightarrow> bool" where
  "window t0 t tend \<longleftrightarrow> t0 \<le> t \<and> t \<le> tend \<and> tend < t0 + DAY_KEY_TTL_SECONDS * 1000"

context redis
begin

lemma move_exec:
  assumes "wf s" "window t0 t tend" "c \<in> set (moveCmds keys d)" and "srv t c s = (r, s')"
    and dur: "\<forall>j\<in>K. durable tend (view t s j)" and "set keys \<subseteq> K"
  shows "wf s'" and "\<forall>j\<in>K. durable tend (view t s' j)"
    and "\<forall>j\<in>K. counter (view t s' j) = counter (view t s j) + delta1 j c"
    and "c = [''INCRBY'', k, show_int d] \<Longrightarrow> replyInt r = Some (counter (view t s' k))"
proof -
  have s': "s' = snd (srv t c s)" "r = fst (srv t c s)" using assms(4) by simp_all
  show "wf s'" using srv_wf [OF assms(1)] s' by simp
  obtain j where j: "j \<in> K" and c: "c = [''INCRBY'', j, show_int d] \<or> c = [''EXPIRE'', j, show_int DAY_KEY_TTL_SECONDS]"
    using moveCmds_mem [OF assms(3)] assms(6) by blast
  have n: "cell_int (view t s j) = Some (counter (view t s j))"
    using dur j is_counter_int by (auto simp: durable_def)
  have ttl: "0 < DAY_KEY_TTL_SECONDS" by (simp add: DAY_KEY_TTL_SECONDS_def)
  consider (incr) "c = [''INCRBY'', j, show_int d]"
    | (none) "c = [''EXPIRE'', j, show_int DAY_KEY_TTL_SECONDS]" "view t s j = None"
    | (some) v e where "c = [''EXPIRE'', j, show_int DAY_KEY_TTL_SECONDS]" "view t s j = Some (v, e)"
    using c by (cases "view t s j") auto
  then have "(\<forall>i\<in>K. durable tend (view t s' i)) \<and>
    (\<forall>i\<in>K. counter (view t s' i) = counter (view t s i) + delta1 i c) \<and>
    (c = [''INCRBY'', k, show_int d] \<longrightarrow> replyInt r = Some (counter (view t s' k)))"
  proof cases
    case incr
    then have v: "view t s' = (view t s)(j \<mapsto> int_cell (counter (view t s j) + d) (cell_exp (view t s j)))"
      using incrby_view [OF assms(1) n] s' by simp
    moreover have "r = Result (RInt (counter (view t s j) + d))"
      using incrby_reply [OF assms(1) n] s' incr by simp
    moreover have "durable tend (Some (int_cell (counter (view t s j) + d) (cell_exp (view t s j))))"
      using dur j by (auto simp: durable_def)
    ultimately show ?thesis using dur incr by (auto simp: replyInt_def)
  next
    case none
    then show ?thesis using expire_missing [OF assms(1) ttl none(2)] s' dur by auto
  next
    case (some v e)
    then have v: "view t s' = (view t s)(j \<mapsto> (v, Some (t + DAY_KEY_TTL_SECONDS * 1000)))"
      using expire_view [OF assms(1) ttl] s' by simp
    have "tend < t + DAY_KEY_TTL_SECONDS * 1000" using assms(2) by (simp add: window_def)
    moreover have "is_counter (Some (v, u)) = is_counter (view t s j)"
      "counter (Some (v, u)) = counter (view t s j)" for u
      using some by (auto simp: is_counter_def counter_def cell_int_def split: kval.splits)
    ultimately show ?thesis using dur j v some by (auto simp: durable_def)
  qed
  then show "\<forall>j\<in>K. durable tend (view t s' j)"
    and "\<forall>j\<in>K. counter (view t s' j) = counter (view t s j) + delta1 j c"
    and "c = [''INCRBY'', k, show_int d] \<Longrightarrow> replyInt r = Some (counter (view t s' k))"
    by blast+
qed

end

lemma incrTotals_length: "incrTotals rs keys off = Inr totals \<Longrightarrow> length totals = length keys"
  by (induction keys arbitrary: off totals) (auto split: sum.splits)

lemma move_keys_durable:
  "durable tend c \<Longrightarrow> is_counter c"
  by (simp add: durable_def)

context redis
begin

text \<open>The same for any run of such commands.\<close>

lemma moves_exec:
  assumes "wf s" "window t0 t tend" "\<forall>j\<in>K. durable tend (view t s j)" "set keys \<subseteq> K"
    and "set cs \<subseteq> set (moveCmds keys d)"
  shows "wf (snd (execAll srv t cs s)) \<and> (\<forall>j\<in>K. durable tend (view t (snd (execAll srv t cs s)) j)) \<and>
    (\<forall>j\<in>K. counter (view t (snd (execAll srv t cs s)) j) = counter (view t s j) + delta j cs)"
  using assms
proof (induction cs arbitrary: s)
  case (Cons c cs)
  obtain r s1 where s1: "srv t c s = (r, s1)" by (cases "srv t c s")
  have c: "c \<in> set (moveCmds keys d)" using Cons.prems(5) by simp
  note m = move_exec [OF Cons.prems(1,2) c s1 Cons.prems(3,4)]
  have sub: "set cs \<subseteq> set (moveCmds keys d)" using Cons.prems(5) by simp
  from Cons.IH [OF m(1) Cons.prems(2) m(2) Cons.prems(4) sub] m(3)
  show ?case by (simp add: s1 case_prod_unfold)
qed simp

text \<open>What \<open>addToDays\<close> leaves behind, whatever the network did: some first commands ran, and all of them
  when it answered.\<close>

lemma addToDays_any:
  assumes "wf (kvs w)" "window t0 (clock w) tend" "\<forall>j\<in>K. durable tend (view (clock w) (kvs w) j)"
    and "set keys \<subseteq> K" and "addToDays srv keys d w = (res, w')"
  obtains n where "wf (kvs w')" "\<forall>j\<in>K. durable tend (view (clock w) (kvs w') j)" "clock w' = clock w" "env w' = env w"
    "\<forall>j\<in>K. counter (view (clock w) (kvs w') j) = counter (view (clock w) (kvs w) j) + delta j (take n (moveCmds keys d))"
    "\<And>ts. res = Inr ts \<Longrightarrow> length (moveCmds keys d) \<le> n \<and> length ts = length keys"
proof -
  have m: "moveCmds keys d = concat (map (\<lambda>k. incrCmds k d) keys)" by (simp add: moveCmds_def)
  obtain n where n: "kvs w' = snd (execAll srv (clock w) (take n (moveCmds keys d)) (kvs w))" "clock w' = clock w" "env w' = env w"
    "\<And>ts. res = Inr ts \<Longrightarrow> length (moveCmds keys d) \<le> n"
  proof (cases "\<exists>j ns. nets w = Lost j # ns")
    case True
    then obtain j ns where "nets w = Lost j # ns" by blast
    then show ?thesis using that [of j] assms(5) by (auto simp: addToDays_def pipeline_def m)
  next
    case False
    then show ?thesis using that [of "length (moveCmds keys d)"] assms(5)
      by (auto simp: addToDays_def pipeline_def m split: list.splits net.splits prod.splits)
  qed
  have len: "\<And>ts. res = Inr ts \<Longrightarrow> length ts = length keys"
    using assms(5) incrTotals_length by (auto simp: addToDays_def split: prod.splits sum.splits)
  have "set (take n (moveCmds keys d)) \<subseteq> set (moveCmds keys d)" by (rule set_take_subset)
  from moves_exec [OF assms(1-4) this] n len show ?thesis using that [of n] by auto
qed

end

end
