(* ===== verification/CapsConcurrent.thy ===== *)
theory CapsConcurrent
  imports Caps KvMoves
begin

text \<open>
  Many deposits at once.  Each request runs \<open>checkCaps\<close> of lib/caps.ts and perhaps its
  \<open>release\<close>; a pipeline is not atomic, so the requests interleave command by command, the clock
  moves, and a pipeline may break off after any of its commands with its reply lost.  The counter
  then holds exactly what the executed commands added, and the escrows that were let through never
  add up to more than the day's cap, nor one sender's to more than the sender's.
\<close>

record cap_req =
  amount :: int
  asked_at :: int
  sender :: "string option"

datatype phase = Idle | Reserving | Holding | Returning | Finished

text \<open>A request in flight: what it sent that ran, what it has still to send, the replies so far.\<close>

record flight =
  phase :: phase
  ran :: "string list list"
  todo :: "string list list"
  replies :: "reply list"

record 'k sys =
  now_at :: int
  shared :: 'k
  flights :: "nat \<Rightarrow> flight"

definition req_keys :: "string \<Rightarrow> cap_req \<Rightarrow> string list" where
  "req_keys net r = capKeys (asked_at r) (sender r) net"

inductive cap_step :: "'k server \<Rightarrow> caps_config \<Rightarrow> string \<Rightarrow> (nat \<Rightarrow> cap_req) \<Rightarrow> nat set \<Rightarrow> int \<Rightarrow> 'k sys \<Rightarrow> 'k sys \<Rightarrow> bool"
  for srv caps net reqs ids tend where
  tick: "now_at s \<le> t \<Longrightarrow> t \<le> tend \<Longrightarrow> cap_step srv caps net reqs ids tend s (s\<lparr>now_at := t\<rparr>)"
| ask: "i \<in> ids \<Longrightarrow> phase (flights s i) = Idle \<Longrightarrow> localRefusal (amount (reqs i)) caps = None \<Longrightarrow>
    cap_step srv caps net reqs ids tend s (s\<lparr>flights := (flights s)(i :=
      (flights s i)\<lparr>phase := Reserving, todo := moveCmds (req_keys net (reqs i)) (amount (reqs i))\<rparr>)\<rparr>)"
| run: "i \<in> ids \<Longrightarrow> phase (flights s i) = Reserving \<Longrightarrow> todo (flights s i) = c # cs \<Longrightarrow>
    srv (now_at s) c (shared s) = (r, k') \<Longrightarrow>
    cap_step srv caps net reqs ids tend s (s\<lparr>shared := k', flights := (flights s)(i :=
      (flights s i)\<lparr>ran := ran (flights s i) @ [c], todo := cs, replies := replies (flights s i) @ [r]\<rparr>)\<rparr>)"
| break_off: "i \<in> ids \<Longrightarrow> phase (flights s i) \<in> {Reserving, Returning} \<Longrightarrow>
    cap_step srv caps net reqs ids tend s (s\<lparr>flights := (flights s)(i := (flights s i)\<lparr>phase := Finished\<rparr>)\<rparr>)"
| allow: "i \<in> ids \<Longrightarrow> phase (flights s i) = Reserving \<Longrightarrow> todo (flights s i) = [] \<Longrightarrow>
    incrTotals (replies (flights s i)) (req_keys net (reqs i)) 0 = Inr totals \<Longrightarrow> dayRefusal caps totals = None \<Longrightarrow>
    cap_step srv caps net reqs ids tend s (s\<lparr>flights := (flights s)(i := (flights s i)\<lparr>phase := Holding\<rparr>)\<rparr>)"
| refuse: "i \<in> ids \<Longrightarrow> phase (flights s i) = Reserving \<Longrightarrow> todo (flights s i) = [] \<Longrightarrow>
    incrTotals (replies (flights s i)) (req_keys net (reqs i)) 0 = Inr totals \<Longrightarrow> dayRefusal caps totals \<noteq> None \<Longrightarrow>
    cap_step srv caps net reqs ids tend s (s\<lparr>flights := (flights s)(i := (flights s i)\<lparr>phase := Returning,
      todo := moveCmds (req_keys net (reqs i)) (- amount (reqs i))\<rparr>)\<rparr>)"
| release: "i \<in> ids \<Longrightarrow> phase (flights s i) = Holding \<Longrightarrow>
    cap_step srv caps net reqs ids tend s (s\<lparr>flights := (flights s)(i := (flights s i)\<lparr>phase := Returning,
      todo := moveCmds (req_keys net (reqs i)) (- amount (reqs i))\<rparr>)\<rparr>)"
| give_back: "i \<in> ids \<Longrightarrow> phase (flights s i) = Returning \<Longrightarrow> todo (flights s i) = c # cs \<Longrightarrow>
    srv (now_at s) c (shared s) = (r, k') \<Longrightarrow>
    cap_step srv caps net reqs ids tend s (s\<lparr>shared := k', flights := (flights s)(i :=
      (flights s i)\<lparr>ran := ran (flights s i) @ [c], todo := cs\<rparr>)\<rparr>)"

definition quiet :: flight where
  "quiet = \<lparr>phase = Idle, ran = [], todo = [], replies = []\<rparr>"

inductive cap_reach :: "'k server \<Rightarrow> caps_config \<Rightarrow> string \<Rightarrow> (nat \<Rightarrow> cap_req) \<Rightarrow> nat set \<Rightarrow> int \<Rightarrow> 'k sys \<Rightarrow> 'k sys \<Rightarrow> bool"
  for srv caps net reqs ids tend s0 where
  reach_start: "cap_reach srv caps net reqs ids tend s0 s0"
| reach_step: "cap_reach srv caps net reqs ids tend s0 s \<Longrightarrow> cap_step srv caps net reqs ids tend s s' \<Longrightarrow>
    cap_reach srv caps net reqs ids tend s0 s'"

subsection \<open>The total a request was answered for a key\<close>

fun total_at :: "string list \<Rightarrow> reply list \<Rightarrow> string \<Rightarrow> int option" where
  "total_at [] rs j = None"
| "total_at (k # ks) rs j =
     (if k = j then (case rs of [] \<Rightarrow> None | r # _ \<Rightarrow> replyInt r) else total_at ks (drop 2 rs) j)"

lemma total_at_run:
  assumes "cs @ c # ds = moveCmds keys d" and "length rs = length cs" and "distinct keys"
  shows "total_at keys (rs @ [r]) j =
    (if c = [''INCRBY'', j, show_int d] then replyInt r else total_at keys rs j)"
  using assms
proof (induction keys arbitrary: cs rs)
  case Nil
  then show ?case by (simp add: moveCmds_def)
next
  case (Cons k ks)
  have split: "moveCmds (k # ks) d = [''INCRBY'', k, show_int d] # [''EXPIRE'', k, show_int DAY_KEY_TTL_SECONDS] # moveCmds ks d"
    by (simp add: moveCmds_def incrCmds_def)
  consider "cs = []" | x where "cs = [x]" | x y cs' where "cs = x # y # cs'"
    by (metis list.exhaust)
  then show ?case
  proof cases
    case 1
    then show ?thesis using Cons.prems split by auto
  next
    case (2 x)
    then obtain r0 where "rs = [r0]" using Cons.prems(2) by (metis length_0_conv length_Suc_conv)
    then show ?thesis using Cons.prems split 2 by auto
  next
    case (3 x y cs')
    then obtain r0 r1 rs' where rs: "rs = r0 # r1 # rs'" "length rs' = length cs'"
      using Cons.prems(2) by (auto simp: length_Suc_conv)
    have "cs' @ c # ds = moveCmds ks d" "distinct ks" using Cons.prems split 3 by auto
    note IH = Cons.IH [OF this(1) rs(2) this(2)]
    have "c \<noteq> [''INCRBY'', k, show_int d]"
    proof
      assume "c = [''INCRBY'', k, show_int d]"
      then have "c \<in> set (moveCmds ks d)" using \<open>cs' @ c # ds = moveCmds ks d\<close>
        by (metis in_set_conv_decomp)
      then show False using moveCmds_mem [of c ks d] \<open>c = _\<close> Cons.prems(3) by auto
    qed
    then show ?thesis using rs IH by (auto simp: 3)
  qed
qed

lemma readTotal_Inr: "readTotal rs off = Inr n \<longleftrightarrow> off < length rs \<and> replyInt (rs ! off) = Some n"
  by (auto simp: readTotal_def replyInt_def split: reply.splits option.splits)

lemma incrTotals_total_at:
  assumes "incrTotals rs keys off = Inr totals" and "distinct keys" and "p < length keys"
  shows "total_at keys (drop off rs) (keys ! p) = Some (totals ! p)"
  using assms
proof (induction keys arbitrary: off totals p)
  case (Cons k ks)
  obtain n ns where n: "readTotal rs off = Inr n" "incrTotals rs ks (off + 2) = Inr ns" "totals = n # ns"
    using Cons.prems(1) by (auto split: sum.splits)
  then have off: "off < length rs" "replyInt (rs ! off) = Some n" by (auto simp: readTotal_Inr)
  then have d: "drop off rs = rs ! off # drop (Suc off) rs" by (simp add: Cons_nth_drop_Suc)
  show ?case
  proof (cases p)
    case 0
    then show ?thesis using d off n by simp
  next
    case (Suc q)
    then have "k \<noteq> ks ! q" using Cons.prems by auto
    then show ?thesis using Suc Cons.prems n Cons.IH [OF n(2), of q] by (simp add: add.commute)
  qed
qed simp


subsection \<open>The invariant\<close>

definition good :: "string list \<Rightarrow> flight \<Rightarrow> int \<Rightarrow> string \<Rightarrow> bool" where
  "good keys f m k \<longleftrightarrow> (case total_at keys (replies f) k of Some n \<Rightarrow> n \<le> m | None \<Rightarrow> False)"

text \<open>One request: its phase, what ran and what is left agree.\<close>

definition flight_ok :: "caps_config \<Rightarrow> string list \<Rightarrow> int \<Rightarrow> flight \<Rightarrow> bool" where
  "flight_ok caps keys a f \<longleftrightarrow>
     (\<exists>x. ran f @ x = moveCmds keys a @ moveCmds keys (- a)) \<and>
     (phase f = Idle \<longrightarrow> ran f = [] \<and> replies f = []) \<and>
     (phase f \<noteq> Idle \<longrightarrow> 0 < a) \<and>
     (phase f = Reserving \<longrightarrow> ran f @ todo f = moveCmds keys a \<and> length (replies f) = length (ran f)) \<and>
     (phase f = Holding \<longrightarrow> ran f = moveCmds keys a \<and>
        (\<exists>totals. incrTotals (replies f) keys 0 = Inr totals \<and> dayRefusal caps totals = None)) \<and>
     (phase f = Returning \<longrightarrow> ran f @ todo f = moveCmds keys a @ moveCmds keys (- a) \<and>
        length (moveCmds keys a) \<le> length (ran f))"

text \<open>What holds of every reachable state; \<open>K\<close> is the set of keys the requests name.\<close>

definition cap_inv :: "(int \<Rightarrow> 'k \<Rightarrow> string \<Rightarrow> cell option) \<Rightarrow> ('k \<Rightarrow> bool) \<Rightarrow> caps_config \<Rightarrow> string \<Rightarrow>
    (nat \<Rightarrow> cap_req) \<Rightarrow> nat set \<Rightarrow> int \<Rightarrow> int \<Rightarrow> 'k sys \<Rightarrow> bool" where
  "cap_inv view ok caps net reqs ids t0 tend s \<longleftrightarrow>
     ok (shared s) \<and> window t0 (now_at s) tend \<and>
     (\<forall>i\<in>ids. flight_ok caps (req_keys net (reqs i)) (amount (reqs i)) (flights s i)) \<and>
     (\<forall>k\<in>(\<Union>i\<in>ids. set (req_keys net (reqs i))).
        durable tend (view (now_at s) (shared s) k) \<and>
        counter (view (now_at s) (shared s) k) = (\<Sum>i\<in>ids. delta k (ran (flights s i))) \<and>
        (\<forall>m\<ge>0. (\<Sum>i\<in>ids. if good (req_keys net (reqs i)) (flights s i) m k
            then delta k (ran (flights s i)) else 0) \<le> m))"

lemma sum_upd:
  fixes f :: "nat \<Rightarrow> 'b \<Rightarrow> int"
  assumes "finite ids" "i \<in> ids"
  shows "(\<Sum>j\<in>ids. f j ((g(i := x)) j)) = (\<Sum>j\<in>ids. f j (g j)) - f i (g i) + f i x"
proof -
  have "(\<Sum>j\<in>ids. f j ((g(i := x)) j)) = f i x + (\<Sum>j\<in>ids - {i}. f j (g j))"
    using assms by (subst sum.remove [of _ i]) (auto intro!: sum.cong)
  moreover have "(\<Sum>j\<in>ids. f j (g j)) = f i (g i) + (\<Sum>j\<in>ids - {i}. f j (g j))"
    using assms by (simp add: sum.remove)
  ultimately show ?thesis by simp
qed

lemma flight_delta_nonneg:
  "flight_ok caps keys a f \<Longrightarrow> distinct keys \<Longrightarrow> 0 \<le> delta k (ran f)"
proof (cases "phase f = Idle")
  case False
  assume ok: "flight_ok caps keys a f" and d: "distinct keys"
  with False obtain x where "ran f @ x = moveCmds keys a @ moveCmds keys (- a)" "0 < a"
    by (auto simp: flight_ok_def)
  then show ?thesis using delta_prefix_nonneg [of "ran f" x keys a k] d by simp
qed (simp add: flight_ok_def)

lemma distinct_req_keys [simp]: "distinct (req_keys net r)"
  by (simp add: req_keys_def)

definition won :: "string list \<Rightarrow> int \<Rightarrow> string \<Rightarrow> flight \<Rightarrow> int" where
  "won keys m k f = (if good keys f m k then delta k (ran f) else 0)"

lemma cap_inv_iff:
  "cap_inv view ok caps net reqs ids t0 tend s \<longleftrightarrow>
     ok (shared s) \<and> window t0 (now_at s) tend \<and>
     (\<forall>i\<in>ids. flight_ok caps (req_keys net (reqs i)) (amount (reqs i)) (flights s i)) \<and>
     (\<forall>k\<in>(\<Union>i\<in>ids. set (req_keys net (reqs i))).
        durable tend (view (now_at s) (shared s) k) \<and>
        counter (view (now_at s) (shared s) k) = (\<Sum>i\<in>ids. delta k (ran (flights s i))) \<and>
        (\<forall>m\<ge>0. (\<Sum>i\<in>ids. won (req_keys net (reqs i)) m k (flights s i)) \<le> m))"
  by (simp add: cap_inv_def won_def)

text \<open>A step that changes no command and no reply of any request keeps both sums.\<close>

lemma cap_inv_relabel:
  assumes "cap_inv view ok caps net reqs ids t0 tend s" and "ran f' = ran (flights s i)"
    and "replies f' = replies (flights s i)"
    and "flight_ok caps (req_keys net (reqs i)) (amount (reqs i)) f'"
  shows "cap_inv view ok caps net reqs ids t0 tend (s\<lparr>flights := (flights s)(i := f')\<rparr>)"
proof -
  have "delta k (ran (((flights s)(i := f')) j)) = delta k (ran (flights s j))"
    and "won keys m k (((flights s)(i := f')) j) = won keys m k (flights s j)" for j k m keys
    using assms(2,3) by (auto simp: won_def good_def)
  then show ?thesis using assms(1,4) by (auto simp: cap_inv_iff simp del: fun_upd_apply) auto
qed

context redis
begin

text \<open>One executed command of one request, whichever pipeline it belongs to.\<close>

lemma cap_inv_exec:
  assumes inv: "cap_inv view wf caps net reqs ids t0 tend s" and fin: "finite ids" and i: "i \<in> ids"
    and c: "c \<in> set (moveCmds (req_keys net (reqs i)) d)" and r: "srv (now_at s) c (shared s) = (r, k')"
    and ran': "ran f' = ran (flights s i) @ [c]"
    and ok': "flight_ok caps (req_keys net (reqs i)) (amount (reqs i)) f'"
    and won': "\<And>k m n. 0 \<le> m \<Longrightarrow> (c = [''INCRBY'', k, show_int d] \<Longrightarrow> replyInt r = Some n) \<Longrightarrow>
      won (req_keys net (reqs i)) m k f' \<le> won (req_keys net (reqs i)) m k (flights s i) \<or>
      c = [''INCRBY'', k, show_int d] \<and> n \<le> m"
  shows "cap_inv view wf caps net reqs ids t0 tend (s\<lparr>shared := k', flights := (flights s)(i := f')\<rparr>)"
proof -
  define K where "K = (\<Union>i\<in>ids. set (req_keys net (reqs i)))"
  define keys where "keys j = req_keys net (reqs j)" for j
  let ?v = "view (now_at s) (shared s)" and ?v' = "view (now_at s) k'" and ?fl = "(flights s)(i := f')"
  have K: "set (req_keys net (reqs i)) \<subseteq> K" using i by (auto simp: K_def)
  have win: "window t0 (now_at s) tend" and ok: "\<forall>j\<in>ids. flight_ok caps (keys j) (amount (reqs j)) (flights s j)"
    and wf: "wf (shared s)" and dur: "\<forall>k\<in>K. durable tend (?v k)"
    and cnt: "\<forall>k\<in>K. counter (?v k) = (\<Sum>i\<in>ids. delta k (ran (flights s i)))"
    and bnd: "\<forall>k\<in>K. \<forall>m\<ge>0. (\<Sum>i\<in>ids. won (keys i) m k (flights s i)) \<le> m"
    using inv by (auto simp: cap_inv_iff K_def keys_def)
  note ex = move_exec [OF wf win c r dur K]
  have ok2: "\<forall>j\<in>ids. flight_ok caps (keys j) (amount (reqs j)) (?fl j)"
    using ok ok' by (auto simp: keys_def)
  have sum: "(\<Sum>j\<in>ids. delta k (ran (?fl j))) = (\<Sum>j\<in>ids. delta k (ran (flights s j))) + delta1 k c" for k
    using sum_upd [OF fin i, of "\<lambda>_ f. delta k (ran f)" "flights s" f'] ran' by simp
  have cnt': "\<forall>k\<in>K. counter (?v' k) = (\<Sum>j\<in>ids. delta k (ran (?fl j)))"
    using ex(3) cnt sum by simp
  have bnd': "(\<Sum>j\<in>ids. won (keys j) m k (?fl j)) \<le> m" if "k \<in> K" "0 \<le> m" for k m
  proof -
    have upd: "(\<Sum>j\<in>ids. won (keys j) m k (?fl j)) =
        (\<Sum>j\<in>ids. won (keys j) m k (flights s j)) - won (keys i) m k (flights s i) + won (keys i) m k f'"
      by (rule sum_upd [OF fin i, of "\<lambda>j. won (keys j) m k"])
    have old: "(\<Sum>j\<in>ids. won (keys j) m k (flights s j)) \<le> m" using bnd that by blast
    from won' [OF that(2), of k "counter (?v' k)"] ex(4) [of k]
    have "won (keys i) m k f' \<le> won (keys i) m k (flights s i) \<or> counter (?v' k) \<le> m"
      by (auto simp: keys_def)
    then show ?thesis
    proof
      assume "won (keys i) m k f' \<le> won (keys i) m k (flights s i)"
      with upd old show ?thesis by linarith
    next
      assume n: "counter (?v' k) \<le> m"
      have "won (keys j) m k (?fl j) \<le> delta k (ran (?fl j))" if "j \<in> ids" for j
        using flight_delta_nonneg [of caps "keys j" "amount (reqs j)" "?fl j" k] ok2 that
        by (auto simp: won_def keys_def simp del: fun_upd_apply)
      then have "(\<Sum>j\<in>ids. won (keys j) m k (?fl j)) \<le> (\<Sum>j\<in>ids. delta k (ran (?fl j)))"
        by (rule sum_mono)
      also have "\<dots> = counter (?v' k)" using cnt' that(1) by simp
      finally show ?thesis using n by simp
    qed
  qed
  show ?thesis
    unfolding cap_inv_iff K_def [symmetric]
    using ex(1,2) win ok2 cnt' bnd' by (simp add: keys_def del: fun_upd_apply)
qed

end


lemma delta1_other:
  assumes "c \<in> set (moveCmds keys d)" and "c \<noteq> [''INCRBY'', k, show_int d]"
  shows "delta1 k c = 0"
  using moveCmds_mem [OF assms(1)] assms(2) by (auto split: if_splits)

lemma won_nonneg: "flight_ok caps keys a f \<Longrightarrow> distinct keys \<Longrightarrow> 0 \<le> won keys m k f"
  using flight_delta_nonneg by (auto simp: won_def)

lemma suffix_cmd:
  assumes "xs @ c # cs = ms @ bs" and "length ms \<le> length xs"
  shows "c \<in> set bs"
proof -
  have "xs = ms @ drop (length ms) xs"
    using assms by (metis append_eq_append_conv_if append_take_drop_id)
  then have "drop (length ms) xs @ c # cs = bs" using assms(1)
    by (metis append_assoc append_same_eq same_append_eq)
  then show ?thesis by (metis in_set_conv_decomp)
qed

context redis
begin

lemma cap_inv_run:
  assumes inv: "cap_inv view wf caps net reqs ids t0 tend s" and fin: "finite ids" and i: "i \<in> ids"
    and ph: "phase (flights s i) = Reserving" and td: "todo (flights s i) = c # cs"
    and r: "srv (now_at s) c (shared s) = (r, k')"
  shows "cap_inv view wf caps net reqs ids t0 tend (s\<lparr>shared := k', flights := (flights s)(i :=
    (flights s i)\<lparr>ran := ran (flights s i) @ [c], todo := cs, replies := replies (flights s i) @ [r]\<rparr>)\<rparr>)"
proof -
  define keys where "keys = req_keys net (reqs i)"
  define a where "a = amount (reqs i)"
  define f where "f = flights s i"
  define f' where "f' = f\<lparr>ran := ran f @ [c], todo := cs, replies := replies f @ [r]\<rparr>"
  have ok: "flight_ok caps keys a f" using inv i by (auto simp: cap_inv_iff keys_def a_def f_def)
  have sp: "ran f @ c # cs = moveCmds keys a" "length (replies f) = length (ran f)"
    using ok ph td by (auto simp: flight_ok_def f_def)
  have c: "c \<in> set (moveCmds keys a)" using sp(1) by (metis in_set_conv_decomp)
  have d: "distinct keys" by (simp add: keys_def)
  have "\<exists>x. ran f' @ x = moveCmds keys a @ moveCmds keys (- a)"
    using sp(1) by (intro exI [of _ "cs @ moveCmds keys (- a)"]) (simp add: f'_def)
  then have ok': "flight_ok caps keys a f'"
    using ok sp ph by (simp add: flight_ok_def f'_def f_def)
  have won': "won keys m k f' \<le> won keys m k f \<or> c = [''INCRBY'', k, show_int a] \<and> n \<le> m"
    if m: "0 \<le> m" and n: "c = [''INCRBY'', k, show_int a] \<Longrightarrow> replyInt r = Some n" for k m n
  proof (cases "c = [''INCRBY'', k, show_int a]")
    case True
    then have "total_at keys (replies f') k = Some n"
      using total_at_run [OF sp(1) sp(2) d, of r k] n by (simp add: f'_def)
    then show ?thesis using won_nonneg [OF ok d, of m k] True by (auto simp: won_def [of keys m k f'] good_def)
  next
    case False
    then have "total_at keys (replies f') k = total_at keys (replies f) k"
      using total_at_run [OF sp(1) sp(2) d, of r k] by (simp add: f'_def)
    then have "won keys m k f' = won keys m k f"
      using delta1_other [OF c False] by (simp add: won_def good_def f'_def)
    then show ?thesis by simp
  qed
  show ?thesis
    using cap_inv_exec [OF inv fin i, of c a r k' f'] c r ok' won'
    by (simp add: keys_def a_def f'_def f_def)
qed

lemma cap_inv_give_back:
  assumes inv: "cap_inv view wf caps net reqs ids t0 tend s" and fin: "finite ids" and i: "i \<in> ids"
    and ph: "phase (flights s i) = Returning" and td: "todo (flights s i) = c # cs"
    and r: "srv (now_at s) c (shared s) = (r, k')"
  shows "cap_inv view wf caps net reqs ids t0 tend (s\<lparr>shared := k', flights := (flights s)(i :=
    (flights s i)\<lparr>ran := ran (flights s i) @ [c], todo := cs\<rparr>)\<rparr>)"
proof -
  define keys where "keys = req_keys net (reqs i)"
  define a where "a = amount (reqs i)"
  define f where "f = flights s i"
  define f' where "f' = f\<lparr>ran := ran f @ [c], todo := cs\<rparr>"
  have ok: "flight_ok caps keys a f" using inv i by (auto simp: cap_inv_iff keys_def a_def f_def)
  have sp: "ran f @ c # cs = moveCmds keys a @ moveCmds keys (- a)" "length (moveCmds keys a) \<le> length (ran f)"
    and a: "0 < a"
    using ok ph td by (auto simp: flight_ok_def f_def)
  have c: "c \<in> set (moveCmds keys (- a))" by (rule suffix_cmd [OF sp])
  have "\<exists>x. ran f' @ x = moveCmds keys a @ moveCmds keys (- a)"
    using sp(1) by (intro exI [of _ cs]) (simp add: f'_def)
  then have ok': "flight_ok caps keys a f'"
    using ok sp ph by (simp add: flight_ok_def f'_def f_def)
  have "delta1 k c \<le> 0" for k using moveCmds_mem [OF c] a by auto
  then have won': "won keys m k f' \<le> won keys m k f" for m k
    by (simp add: won_def good_def f'_def)
  show ?thesis
    using cap_inv_exec [OF inv fin i, of c "- a" r k' f'] c r ok' won'
    by (simp add: keys_def a_def f'_def f_def)
qed

lemma cap_inv_tick:
  assumes inv: "cap_inv view wf caps net reqs ids t0 tend s" and t: "now_at s \<le> t" "t \<le> tend"
  shows "cap_inv view wf caps net reqs ids t0 tend (s\<lparr>now_at := t\<rparr>)"
proof -
  have wf: "wf (shared s)" using inv by (simp add: cap_inv_iff)
  have "view t (shared s) k = view (now_at s) (shared s) k"
    if "durable tend (view (now_at s) (shared s) k)" for k
    using view_lapse [OF wf t(1), of k] durable_lapse [OF that t(2)] by simp
  then show ?thesis using inv t by (simp add: cap_inv_iff window_def)
qed

lemma cap_inv_step:
  assumes "cap_step srv caps net reqs ids tend s s'" and "finite ids"
    and inv: "cap_inv view wf caps net reqs ids t0 tend s"
  shows "cap_inv view wf caps net reqs ids t0 tend s'"
proof -
  have ok: "flight_ok caps (req_keys net (reqs i)) (amount (reqs i)) (flights s i)" if "i \<in> ids" for i
    using inv that by (auto simp: cap_inv_iff)
  show ?thesis using assms(1)
  proof cases
    case (tick t)
    then show ?thesis using cap_inv_tick [OF inv] by simp
  next
    case (run i c cs r k')
    then show ?thesis using cap_inv_run [OF inv assms(2)] by simp
  next
    case (give_back i c cs r k')
    then show ?thesis using cap_inv_give_back [OF inv assms(2)] by simp
  next
    case (ask i)
    then show ?thesis using ok [of i] localRefusal_None [of "amount (reqs i)" caps]
      by (auto intro!: cap_inv_relabel [OF inv] simp: flight_ok_def)
  next
    case (break_off i)
    then show ?thesis using ok [of i]
      by (auto intro!: cap_inv_relabel [OF inv] simp: flight_ok_def)
  next
    case (allow i totals)
    then show ?thesis using ok [of i]
      by (auto intro!: cap_inv_relabel [OF inv] simp: flight_ok_def)
  next
    case (refuse i totals)
    then show ?thesis using ok [of i]
      by (auto intro!: cap_inv_relabel [OF inv] simp: flight_ok_def)
  next
    case (release i)
    then show ?thesis using ok [of i]
      by (auto intro!: cap_inv_relabel [OF inv] simp: flight_ok_def)
  qed
qed

lemma cap_inv_reach:
  assumes "cap_reach srv caps net reqs ids tend s0 s" and "finite ids"
    and "cap_inv view wf caps net reqs ids t0 tend s0"
  shows "cap_inv view wf caps net reqs ids t0 tend s"
  using assms by (induction rule: cap_reach.induct) (auto intro: cap_inv_step)

end

subsection \<open>The theorems\<close>

definition fresh_sys :: "int \<Rightarrow> kv sys" where
  "fresh_sys t0 = \<lparr>now_at = t0, shared = empty_kv, flights = (\<lambda>_. quiet)\<rparr>"

lemma cap_inv_fresh:
  assumes "t0 \<le> tend" "tend < t0 + DAY_KEY_TTL_SECONDS * 1000"
  shows "cap_inv cell kv_wf caps net reqs ids t0 tend (fresh_sys t0)"
proof -
  have "won keys m k quiet = 0" for keys m k by (simp add: won_def quiet_def)
  then show ?thesis using assms by (simp add: cap_inv_iff fresh_sys_def window_def) (simp add: quiet_def flight_ok_def)
qed

lemma day_not_sender: "dayKey now net \<noteq> senderDayKey now' s net"
proof
  assume "dayKey now net = senderDayKey now' s net"
  then have "length (dayKey now net) = length (senderDayKey now' s net)" by simp
  then show False by (simp add: dayKey_def senderDayKey_def)
qed

lemma held_within:
  assumes inv: "cap_inv view ok caps net reqs ids t0 tend s" and fin: "finite ids" and m: "0 \<le> m"
    and H: "H = {i \<in> ids. phase (flights s i) = Holding \<and> k \<in> set (req_keys net (reqs i))}"
    and lim: "\<And>i totals p. i \<in> H \<Longrightarrow> dayRefusal caps totals = None \<Longrightarrow>
      length totals = length (req_keys net (reqs i)) \<Longrightarrow> req_keys net (reqs i) ! p = k \<Longrightarrow>
      p < length totals \<Longrightarrow> totals ! p \<le> m"
  shows "(\<Sum>i\<in>H. amount (reqs i)) \<le> m"
proof (cases "H = {}")
  case False
  then obtain i0 where "i0 \<in> ids" "k \<in> set (req_keys net (reqs i0))" using H by auto
  then have bnd: "(\<Sum>i\<in>ids. won (req_keys net (reqs i)) m k (flights s i)) \<le> m"
    using inv m by (auto simp: cap_inv_iff)
  have ok: "flight_ok caps (req_keys net (reqs i)) (amount (reqs i)) (flights s i)" if "i \<in> ids" for i
    using inv that by (auto simp: cap_inv_iff)
  have "won (req_keys net (reqs i)) m k (flights s i) = amount (reqs i)" if i: "i \<in> H" for i
  proof -
    from i H have ph: "i \<in> ids" "phase (flights s i) = Holding" and k: "k \<in> set (req_keys net (reqs i))" by auto
    then obtain totals where t: "incrTotals (replies (flights s i)) (req_keys net (reqs i)) 0 = Inr totals"
        "dayRefusal caps totals = None" and r: "ran (flights s i) = moveCmds (req_keys net (reqs i)) (amount (reqs i))"
      using ok by (auto simp: flight_ok_def)
    obtain p where p: "p < length (req_keys net (reqs i))" "req_keys net (reqs i) ! p = k"
      using k by (auto simp: in_set_conv_nth)
    have len: "length totals = length (req_keys net (reqs i))" using incrTotals_length [OF t(1)] .
    have "total_at (req_keys net (reqs i)) (replies (flights s i)) k = Some (totals ! p)"
      using incrTotals_total_at [OF t(1) distinct_req_keys p(1)] p(2) by simp
    moreover have "totals ! p \<le> m" using lim [OF i t(2) len p(2)] p(1) len by simp
    ultimately show ?thesis using k by (simp add: won_def good_def r delta_moveCmds)
  qed
  then have "(\<Sum>i\<in>H. amount (reqs i)) = (\<Sum>i\<in>H. won (req_keys net (reqs i)) m k (flights s i))" by simp
  also have "\<dots> \<le> (\<Sum>i\<in>ids. won (req_keys net (reqs i)) m k (flights s i))"
    by (rule sum_mono2) (use fin H won_nonneg [OF ok distinct_req_keys] in auto)
  finally show ?thesis using bnd by simp
qed (simp add: m)




subsection \<open>A run that holds an escrow\<close>

definition one_dollar :: "nat \<Rightarrow> cap_req" where
  "one_dollar i = \<lparr>amount = 10000000, asked_at = 1791460800000, sender = Some ''GA''\<rparr>"

lemma one_dollar_run:
  "\<exists>s. cap_reach runOne pilot_caps ''mainnet'' one_dollar {0} 1791460900000 (fresh_sys 1791460800000) s \<and>
     phase (flights s 0) = Holding"
proof -
  define t where "t = (1791460800000::int)"
  define d where "d = dayKey t ''mainnet''"
  define own where "own = senderDayKey t ''GA'' ''mainnet''"
  define a where "a = (10000000::int)"
  define cmds where "cmds = moveCmds [d, own] a"
  have keys: "req_keys ''mainnet'' (one_dollar i) = [d, own]" for i
    by (simp add: req_keys_def capKeys_def one_dollar_def d_def own_def t_def)
  define fl where "fl n rs = (\<lambda>_::nat. quiet)(0 := \<lparr>phase = Reserving, ran = take n cmds, todo = drop n cmds, replies = rs\<rparr>)" for n rs
  define S where "S n rs k = \<lparr>now_at = t, shared = k, flights = fl n rs\<rparr>" for n rs and k :: kv
  let ?R = "cap_reach runOne pilot_caps ''mainnet'' one_dollar {0} 1791460900000 (fresh_sys 1791460800000)"
  have len: "length cmds = 4" by (simp add: cmds_def moveCmds_def incrCmds_def)
  have lr: "localRefusal a pilot_caps = None"
    by (simp add: localRefusal_None pilot_caps_def capsFromEnv_def Let_def usdcEnv_def USDC_STROOPS_def
        DEFAULT_MAINNET_DROP_USDC_def a_def)
  have "cap_step runOne pilot_caps ''mainnet'' one_dollar {0} 1791460900000 (fresh_sys 1791460800000) (S 0 [] empty_kv)"
    using cap_step.ask [of 0 "{0}" "fresh_sys 1791460800000" one_dollar pilot_caps runOne "''mainnet''" 1791460900000]
      lr keys [of 0]
    by (simp add: S_def fl_def fresh_sys_def quiet_def one_dollar_def a_def t_def cmds_def)
  then have r0: "?R (S 0 [] empty_kv)" using cap_reach.intros by metis
  have step: "?R (S (Suc n) (rs @ [fst (runOne t (cmds ! n) k)]) (snd (runOne t (cmds ! n) k)))"
    if "?R (S n rs k)" "n < 4" for n rs k
  proof -
    define c where "c = cmds ! n"
    define f where "f = \<lparr>phase = Reserving, ran = take n cmds, todo = drop n cmds, replies = rs\<rparr>"
    define r where "r = fst (runOne t c k)"
    define k' where "k' = snd (runOne t c k)"
    have dr: "drop n cmds = c # drop (Suc n) cmds" and tk: "take (Suc n) cmds = take n cmds @ [c]"
      using that(2) len by (simp_all add: c_def Cons_nth_drop_Suc take_Suc_conv_app_nth)
    have f: "flights (S n rs k) 0 = f" by (simp add: S_def fl_def f_def)
    have "S (Suc n) (rs @ [r]) k' = (S n rs k)\<lparr>shared := k', flights := (flights (S n rs k))(0 :=
        f\<lparr>ran := ran f @ [c], todo := drop (Suc n) cmds, replies := replies f @ [r]\<rparr>)\<rparr>"
      by (simp add: S_def fl_def f_def tk)
    moreover have "cap_step runOne pilot_caps ''mainnet'' one_dollar {0} 1791460900000 (S n rs k)
       ((S n rs k)\<lparr>shared := k', flights := (flights (S n rs k))(0 :=
        f\<lparr>ran := ran f @ [c], todo := drop (Suc n) cmds, replies := replies f @ [r]\<rparr>)\<rparr>)"
      unfolding f [symmetric]
    proof (rule cap_step.run)
      show "phase (flights (S n rs k) 0) = Reserving" by (simp add: f f_def)
      show "todo (flights (S n rs k) 0) = c # drop (Suc n) cmds" by (simp only: f f_def dr flight.select_convs)
      show "runOne (now_at (S n rs k)) c (shared (S n rs k)) = (r, k')" by (simp add: S_def r_def k'_def)
    qed simp
    ultimately have "cap_step runOne pilot_caps ''mainnet'' one_dollar {0} 1791460900000 (S n rs k) (S (Suc n) (rs @ [r]) k')"
      by (rule ssubst)
    then have "?R (S (Suc n) (rs @ [r]) k')" by (rule cap_reach.intros(2) [OF that(1)])
    then show ?thesis unfolding r_def k'_def c_def .
  qed
  define k1 where "k1 = snd (runOne t (cmds ! 0) empty_kv)"
  define k2 where "k2 = snd (runOne t (cmds ! 1) k1)"
  define k3 where "k3 = snd (runOne t (cmds ! 2) k2)"
  define q0 q1 q2 q3 where "q0 = fst (runOne t (cmds ! 0) empty_kv)" and "q1 = fst (runOne t (cmds ! 1) k1)"
    and "q2 = fst (runOne t (cmds ! 2) k2)" and "q3 = fst (runOne t (cmds ! 3) k3)"
  note q = q0_def q2_def
  define k4 where "k4 = snd (runOne t (cmds ! 3) k3)"
  have n: "Suc 0 = 1" "Suc 1 = 2" "Suc 2 = 3" "Suc 3 = 4" by simp_all
  have r1: "?R (S 1 [q0] k1)" using step [OF r0] by (simp only: k1_def q0_def n append_Nil)
  have r2: "?R (S 2 [q0, q1] k2)" using step [OF r1] by (simp only: k2_def q1_def n append_Cons append_Nil)
  have r3: "?R (S 3 [q0, q1, q2] k3)" using step [OF r2] by (simp only: k3_def q2_def n append_Cons append_Nil)
  have r4: "?R (S 4 [q0, q1, q2, q3] k4)" using step [OF r3] by (simp only: k4_def q3_def n append_Cons append_Nil)
  have c: "cmds ! 0 = [''INCRBY'', d, show_int a]" "cmds ! 1 = [''EXPIRE'', d, show_int DAY_KEY_TTL_SECONDS]"
    "cmds ! 2 = [''INCRBY'', own, show_int a]"
    by (simp_all add: cmds_def moveCmds_def incrCmds_def)
  have q0: "q0 = Result (RInt a)" using fake.incrby_reply [of empty_kv t d 0 a] q(1) c by simp
  have w: "kv_wf k1" "kv_wf k2" by (simp_all add: k1_def k2_def wf_runOne)
  have "d \<noteq> own" by (simp add: d_def own_def key_simps)
  then have v1: "cell t k1 own = None" "cell t k1 d = Some (int_cell a None)"
    using fake.incrby_view [of empty_kv t d 0 a] c by (simp_all add: k1_def)
  have "cell t k2 own = None"
    using fake.expire_view [OF w(1), of DAY_KEY_TTL_SECONDS t d] v1 c \<open>d \<noteq> own\<close>
    by (simp add: k2_def int_cell_def DAY_KEY_TTL_SECONDS_def)
  then have q2: "q2 = Result (RInt a)" using fake.incrby_reply [OF w(2), of t own 0 a] q(2) c by simp
  have "incrTotals [q0, q1, q2, q3] [d, own] 0 = Inr [a, a]"
    by (simp add: q0 q2 readTotal_def replyInt_def)
  moreover have "dayRefusal pilot_caps [a, a] = None"
    by (simp add: dayRefusal_def maxSender_def pilot_caps_def capsFromEnv_def Let_def usdcEnv_def USDC_STROOPS_def
        DEFAULT_MAINNET_DAY_USDC_def DEFAULT_MAINNET_SENDER_DAY_USDC_def a_def)
  moreover have "phase (flights (S 4 [q0, q1, q2, q3] k4) 0) = Reserving" "todo (flights (S 4 [q0, q1, q2, q3] k4) 0) = []"
    "replies (flights (S 4 [q0, q1, q2, q3] k4) 0) = [q0, q1, q2, q3]"
    using len by (simp_all add: S_def fl_def)
  ultimately have "cap_step runOne pilot_caps ''mainnet'' one_dollar {0} 1791460900000 (S 4 [q0, q1, q2, q3] k4)
      ((S 4 [q0, q1, q2, q3] k4)\<lparr>flights := (flights (S 4 [q0, q1, q2, q3] k4))(0 :=
        (flights (S 4 [q0, q1, q2, q3] k4) 0)\<lparr>phase := Holding\<rparr>)\<rparr>)"
    using keys [of 0] by (intro cap_step.allow) simp_all
  then show ?thesis using cap_reach.intros(2) [OF r4] by fastforce
qed



end
