(* ===== verification/RateLimit.thy ===== *)
theory RateLimit
  imports KvClient Complex_Main
begin

text \<open>
  apps/sponsor/src/lib/rate-limit.ts: the address bucket, the bucket names, the per-isolate token
  buckets and the shared fixed-window counter, with the fall-back from the second to the first.
  Token counts are exact rationals where the code has doubles, and a window is a positive number of
  milliseconds (a window of 0 makes the code divide by it).
\<close>

subsection \<open>The address bucket\<close>

text \<open>\<open>s.split("::")\<close>: the pieces between the (non-overlapping) double colons.\<close>

fun splitDouble :: "string \<Rightarrow> string list" where
  "splitDouble [] = [[]]"
| "splitDouble [x] = [[x]]"
| "splitDouble (x # y # xs) =
     (if x = CHR '':'' \<and> y = CHR '':'' then [] # splitDouble xs
      else (case splitDouble (y # xs) of [] \<Rightarrow> [[x]] | p # ps \<Rightarrow> (x # p) # ps))"

definition groups :: "string \<Rightarrow> string list" where
  "groups s = (if s = [] then [] else filter (\<lambda>g. g \<noteq> []) (split_on (CHR '':'') s))"

definition ipBucket :: "string \<Rightarrow> string" where
  "ipBucket ip = (if CHR '':'' \<notin> set ip then ip
     else (let
         addr = toLowerCase (hd (split_on (CHR ''%'') ip));
         parts = splitDouble addr;
         headGroups = groups (hd parts);
         tailGroups = (if 2 \<le> length parts then groups (parts ! 1) else []);
         missing = 8 - length headGroups - length tailGroups;
         full = headGroups @ replicate missing ''0'' @ tailGroups
       in join '':'' (take 4 full) @ ''::/64''))"

record rate_opts =
  ipPrefix :: "string option"
  accountPrefix :: "string option"

definition orEmpty :: "string option \<Rightarrow> string" where
  "orEmpty p = (case p of None \<Rightarrow> [] | Some s \<Rightarrow> s)"

text \<open>An account that is absent or empty has no bucket.\<close>

definition rateLimitKeys :: "string \<Rightarrow> string option \<Rightarrow> rate_opts \<Rightarrow> string \<times> string option" where
  "rateLimitKeys ip account opts =
     (''ip:'' @ orEmpty (ipPrefix opts) @ ipBucket ip,
      case account of Some a \<Rightarrow> if a \<noteq> [] then Some (''acct:'' @ orEmpty (accountPrefix opts) @ a) else None
        | None \<Rightarrow> None)"

subsection \<open>Token buckets\<close>

record bucket =
  tokens :: rat
  ts :: int

type_synonym buckets = "(string \<times> bucket) list"

definition limited :: "string \<Rightarrow> int \<Rightarrow> int \<Rightarrow> int \<Rightarrow> buckets \<Rightarrow> bool \<times> buckets" where
  "limited key cap windowMs now m = (let
       b = (case map_of m key of Some b \<Rightarrow> b | None \<Rightarrow> \<lparr>tokens = of_int cap, ts = now\<rparr>);
       refill = of_int (now - ts b) / of_int windowMs * of_int cap;
       have = min (of_int cap) (tokens b + refill)
     in if have < 1 then (True, AList.update key \<lparr>tokens = have, ts = now\<rparr> m)
        else (False, AList.update key \<lparr>tokens = have - 1, ts = now\<rparr> m))"

record rate_config =
  ipCap :: int
  ipWindowMs :: int
  accountCap :: int
  accountWindowMs :: int

definition intEnv :: "environ \<Rightarrow> string \<Rightarrow> int \<Rightarrow> int" where
  "intEnv e name fallback = (case e name of
       Some v \<Rightarrow> if v = [] then fallback else (case parseInt v of Some n \<Rightarrow> n | None \<Rightarrow> fallback)
     | None \<Rightarrow> fallback)"

definition rateLimitConfigFromEnv :: "environ \<Rightarrow> rate_config" where
  "rateLimitConfigFromEnv e = \<lparr>ipCap = intEnv e ''RATE_CAP'' 30, ipWindowMs = intEnv e ''RATE_WINDOW_MS'' 60000,
     accountCap = intEnv e ''ACCOUNT_RATE_CAP'' 5, accountWindowMs = intEnv e ''ACCOUNT_RATE_WINDOW_MS'' 60000\<rparr>"

text \<open>The module's two bucket stores, and a verdict: within, or over one of the two limits.\<close>

record limiter =
  ipStore :: buckets
  accountStore :: buckets

datatype rate_verdict = Within | OverIp | OverAccount

definition isLimited :: "rate_verdict \<Rightarrow> bool" where
  "isLimited v \<longleftrightarrow> v \<noteq> Within"

definition checkRateLimit :: "string \<Rightarrow> string option \<Rightarrow> rate_config \<Rightarrow> int \<Rightarrow> rate_opts \<Rightarrow> limiter \<Rightarrow> rate_verdict \<times> limiter" where
  "checkRateLimit ip account cfg now opts l = (case rateLimitKeys ip account opts of (ipKey, acctKey) \<Rightarrow>
     (case limited ipKey (ipCap cfg) (ipWindowMs cfg) now (ipStore l) of (over, m) \<Rightarrow>
        let l1 = l\<lparr>ipStore := m\<rparr> in
        if over then (OverIp, l1)
        else (case acctKey of
            None \<Rightarrow> (Within, l1)
          | Some k \<Rightarrow> (case limited k (accountCap cfg) (accountWindowMs cfg) now (accountStore l1) of
               (over', m') \<Rightarrow> (if over' then OverAccount else Within, l1\<lparr>accountStore := m'\<rparr>)))))"

subsection \<open>The shared window\<close>

definition windowKey :: "string \<Rightarrow> int \<Rightarrow> int \<Rightarrow> string" where
  "windowKey key windowMs now = ''rl:'' @ key @ '':'' @ show_int (now div windowMs)"

definition windowCmds :: "string \<Rightarrow> int \<Rightarrow> string list list" where
  "windowCmds k windowMs = [[''INCR'', k], [''PEXPIRE'', k, show_int windowMs]]"

text \<open>\<open>Number(first.result) > cap\<close>; what is no number is never over.\<close>

definition overCap :: "reply \<Rightarrow> int \<Rightarrow> bool" where
  "overCap r cap = (case r of Result RNull \<Rightarrow> cap < 0
     | _ \<Rightarrow> (case replyInt r of Some n \<Rightarrow> cap < n | None \<Rightarrow> False))"

definition kvLimited :: "'k server \<Rightarrow> string \<Rightarrow> int \<Rightarrow> int \<Rightarrow> int \<Rightarrow> 'k world \<Rightarrow> (string + bool) \<times> 'k world" where
  "kvLimited srv key cap windowMs now w =
     (case pipeline srv (windowCmds (windowKey key windowMs now) windowMs) w of
        (Inl e, w1) \<Rightarrow> (Inl e, w1)
      | (Inr [], w1) \<Rightarrow> (Inl ''KV rate-limit store error: undefined'', w1)
      | (Inr (Err e # _), w1) \<Rightarrow> (Inl (''KV rate-limit store error: '' @ e), w1)
      | (Inr (r # _), w1) \<Rightarrow> (Inr (overCap r cap), w1))"

definition checkRateLimitDurable ::
  "'k server \<Rightarrow> string \<Rightarrow> string option \<Rightarrow> rate_config \<Rightarrow> int \<Rightarrow> rate_opts \<Rightarrow> limiter \<times> 'k world \<Rightarrow> rate_verdict \<times> limiter \<times> 'k world" where
  "checkRateLimitDurable srv ip account cfg now opts lw = (case lw of (l, w) \<Rightarrow>
     let fall = (\<lambda>w1. case checkRateLimit ip account cfg now opts l of (v, l1) \<Rightarrow> (v, l1, w1)) in
     if \<not> kvConfigured w then fall w
     else (case rateLimitKeys ip account opts of (ipKey, acctKey) \<Rightarrow>
       (case kvLimited srv ipKey (ipCap cfg) (ipWindowMs cfg) now w of
          (Inl e, w1) \<Rightarrow> fall w1
        | (Inr True, w1) \<Rightarrow> (OverIp, l, w1)
        | (Inr False, w1) \<Rightarrow> (case acctKey of
              None \<Rightarrow> (Within, l, w1)
            | Some k \<Rightarrow> (case kvLimited srv k (accountCap cfg) (accountWindowMs cfg) now w1 of
                 (Inl e, w2) \<Rightarrow> fall w2
               | (Inr True, w2) \<Rightarrow> (OverAccount, l, w2)
               | (Inr False, w2) \<Rightarrow> (Within, l, w2))))))"

subsection \<open>A token bucket admits at most its capacity plus what it refilled\<close>

fun admitted :: "string \<Rightarrow> int \<Rightarrow> int \<Rightarrow> int list \<Rightarrow> buckets \<Rightarrow> nat \<times> buckets" where
  "admitted key cap windowMs [] m = (0, m)"
| "admitted key cap windowMs (t # later) m = (case limited key cap windowMs t m of (over, m1) \<Rightarrow>
     (case admitted key cap windowMs later m1 of (n, m2) \<Rightarrow> (if over then n else Suc n, m2)))"

lemma limited_spends:
  assumes "map_of m key = Some b" and "ts b \<le> now" and "0 < windowMs" and "0 \<le> cap" and "tokens b \<le> of_int cap"
    and "0 \<le> tokens b"
  shows "\<exists>b'. map_of (snd (limited key cap windowMs now m)) key = Some b' \<and> ts b' = now \<and>
    0 \<le> tokens b' \<and> tokens b' \<le> of_int cap \<and>
    (if fst (limited key cap windowMs now m) then 0 else 1) + tokens b' \<le>
      tokens b + of_int (now - ts b) / of_int windowMs * of_int cap"
proof -
  have "(0::rat) \<le> of_int (now - ts b) / of_int windowMs * of_int cap" using assms by simp
  then show ?thesis using assms by (auto simp: limited_def Let_def)
qed

lemma admitted_bound_from:
  assumes "map_of m key = Some b" and "sorted (ts b # later)" and "0 < windowMs" and "0 \<le> cap"
    and "tokens b \<le> of_int cap" and "0 \<le> tokens b"
  shows "of_nat (fst (admitted key cap windowMs later m)) \<le>
    tokens b + of_int (last (ts b # later) - ts b) / of_int windowMs * of_int cap"
  using assms
proof (induction later arbitrary: m b)
  case (Cons t later)
  have t: "ts b \<le> t" using Cons.prems(2) by simp
  from limited_spends [OF Cons.prems(1) t Cons.prems(3-6)]
  obtain b' where b': "map_of (snd (limited key cap windowMs t m)) key = Some b'" "ts b' = t"
      "0 \<le> tokens b'" "tokens b' \<le> of_int cap"
      "(if fst (limited key cap windowMs t m) then 0 else 1) + tokens b' \<le>
        tokens b + of_int (t - ts b) / of_int windowMs * of_int cap" by blast
  have "of_nat (fst (admitted key cap windowMs later (snd (limited key cap windowMs t m)))) \<le>
      tokens b' + of_int (last (t # later) - t) / of_int windowMs * of_int cap"
    using Cons.IH [OF b'(1) _ Cons.prems(3,4) b'(4,3)] Cons.prems(2) b'(2) by simp
  moreover have "(of_int (t - ts b) / of_int windowMs * of_int cap :: rat) + of_int (last (t # later) - t) / of_int windowMs * of_int cap
      = of_int (last (t # later) - ts b) / of_int windowMs * of_int cap"
    by (simp add: add_divide_distrib [symmetric] distrib_right [symmetric])
  ultimately show ?case using b'(5) by (auto simp: case_prod_unfold split: if_splits)
qed simp

lemma limited_fresh:
  assumes "map_of m key = None"
  shows "limited key cap windowMs now m = limited key cap windowMs now (AList.update key \<lparr>tokens = of_int cap, ts = now\<rparr> m)"
proof -
  have "AList.update key b (AList.update key b' m) = AList.update key b m" for b b' :: bucket
    by (induction m) auto
  then show ?thesis using assms by (simp add: limited_def Let_def)
qed



subsection \<open>One bucket per /64\<close>

fun no_double :: "string \<Rightarrow> bool" where
  "no_double [] \<longleftrightarrow> True"
| "no_double [x] \<longleftrightarrow> True"
| "no_double (x # y # xs) \<longleftrightarrow> \<not> (x = CHR '':'' \<and> y = CHR '':'') \<and> no_double (y # xs)"

lemma splitDouble_none: "no_double s \<Longrightarrow> splitDouble s = [s]"
  by (induction s rule: splitDouble.induct) auto

lemma splitDouble_at:
  "no_double s \<Longrightarrow> s \<noteq> [] \<Longrightarrow> last s \<noteq> CHR '':'' \<Longrightarrow> splitDouble (s @ CHR '':'' # CHR '':'' # r) = s # splitDouble r"
  by (induction s rule: splitDouble.induct) auto

lemma no_double_append:
  "no_double xs \<Longrightarrow> no_double ys \<Longrightarrow> xs = [] \<or> ys = [] \<or> last xs \<noteq> CHR '':'' \<or> hd ys \<noteq> CHR '':'' \<Longrightarrow>
    no_double (xs @ ys)"
proof (induction xs rule: no_double.induct)
  case (2 x)
  then show ?case by (cases ys) auto
qed auto

lemma no_double_plain: "CHR '':'' \<notin> set s \<Longrightarrow> no_double s"
  by (induction s rule: no_double.induct) auto

definition group_ok :: "string \<Rightarrow> bool" where
  "group_ok g \<longleftrightarrow> g \<noteq> [] \<and> CHR '':'' \<notin> set g \<and> CHR ''%'' \<notin> set g"

lemma no_double_join:
  "(\<And>g. g \<in> set gs \<Longrightarrow> g \<noteq> [] \<and> CHR '':'' \<notin> set g) \<Longrightarrow>
    no_double (join '':'' gs) \<and> (gs \<noteq> [] \<longrightarrow> join '':'' gs \<noteq> [] \<and> hd (join '':'' gs) \<noteq> CHR '':'' \<and> last (join '':'' gs) \<noteq> CHR '':'')"
proof (induction "'':''" gs rule: join.induct)
  case (2 x)
  then show ?case by (auto simp: no_double_plain dest: hd_in_set last_in_set)
next
  case (3 x y ys)
  then have x: "x \<noteq> []" "CHR '':'' \<notin> set x" by auto
  have IH: "no_double (join '':'' (y # ys))" "join '':'' (y # ys) \<noteq> []" "hd (join '':'' (y # ys)) \<noteq> CHR '':''"
    "last (join '':'' (y # ys)) \<noteq> CHR '':''" using 3 by auto
  have "no_double (CHR '':'' # join '':'' (y # ys))" using no_double_append [of "'':''"] IH by simp
  moreover have "last x \<noteq> CHR '':''" "hd x \<noteq> CHR '':''" using x last_in_set [of x] hd_in_set [of x] by metis+
  ultimately have "no_double (x @ CHR '':'' # join '':'' (y # ys))"
    using no_double_append [OF no_double_plain [OF x(2)]] by simp
  then show ?case using x(1) IH \<open>hd x \<noteq> CHR '':''\<close> by simp
qed simp

lemma groups_join: "gs \<noteq> [] \<Longrightarrow> (\<And>g. g \<in> set gs \<Longrightarrow> group_ok g) \<Longrightarrow> groups (join '':'' gs) = gs"
  using no_double_join [of gs] by (auto simp: groups_def split_on_join group_ok_def intro!: filter_True)

lemma toLowerCase_join: "toLowerCase (join sep gs) = join (toLowerCase sep) (map toLowerCase gs)"
  by (induction sep gs rule: join.induct) (auto simp: toLowerCase_def)

lemma toLowerCase_append: "toLowerCase (xs @ ys) = toLowerCase xs @ toLowerCase ys"
  by (simp add: toLowerCase_def)

lemma to_lower_marks [simp]:
  "to_lower c = CHR '':'' \<longleftrightarrow> c = CHR '':''" "to_lower c = CHR ''%'' \<longleftrightarrow> c = CHR ''%''"
  "CHR '':'' = to_lower c \<longleftrightarrow> c = CHR '':''" "CHR ''%'' = to_lower c \<longleftrightarrow> c = CHR ''%''"
proof -
  have "code c < 256" by (simp add: code_def)
  then have "to_lower c = c \<or> 97 \<le> code (to_lower c) \<and> 65 \<le> code c" by (auto simp: to_lower_def code_char_of)
  moreover have "code (CHR '':'') = 58" "code (CHR ''%'') = 37" by (simp_all add: code_def)
  ultimately show a: "to_lower c = CHR '':'' \<longleftrightarrow> c = CHR '':''" and b: "to_lower c = CHR ''%'' \<longleftrightarrow> c = CHR ''%''"
    by (auto simp: to_lower_def code_def)
  from a b show "CHR '':'' = to_lower c \<longleftrightarrow> c = CHR '':''" "CHR ''%'' = to_lower c \<longleftrightarrow> c = CHR ''%''" by metis+
qed

lemma group_ok_lower [simp]: "group_ok (toLowerCase g) = group_ok g"
  by (auto simp: group_ok_def toLowerCase_def image_iff)

lemma set_join: "x \<in> set (join sep gs) \<Longrightarrow> x \<in> set sep \<or> (\<exists>g\<in>set gs. x \<in> set g)"
  by (induction sep gs rule: join.induct) auto

text \<open>The bucket of an address written in full, and of a bucket.\<close>

lemma ipBucket_full:
  assumes "length gs = 8" and ok: "\<And>g. g \<in> set gs \<Longrightarrow> group_ok g"
  shows "ipBucket (join '':'' gs) = join '':'' (map toLowerCase (take 4 gs)) @ ''::/64''"
proof -
  define low where "low = map toLowerCase gs"
  have pct: "CHR ''%'' \<notin> set (join '':'' gs)" using ok by (auto simp: group_ok_def dest!: set_join)
  obtain g h r where gs: "gs = g # h # r" using assms(1) by (cases gs; cases "tl gs") auto
  then have col: "CHR '':'' \<in> set (join '':'' gs)" by simp
  have ne: "low \<noteq> []" "length low = 8" using gs assms(1) by (simp_all add: low_def)
  have okl: "\<And>g. g \<in> set low \<Longrightarrow> group_ok g" using ok by (auto simp: low_def)
  then have nd: "no_double (join '':'' low)" by (intro conjunct1 [OF no_double_join]) (auto simp: group_ok_def)
  have "toLowerCase '':'' = '':''" by code_simp
  then have tl: "toLowerCase (hd (split_on (CHR ''%'') (join '':'' gs))) = join '':'' low"
    using split_on_no_sep [OF pct] by (simp add: toLowerCase_join low_def)
  have "groups (join '':'' low) = low" by (intro groups_join ne okl)
  moreover have "take 4 low = map toLowerCase (take 4 gs)" by (simp add: low_def take_map)
  ultimately show ?thesis
    using col ne(2) by (simp add: ipBucket_def tl splitDouble_none [OF nd] del: take_map)
qed

lemma ipBucket_of_bucket:
  assumes "length gs = 4" and ok: "\<And>g. g \<in> set gs \<Longrightarrow> group_ok g" and low: "map toLowerCase gs = gs"
  shows "ipBucket (join '':'' gs @ ''::/64'') = join '':'' gs @ ''::/64''"
proof -
  have "CHR ''%'' \<notin> set (join '':'' gs @ ''::/64'')" using ok by (auto simp: group_ok_def dest!: set_join)
  then have hd: "hd (split_on (CHR ''%'') (join '':'' gs @ ''::/64'')) = join '':'' gs @ ''::/64''"
    using split_on_no_sep by fastforce
  have "toLowerCase '':'' = '':''" "toLowerCase ''::/64'' = ''::/64''" by code_simp+
  then have tl: "toLowerCase (join '':'' gs @ ''::/64'') = join '':'' gs @ ''::/64''"
    using low toLowerCase_join [of "'':''" gs] by (simp add: toLowerCase_append)
  have ne: "gs \<noteq> []" using assms(1) by auto
  have nd: "no_double (join '':'' gs)" "join '':'' gs \<noteq> []" "last (join '':'' gs) \<noteq> CHR '':''"
    using no_double_join [of gs] ok ne by (auto simp: group_ok_def)
  have s: "splitDouble (join '':'' gs @ ''::/64'') = [join '':'' gs, ''/64'']"
    using splitDouble_at [OF nd, of "''/64''"] by simp
  have g: "groups ''/64'' = [''/64'']" by code_simp
  have "groups (join '':'' gs) = gs" using groups_join [OF ne ok] by simp
  then show ?thesis
    using assms(1) by (simp add: ipBucket_def hd tl s g)
qed

lemma in_splitDouble: "p \<in> set (splitDouble s) \<Longrightarrow> set p \<subseteq> set s"
proof (induction s arbitrary: p rule: splitDouble.induct)
  case (3 x y xs)
  then show ?case
    by (cases "splitDouble (y # xs)") (fastforce split: if_splits)+
qed auto

lemma groups_of_addr:
  assumes "g \<in> set (groups p)" and "set p \<subseteq> set (toLowerCase a)" and "CHR ''%'' \<notin> set a"
  shows "group_ok g" and "toLowerCase g = g"
proof -
  have g: "g \<noteq> []" "set g \<subseteq> set p - {CHR '':''}"
    using assms(1) in_set_split_on by (auto simp: groups_def split: if_splits)
  have pct: "CHR ''%'' \<notin> set (toLowerCase a)"
  proof
    assume "CHR ''%'' \<in> set (toLowerCase a)"
    then obtain c where "c \<in> set a" "to_lower c = CHR ''%''" by (metis imageE set_map toLowerCase_def)
    then show False using assms(3) by simp
  qed
  show "group_ok g" using g assms(2) pct unfolding group_ok_def by blast
  have "\<forall>c\<in>set (toLowerCase a). to_lower c = c" by (auto simp: toLowerCase_def)
  then have "\<forall>c\<in>set g. to_lower c = c" using g assms(2) by blast
  then show "toLowerCase g = g" by (simp add: toLowerCase_def map_idI)
qed

text \<open>A bucket is its own bucket: naming the address bucket of a bucket changes nothing.\<close>

theorem ipBucket_idem: "ipBucket (ipBucket ip) = ipBucket ip"
proof (cases "CHR '':'' \<in> set ip")
  case True
  define a where "a = hd (split_on (CHR ''%'') ip)"
  define parts where "parts = splitDouble (toLowerCase a)"
  define hg where "hg = groups (hd parts)"
  define tg where "tg = (if 2 \<le> length parts then groups (parts ! 1) else [])"
  define full where "full = hg @ replicate (8 - length hg - length tg) ''0'' @ tg"
  have b: "ipBucket ip = join '':'' (take 4 full) @ ''::/64''"
    using True by (simp add: ipBucket_def full_def hg_def tg_def parts_def a_def Let_def)
  have "a \<in> set (split_on (CHR ''%'') ip)" by (simp add: a_def)
  then have pct: "CHR ''%'' \<notin> set a" using in_set_split_on by blast
  have ne: "parts \<noteq> []" by (cases "toLowerCase a" rule: splitDouble.cases) (auto simp: parts_def split: list.splits)
  have sub: "set (hd parts) \<subseteq> set (toLowerCase a)" "2 \<le> length parts \<Longrightarrow> set (parts ! 1) \<subseteq> set (toLowerCase a)"
    using in_splitDouble [of _ "toLowerCase a"] ne by (simp_all add: parts_def [symmetric])
  have zero: "group_ok ''0''" "toLowerCase ''0'' = ''0''" by (simp add: group_ok_def) code_simp
  have h: "\<forall>g\<in>set hg. group_ok g \<and> toLowerCase g = g"
    unfolding hg_def using groups_of_addr [OF _ sub(1) pct] by blast
  have t: "\<forall>g\<in>set tg. group_ok g \<and> toLowerCase g = g"
    unfolding tg_def using groups_of_addr [OF _ sub(2) pct] by simp
  have "set full \<subseteq> set hg \<union> {''0''} \<union> set tg" unfolding full_def by auto
  then have "group_ok g \<and> toLowerCase g = g" if "g \<in> set full" for g using that h t zero by blast
  then have "\<And>g. g \<in> set (take 4 full) \<Longrightarrow> group_ok g \<and> toLowerCase g = g" by (meson in_set_takeD)
  moreover have "length (take 4 full) = 4" by (simp add: full_def)
  ultimately show ?thesis
    unfolding b by (intro ipBucket_of_bucket) (auto intro: map_idI)
qed (simp add: ipBucket_def)

text \<open>C5: two addresses written in full share a bucket exactly when their first four groups agree up to
  letter case: one bucket per /64, no more and no less.\<close>

theorem ipBucket_shared_iff:
  assumes "length gs = 8" "length hs = 8" and "\<forall>g\<in>set gs \<union> set hs. group_ok g"
  shows "ipBucket (join '':'' gs) = ipBucket (join '':'' hs) \<longleftrightarrow>
    map toLowerCase (take 4 gs) = map toLowerCase (take 4 hs)"
proof -
  have split: "split_on (CHR '':'') (join '':'' (map toLowerCase (take 4 xs))) = map toLowerCase (take 4 xs)"
    if "length xs = 8" "\<forall>g\<in>set xs. group_ok g" for xs
  proof (rule split_on_join)
    show "map toLowerCase (take 4 xs) \<noteq> []" using that(1) by auto
    show "CHR '':'' \<notin> set g" if g: "g \<in> set (map toLowerCase (take 4 xs))" for g
    proof -
      obtain h where "h \<in> set xs" "g = toLowerCase h" using g by (auto dest: in_set_takeD)
      then have "group_ok g" using \<open>\<forall>g\<in>set xs. group_ok g\<close> by simp
      then show ?thesis by (simp add: group_ok_def)
    qed
  qed
  have "ipBucket (join '':'' gs) = ipBucket (join '':'' hs) \<longleftrightarrow>
      join '':'' (map toLowerCase (take 4 gs)) = join '':'' (map toLowerCase (take 4 hs))"
    using ipBucket_full [OF assms(1)] ipBucket_full [OF assms(2)] assms(3) by simp
  also have "\<dots> \<longleftrightarrow> map toLowerCase (take 4 gs) = map toLowerCase (take 4 hs)"
    using split [OF assms(1)] split [OF assms(2)] assms(3) by (metis UnCI)
  finally show ?thesis .
qed

theorem ipBucket_shared_iff_witness:
  "ipBucket ''2A02:db8:1:2:3:4:5:6'' = ipBucket ''2a02:db8:1:2:f:f:f:f'' \<and> ipBucket ''2A02:db8:1:2:3:4:5:6'' \<noteq> ipBucket ''2a02:db8:1:3:3:4:5:6''"
proof -
  note th = ipBucket_shared_iff [of "[''2A02'',''db8'',''1'',''2'',''3'',''4'',''5'',''6'']"]
  have "toLowerCase ''2A02'' = ''2a02''" "toLowerCase ''2a02'' = ''2a02''" "toLowerCase ''2'' \<noteq> toLowerCase ''3''" by code_simp+
  then show ?thesis
    using th [of "[''2a02'',''db8'',''1'',''2'',''f'',''f'',''f'',''f'']"] th [of "[''2a02'',''db8'',''1'',''3'',''3'',''4'',''5'',''6'']"]
    by (simp add: group_ok_def)
qed

subsection \<open>The shared window counts every request\<close>

text \<open>What the limiter relies on beyond the day counters: INCR adds one and keeps the expiry,
  PEXPIRE sets the expiry of an existing key in milliseconds.\<close>

locale redis_window = redis +
  assumes incr_reply: "wf s \<Longrightarrow> cell_int (view t s k) = Some n \<Longrightarrow>
      fst (srv t [''INCR'', k] s) = Result (RInt (n + 1))"
    and incr_view: "wf s \<Longrightarrow> cell_int (view t s k) = Some n \<Longrightarrow>
      view t (snd (srv t [''INCR'', k] s)) = (view t s)(k \<mapsto> int_cell (n + 1) (cell_exp (view t s k)))"
    and pexpire_view: "wf s \<Longrightarrow> 0 < n \<Longrightarrow> view t s k = Some (c, e) \<Longrightarrow>
      view t (snd (srv t [''PEXPIRE'', k, show_int n] s)) = (view t s)(k \<mapsto> (c, Some (t + n)))"

lemma runExpire_ms_view:
  assumes "kv_wf s" "0 < n" "cell t s k = Some (v, e)"
  shows "cell t (snd (runExpire 1 t k [k, show_int n] s)) = (cell t s)(k \<mapsto> (v, Some (t + n)))"
proof -
  have "js_Number [k, show_int n] 1 = Some n" by (simp add: js_Number_def)
  moreover note touched_some [OF assms(3)]
  ultimately have "snd (runExpire 1 t k [k, show_int n] s) = setUntil k (Some (Some (t + n))) s"
    by (simp add: runExpire_def live_eq assms(3) set_expiry_eq)
  then show ?thesis using assms(2) touched_some [OF assms(3)] by (auto simp: cell_setUntil)
qed

lemma run_window_simps:
  "runOne t [''INCR'', k] s = runIncr t k 1 s"
  "runOne t [''PEXPIRE'', k, v] s = runExpire 1 t k [k, v] s"
  by (simp_all add: runOne_basic runBasic_def)

interpretation fakew: redis_window runOne cell kv_wf
  by unfold_locales (simp_all add: run_window_simps runIncr_eq runExpire_ms_view)

context redis_window
begin

lemma windowCmds_exec:
  assumes "wf s" and "cell_int (view t s k) = Some n" and "0 < windowMs"
  shows "\<exists>r s'. execAll srv t (windowCmds k windowMs) s = ([Result (RInt (n + 1)), r], s') \<and> wf s' \<and>
    view t s' = (view t s)(k \<mapsto> int_cell (n + 1) (Some (t + windowMs)))"
proof -
  define s1 where "s1 = snd (srv t [''INCR'', k] s)"
  have r1: "srv t [''INCR'', k] s = (Result (RInt (n + 1)), s1)"
    using incr_reply [OF assms(1,2)] by (simp add: s1_def prod_eq_iff)
  have w1: "wf s1" using assms(1) by (simp add: s1_def srv_wf)
  have v1: "view t s1 = (view t s)(k \<mapsto> int_cell (n + 1) (cell_exp (view t s k)))"
    using incr_view [OF assms(1,2)] by (simp add: s1_def)
  define s2 where "s2 = snd (srv t [''PEXPIRE'', k, show_int windowMs] s1)"
  have w2: "wf s2" using w1 by (simp add: s2_def srv_wf)
  have "view t s1 k = Some (VStr (show_int (n + 1)), cell_exp (view t s k))" using v1 by (simp add: int_cell_def)
  from pexpire_view [OF w1 assms(3) this]
  have "view t s2 = (view t s1)(k \<mapsto> int_cell (n + 1) (Some (t + windowMs)))" by (simp add: s2_def int_cell_def)
  then show ?thesis using r1 w2 v1 by (auto simp: windowCmds_def case_prod_unfold s2_def)
qed

lemma kvLimited_online:
  assumes "wf (kvs w)" and "online w" and "0 < windowMs"
    and "cell_int (view (clock w) (kvs w) (windowKey key windowMs now)) = Some n"
  shows "\<exists>s'. kvLimited srv key cap windowMs now w = (Inr (cap < n + 1), w\<lparr>kvs := s'\<rparr>) \<and> wf s' \<and>
    view (clock w) s' = (view (clock w) (kvs w))(windowKey key windowMs now \<mapsto> int_cell (n + 1) (Some (clock w + windowMs)))"
proof -
  obtain r s' where x: "execAll srv (clock w) (windowCmds (windowKey key windowMs now) windowMs) (kvs w) =
      ([Result (RInt (n + 1)), r], s')" "wf s'"
      "view (clock w) s' = (view (clock w) (kvs w))(windowKey key windowMs now \<mapsto> int_cell (n + 1) (Some (clock w + windowMs)))"
    using windowCmds_exec [OF assms(1,4,3)] by blast
  then show ?thesis using assms(2)
    by (intro exI [of _ s']) (simp add: kvLimited_def pipeline_online overCap_def replyInt_def)
qed

end

text \<open>Requests on one key, each at its own instant, the store's clock reading the same.\<close>

fun window_run :: "'k server \<Rightarrow> string \<Rightarrow> int \<Rightarrow> int \<Rightarrow> int list \<Rightarrow> 'k world \<Rightarrow> (string + bool) list \<times> 'k world" where
  "window_run srv key cap windowMs [] w = ([], w)"
| "window_run srv key cap windowMs (t # later) w =
     (case kvLimited srv key cap windowMs t (w\<lparr>clock := t\<rparr>) of (v, w1) \<Rightarrow>
     (case window_run srv key cap windowMs later w1 of (vs, w2) \<Rightarrow> (v # vs, w2)))"

lemma same_window_soon:
  "0 < (W::int) \<Longrightarrow> t div W = t' div W \<Longrightarrow> t' < t + W"
proof -
  assume "0 < W" "t div W = t' div W"
  then have "t' = t div W * W + t' mod W" and "t = t div W * W + t mod W" and "t' mod W < W" and "0 \<le> t mod W"
    by (metis div_mult_mod_eq, metis div_mult_mod_eq, simp_all)
  then show ?thesis by linarith
qed

context redis_window
begin

lemma window_run_counts:
  assumes "wf (kvs w)" and "online w" and "0 < windowMs" and "sorted (clock w # later)"
    and "\<forall>t\<in>set later. t div windowMs = q"
    and "view (clock w) (kvs w) (''rl:'' @ key @ '':'' @ show_int q) = None \<and> n = 0 \<or>
      clock w div windowMs = q \<and>
      view (clock w) (kvs w) (''rl:'' @ key @ '':'' @ show_int q) = Some (int_cell (int n) (Some (clock w + windowMs)))"
  shows "fst (window_run srv key cap windowMs later w) = map (\<lambda>i. Inr (cap < int (n + Suc i))) [0..<length later]"
  using assms
proof (induction later arbitrary: w n)
  case (Cons t later)
  let ?k = "''rl:'' @ key @ '':'' @ show_int q"
  define w0 where "w0 = w\<lparr>clock := t\<rparr>"
  have t: "clock w \<le> t" "t div windowMs = q" using Cons.prems(4,5) by simp_all
  then have k: "windowKey key windowMs t = ?k" by (simp add: windowKey_def)
  have "view t (kvs w) ?k = lapse t (view (clock w) (kvs w) ?k)" by (rule view_lapse [OF Cons.prems(1) t(1)])
  then have cell: "view t (kvs w) ?k = None \<and> n = 0 \<or> view t (kvs w) ?k = Some (int_cell (int n) (Some (clock w + windowMs)))"
    using Cons.prems(6) same_window_soon [OF Cons.prems(3), of "clock w" t] t(2) by (auto simp: int_cell_def)
  then have ci: "cell_int (view (clock w0) (kvs w0) (windowKey key windowMs t)) = Some (int n)"
    by (auto simp: w0_def k)
  have o0: "online w0" using Cons.prems(2) by (simp add: w0_def online_def)
  obtain s' where s': "kvLimited srv key cap windowMs t w0 = (Inr (cap < int n + 1), w0\<lparr>kvs := s'\<rparr>)" "wf s'"
      "view t s' = (view t (kvs w))(?k \<mapsto> int_cell (int n + 1) (Some (t + windowMs)))"
    using kvLimited_online [OF _ o0 Cons.prems(3) ci, of cap] Cons.prems(1) by (auto simp: w0_def k)
  define w1 where "w1 = w0\<lparr>kvs := s'\<rparr>"
  have w1: "wf (kvs w1)" "online w1" "clock w1 = t" "kvs w1 = s'"
    using s'(2) o0 by (simp_all add: w1_def) (simp add: w0_def)
  have "fst (window_run srv key cap windowMs later w1) = map (\<lambda>i. Inr (cap < int (Suc n + Suc i))) [0..<length later]"
  proof (rule Cons.IH [OF w1(1,2) Cons.prems(3)])
    show "sorted (clock w1 # later)" using Cons.prems(4) w1(3) by simp
    show "\<forall>t\<in>set later. t div windowMs = q" using Cons.prems(5) by simp
    show "view (clock w1) (kvs w1) ?k = None \<and> Suc n = 0 \<or> clock w1 div windowMs = q \<and>
      view (clock w1) (kvs w1) ?k = Some (int_cell (int (Suc n)) (Some (clock w1 + windowMs)))"
      using s'(3) w1(3,4) t(2) by (simp add: add.commute)
  qed
  moreover have "fst (window_run srv key cap windowMs (t # later) w) =
      Inr (cap < int n + 1) # fst (window_run srv key cap windowMs later w1)"
    using s'(1) by (simp add: w0_def [symmetric] w1_def case_prod_unfold)
  moreover have "map (\<lambda>i. Inr (cap < int (n + Suc i))) [0..<length (t # later)] =
      (Inr (cap < int n + 1) :: string + bool) # map (\<lambda>i. Inr (cap < int (Suc n + Suc i))) [0..<length later]"
    unfolding length_Cons map_upt_Suc by (simp add: ac_simps)
  ultimately show ?case by (simp only:)
qed simp

end

text \<open>Inside one window the shared counter never forgets: of the requests on a key that had none,
  whatever instants of the window they come at, exactly those after the cap-th are over the limit.\<close>

theorem window_limits_after_cap:
  fixes w :: "kv world"
  assumes "kv_wf (kvs w)" and "online w" and "0 < windowMs" and "sorted (clock w # later)"
    and "\<forall>t\<in>set later. t div windowMs = q"
    and "cell (clock w) (kvs w) (''rl:'' @ key @ '':'' @ show_int q) = None"
  shows "fst (window_run runOne key cap windowMs later w) = map (\<lambda>i. Inr (cap < int (Suc i))) [0..<length later]"
  using fakew.window_run_counts [OF assms(1-5), of key 0 cap] assms(6) by simp

definition quiet_world :: "environ \<Rightarrow> int \<Rightarrow> kv world" where
  "quiet_world e t = \<lparr>env = e, clock = t, kvs = empty_kv, nets = []\<rparr>"

theorem window_limits_after_cap_witness:
  "fst (window_run runOne ''ip:9'' 2 60000 [5, 6, 59999] (quiet_world Map.empty 0)) = [Inr False, Inr False, Inr True]"
  using window_limits_after_cap [of "quiet_world Map.empty 0" 60000 "[5, 6, 59999]" 0 "''ip:9''" 2]
  by (simp add: quiet_world_def online_def upt_rec)

lemma windowKey_ip_acct: "windowKey (''acct:'' @ y) V now \<noteq> windowKey (''ip:'' @ x) W now"
  by (simp add: windowKey_def)

text \<open>With the store answering, the verdict is exactly the two shared counters against their caps, the
  address first, and the isolate's own buckets are left alone; with the first round trip lost it is
  exactly the verdict of those buckets: the limiter's infrastructure never decides a request.\<close>

theorem checkRateLimitDurable_decides:
  fixes w :: "kv world"
  assumes "kv_wf (kvs w)" and "kvConfigured w" and "account \<noteq> []"
    and "rateLimitKeys ip (Some account) opts = (ik, Some ak)"
    and "0 < ipWindowMs cfg" and "0 < accountWindowMs cfg"
    and "cell_int (cell (clock w) (kvs w) (windowKey ik (ipWindowMs cfg) now)) = Some n"
    and "cell_int (cell (clock w) (kvs w) (windowKey ak (accountWindowMs cfg) now)) = Some m"
    and "checkRateLimitDurable runOne ip (Some account) cfg now opts (l, w) = (v, l', w')"
  shows "case nets w of
      [] \<Rightarrow> l' = l \<and> v = (if ipCap cfg < n + 1 then OverIp else if accountCap cfg < m + 1 then OverAccount else Within)
    | Lost j # ns \<Rightarrow> (v, l') = checkRateLimit ip (Some account) cfg now opts l
    | Delivered # ns \<Rightarrow> True"
proof (cases "nets w")
  case Nil
  then have o: "online w" by (simp add: online_def)
  have ne: "windowKey ak (accountWindowMs cfg) now \<noteq> windowKey ik (ipWindowMs cfg) now"
    using assms(3,4) windowKey_ip_acct by (auto simp: rateLimitKeys_def)
  obtain s1 where s1: "kvLimited runOne ik (ipCap cfg) (ipWindowMs cfg) now w = (Inr (ipCap cfg < n + 1), w\<lparr>kvs := s1\<rparr>)"
      "kv_wf s1" "cell (clock w) s1 = (cell (clock w) (kvs w))(windowKey ik (ipWindowMs cfg) now \<mapsto>
        int_cell (n + 1) (Some (clock w + ipWindowMs cfg)))"
    using fakew.kvLimited_online [OF assms(1) o assms(5,7), of "ipCap cfg"] by blast
  define w1 where "w1 = w\<lparr>kvs := s1\<rparr>"
  have "cell_int (cell (clock w1) (kvs w1) (windowKey ak (accountWindowMs cfg) now)) = Some m"
    using s1(3) assms(8) ne by (simp add: w1_def)
  then obtain s2 where s2: "kvLimited runOne ak (accountCap cfg) (accountWindowMs cfg) now w1 =
      (Inr (accountCap cfg < m + 1), w1\<lparr>kvs := s2\<rparr>)"
    using fakew.kvLimited_online [of w1 "accountWindowMs cfg" ak now m "accountCap cfg"] s1(2) o assms(6)
    by (auto simp: w1_def)
  show ?thesis
    using Nil assms(2,9) s1(1) s2
    by (auto simp: checkRateLimitDurable_def assms(4) w1_def [symmetric] split: bool.splits if_splits)
next
  case (Cons x ns)
  then show ?thesis
    using assms(2,9) by (cases x) (auto simp: checkRateLimitDurable_def kvLimited_def pipeline_def Let_def assms(4)
      split: prod.splits)
qed

definition kv_env :: environ where
  "kv_env = [''KV_REST_API_URL'' \<mapsto> ''https://kv'', ''KV_REST_API_TOKEN'' \<mapsto> ''t'']"

lemma kvConfigured_kv_env [simp]: "kvConfigured (quiet_world kv_env t)"
  by (simp add: kvConfigured_def kvConfigFromEnv_def quiet_world_def kv_env_def)

lemma quiet_world_simps [simp]:
  "kvs (quiet_world e t) = empty_kv" "online (quiet_world e t)" "clock (quiet_world e t) = t"
  "env (quiet_world e t) = e" "nets (quiet_world e t) = []"
  by (simp_all add: quiet_world_def online_def)

theorem checkRateLimitDurable_decides_witness:
  "fst (checkRateLimitDurable runOne ''10.0.0.1'' (Some ''GA'') (rateLimitConfigFromEnv kv_env) 5
      \<lparr>ipPrefix = None, accountPrefix = None\<rparr> (\<lparr>ipStore = [], accountStore = []\<rparr>, quiet_world kv_env 5)) = Within"
proof -
  obtain v l' w' where r: "checkRateLimitDurable runOne ''10.0.0.1'' (Some ''GA'') (rateLimitConfigFromEnv kv_env) 5
      \<lparr>ipPrefix = None, accountPrefix = None\<rparr> (\<lparr>ipStore = [], accountStore = []\<rparr>, quiet_world kv_env 5) = (v, l', w')"
    by (metis prod_cases3)
  have c: "rateLimitConfigFromEnv kv_env = \<lparr>ipCap = 30, ipWindowMs = 60000, accountCap = 5, accountWindowMs = 60000\<rparr>"
    by (simp add: rateLimitConfigFromEnv_def intEnv_def kv_env_def)
  have "rateLimitKeys ''10.0.0.1'' (Some ''GA'') \<lparr>ipPrefix = None, accountPrefix = None\<rparr> = (''ip:10.0.0.1'', Some ''acct:GA'')"
    by (simp add: rateLimitKeys_def orEmpty_def ipBucket_def)
  from checkRateLimitDurable_decides [OF _ _ _ this _ _ _ _ r, of 0 0] show ?thesis
    using r by (simp add: c)
qed

end
