(* ===== verification/Onboarding.thy ===== *)
theory Onboarding
  imports Caps RateLimit
begin

text \<open>
  apps/sponsor/src/lib/caps.ts, the onboarding reserve budget: one slot per recipient key and day,
  a share per source, a marker fenced by the admitting request's token, the repeats of a key, and
  the isolate's own counters for a store that cannot be read.  The closures of a held slot are data:
  which store holds it and whether its marker was stamped.  \<open>validKey\<close> stands for the SDK's
  \<open>StrKey.isValidEd25519PublicKey\<close>, and the random token is an argument.
\<close>

definition MAX_REPEATS_PER_KEY :: int where
  "MAX_REPEATS_PER_KEY = 10"

definition DEFAULT_MAX_DAY_ACCOUNTS :: int where
  "DEFAULT_MAX_DAY_ACCOUNTS = 500"

definition ceilDiv :: "int \<Rightarrow> int \<Rightarrow> int" where
  "ceilDiv a b = - ((- a) div b)"

definition defaultSourceShare :: "int \<Rightarrow> string \<Rightarrow> int" where
  "defaultSourceShare maxDayAccounts network =
     (if network = ''mainnet'' then ceilDiv maxDayAccounts 8 else max 20 (ceilDiv maxDayAccounts 5))"

record onb_budget =
  maxDayAccounts :: int
  maxDaySourceAccounts :: int
  budgetClosed :: bool

definition positiveEnv :: "environ \<Rightarrow> string \<Rightarrow> int option" where
  "positiveEnv e name = (case e name of
       Some raw \<Rightarrow> if raw = [] then None else (case parseInt raw of Some n \<Rightarrow> if 0 < n then Some n else None | None \<Rightarrow> None)
     | None \<Rightarrow> None)"

definition onboardingBudgetFromEnv :: "environ \<Rightarrow> string \<Rightarrow> onb_budget" where
  "onboardingBudgetFromEnv e network = (let
       maxDay = (case positiveEnv e ''MAX_DAY_ACCOUNTS'' of Some n \<Rightarrow> n | None \<Rightarrow> DEFAULT_MAX_DAY_ACCOUNTS);
       perSource = (case positiveEnv e ''MAX_DAY_ACCOUNTS_PER_SOURCE'' of Some n \<Rightarrow> n | None \<Rightarrow> defaultSourceShare maxDay network)
     in \<lparr>maxDayAccounts = maxDay, maxDaySourceAccounts = min perSource maxDay,
         budgetClosed = (network = ''mainnet'' \<or> e ''CAPS_FAIL_CLOSED'' = Some ''1'')\<rparr>)"

subsection \<open>Keys\<close>

definition accountDayKey :: "int \<Rightarrow> string \<Rightarrow> string" where
  "accountDayKey now network = ''caps:'' @ network @ '':accounts:'' @ utcDay now"

definition whoOf :: "string \<Rightarrow> string" where
  "whoOf source = ipBucket (if trim source \<noteq> [] then trim source else ''unknown'')"

definition accountSourceDayKey :: "int \<Rightarrow> string \<Rightarrow> string \<Rightarrow> string" where
  "accountSourceDayKey now source network = ''caps:'' @ network @ '':accounts:'' @ utcDay now @ '':src:'' @ whoOf source"

definition accountPubkeyDayKey :: "int \<Rightarrow> string \<Rightarrow> string \<Rightarrow> string" where
  "accountPubkeyDayKey now pk network = ''caps:'' @ network @ '':accounts:'' @ utcDay now @ '':pk:'' @ pk"

definition accountRepeatDayKey :: "int \<Rightarrow> string \<Rightarrow> string \<Rightarrow> string \<Rightarrow> string" where
  "accountRepeatDayKey now pk source network =
     ''caps:'' @ network @ '':accounts:'' @ utcDay now @ '':rep:'' @ pk @ '':'' @ whoOf source"

text \<open>What one request names: its two counters, the key's marker and repeat counter, its token.\<close>

record onb_ids =
  srcKey :: string
  globalKey :: string
  marker :: "string option"
  repKey :: string
  fence :: string

definition onbIds :: "(string \<Rightarrow> bool) \<Rightarrow> int \<Rightarrow> string \<Rightarrow> string option \<Rightarrow> string \<Rightarrow> string \<Rightarrow> onb_ids" where
  "onbIds validKey now source recipient network token = (let pk = trim (orEmpty recipient) in
     \<lparr>srcKey = accountSourceDayKey now source network, globalKey = accountDayKey now network,
      marker = (if pk \<noteq> [] \<and> validKey pk then Some (accountPubkeyDayKey now pk network) else None),
      repKey = accountRepeatDayKey now pk source network, fence = token\<rparr>)"

definition slotKeys :: "onb_ids \<Rightarrow> string list" where
  "slotKeys ids = [srcKey ids, globalKey ids]"

subsection \<open>The isolate's own counters\<close>

record onb_local =
  obDay :: string
  obAccounts :: "(string \<times> int) list"
  obPubkeys :: "(string \<times> string) list"
  obRepeats :: "(string \<times> int) list"

definition rollLocalDay :: "string \<Rightarrow> onb_local \<Rightarrow> onb_local" where
  "rollLocalDay m l = (if m = obDay l then l else \<lparr>obDay = m, obAccounts = [], obPubkeys = [], obRepeats = []\<rparr>)"

definition countOf :: "(string \<times> int) list \<Rightarrow> string \<Rightarrow> int" where
  "countOf m k = (case map_of m k of Some n \<Rightarrow> n | None \<Rightarrow> 0)"

fun bumpAll :: "string list \<Rightarrow> int \<Rightarrow> (string \<times> int) list \<Rightarrow> int list \<times> (string \<times> int) list" where
  "bumpAll [] d m = ([], m)"
| "bumpAll (k # ks) d m = (let n = countOf m k + d;
       m1 = (if 0 < n then AList.update k n m else AList.delete k m) in
     case bumpAll ks d m1 of (ns, m2) \<Rightarrow> (n # ns, m2))"

definition addToLocalDays :: "string list \<Rightarrow> int \<Rightarrow> string \<Rightarrow> onb_local \<Rightarrow> int list \<times> onb_local" where
  "addToLocalDays keys d m l =
     (if m \<noteq> obDay l \<and> d < 0 then (map (\<lambda>_. 0) keys, l)
      else (let l0 = rollLocalDay m l in
        case bumpAll keys d (obAccounts l0) of (ns, acc) \<Rightarrow> (ns, l0\<lparr>obAccounts := acc\<rparr>)))"

subsection \<open>Verdicts\<close>

datatype onb_reason = RepeatsSpent | SourceSpent int | DaySpent int

definition emDash :: string where
  "emDash = [CHR 0xE2, CHR 0x80, CHR 0x94]"

fun onb_reason_text :: "onb_reason \<Rightarrow> string" where
  "onb_reason_text RepeatsSpent =
     ''new account requests for this key are paused for today: it was already set up and asked '' @
     show_int MAX_REPEATS_PER_KEY @ '' more times; try again tomorrow''"
| "onb_reason_text (SourceSpent m) =
     ''new accounts from this connection are paused for today '' @ emDash @ '' its limit of '' @ show_int m @
     '' is reached; try again tomorrow''"
| "onb_reason_text (DaySpent m) =
     ''new accounts are paused for today '' @ emDash @ '' the limit of '' @ show_int m @
     '' a day is reached; try again tomorrow''"

text \<open>Where a slot is held, and whether its marker is stamped.\<close>

datatype slot = StoreSlot bool | LocalSlot bool

datatype onb_verdict = OnbRefused onb_reason | OnbAllowed "slot option" | OnbRepeat

datatype held = HeldRepeat int | HeldLocal int int | HeldStore int int

definition degrade :: "onb_ids \<Rightarrow> onb_local \<Rightarrow> held \<times> onb_local" where
  "degrade ids l = (let l0 = rollLocalDay (globalKey ids) l in
     case marker ids of
       Some m \<Rightarrow> (case map_of (obPubkeys l0) m of
           Some t \<Rightarrow> (let n = countOf (obRepeats l0) (repKey ids) + 1 in
             (HeldRepeat n, l0\<lparr>obPubkeys := AList.update m (fence ids) (obPubkeys l0), obRepeats := AList.update (repKey ids) n (obRepeats l0)\<rparr>))
         | None \<Rightarrow> (case addToLocalDays (slotKeys ids) 1 (globalKey ids) l0 of (ns, l1) \<Rightarrow> (HeldLocal (ns ! 0) (ns ! 1), l1)))
     | None \<Rightarrow> (case addToLocalDays (slotKeys ids) 1 (globalKey ids) l0 of (ns, l1) \<Rightarrow> (HeldLocal (ns ! 0) (ns ! 1), l1)))"

text \<open>Giving a slot back.\<close>

definition giveBackLocal :: "onb_ids \<Rightarrow> bool \<Rightarrow> onb_local \<Rightarrow> onb_local" where
  "giveBackLocal ids stamped l = (case marker ids of
       Some m \<Rightarrow> if stamped
         then (if map_of (obPubkeys l) m \<noteq> Some (fence ids) then l
               else snd (addToLocalDays (slotKeys ids) (- 1) (globalKey ids) (l\<lparr>obPubkeys := AList.delete m (obPubkeys l)\<rparr>)))
         else snd (addToLocalDays (slotKeys ids) (- 1) (globalKey ids) l)
     | None \<Rightarrow> snd (addToLocalDays (slotKeys ids) (- 1) (globalKey ids) l))"

definition plainBack :: "onb_ids \<Rightarrow> string list list" where
  "plainBack ids = concat (map (\<lambda>k. incrCmds k (- 1)) (slotKeys ids))"

definition giveBackStore :: "'k server \<Rightarrow> onb_ids \<Rightarrow> bool \<Rightarrow> 'k world \<Rightarrow> 'k world" where
  "giveBackStore srv ids stamped w = (case marker ids of
       Some m \<Rightarrow> snd (pipeline srv (if stamped
         then [[''EVAL'', FENCED_SLOT_RELEASE, ''3'', m, srcKey ids, globalKey ids, fence ids]] else plainBack ids) w)
     | None \<Rightarrow> snd (pipeline srv (plainBack ids) w))"

definition onbRelease :: "'k server \<Rightarrow> onb_ids \<Rightarrow> slot \<Rightarrow> onb_local \<times> 'k world \<Rightarrow> onb_local \<times> 'k world" where
  "onbRelease srv ids s st = (case s of
       StoreSlot stamped \<Rightarrow> (fst st, giveBackStore srv ids stamped (snd st))
     | LocalSlot stamped \<Rightarrow> (giveBackLocal ids stamped (fst st), snd st))"

subsection \<open>The shared counters\<close>

definition replyCount :: "reply \<Rightarrow> int" where
  "replyCount r = (case replyInt r of Some n \<Rightarrow> n | None \<Rightarrow> 0)"

text \<open>\<open>asRepeat\<close>: \<open>None\<close> is "fresh", \<open>Some n\<close> the n-th repeat of the key (0: not known).\<close>

definition asRepeat :: "'k server \<Rightarrow> onb_ids \<Rightarrow> string \<Rightarrow> 'k world \<Rightarrow> int option \<times> 'k world" where
  "asRepeat srv ids m w = (case pipeline srv [[''SET'', m, fence ids, ''XX'', ''EX'', show_int DAY_KEY_TTL_SECONDS]] w of
       (Inl e, w1) \<Rightarrow> (None, w1)
     | (Inr [], w1) \<Rightarrow> (None, w1)
     | (Inr (Err e # _), w1) \<Rightarrow> (None, w1)
     | (Inr (Result r # _), w1) \<Rightarrow> if r = RNull then (None, w1)
         else (case pipeline srv (plainBack ids @ incrCmds (repKey ids) 1) w1 of
             (Inl e, w2) \<Rightarrow> (Some 0, w2)
           | (Inr rs, w2) \<Rightarrow> (Some (if 4 < length rs then (case rs ! 4 of Err e \<Rightarrow> 0 | r4 \<Rightarrow> replyCount r4) else 0), w2)))"

text \<open>The counters read again after a marker vanished: \<open>Inl\<close> is a value that is no number, which throws.\<close>

definition freshOne :: "reply \<Rightarrow> string + int option" where
  "freshOne r = (case r of Err e \<Rightarrow> Inr None | Result RNull \<Rightarrow> Inr None
     | _ \<Rightarrow> (case replyInt r of Some n \<Rightarrow> Inr (Some n) | None \<Rightarrow> Inl ''Cannot convert to a BigInt''))"

definition freshTotals :: "reply list \<Rightarrow> int \<times> int \<Rightarrow> string + int \<times> int" where
  "freshTotals rs old = (case rs of
       a # b # _ \<Rightarrow> (case (freshOne a, freshOne b) of
           (Inl e, _) \<Rightarrow> Inl e | (_, Inl e) \<Rightarrow> Inl e
         | (Inr (Some x), Inr (Some y)) \<Rightarrow> Inr (x, y) | _ \<Rightarrow> Inr old)
     | _ \<Rightarrow> Inr old)"

text \<open>The reservation inside the \<open>try\<close>: \<open>Inl\<close> is what is caught.\<close>

definition reserve :: "'k server \<Rightarrow> onb_ids \<Rightarrow> 'k world \<Rightarrow> (string + held) \<times> 'k world" where
  "reserve srv ids w = (let incs = concat (map (\<lambda>k. incrCmds k 1) (slotKeys ids)) in
     case marker ids of
       None \<Rightarrow> (case pipeline srv incs w of
           (Inl e, w1) \<Rightarrow> (Inl e, w1)
         | (Inr rs, w1) \<Rightarrow> (case incrTotals rs (slotKeys ids) 0 of Inl e \<Rightarrow> (Inl e, w1) | Inr ns \<Rightarrow> (Inr (HeldStore (ns ! 0) (ns ! 1)), w1)))
     | Some m \<Rightarrow> (case pipeline srv ([''GET'', m] # incs) w of
           (Inl e, w1) \<Rightarrow> (Inl e, w1)
         | (Inr [], w1) \<Rightarrow> (Inl ''caps store error: undefined'', w1)
         | (Inr (Err e # _), w1) \<Rightarrow> (Inl (''caps store error: '' @ e), w1)
         | (Inr (Result got # rs), w1) \<Rightarrow> (case incrTotals (Result got # rs) (slotKeys ids) 1 of
               Inl e \<Rightarrow> (Inl e, w1)
             | Inr ns \<Rightarrow> if got = RNull then (Inr (HeldStore (ns ! 0) (ns ! 1)), w1)
                 else (case asRepeat srv ids m w1 of
                     (Some n, w2) \<Rightarrow> (Inr (HeldRepeat n), w2)
                   | (None, w2) \<Rightarrow> (case pipeline srv (map (\<lambda>k. [''GET'', k]) (slotKeys ids)) w2 of
                         (Inl e, w3) \<Rightarrow> (Inr (HeldStore (ns ! 0) (ns ! 1)), w3)
                       | (Inr fs, w3) \<Rightarrow> (case freshTotals fs (ns ! 0, ns ! 1) of
                             Inl e \<Rightarrow> (Inl e, w3) | Inr (x, y) \<Rightarrow> (Inr (HeldStore x y), w3)))))))"

text \<open>Stamping the marker once both limits passed: the flag, or the repeat it turned out to be.\<close>

definition stampStore :: "'k server \<Rightarrow> onb_ids \<Rightarrow> 'k world \<Rightarrow> (int + bool) \<times> 'k world" where
  "stampStore srv ids w = (case marker ids of
       None \<Rightarrow> (Inr False, w)
     | Some m \<Rightarrow> (case pipeline srv [[''SET'', m, fence ids, ''NX'', ''EX'', show_int DAY_KEY_TTL_SECONDS]] w of
           (Inr (Result r # _), w1) \<Rightarrow> if r = RStr ''OK'' then (Inr True, w1)
             else (case asRepeat srv ids m w1 of (Some n, w2) \<Rightarrow> (Inl n, w2) | (None, w2) \<Rightarrow> (Inr False, w2))
         | (_, w1) \<Rightarrow> (Inr True, w1)))"

definition stampLocal :: "onb_ids \<Rightarrow> onb_local \<Rightarrow> bool \<times> onb_local" where
  "stampLocal ids l = (case marker ids of None \<Rightarrow> (False, l)
     | Some m \<Rightarrow> (True, l\<lparr>obPubkeys := AList.update m (fence ids) (obPubkeys l)\<rparr>))"

definition repeatVerdict :: "int \<Rightarrow> onb_verdict" where
  "repeatVerdict repeats = (if MAX_REPEATS_PER_KEY < repeats then OnbRefused RepeatsSpent else OnbRepeat)"

definition limitRefusal :: "onb_budget \<Rightarrow> int \<Rightarrow> int \<Rightarrow> onb_reason option" where
  "limitRefusal b sourceTotal dayTotal =
     (if maxDaySourceAccounts b < sourceTotal then Some (SourceSpent (maxDaySourceAccounts b))
      else if maxDayAccounts b < dayTotal then Some (DaySpent (maxDayAccounts b)) else None)"

definition judge :: "'k server \<Rightarrow> onb_ids \<Rightarrow> onb_budget \<Rightarrow> held \<Rightarrow> onb_local \<times> 'k world \<Rightarrow> onb_verdict \<times> onb_local \<times> 'k world" where
  "judge srv ids b h st = (case st of (l, w) \<Rightarrow> (case h of
       HeldRepeat n \<Rightarrow> (repeatVerdict n, l, w)
     | HeldLocal s d \<Rightarrow> (case limitRefusal b s d of
           Some r \<Rightarrow> (OnbRefused r, giveBackLocal ids False l, w)
         | None \<Rightarrow> (case stampLocal ids l of (f, l1) \<Rightarrow> (OnbAllowed (Some (LocalSlot f)), l1, w)))
     | HeldStore s d \<Rightarrow> (case limitRefusal b s d of
           Some r \<Rightarrow> (OnbRefused r, l, giveBackStore srv ids False w)
         | None \<Rightarrow> (case stampStore srv ids w of
               (Inl n, w1) \<Rightarrow> (repeatVerdict n, l, w1)
             | (Inr f, w1) \<Rightarrow> (OnbAllowed (Some (StoreSlot f)), l, w1)))))"

definition checkOnboardingBudget :: "'k server \<Rightarrow> onb_ids \<Rightarrow> onb_budget \<Rightarrow> onb_local \<times> 'k world \<Rightarrow> onb_verdict \<times> onb_local \<times> 'k world" where
  "checkOnboardingBudget srv ids b st = (case st of (l, w) \<Rightarrow>
     let fall = (\<lambda>w1. if \<not> budgetClosed b then (OnbAllowed None, l, w1)
        else (case degrade ids l of (h, l1) \<Rightarrow> judge srv ids b h (l1, w1))) in
     if \<not> kvConfigured w then fall w
     else (case reserve srv ids w of (Inl e, w1) \<Rightarrow> fall w1 | (Inr h, w1) \<Rightarrow> judge srv ids b h (l, w1)))"

record day_reading =
  readDay :: string
  escrowUsdc :: "string option"
  accountsToday :: "int option"
  maxDayUsdc :: string
  maxAccounts :: int

definition asBig :: "reply \<Rightarrow> int option" where
  "asBig r = (case r of Result RNull \<Rightarrow> Some 0 | _ \<Rightarrow> replyInt r)"

definition readDayCounters :: "'k server \<Rightarrow> caps_config \<Rightarrow> onb_budget \<Rightarrow> int \<Rightarrow> 'k world \<Rightarrow> day_reading \<times> 'k world" where
  "readDayCounters srv caps budget now w = (let net = network_of (env w);
       base = (\<lambda>e n. \<lparr>readDay = utcDay now, escrowUsdc = e, accountsToday = n,
         maxDayUsdc = stroopsToUsdc (maxDayStroops caps), maxAccounts = maxDayAccounts budget\<rparr>) in
     if \<not> kvConfigured w then (base None None, w)
     else (case pipeline srv [[''GET'', dayKey now net], [''GET'', accountDayKey now net]] w of
         (Inr (a # b # _), w1) \<Rightarrow> (case (asBig a, asBig b) of
             (Some x, Some y) \<Rightarrow> (base (Some (stroopsToUsdc x)) (Some y), w1)
           | _ \<Rightarrow> (base None None, w1))
       | (_, w1) \<Rightarrow> (base None None, w1)))"

subsection \<open>Keys never meet\<close>

lemma cell_str_held: "cell_str c = Some v \<Longrightarrow> c \<noteq> None"
  by (cases c) auto

definition ids_ok :: "onb_ids \<Rightarrow> bool" where
  "ids_ok ids \<longleftrightarrow> (\<exists>m. marker ids = Some m \<and> distinct [m, srcKey ids, globalKey ids, repKey ids])"

lemma account_keys:
  "accountSourceDayKey now s n = accountDayKey now n @ '':src:'' @ whoOf s"
  "accountPubkeyDayKey now pk n = accountDayKey now n @ '':pk:'' @ pk"
  "accountRepeatDayKey now pk s n = accountDayKey now n @ '':rep:'' @ pk @ '':'' @ whoOf s"
  by (simp_all add: accountSourceDayKey_def accountDayKey_def accountPubkeyDayKey_def accountRepeatDayKey_def)

lemma ids_ok_onbIds:
  "trim (orEmpty r) \<noteq> [] \<Longrightarrow> validKey (trim (orEmpty r)) \<Longrightarrow> ids_ok (onbIds validKey now source r net token)"
  by (simp add: ids_ok_def onbIds_def Let_def account_keys)

subsection \<open>The decision on a reachable store\<close>

context redis
begin

lemma pipeline_one:
  "online w \<Longrightarrow> pipeline srv [c] w = (Inr [fst (srv (clock w) c (kvs w))], w\<lparr>kvs := snd (srv (clock w) c (kvs w))\<rparr>)"
  by (simp add: pipeline_online case_prod_unfold)

lemma incrs_exec:
  assumes "wf s" "distinct [a, b]" "is_counter (view t s a)" "is_counter (view t s b)"
  shows "\<exists>rs s'. execAll srv t (concat (map (\<lambda>k. incrCmds k d) [a, b])) s = (rs, s') \<and> wf s' \<and> length rs = 4 \<and>
    (\<forall>pre. incrTotals (pre @ rs) [a, b] (length pre) = Inr [counter (view t s a) + d, counter (view t s b) + d]) \<and>
    view t s' = (view t s)(a \<mapsto> day_cell (counter (view t s a) + d) t, b \<mapsto> day_cell (counter (view t s b) + d) t)"
proof -
  have "\<forall>k\<in>set [a, b]. is_counter (view t s k)" using assms(3,4) by simp
  from addToDays_exec [OF assms(1,2) this, of d] obtain rs s' where
    x: "execAll srv t (concat (map (\<lambda>k. incrCmds k d) [a, b])) s = (rs, s')" "wf s'"
      "\<forall>pre. incrTotals (pre @ rs) [a, b] (length pre) = Inr (map (\<lambda>k. counter (view t s k) + d) [a, b])"
      "view t s' = (\<lambda>k. if k \<in> set [a, b] then Some (day_cell (counter (view t s k) + d) t) else view t s k)" by blast
  have "length rs = 4" using execAll_length [of srv t "concat (map (\<lambda>k. incrCmds k d) [a, b])" s] x(1) by (simp add: incrCmds_def)
  then show ?thesis using x assms(2) by (intro exI [of _ rs] exI [of _ s']) (auto simp: fun_eq_iff)
qed

lemma plainBack_exec:
  assumes "wf s" "srcKey ids \<noteq> globalKey ids" "is_counter (view t s (srcKey ids))" "is_counter (view t s (globalKey ids))"
  shows "\<exists>rs s'. execAll srv t (plainBack ids) s = (rs, s') \<and> wf s' \<and> length rs = 4 \<and>
    view t s' = (view t s)(srcKey ids \<mapsto> day_cell (counter (view t s (srcKey ids)) - 1) t,
      globalKey ids \<mapsto> day_cell (counter (view t s (globalKey ids)) - 1) t)"
proof -
  have "distinct [srcKey ids, globalKey ids]" using assms(2) by simp
  from incrs_exec [OF assms(1) this assms(3,4), of "- 1"] show ?thesis by (auto simp: plainBack_def slotKeys_def)
qed

text \<open>Serving a key's repeat: its marker is stamped afresh, the increments go back, the repeat is counted.\<close>

lemma asRepeat_served:
  assumes "wf (kvs w)" "online w" "distinct [m, srcKey ids, globalKey ids, repKey ids]"
    and "is_counter (view (clock w) (kvs w) (srcKey ids))" "is_counter (view (clock w) (kvs w) (globalKey ids))"
    and "is_counter (view (clock w) (kvs w) (repKey ids))" and "view (clock w) (kvs w) m \<noteq> None"
  shows "\<exists>s'. asRepeat srv ids m w = (Some (counter (view (clock w) (kvs w) (repKey ids)) + 1), w\<lparr>kvs := s'\<rparr>) \<and> wf s' \<and>
    view (clock w) s' = (view (clock w) (kvs w))(m \<mapsto> (VStr (fence ids), Some (clock w + DAY_KEY_TTL_SECONDS * 1000)),
      srcKey ids \<mapsto> day_cell (counter (view (clock w) (kvs w) (srcKey ids)) - 1) (clock w),
      globalKey ids \<mapsto> day_cell (counter (view (clock w) (kvs w) (globalKey ids)) - 1) (clock w),
      repKey ids \<mapsto> day_cell (counter (view (clock w) (kvs w) (repKey ids)) + 1) (clock w))"
proof -
  let ?t = "clock w" and ?c = "[''SET'', m, fence ids, ''XX'', ''EX'', show_int DAY_KEY_TTL_SECONDS]"
  have ttl: "0 < DAY_KEY_TTL_SECONDS" by (simp add: DAY_KEY_TTL_SECONDS_def)
  define s1 where "s1 = snd (srv ?t ?c (kvs w))"
  have s1: "fst (srv ?t ?c (kvs w)) = Result (RStr ''OK'')" "wf s1"
    "view ?t s1 = (view ?t (kvs w))(m \<mapsto> (VStr (fence ids), Some (?t + DAY_KEY_TTL_SECONDS * 1000)))"
    using setxx_reply [OF assms(1) ttl] setxx_view [OF assms(1) ttl] assms(1,7) srv_wf by (auto simp: s1_def)
  have d: "srcKey ids \<noteq> globalKey ids" using assms(3) by auto
  obtain rs s2 where s2: "execAll srv ?t (plainBack ids) s1 = (rs, s2)" "wf s2" "length rs = 4"
    "view ?t s2 = (view ?t s1)(srcKey ids \<mapsto> day_cell (counter (view ?t s1 (srcKey ids)) - 1) ?t,
      globalKey ids \<mapsto> day_cell (counter (view ?t s1 (globalKey ids)) - 1) ?t)"
    using plainBack_exec [OF s1(2) d, of ?t] assms(3-5) by (auto simp: s1(3))
  have "is_counter (view ?t s2 (repKey ids))" using s2(4) s1(3) assms(3,6) by auto
  then obtain r s3 where s3: "execAll srv ?t (incrCmds (repKey ids) 1) s2 = ([Result (RInt (counter (view ?t s2 (repKey ids)) + 1)), r], s3)"
    "wf s3" "view ?t s3 = (view ?t s2)(repKey ids \<mapsto> day_cell (counter (view ?t s2 (repKey ids)) + 1) ?t)"
    using incrCmds_exec [OF s2(2)] by blast
  have rep: "view ?t s2 (repKey ids) = view ?t (kvs w) (repKey ids)" using s2(4) s1(3) assms(3) by auto
  have ex: "execAll srv ?t (plainBack ids @ incrCmds (repKey ids) 1) s1 =
      (rs @ [Result (RInt (counter (view ?t (kvs w) (repKey ids)) + 1)), r], s3)"
    using s2(1) s3(1) by (simp add: prod_eq_iff execAll_append rep)
  have "asRepeat srv ids m w = (Some (counter (view ?t (kvs w) (repKey ids)) + 1), w\<lparr>kvs := s3\<rparr>)"
  proof -
    have "pipeline srv [?c] w = (Inr [Result (RStr ''OK'')], w\<lparr>kvs := s1\<rparr>)"
      using s1(1) by (simp add: pipeline_one [OF assms(2)] s1_def)
    moreover have "pipeline srv (plainBack ids @ incrCmds (repKey ids) 1) (w\<lparr>kvs := s1\<rparr>) =
        (Inr (rs @ [Result (RInt (counter (view ?t (kvs w) (repKey ids)) + 1)), r]), w\<lparr>kvs := s3\<rparr>)"
      using assms(2) ex by (simp add: pipeline_online)
    ultimately show ?thesis using s2(3) by (simp add: asRepeat_def nth_append replyCount_def replyInt_def)
  qed
  moreover have "view ?t s3 = (view ?t (kvs w))(m \<mapsto> (VStr (fence ids), Some (?t + DAY_KEY_TTL_SECONDS * 1000)),
      srcKey ids \<mapsto> day_cell (counter (view ?t (kvs w) (srcKey ids)) - 1) ?t,
      globalKey ids \<mapsto> day_cell (counter (view ?t (kvs w) (globalKey ids)) - 1) ?t,
      repKey ids \<mapsto> day_cell (counter (view ?t (kvs w) (repKey ids)) + 1) ?t)"
    using s3(3) s2(4) s1(3) assms(3) rep by (auto simp: fun_eq_iff)
  ultimately show ?thesis using s3(2) by blast
qed

lemma asRepeat_fresh:
  assumes "wf (kvs w)" "online w" "view (clock w) (kvs w) m = None"
  shows "\<exists>s'. asRepeat srv ids m w = (None, w\<lparr>kvs := s'\<rparr>) \<and> wf s' \<and> view (clock w) s' = view (clock w) (kvs w)"
proof -
  have ttl: "0 < DAY_KEY_TTL_SECONDS" by (simp add: DAY_KEY_TTL_SECONDS_def)
  show ?thesis using assms setxx_reply [OF assms(1) ttl] setxx_view [OF assms(1) ttl] srv_wf [OF assms(1)]
    by (auto simp: asRepeat_def pipeline_one)
qed

lemma get_marker:
  assumes "wf s" "strish (view t s m)"
  shows "\<exists>s'. srv t [''GET'', m] s = (Result (str_reply (cell_str (view t s m))), s') \<and> wf s' \<and> view t s' = view t s"
  using get_reply [OF assms] get_view [OF assms(1)] srv_wf [OF assms(1)]
  by (intro exI [of _ "snd (srv t [''GET'', m] s)"]) (simp add: prod_eq_iff)

lemma reserve_online:
  assumes "wf (kvs w)" "online w" "marker ids = Some m" "distinct [m, srcKey ids, globalKey ids, repKey ids]"
    and "is_counter (view (clock w) (kvs w) (srcKey ids))" "is_counter (view (clock w) (kvs w) (globalKey ids))"
    and "is_counter (view (clock w) (kvs w) (repKey ids))" and "strish (view (clock w) (kvs w) m)"
  defines "s0 \<equiv> counter (view (clock w) (kvs w) (srcKey ids))" and "d0 \<equiv> counter (view (clock w) (kvs w) (globalKey ids))"
    and "n0 \<equiv> counter (view (clock w) (kvs w) (repKey ids))"
  shows "\<exists>s'. wf s' \<and> (if view (clock w) (kvs w) m = None
      then reserve srv ids w = (Inr (HeldStore (s0 + 1) (d0 + 1)), w\<lparr>kvs := s'\<rparr>) \<and>
        view (clock w) s' = (view (clock w) (kvs w))(srcKey ids \<mapsto> day_cell (s0 + 1) (clock w), globalKey ids \<mapsto> day_cell (d0 + 1) (clock w))
      else reserve srv ids w = (Inr (HeldRepeat (n0 + 1)), w\<lparr>kvs := s'\<rparr>) \<and>
        view (clock w) s' = (view (clock w) (kvs w))(m \<mapsto> (VStr (fence ids), Some (clock w + DAY_KEY_TTL_SECONDS * 1000)),
          srcKey ids \<mapsto> day_cell s0 (clock w), globalKey ids \<mapsto> day_cell d0 (clock w), repKey ids \<mapsto> day_cell (n0 + 1) (clock w)))"
proof -
  let ?t = "clock w"
  obtain g where g: "srv ?t [''GET'', m] (kvs w) = (Result (str_reply (cell_str (view ?t (kvs w) m))), g)" "wf g" "view ?t g = view ?t (kvs w)"
    using get_marker [OF assms(1,8)] by blast
  have d: "distinct [srcKey ids, globalKey ids]" using assms(4) by auto
  obtain rs s1 where s1: "execAll srv ?t (concat (map (\<lambda>k. incrCmds k 1) (slotKeys ids))) g = (rs, s1)" "wf s1" "length rs = 4"
      "\<forall>pre. incrTotals (pre @ rs) (slotKeys ids) (length pre) = Inr [s0 + 1, d0 + 1]"
      "view ?t s1 = (view ?t (kvs w))(srcKey ids \<mapsto> day_cell (s0 + 1) ?t, globalKey ids \<mapsto> day_cell (d0 + 1) ?t)"
    using incrs_exec [OF g(2) d, of ?t 1] assms(5,6) g(3) by (auto simp: slotKeys_def s0_def d0_def)
  define got where "got = str_reply (cell_str (view ?t (kvs w) m))"
  define w1 where "w1 = w\<lparr>kvs := s1\<rparr>"
  have o1: "online w1" "clock w1 = ?t" "kvs w1 = s1" using assms(2) by (simp_all add: w1_def)
  have pl: "pipeline srv ([''GET'', m] # concat (map (\<lambda>k. incrCmds k 1) (slotKeys ids))) w = (Inr (Result got # rs), w1)"
    using g(1) s1(1) assms(2) by (simp add: pipeline_online w1_def got_def)
  have tot: "incrTotals (Result got # rs) (slotKeys ids) 1 = Inr [s0 + 1, d0 + 1]" using spec [OF s1(4), of "[Result got]"] by simp
  have null: "got = RNull \<longleftrightarrow> view ?t (kvs w) m = None"
    using assms(8) by (auto simp: got_def strish_def str_reply_def cell_str_def split: option.splits kval.splits)
  show ?thesis
  proof (cases "view ?t (kvs w) m = None")
    case True
    then show ?thesis using pl tot null s1(2,5) assms(3) by (intro exI [of _ s1]) (simp add: reserve_def w1_def)
  next
    case False
    have vw: "view (clock w1) (kvs w1) = (view ?t (kvs w))(srcKey ids \<mapsto> day_cell (s0 + 1) ?t, globalKey ids \<mapsto> day_cell (d0 + 1) ?t)"
      using s1(5) o1 by simp
    have c: "is_counter (view (clock w1) (kvs w1) (srcKey ids))" "is_counter (view (clock w1) (kvs w1) (globalKey ids))"
      "is_counter (view (clock w1) (kvs w1) (repKey ids))" "view (clock w1) (kvs w1) m \<noteq> None"
      using assms(4,7) False by (auto simp: vw)
    have "wf (kvs w1)" using s1(2) o1(3) by simp
    from asRepeat_served [OF this o1(1) assms(4) c] obtain s2 where s2:
      "asRepeat srv ids m w1 = (Some (counter (view (clock w1) (kvs w1) (repKey ids)) + 1), w1\<lparr>kvs := s2\<rparr>)" "wf s2"
      "view (clock w1) s2 = (view (clock w1) (kvs w1))(m \<mapsto> (VStr (fence ids), Some (clock w1 + DAY_KEY_TTL_SECONDS * 1000)),
        srcKey ids \<mapsto> day_cell (counter (view (clock w1) (kvs w1) (srcKey ids)) - 1) (clock w1),
        globalKey ids \<mapsto> day_cell (counter (view (clock w1) (kvs w1) (globalKey ids)) - 1) (clock w1),
        repKey ids \<mapsto> day_cell (counter (view (clock w1) (kvs w1) (repKey ids)) + 1) (clock w1))" by blast
    have n: "counter (view (clock w1) (kvs w1) (repKey ids)) = n0" using assms(4) by (auto simp: vw n0_def)
    have "reserve srv ids w = (Inr (HeldRepeat (n0 + 1)), w\<lparr>kvs := s2\<rparr>)"
      using pl tot null False s2(1) assms(3) n by (simp add: reserve_def w1_def)
    moreover have "view ?t s2 = (view ?t (kvs w))(m \<mapsto> (VStr (fence ids), Some (?t + DAY_KEY_TTL_SECONDS * 1000)),
          srcKey ids \<mapsto> day_cell s0 ?t, globalKey ids \<mapsto> day_cell d0 ?t, repKey ids \<mapsto> day_cell (n0 + 1) ?t)"
      using s2(3) [unfolded n, unfolded vw, unfolded o1(2)] assms(4) by (auto simp: fun_eq_iff)
    ultimately show ?thesis using False s2(2) by (intro exI [of _ s2]) simp
  qed
qed

text \<open>The whole decision of \<open>checkOnboardingBudget\<close> for a well-formed key, on every branch.\<close>

lemma onboarding_decides:
  assumes "wf (kvs w)" "online w" "kvConfigured w" "marker ids = Some m" "distinct [m, srcKey ids, globalKey ids, repKey ids]"
    and "is_counter (view (clock w) (kvs w) (srcKey ids))" "is_counter (view (clock w) (kvs w) (globalKey ids))"
    and "is_counter (view (clock w) (kvs w) (repKey ids))" and "strish (view (clock w) (kvs w) m)"
  defines "s0 \<equiv> counter (view (clock w) (kvs w) (srcKey ids))" and "d0 \<equiv> counter (view (clock w) (kvs w) (globalKey ids))"
    and "n0 \<equiv> counter (view (clock w) (kvs w) (repKey ids))" and "V \<equiv> view (clock w) (kvs w)" and "t \<equiv> clock w"
  shows "\<exists>s' v. wf s' \<and> checkOnboardingBudget srv ids b (l, w) = (v, l, w\<lparr>kvs := s'\<rparr>) \<and>
    (if V m = None
     then (case limitRefusal b (s0 + 1) (d0 + 1) of
         Some r \<Rightarrow> v = OnbRefused r \<and> view t s' = V(srcKey ids \<mapsto> day_cell s0 t, globalKey ids \<mapsto> day_cell d0 t)
       | None \<Rightarrow> v = OnbAllowed (Some (StoreSlot True)) \<and>
           view t s' = V(m \<mapsto> (VStr (fence ids), Some (t + DAY_KEY_TTL_SECONDS * 1000)),
             srcKey ids \<mapsto> day_cell (s0 + 1) t, globalKey ids \<mapsto> day_cell (d0 + 1) t))
     else v = repeatVerdict (n0 + 1) \<and> view t s' = V(m \<mapsto> (VStr (fence ids), Some (t + DAY_KEY_TTL_SECONDS * 1000)),
             srcKey ids \<mapsto> day_cell s0 t, globalKey ids \<mapsto> day_cell d0 t, repKey ids \<mapsto> day_cell (n0 + 1) t))"
proof -
  obtain s1 where s1: "wf s1" "if V m = None
      then reserve srv ids w = (Inr (HeldStore (s0 + 1) (d0 + 1)), w\<lparr>kvs := s1\<rparr>) \<and>
        view t s1 = V(srcKey ids \<mapsto> day_cell (s0 + 1) t, globalKey ids \<mapsto> day_cell (d0 + 1) t)
      else reserve srv ids w = (Inr (HeldRepeat (n0 + 1)), w\<lparr>kvs := s1\<rparr>) \<and>
        view t s1 = V(m \<mapsto> (VStr (fence ids), Some (t + DAY_KEY_TTL_SECONDS * 1000)),
          srcKey ids \<mapsto> day_cell s0 t, globalKey ids \<mapsto> day_cell d0 t, repKey ids \<mapsto> day_cell (n0 + 1) t)"
    using reserve_online [OF assms(1,2,4-9)] unfolding s0_def d0_def n0_def V_def t_def by blast
  define w1 where "w1 = w\<lparr>kvs := s1\<rparr>"
  have o1: "online w1" "clock w1 = t" "kvs w1 = s1" using assms(2) by (simp_all add: w1_def t_def)
  have ne: "srcKey ids \<noteq> globalKey ids" "m \<noteq> srcKey ids" "m \<noteq> globalKey ids" using assms(5) by auto
  show ?thesis
  proof (cases "V m = None")
    case False
    then obtain c where "V m = Some c" by blast
    then show ?thesis using s1 assms(3) by (intro exI [of _ s1]) (simp add: checkOnboardingBudget_def judge_def Let_def)
  next
    case fresh: True
    then have r: "reserve srv ids w = (Inr (HeldStore (s0 + 1) (d0 + 1)), w1)"
      and v1: "view t s1 = V(srcKey ids \<mapsto> day_cell (s0 + 1) t, globalKey ids \<mapsto> day_cell (d0 + 1) t)" using s1(2) by (simp_all add: w1_def)
    show ?thesis
    proof (cases "limitRefusal b (s0 + 1) (d0 + 1)")
      case (Some rr)
      have c: "is_counter (view t s1 (srcKey ids))" "is_counter (view t s1 (globalKey ids))" using ne by (simp_all add: v1)
      obtain rs s2 where s2: "execAll srv t (plainBack ids) s1 = (rs, s2)" "wf s2"
        "view t s2 = (view t s1)(srcKey ids \<mapsto> day_cell (counter (view t s1 (srcKey ids)) - 1) t,
          globalKey ids \<mapsto> day_cell (counter (view t s1 (globalKey ids)) - 1) t)"
        using plainBack_exec [OF s1(1) ne(1) c] by blast
      have "checkOnboardingBudget srv ids b (l, w) = (OnbRefused rr, l, w\<lparr>kvs := s2\<rparr>)"
        using r Some assms(3,4) o1 s2(1)
        by (simp add: checkOnboardingBudget_def judge_def giveBackStore_def pipeline_online) (simp add: w1_def)
      moreover have "view t s2 = V(srcKey ids \<mapsto> day_cell s0 t, globalKey ids \<mapsto> day_cell d0 t)"
        using s2(3) ne by (auto simp: v1 fun_eq_iff)
      ultimately show ?thesis using s2(2) fresh Some by (intro exI [of _ s2]) simp
    next
      case None
      let ?c = "[''SET'', m, fence ids, ''NX'', ''EX'', show_int DAY_KEY_TTL_SECONDS]"
      have ttl: "0 < DAY_KEY_TTL_SECONDS" by (simp add: DAY_KEY_TTL_SECONDS_def)
      have free: "view t s1 m = None" using fresh ne by (simp add: v1)
      define s2 where "s2 = snd (srv t ?c s1)"
      have s2: "fst (srv t ?c s1) = Result (RStr ''OK'')" "wf s2"
        "view t s2 = (view t s1)(m \<mapsto> (VStr (fence ids), Some (t + DAY_KEY_TTL_SECONDS * 1000)))"
        using setnx_reply [OF s1(1) ttl] setnx_view [OF s1(1) ttl] free srv_wf [OF s1(1)] by (auto simp: s2_def)
      have "checkOnboardingBudget srv ids b (l, w) = (OnbAllowed (Some (StoreSlot True)), l, w\<lparr>kvs := s2\<rparr>)"
        using r None assms(3,4) o1 s2(1)
        by (simp add: checkOnboardingBudget_def judge_def stampStore_def pipeline_one s2_def [symmetric]) (simp add: w1_def)
      moreover have "view t s2 = V(m \<mapsto> (VStr (fence ids), Some (t + DAY_KEY_TTL_SECONDS * 1000)),
             srcKey ids \<mapsto> day_cell (s0 + 1) t, globalKey ids \<mapsto> day_cell (d0 + 1) t)"
        using s2(3) ne by (auto simp: v1 fun_eq_iff)
      ultimately show ?thesis using s2(2) fresh None by (intro exI [of _ s2]) simp
    qed
  qed
qed

text \<open>The fenced release gives the slot back exactly while the marker holds the releasing token.\<close>

lemma release_fenced:
  assumes "wf (kvs w)" "online w" "marker ids = Some m" "distinct [m, srcKey ids, globalKey ids, repKey ids]"
    and "is_counter (view (clock w) (kvs w) (srcKey ids))" "is_counter (view (clock w) (kvs w) (globalKey ids))"
    and "strish (view (clock w) (kvs w) m)"
  defines "V \<equiv> view (clock w) (kvs w)"
  shows "\<exists>s'. wf s' \<and> onbRelease srv ids (StoreSlot True) (l, w) = (l, w\<lparr>kvs := s'\<rparr>) \<and>
    view (clock w) s' = (if cell_str (V m) = Some (fence ids)
      then V(m := None, srcKey ids \<mapsto> int_cell (counter (V (srcKey ids)) - 1) (cell_exp (V (srcKey ids))),
        globalKey ids \<mapsto> int_cell (counter (V (globalKey ids)) - 1) (cell_exp (V (globalKey ids))))
      else V)"
proof -
  let ?c = "[''EVAL'', FENCED_SLOT_RELEASE, ''3'', m, srcKey ids, globalKey ids, fence ids]"
  have d: "distinct [m, srcKey ids, globalKey ids]" using assms(4) by auto
  have r: "onbRelease srv ids (StoreSlot True) (l, w) = (l, w\<lparr>kvs := snd (srv (clock w) ?c (kvs w))\<rparr>)"
    using assms(2,3) by (simp add: onbRelease_def giveBackStore_def pipeline_one)
  have "view (clock w) (snd (srv (clock w) ?c (kvs w))) = (if cell_str (V m) = Some (fence ids)
      then V(m := None, srcKey ids \<mapsto> int_cell (counter (V (srcKey ids)) - 1) (cell_exp (V (srcKey ids))),
        globalKey ids \<mapsto> int_cell (counter (V (globalKey ids)) - 1) (cell_exp (V (globalKey ids))))
      else V)"
    using slot_release_open [OF assms(1) d _ is_counter_int [OF assms(5)] is_counter_int [OF assms(6)]]
      slot_release_shut [OF assms(1,7)] by (auto simp: V_def)
  then show ?thesis using r srv_wf [OF assms(1)] by blast
qed

end

subsection \<open>What one request is promised\<close>

text \<open>C7: a first request of the day for a recipient key is admitted exactly inside both limits, and then
  both counters went up by one and the key's marker holds this request's token; refused, the
  counters and the marker are as they were.  A request for a key that already holds its slot moves
  neither counter, takes the slot over, and is served or paused for its repeats alone.\<close>

theorem onboarding_one_slot_per_key:
  fixes w :: "kv world" and now :: int and source token :: string
  assumes "kv_wf (kvs w)" "online w" "kvConfigured w" and "trim pk \<noteq> []" "validKey (trim pk)"
  defines "ids \<equiv> onbIds validKey now source (Some pk) (network_of (env w)) token"
    and "m \<equiv> accountPubkeyDayKey now (trim pk) (network_of (env w))"
  assumes "all_counters cell w [srcKey ids, globalKey ids, repKey ids]" and "strish (cell (clock w) (kvs w) m)"
    and "checkOnboardingBudget runOne ids b (l, w) = (v, l', w')"
  shows "l' = l \<and> (if cell (clock w) (kvs w) m = None
    then (case v of
        OnbAllowed x \<Rightarrow> cnt cell w' (srcKey ids) = cnt cell w (srcKey ids) + 1 \<and> cnt cell w' (srcKey ids) \<le> maxDaySourceAccounts b \<and>
          cnt cell w' (globalKey ids) = cnt cell w (globalKey ids) + 1 \<and> cnt cell w' (globalKey ids) \<le> maxDayAccounts b \<and>
          cell_str (cell (clock w) (kvs w') m) = Some token \<and> x = Some (StoreSlot True)
      | OnbRefused r \<Rightarrow> limitRefusal b (cnt cell w (srcKey ids) + 1) (cnt cell w (globalKey ids) + 1) = Some r \<and>
          cnt cell w' (srcKey ids) = cnt cell w (srcKey ids) \<and> cnt cell w' (globalKey ids) = cnt cell w (globalKey ids) \<and>
          cell (clock w) (kvs w') m = None
      | OnbRepeat \<Rightarrow> False)
    else cnt cell w' (srcKey ids) = cnt cell w (srcKey ids) \<and> cnt cell w' (globalKey ids) = cnt cell w (globalKey ids) \<and>
      cell_str (cell (clock w) (kvs w') m) = Some token \<and> cnt cell w' (repKey ids) = cnt cell w (repKey ids) + 1 \<and>
      v = (if cnt cell w (repKey ids) < MAX_REPEATS_PER_KEY then OnbRepeat else OnbRefused RepeatsSpent))"
proof -
  have mk: "marker ids = Some m" using assms(4,5) by (simp add: ids_def m_def onbIds_def orEmpty_def Let_def)
  have d: "distinct [m, srcKey ids, globalKey ids, repKey ids]"
    using ids_ok_onbIds [of "Some pk" validKey now source "network_of (env w)" token] assms(4,5) mk
    by (auto simp: ids_ok_def orEmpty_def ids_def)
  have f: "fence ids = token" by (simp add: ids_def onbIds_def Let_def)
  have c: "is_counter (cell (clock w) (kvs w) (srcKey ids))" "is_counter (cell (clock w) (kvs w) (globalKey ids))"
    "is_counter (cell (clock w) (kvs w) (repKey ids))" using assms(8) by (simp_all add: all_counters_def)
  note cc = cnt_def [of cell w, symmetric]
  obtain s' where s': "w' = w\<lparr>kvs := s'\<rparr>" "l' = l"
    "if cell (clock w) (kvs w) m = None
     then (case limitRefusal b (cnt cell w (srcKey ids) + 1) (cnt cell w (globalKey ids) + 1) of
         Some r \<Rightarrow> v = OnbRefused r \<and> cell (clock w) s' = (cell (clock w) (kvs w))(srcKey ids \<mapsto> day_cell (cnt cell w (srcKey ids)) (clock w), globalKey ids \<mapsto> day_cell (cnt cell w (globalKey ids)) (clock w))
       | None \<Rightarrow> v = OnbAllowed (Some (StoreSlot True)) \<and>
           cell (clock w) s' = (cell (clock w) (kvs w))(m \<mapsto> (VStr token, Some (clock w + DAY_KEY_TTL_SECONDS * 1000)),
             srcKey ids \<mapsto> day_cell (cnt cell w (srcKey ids) + 1) (clock w), globalKey ids \<mapsto> day_cell (cnt cell w (globalKey ids) + 1) (clock w)))
     else v = repeatVerdict (cnt cell w (repKey ids) + 1) \<and> cell (clock w) s' = (cell (clock w) (kvs w))(m \<mapsto> (VStr token, Some (clock w + DAY_KEY_TTL_SECONDS * 1000)),
             srcKey ids \<mapsto> day_cell (cnt cell w (srcKey ids)) (clock w), globalKey ids \<mapsto> day_cell (cnt cell w (globalKey ids)) (clock w),
             repKey ids \<mapsto> day_cell (cnt cell w (repKey ids) + 1) (clock w))"
    using fake.onboarding_decides [OF assms(1-3) mk d c assms(9), of b l] assms(10) unfolding cc f by auto
  show ?thesis
  proof (cases "cell (clock w) (kvs w) m = None")
    case True
    then show ?thesis using s' d
      by (auto simp: cnt_def limitRefusal_def split: if_splits)
  next
    case False
    then obtain e where "cell (clock w) (kvs w) m = Some e" by blast
    then show ?thesis using s' d by (auto simp: cnt_def repeatVerdict_def)
  qed
qed

text \<open>C8: a retry that overtakes its own first attempt keeps the slot: once the retry was served as the
  key's repeat, releasing the first attempt changes no cell of the store.\<close>

theorem overtaken_release_keeps_slot:
  fixes w :: "kv world" and now :: int and source source2 token token2 :: string
  assumes "kv_wf (kvs w)" "online w" "kvConfigured w" and "trim pk \<noteq> []" "validKey (trim pk)"
  defines "first \<equiv> onbIds validKey now source (Some pk) (network_of (env w)) token"
    and "retry \<equiv> onbIds validKey now source2 (Some pk) (network_of (env w)) token2"
    and "m \<equiv> accountPubkeyDayKey now (trim pk) (network_of (env w))"
  assumes "all_counters cell w [srcKey first, globalKey first, repKey first, srcKey retry, repKey retry]"
    and "cell_str (cell (clock w) (kvs w) m) = Some token" and "token2 \<noteq> token"
    and "checkOnboardingBudget runOne retry b (l, w) = (v, l', w')"
    and "onbRelease runOne first (StoreSlot True) (l', w') = (l2, w2)"
  shows "cell (clock w) (kvs w2) = cell (clock w) (kvs w') \<and> cnt cell w2 (globalKey first) = cnt cell w (globalKey first)"
proof -
  have mk: "marker first = Some m" "marker retry = Some m"
    using assms(4,5) by (simp_all add: first_def retry_def m_def onbIds_def orEmpty_def Let_def)
  have d: "distinct [m, srcKey first, globalKey first, repKey first]" "distinct [m, srcKey retry, globalKey retry, repKey retry]"
    using ids_ok_onbIds [of "Some pk" validKey now source "network_of (env w)" token]
      ids_ok_onbIds [of "Some pk" validKey now source2 "network_of (env w)" token2] assms(4,5) mk
    by (auto simp: ids_ok_def orEmpty_def first_def retry_def)
  have g: "globalKey retry = globalKey first" "fence retry = token2" "fence first = token"
    by (simp_all add: first_def retry_def onbIds_def Let_def)
  have s: "strish (cell (clock w) (kvs w) m)" using assms(10) by (auto simp: strish_def cell_str_def split: option.splits prod.splits kval.splits)
  have taken: "cell (clock w) (kvs w) m \<noteq> None" using cell_str_held [OF assms(10)] .
  have c: "is_counter (cell (clock w) (kvs w) (srcKey retry))" "is_counter (cell (clock w) (kvs w) (globalKey retry))"
    "is_counter (cell (clock w) (kvs w) (repKey retry))" using assms(9) g by (simp_all add: all_counters_def)
  obtain s' where s': "w' = w\<lparr>kvs := s'\<rparr>" "kv_wf s'"
    "cell (clock w) s' = (cell (clock w) (kvs w))(m \<mapsto> (VStr token2, Some (clock w + DAY_KEY_TTL_SECONDS * 1000)),
      srcKey retry \<mapsto> day_cell (counter (cell (clock w) (kvs w) (srcKey retry))) (clock w),
      globalKey retry \<mapsto> day_cell (counter (cell (clock w) (kvs w) (globalKey retry))) (clock w),
      repKey retry \<mapsto> day_cell (counter (cell (clock w) (kvs w) (repKey retry)) + 1) (clock w))"
    using fake.onboarding_decides [OF assms(1-3) mk(2) d(2) c s, of b l] assms(12) taken g(2) by auto
  have src_rep: "srcKey first \<noteq> repKey retry" by (simp add: first_def retry_def onbIds_def Let_def account_keys)
  have c': "is_counter (cell (clock w') (kvs w') (srcKey first))" "is_counter (cell (clock w') (kvs w') (globalKey first))"
    "strish (cell (clock w') (kvs w') m)" "cell_str (cell (clock w') (kvs w') m) = Some token2"
    using s' d g assms(9) src_rep by (auto simp: all_counters_def)
  have o: "online w'" "kv_wf (kvs w')" using s' assms(2) by simp_all
  have "cell (clock w') (kvs w2) = cell (clock w') (kvs w') \<and> clock w2 = clock w'"
    using fake.release_fenced [OF o(2,1) mk(1) d(1) c'(1-3), of l'] assms(11,13) c'(4) g(3) by auto
  then show ?thesis using s' d g by (auto simp: cnt_def)
qed

subsection \<open>A day of requests\<close>

datatype onb_op = Onboard string string string | Release nat

record 'k onb_sys =
  onbIsolate :: onb_local
  onbNode :: "'k world"
  slots :: "(onb_ids \<times> slot) list"

fun onb_do :: "'k server \<Rightarrow> (string \<Rightarrow> bool) \<Rightarrow> onb_budget \<Rightarrow> int \<Rightarrow> onb_op \<Rightarrow> 'k onb_sys \<Rightarrow> 'k onb_sys" where
  "onb_do srv validKey b now (Onboard pk source token) s =
     (let ids = onbIds validKey now source (Some pk) (network_of (env (onbNode s))) token in
      case checkOnboardingBudget srv ids b (onbIsolate s, onbNode s) of (v, l, w) \<Rightarrow>
        s\<lparr>onbIsolate := l, onbNode := w, slots := (case v of OnbAllowed (Some sl) \<Rightarrow> slots s @ [(ids, sl)] | _ \<Rightarrow> slots s)\<rparr>)"
| "onb_do srv validKey b now (Release i) s = (if length (slots s) \<le> i then s
     else (case slots s ! i of (ids, sl) \<Rightarrow> case onbRelease srv ids sl (onbIsolate s, onbNode s) of (l, w) \<Rightarrow>
       s\<lparr>onbIsolate := l, onbNode := w\<rparr>))"

definition onb_run :: "'k server \<Rightarrow> (string \<Rightarrow> bool) \<Rightarrow> onb_budget \<Rightarrow> int \<Rightarrow> onb_op list \<Rightarrow> 'k onb_sys \<Rightarrow> 'k onb_sys" where
  "onb_run srv validKey b now ops s = fold (onb_do srv validKey b now) ops s"

text \<open>The recipient keys that hold one of the day's slots.\<close>

definition holders :: "(string \<Rightarrow> cell option) \<Rightarrow> int \<Rightarrow> string \<Rightarrow> string set" where
  "holders V now net = {pk. V (accountPubkeyDayKey now pk net) \<noteq> None}"

definition onb_inv :: "(int \<Rightarrow> 'k \<Rightarrow> string \<Rightarrow> cell option) \<Rightarrow> ('k \<Rightarrow> bool) \<Rightarrow> (string \<Rightarrow> bool) \<Rightarrow> onb_budget \<Rightarrow> int \<Rightarrow> string \<Rightarrow> 'k onb_sys \<Rightarrow> bool" where
  "onb_inv view ok validKey b now net s \<longleftrightarrow> (let V = view (clock (onbNode s)) (kvs (onbNode s)) in
     ok (kvs (onbNode s)) \<and> online (onbNode s) \<and> kvConfigured (onbNode s) \<and> network_of (env (onbNode s)) = net \<and>
     is_counter (V (accountDayKey now net)) \<and>
     (\<forall>src. is_counter (V (accountSourceDayKey now src net)) \<and> counter (V (accountSourceDayKey now src net)) \<le> maxDaySourceAccounts b) \<and>
     (\<forall>pk src. is_counter (V (accountRepeatDayKey now pk src net))) \<and> (\<forall>pk. strish (V (accountPubkeyDayKey now pk net))) \<and>
     finite (holders V now net) \<and> counter (V (accountDayKey now net)) = int (card (holders V now net)) \<and>
     counter (V (accountDayKey now net)) \<le> maxDayAccounts b \<and>
     (\<forall>(ids, sl)\<in>set (slots s). sl = StoreSlot True \<and>
        (\<exists>pk src token. trim pk \<noteq> [] \<and> validKey (trim pk) \<and> ids = onbIds validKey now src (Some pk) net token)))"

lemma account_keys_neq [simp]:
  "accountSourceDayKey now s n \<noteq> accountDayKey now n" "accountDayKey now n \<noteq> accountSourceDayKey now s n"
  "accountPubkeyDayKey now p n \<noteq> accountDayKey now n" "accountDayKey now n \<noteq> accountPubkeyDayKey now p n"
  "accountRepeatDayKey now p s n \<noteq> accountDayKey now n" "accountDayKey now n \<noteq> accountRepeatDayKey now p s n"
  "accountSourceDayKey now s n \<noteq> accountPubkeyDayKey now p n" "accountPubkeyDayKey now p n \<noteq> accountSourceDayKey now s n"
  "accountSourceDayKey now s n \<noteq> accountRepeatDayKey now p s' n" "accountRepeatDayKey now p s' n \<noteq> accountSourceDayKey now s n"
  "accountPubkeyDayKey now p n \<noteq> accountRepeatDayKey now p' s n" "accountRepeatDayKey now p' s n \<noteq> accountPubkeyDayKey now p n"
  by (simp_all add: account_keys)

lemma pubkey_key_inj [simp]: "accountPubkeyDayKey now p n = accountPubkeyDayKey now q n \<longleftrightarrow> p = q"
  by (simp add: account_keys)

lemma holders_upd:
  "k \<notin> range (\<lambda>pk. accountPubkeyDayKey now pk net) \<Longrightarrow> holders (V(k := c)) now net = holders V now net"
  "holders (V(accountPubkeyDayKey now pk net \<mapsto> x)) now net = insert pk (holders V now net)"
  "holders (V(accountPubkeyDayKey now pk net := None)) now net = holders V now net - {pk}"
  by (auto simp: holders_def)

lemma onbIds_fields:
  "srcKey (onbIds validKey now src (Some pk) net tok) = accountSourceDayKey now src net"
  "globalKey (onbIds validKey now src (Some pk) net tok) = accountDayKey now net"
  "repKey (onbIds validKey now src (Some pk) net tok) = accountRepeatDayKey now (trim pk) src net"
  "fence (onbIds validKey now src (Some pk) net tok) = tok"
  "trim pk \<noteq> [] \<Longrightarrow> validKey (trim pk) \<Longrightarrow>
    marker (onbIds validKey now src (Some pk) net tok) = Some (accountPubkeyDayKey now (trim pk) net)"
  by (simp_all add: onbIds_def orEmpty_def Let_def)

lemma strish_VStr [simp]: "strish (Some (VStr v, e))"
  by (simp add: strish_def)

lemma limitRefusal_None: "limitRefusal b x y = None \<longleftrightarrow> x \<le> maxDaySourceAccounts b \<and> y \<le> maxDayAccounts b"
  by (auto simp: limitRefusal_def)

lemma holders_upds [simp]:
  "holders (V(accountSourceDayKey now s net := c)) now net = holders V now net"
  "holders (V(accountDayKey now net := c)) now net = holders V now net"
  "holders (V(accountRepeatDayKey now p s net := c)) now net = holders V now net"
  "holders (V(accountPubkeyDayKey now pk net \<mapsto> x)) now net = insert pk (holders V now net)"
  "holders (V(accountPubkeyDayKey now pk net := None)) now net = holders V now net - {pk}"
  by (auto simp: holders_def)

text \<open>Source keys of two callers coincide exactly when their buckets do.\<close>

lemma src_upd: "(V(accountSourceDayKey now s net := c)) (accountSourceDayKey now s' net) =
    (if accountSourceDayKey now s' net = accountSourceDayKey now s net then c else V (accountSourceDayKey now s' net))"
  by simp

context redis
begin

lemma onboard_keeps_inv:
  assumes inv: "onb_inv view wf validKey b now net s" and pk: "trim pk \<noteq> []" "validKey (trim pk)"
  shows "onb_inv view wf validKey b now net (onb_do srv validKey b now (Onboard pk source token) s)"
proof -
  define w where "w = onbNode s"
  define ids where "ids = onbIds validKey now source (Some pk) net token"
  define V where "V = view (clock w) (kvs w)"
  let ?src = "accountSourceDayKey now source net" and ?g = "accountDayKey now net"
  let ?m = "accountPubkeyDayKey now (trim pk) net" and ?r = "accountRepeatDayKey now (trim pk) source net"
  have f: "srcKey ids = ?src" "globalKey ids = ?g" "repKey ids = ?r" "fence ids = token" "marker ids = Some ?m"
    using pk by (simp_all add: ids_def onbIds_fields)
  have base: "wf (kvs w)" "online w" "kvConfigured w" "network_of (env w) = net" "is_counter (V ?g)"
    "\<And>src. is_counter (V (accountSourceDayKey now src net))" "\<And>src. counter (V (accountSourceDayKey now src net)) \<le> maxDaySourceAccounts b"
    "\<And>p src. is_counter (V (accountRepeatDayKey now p src net))" "\<And>p. strish (V (accountPubkeyDayKey now p net))"
    "finite (holders V now net)" "counter (V ?g) = int (card (holders V now net))" "counter (V ?g) \<le> maxDayAccounts b"
    and sl: "\<forall>(ids, sl)\<in>set (slots s). sl = StoreSlot True \<and>
        (\<exists>pk src token. trim pk \<noteq> [] \<and> validKey (trim pk) \<and> ids = onbIds validKey now src (Some pk) net token)"
    using inv by (auto simp: onb_inv_def Let_def w_def V_def)
  have d: "distinct [?m, srcKey ids, globalKey ids, repKey ids]" by (simp add: f)
  have c: "is_counter (view (clock w) (kvs w) (srcKey ids))" "is_counter (view (clock w) (kvs w) (globalKey ids))"
    "is_counter (view (clock w) (kvs w) (repKey ids))" "strish (view (clock w) (kvs w) ?m)"
    using base by (simp_all add: f V_def)
  note dec = onboarding_decides [OF base(1-3) f(5) d c, of b "onbIsolate s", folded V_def, unfolded f]
  obtain s' v where s': "wf s'" "checkOnboardingBudget srv ids b (onbIsolate s, w) = (v, onbIsolate s, w\<lparr>kvs := s'\<rparr>)"
    and eff: "if V ?m = None
     then (case limitRefusal b (counter (V ?src) + 1) (counter (V ?g) + 1) of
         Some r \<Rightarrow> v = OnbRefused r \<and> view (clock w) s' = V(?src \<mapsto> day_cell (counter (V ?src)) (clock w), ?g \<mapsto> day_cell (counter (V ?g)) (clock w))
       | None \<Rightarrow> v = OnbAllowed (Some (StoreSlot True)) \<and>
           view (clock w) s' = V(?m \<mapsto> (VStr token, Some (clock w + DAY_KEY_TTL_SECONDS * 1000)),
             ?src \<mapsto> day_cell (counter (V ?src) + 1) (clock w), ?g \<mapsto> day_cell (counter (V ?g) + 1) (clock w)))
     else v = repeatVerdict (counter (V ?r) + 1) \<and> view (clock w) s' = V(?m \<mapsto> (VStr token, Some (clock w + DAY_KEY_TTL_SECONDS * 1000)),
             ?src \<mapsto> day_cell (counter (V ?src)) (clock w), ?g \<mapsto> day_cell (counter (V ?g)) (clock w), ?r \<mapsto> day_cell (counter (V ?r) + 1) (clock w))"
    using dec by blast
  define V' where "V' = view (clock w) s'"
  have slot: "v \<noteq> OnbAllowed None" "\<And>x. v = OnbAllowed (Some x) \<Longrightarrow> x = StoreSlot True"
    using eff by (auto simp: repeatVerdict_def split: if_splits option.splits)
  have new: "onb_do srv validKey b now (Onboard pk source token) s =
      s\<lparr>onbNode := w\<lparr>kvs := s'\<rparr>, slots := (case v of OnbAllowed (Some sl) \<Rightarrow> slots s @ [(ids, sl)] | _ \<Rightarrow> slots s)\<rparr>"
    using s'(2) base(4) by (simp add: w_def [symmetric] ids_def [symmetric] Let_def)
  have sl': "\<forall>(ids, sl)\<in>set (case v of OnbAllowed (Some sl) \<Rightarrow> slots s @ [(ids, sl)] | _ \<Rightarrow> slots s). sl = StoreSlot True \<and>
        (\<exists>pk src token. trim pk \<noteq> [] \<and> validKey (trim pk) \<and> ids = onbIds validKey now src (Some pk) net token)"
    using sl slot pk by (auto simp: ids_def split: onb_verdict.splits option.splits)
  have V': "is_counter (V' ?g) \<and> (\<forall>src. is_counter (V' (accountSourceDayKey now src net)) \<and> counter (V' (accountSourceDayKey now src net)) \<le> maxDaySourceAccounts b) \<and>
     (\<forall>p src. is_counter (V' (accountRepeatDayKey now p src net))) \<and> (\<forall>p. strish (V' (accountPubkeyDayKey now p net))) \<and>
     finite (holders V' now net) \<and> counter (V' ?g) = int (card (holders V' now net)) \<and> counter (V' ?g) \<le> maxDayAccounts b"
  proof (cases "V ?m = None")
    case fresh: True
    then have out: "trim pk \<notin> holders V now net" by (simp add: holders_def)
    show ?thesis
    proof (cases "limitRefusal b (counter (V ?src) + 1) (counter (V ?g) + 1)")
      case None
      then have "V' = V(?m \<mapsto> (VStr token, Some (clock w + DAY_KEY_TTL_SECONDS * 1000)),
             ?src \<mapsto> day_cell (counter (V ?src) + 1) (clock w), ?g \<mapsto> day_cell (counter (V ?g) + 1) (clock w))"
        using eff fresh by (simp add: V'_def)
      moreover have "counter (V ?src) + 1 \<le> maxDaySourceAccounts b" "counter (V ?g) + 1 \<le> maxDayAccounts b" using None by (simp_all add: limitRefusal_None)
      ultimately show ?thesis using base out by simp
    next
      case (Some r)
      then have "V' = V(?src \<mapsto> day_cell (counter (V ?src)) (clock w), ?g \<mapsto> day_cell (counter (V ?g)) (clock w))"
        using eff fresh by (simp add: V'_def)
      then show ?thesis using base by simp
    qed
  next
    case False
    then have mem: "insert (trim pk) (holders V now net) = holders V now net" by (auto simp: holders_def)
    from False obtain e where "V ?m = Some e" by blast
    then have "V' = V(?m \<mapsto> (VStr token, Some (clock w + DAY_KEY_TTL_SECONDS * 1000)),
             ?src \<mapsto> day_cell (counter (V ?src)) (clock w), ?g \<mapsto> day_cell (counter (V ?g)) (clock w), ?r \<mapsto> day_cell (counter (V ?r) + 1) (clock w))"
      using eff by (simp add: V'_def)
    then show ?thesis using base mem by simp
  qed
  show ?thesis
    unfolding new onb_inv_def Let_def using V' s'(1) sl' base(2-4) by (simp add: V'_def)
qed

lemma release_keeps_inv:
  assumes inv: "onb_inv view wf validKey b now net s"
  shows "onb_inv view wf validKey b now net (onb_do srv validKey b now (Release i) s)"
proof (cases "i < length (slots s)")
  case True
  define w where "w = onbNode s"
  define V where "V = view (clock w) (kvs w)"
  obtain ids sl where x: "slots s ! i = (ids, sl)" by (cases "slots s ! i")
  have mem: "(ids, sl) \<in> set (slots s)" using x True nth_mem by metis
  have sl: "\<forall>(ids, sl)\<in>set (slots s). sl = StoreSlot True \<and>
        (\<exists>pk src token. trim pk \<noteq> [] \<and> validKey (trim pk) \<and> ids = onbIds validKey now src (Some pk) net token)"
    using inv by (simp add: onb_inv_def Let_def)
  then obtain pk src token where ids: "ids = onbIds validKey now src (Some pk) net token" "trim pk \<noteq> []" "validKey (trim pk)" "sl = StoreSlot True"
    using mem by blast
  let ?src = "accountSourceDayKey now src net" and ?g = "accountDayKey now net" and ?m = "accountPubkeyDayKey now (trim pk) net"
  have f: "srcKey ids = ?src" "globalKey ids = ?g" "repKey ids = accountRepeatDayKey now (trim pk) src net" "fence ids = token" "marker ids = Some ?m"
    using ids(2,3) by (simp_all add: ids(1) onbIds_fields)
  have base: "wf (kvs w)" "online w" "kvConfigured w" "network_of (env w) = net" "is_counter (V ?g)"
    "\<And>src. is_counter (V (accountSourceDayKey now src net))" "\<And>src. counter (V (accountSourceDayKey now src net)) \<le> maxDaySourceAccounts b"
    "\<And>p src. is_counter (V (accountRepeatDayKey now p src net))" "\<And>p. strish (V (accountPubkeyDayKey now p net))"
    "finite (holders V now net)" "counter (V ?g) = int (card (holders V now net))" "counter (V ?g) \<le> maxDayAccounts b"
    using inv by (auto simp: onb_inv_def Let_def w_def V_def)
  have d: "distinct [?m, srcKey ids, globalKey ids, repKey ids]" by (simp add: f)
  have c: "is_counter (view (clock w) (kvs w) (srcKey ids))" "is_counter (view (clock w) (kvs w) (globalKey ids))" "strish (view (clock w) (kvs w) ?m)"
    using base by (simp_all add: f V_def)
  obtain s' where s': "wf s'" "onbRelease srv ids (StoreSlot True) (onbIsolate s, w) = (onbIsolate s, w\<lparr>kvs := s'\<rparr>)"
    "view (clock w) s' = (if cell_str (V ?m) = Some token
      then V(?m := None, ?src \<mapsto> int_cell (counter (V ?src) - 1) (cell_exp (V ?src)), ?g \<mapsto> int_cell (counter (V ?g) - 1) (cell_exp (V ?g)))
      else V)"
    using release_fenced [OF base(1,2) f(5) d c, of "onbIsolate s", folded V_def, unfolded f] by blast
  define V' where "V' = view (clock w) s'"
  have new: "onb_do srv validKey b now (Release i) s = s\<lparr>onbNode := w\<lparr>kvs := s'\<rparr>\<rparr>"
    using True x ids(4) s'(2) by (simp add: w_def)
  have V': "is_counter (V' ?g) \<and> (\<forall>src. is_counter (V' (accountSourceDayKey now src net)) \<and> counter (V' (accountSourceDayKey now src net)) \<le> maxDaySourceAccounts b) \<and>
     (\<forall>p src. is_counter (V' (accountRepeatDayKey now p src net))) \<and> (\<forall>p. strish (V' (accountPubkeyDayKey now p net))) \<and>
     finite (holders V' now net) \<and> counter (V' ?g) = int (card (holders V' now net)) \<and> counter (V' ?g) \<le> maxDayAccounts b"
  proof (cases "cell_str (V ?m) = Some token")
    case held: True
    have "V' = V(?m := None, ?src \<mapsto> int_cell (counter (V ?src) - 1) (cell_exp (V ?src)), ?g \<mapsto> int_cell (counter (V ?g) - 1) (cell_exp (V ?g)))"
      using s'(3) held by (simp add: V'_def)
    moreover have "trim pk \<in> holders V now net" using cell_str_held [OF held] by (simp add: holders_def)
    then have "int (card (holders V now net - {trim pk})) = int (card (holders V now net)) - 1"
      using base(10) by (simp add: of_nat_diff card_gt_0_iff Suc_le_eq) (metis Suc_pred card_gt_0_iff empty_iff of_nat_Suc add_diff_cancel_left')
    moreover have "counter (V ?src) - 1 \<le> maxDaySourceAccounts b" using base(7) [of src] by linarith
    ultimately show ?thesis using base by simp
  next
    case False
    then have "V' = V" using s'(3) by (simp add: V'_def)
    then show ?thesis using base by simp
  qed
  show ?thesis
    unfolding new onb_inv_def Let_def using V' s'(1) sl base(2-4) by (simp add: V'_def)
qed (use inv in simp)

lemma onb_run_inv:
  assumes "onb_inv view wf validKey b now net s"
    and "\<forall>pk src tok. Onboard pk src tok \<in> set ops \<longrightarrow> trim pk \<noteq> [] \<and> validKey (trim pk)"
  shows "onb_inv view wf validKey b now net (onb_run srv validKey b now ops s)"
  using assms
proof (induction ops arbitrary: s)
  case (Cons x ops)
  have "onb_inv view wf validKey b now net (onb_do srv validKey b now x s)"
  proof (cases x)
    case (Onboard pk src tok)
    then have "trim pk \<noteq> []" "validKey (trim pk)" using Cons.prems(2) by auto
    then show ?thesis using onboard_keeps_inv [OF Cons.prems(1)] Onboard by simp
  next
    case (Release i)
    then show ?thesis using release_keeps_inv [OF Cons.prems(1)] by simp
  qed
  moreover have "\<forall>pk src tok. Onboard pk src tok \<in> set ops \<longrightarrow> trim pk \<noteq> [] \<and> validKey (trim pk)" using Cons.prems(2) by simp
  ultimately show ?case using Cons.IH by (simp add: onb_run_def)
qed (simp add: onb_run_def)

end


definition onb_start :: "kv onb_sys" where
  "onb_start = \<lparr>onbIsolate = \<lparr>obDay = [], obAccounts = [], obPubkeys = [], obRepeats = []\<rparr>, onbNode = pilot_world, slots = []\<rparr>"

definition tight_budget :: onb_budget where
  "tight_budget = \<lparr>maxDayAccounts = 2, maxDaySourceAccounts = 1, budgetClosed = True\<rparr>"

lemma onb_start_simps [simp]:
  "onbNode onb_start = pilot_world" "slots onb_start = []" "maxDayAccounts tight_budget = 2" "maxDaySourceAccounts tight_budget = 1"
  by (simp_all add: onb_start_def tight_budget_def)

lemma trim_short [simp]: "trim ''GB'' = ''GB''" "trim ''10.0.0.1'' = ''10.0.0.1''"
  by code_simp+


theorem onboarding_one_slot_per_key_witness:
  "(case checkOnboardingBudget runOne (onbIds (\<lambda>_. True) 1791460800000 ''10.0.0.1'' (Some ''GA'') ''mainnet'' ''t1'') tight_budget
      (onbIsolate onb_start, pilot_world) of (v, _, w') \<Rightarrow> v = OnbAllowed (Some (StoreSlot True)) \<and>
        cnt cell w' (accountDayKey 1791460800000 ''mainnet'') = 1)"
proof -
  let ?ids = "onbIds (\<lambda>_. True) 1791460800000 ''10.0.0.1'' (Some ''GA'') ''mainnet'' ''t1''"
  obtain v l' w' where r: "checkOnboardingBudget runOne ?ids tight_budget (onbIsolate onb_start, pilot_world) = (v, l', w')"
    by (metis prod_cases3)
  have c: "cnt cell pilot_world k = 0" for k by (simp add: cnt_def)
  have "strish None" by (simp add: strish_def)
  then show ?thesis
    using onboarding_one_slot_per_key [of pilot_world "''GA''" "\<lambda>_. True" 1791460800000 "''10.0.0.1''" "''t1''" tight_budget "onbIsolate onb_start" v l' w'] r
    by (auto simp: c limitRefusal_def tight_budget_def onbIds_fields split: onb_verdict.splits)
qed

text \<open>A store in which \<open>GA\<close> holds its slot under the token \<open>t1\<close>.\<close>

definition held_world :: "kv world" where
  "held_world = pilot_world\<lparr>kvs := setString (accountPubkeyDayKey 1791460800000 ''GA'' ''mainnet'') ''t1'' empty_kv\<rparr>"

lemma held_world_simps [simp]:
  "kv_wf (kvs held_world)" "online held_world" "kvConfigured held_world" "env held_world = pilot_env"
  "clock held_world = 1791460800000"
  by (simp_all add: held_world_def)

lemma cell_held_world: "cell 1791460800000 (kvs held_world) =
    [accountPubkeyDayKey 1791460800000 ''GA'' ''mainnet'' \<mapsto> (VStr ''t1'', None)]"
  by (auto simp: held_world_def setString_def setVal_def cell_def expired_def until_def empty_kv_def fun_eq_iff)

theorem overtaken_release_keeps_slot_witness:
  "\<exists>w' w2. snd (snd (checkOnboardingBudget runOne (onbIds (\<lambda>_. True) 1791460800000 ''10.0.0.1'' (Some ''GA'') ''mainnet'' ''t2'') tight_budget
      (onbIsolate onb_start, held_world))) = w' \<and>
    snd (onbRelease runOne (onbIds (\<lambda>_. True) 1791460800000 ''10.0.0.1'' (Some ''GA'') ''mainnet'' ''t1'') (StoreSlot True) (onbIsolate onb_start, w')) = w2 \<and>
    cell 1791460800000 (kvs w2) = cell 1791460800000 (kvs w')"
proof -
  let ?retry = "onbIds (\<lambda>_. True) 1791460800000 ''10.0.0.1'' (Some ''GA'') ''mainnet'' ''t2''"
  let ?first = "onbIds (\<lambda>_. True) 1791460800000 ''10.0.0.1'' (Some ''GA'') ''mainnet'' ''t1''"
  obtain v l' w' where r: "checkOnboardingBudget runOne ?retry tight_budget (onbIsolate onb_start, held_world) = (v, l', w')"
    by (metis prod_cases3)
  obtain l2 w2 where q: "onbRelease runOne ?first (StoreSlot True) (l', w') = (l2, w2)" by (metis surj_pair)
  have w2: "snd (onbRelease runOne ?first (StoreSlot True) (onbIsolate onb_start, w')) = w2"
    using q by (simp add: onbRelease_def)
  have "all_counters cell held_world [srcKey ?first, globalKey ?first, repKey ?first, srcKey ?retry, repKey ?retry]"
    by (simp add: all_counters_def cell_held_world onbIds_fields)
  then have "cell 1791460800000 (kvs w2) = cell 1791460800000 (kvs w')"
    using overtaken_release_keeps_slot [of held_world "''GA''" "\<lambda>_. True" 1791460800000 "''10.0.0.1''" "''t1''" "''10.0.0.1''" "''t2''" tight_budget
        "onbIsolate onb_start" v l' w' l2 w2] r q by (simp add: cell_held_world)
  then show ?thesis using r w2 by auto
qed

subsection \<open>An unreadable store refuses nobody\<close>

text \<open>C9: when the shared counter is not configured or its first round trip is lost, a request is refused only
  by the isolate's own counts, and only where the budget is set to enforce them; the refusal names
  a count that is over.\<close>

theorem onboarding_outage_serves:
  assumes "kvConfigured w \<longrightarrow> (\<exists>n ns. nets w = Lost n # ns)" and "srcKey ids \<noteq> globalKey ids"
    and "checkOnboardingBudget srv ids b (l, w) = (v, l', w')"
  shows "case v of
      OnbRefused (SourceSpent n) \<Rightarrow> budgetClosed b \<and> n = maxDaySourceAccounts b \<and>
        n < countOf (obAccounts (rollLocalDay (globalKey ids) l)) (srcKey ids) + 1
    | OnbRefused RepeatsSpent \<Rightarrow> budgetClosed b \<and>
        MAX_REPEATS_PER_KEY < countOf (obRepeats (rollLocalDay (globalKey ids) l)) (repKey ids) + 1
    | OnbRefused (DaySpent n) \<Rightarrow> budgetClosed b \<and> n = maxDayAccounts b \<and>
        n < countOf (obAccounts (rollLocalDay (globalKey ids) l)) (globalKey ids) + 1
    | _ \<Rightarrow> True"
proof -
  define l0 where "l0 = rollLocalDay (globalKey ids) l"
  have day: "obDay l0 = globalKey ids" by (simp add: l0_def rollLocalDay_def)
  have "\<exists>w1. checkOnboardingBudget srv ids b (l, w) = (if \<not> budgetClosed b then (OnbAllowed None, l, w1)
      else (case degrade ids l of (h, l1) \<Rightarrow> judge srv ids b h (l1, w1)))"
  proof (cases "kvConfigured w")
    case True
    then obtain n ns where "nets w = Lost n # ns" using assms(1) by blast
    then have "\<exists>e w1. reserve srv ids w = (Inl e, w1)" by (auto simp: reserve_def pipeline_def Let_def split: option.splits)
    then show ?thesis using True by (auto simp: checkOnboardingBudget_def Let_def)
  qed (auto simp: checkOnboardingBudget_def Let_def)
  then obtain w1 where r: "(v, l', w') = (if \<not> budgetClosed b then (OnbAllowed None, l, w1)
      else (case degrade ids l of (h, l1) \<Rightarrow> judge srv ids b h (l1, w1)))" using assms(3) by auto
  show ?thesis
  proof (cases "budgetClosed b")
    case closed: True
    obtain ns l1 where loc: "addToLocalDays (slotKeys ids) 1 (globalKey ids) l0 = (ns, l1)" by (cases "addToLocalDays (slotKeys ids) 1 (globalKey ids) l0")
    have ns: "ns ! 0 = countOf (obAccounts l0) (srcKey ids) + 1" "ns ! 1 = countOf (obAccounts l0) (globalKey ids) + 1"
      using loc day assms(2) by (auto simp: addToLocalDays_def slotKeys_def rollLocalDay_def Let_def countOf_def split: prod.splits)
    have "\<exists>l2. degrade ids l = (HeldRepeat (countOf (obRepeats l0) (repKey ids) + 1), l2) \<or> degrade ids l = (HeldLocal (ns ! 0) (ns ! 1), l2)"
    proof (cases "marker ids")
      case (Some m)
      then show ?thesis using loc by (cases "map_of (obPubkeys l0) m") (simp_all add: degrade_def l0_def [symmetric] Let_def)
    qed (use loc in \<open>simp add: degrade_def l0_def [symmetric] Let_def\<close>)
    then obtain l2 where "degrade ids l = (HeldRepeat (countOf (obRepeats l0) (repKey ids) + 1), l2) \<or> degrade ids l = (HeldLocal (ns ! 0) (ns ! 1), l2)" ..
    then show ?thesis
    proof
      assume "degrade ids l = (HeldRepeat (countOf (obRepeats l0) (repKey ids) + 1), l2)"
      then show ?thesis using r closed by (auto simp: judge_def repeatVerdict_def l0_def)
    next
      assume "degrade ids l = (HeldLocal (ns ! 0) (ns ! 1), l2)"
      then show ?thesis using r closed ns
        by (auto simp: judge_def limitRefusal_def l0_def split: prod.splits if_splits)
    qed
  qed (use r in simp)
qed

theorem onboarding_outage_serves_witness:
  "fst (checkOnboardingBudget runOne (onbIds (\<lambda>_. True) 1791460800000 ''10.0.0.1'' (Some ''GA'') ''mainnet'' ''t1'')
     \<lparr>maxDayAccounts = 2, maxDaySourceAccounts = 1, budgetClosed = True\<rparr> (onbIsolate onb_start, pilot_world\<lparr>nets := [Lost 0]\<rparr>))
   \<noteq> OnbRefused (SourceSpent 1)"
proof -
  obtain v l' w' where r: "checkOnboardingBudget runOne (onbIds (\<lambda>_. True) 1791460800000 ''10.0.0.1'' (Some ''GA'') ''mainnet'' ''t1'')
     \<lparr>maxDayAccounts = 2, maxDaySourceAccounts = 1, budgetClosed = True\<rparr> (onbIsolate onb_start, pilot_world\<lparr>nets := [Lost 0]\<rparr>) = (v, l', w')"
    by (metis prod_cases3)
  have z: "countOf (obAccounts (rollLocalDay k (onbIsolate onb_start))) j = 0" for k j
    by (simp add: countOf_def rollLocalDay_def onb_start_def)
  from onboarding_outage_serves [OF _ _ r] show ?thesis
    using r by (auto simp: z onbIds_fields)
qed

end
