(* ===== verification/FeeBudget.thy ===== *)
theory FeeBudget
  imports KvMoves Caps Complex_Main
begin

text \<open>
  apps/sponsor/src/lib/caps.ts, the day's fee budget: a bid is counted before the signature, net and
  gross, and comes back only on an answer that decides it.  The handle a charge returns is a record
  (the two closures of \<open>FeeCharge\<close> read it), the module's three fallback variables are another, and
  a finite \<open>number\<close> is a rational.
\<close>

datatype fee_bid = BigBid int | NumBid "rat option" | TextBid string

datatype fee_error = NotFinite | NotWhole string | NegativeBid

fun fee_error_text :: "fee_error \<Rightarrow> string" where
  "fee_error_text NotFinite = ''a fee bid must be a finite number of stroops''"
| "fee_error_text (NotWhole s) = ''a fee bid must be a whole number of stroops, got \"'' @ s @ ''\"''"
| "fee_error_text NegativeBid = ''a fee bid cannot be negative''"

text \<open>The pattern \<open>^-?\d+$\<close>.\<close>

definition wholeNumber :: "string \<Rightarrow> bool" where
  "wholeNumber s = (let d = (case s of c # cs \<Rightarrow> if c = CHR ''-'' then cs else s | [] \<Rightarrow> []) in d \<noteq> [] \<and> list_all is_digit d)"

definition bidInt :: "fee_bid \<Rightarrow> fee_error + int" where
  "bidInt fee = (case fee of
       BigBid n \<Rightarrow> Inr n
     | NumBid None \<Rightarrow> Inl NotFinite
     | NumBid (Some q) \<Rightarrow> Inr \<lceil>q\<rceil>
     | TextBid t \<Rightarrow> (let s = trim t in if wholeNumber s
         then (case parse_bigint s of Some n \<Rightarrow> Inr n | None \<Rightarrow> Inl (NotWhole t)) else Inl (NotWhole t)))"

definition toStroops :: "fee_bid \<Rightarrow> fee_error + int" where
  "toStroops fee = (case bidInt fee of Inl e \<Rightarrow> Inl e | Inr n \<Rightarrow> if n < 0 then Inl NegativeBid else Inr n)"

definition chargedStroops :: "fee_bid option \<Rightarrow> int option" where
  "chargedStroops v = (case v of None \<Rightarrow> None | Some b \<Rightarrow> (case toStroops b of Inl e \<Rightarrow> None | Inr n \<Rightarrow> Some n))"

text \<open>\<open>xlm\<close> is \<open>MAX_DAY_FEE_XLM\<close> in whole stroops, when it parses to a positive number.\<close>

definition DEFAULT_MAX_DAY_FEE_XLM :: "string \<Rightarrow> int" where
  "DEFAULT_MAX_DAY_FEE_XLM network = (if network = ''mainnet'' then 15 else 2000)"

definition feeBudgetFromEnv :: "int option \<Rightarrow> string \<Rightarrow> int" where
  "feeBudgetFromEnv xlm network = (case xlm of Some n \<Rightarrow> n | None \<Rightarrow> DEFAULT_MAX_DAY_FEE_XLM network * USDC_STROOPS)"

definition feeDayKey :: "int \<Rightarrow> string \<Rightarrow> string" where
  "feeDayKey now network = ''caps:'' @ network @ '':fees:'' @ utcDay now"

definition feeGrossDayKey :: "int \<Rightarrow> string \<Rightarrow> string" where
  "feeGrossDayKey now network = feeDayKey now network @ '':gross''"

record fee_local =
  localFeeDay :: string
  localFeeStroops :: int
  localFeeGross :: int

definition addToLocalFees :: "int \<Rightarrow> string \<Rightarrow> int \<Rightarrow> fee_local \<Rightarrow> int \<times> fee_local" where
  "addToLocalFees d dayMarker grossD l =
     (if dayMarker \<noteq> localFeeDay l \<and> d < 0 then (0, l)
      else (let l0 = (if dayMarker \<noteq> localFeeDay l then \<lparr>localFeeDay = dayMarker, localFeeStroops = 0, localFeeGross = 0\<rparr> else l);
          net = (if localFeeStroops l0 + d < 0 then 0 else localFeeStroops l0 + d);
          g = (if localFeeGross l0 + grossD < 0 then 0 else localFeeGross l0 + grossD)
        in (net, l0\<lparr>localFeeStroops := net, localFeeGross := g\<rparr>)))"

text \<open>A charge, with the variables its two closures close over.\<close>

record fee_charge =
  totalStroops :: int
  sharedStore :: bool
  bidStroops :: int
  chargeKey :: string
  stillOpen :: bool

datatype charge_result = BadBid fee_error | BudgetSpent | Charged fee_charge

definition FEE_BUDGET_REFUSAL :: string where
  "FEE_BUDGET_REFUSAL = ''today's sponsor fee budget is spent; try again tomorrow''"

text \<open>The count of one bid: the shared pair of keys, or the isolate's own when it cannot be moved.\<close>

definition countBid :: "'k server \<Rightarrow> int \<Rightarrow> string list \<Rightarrow> string \<Rightarrow> fee_local \<times> 'k world \<Rightarrow> (int \<times> bool) \<times> fee_local \<times> 'k world" where
  "countBid srv fee keys key st = (case st of (l, w) \<Rightarrow>
     if \<not> kvConfigured w then (case addToLocalFees fee key fee l of (n, l1) \<Rightarrow> ((n, False), l1, w))
     else (case addToDays srv keys fee w of
         (Inr totals, w1) \<Rightarrow> ((hd totals, True), l, w1)
       | (Inl e, w1) \<Rightarrow> (case addToLocalFees fee key fee l of (n, l1) \<Rightarrow> ((n, False), l1, w1))))"

definition chargeSponsorFee :: "'k server \<Rightarrow> fee_bid \<Rightarrow> int \<Rightarrow> int \<Rightarrow> fee_local \<times> 'k world \<Rightarrow> charge_result \<times> fee_local \<times> 'k world" where
  "chargeSponsorFee srv feeBid maxDayFeeStroops now st = (case toStroops feeBid of
       Inl e \<Rightarrow> (BadBid e, st)
     | Inr fee \<Rightarrow> (let key = feeDayKey now (network_of (env (snd st)));
           grossKey = feeGrossDayKey now (network_of (env (snd st))) in
         case countBid srv fee [key, grossKey] key st of ((tot, sh), l1, w1) \<Rightarrow>
           if maxDayFeeStroops < tot
           then (BudgetSpent, if sh then (l1, snd (addToDays srv [key, grossKey] (- fee) w1))
                              else (snd (addToLocalFees (- fee) key (- fee) l1), w1))
           else (Charged \<lparr>totalStroops = tot, sharedStore = sh, bidStroops = fee, chargeKey = key, stillOpen = True\<rparr>, l1, w1)))"

definition feeGiveBack :: "'k server \<Rightarrow> int \<Rightarrow> fee_charge \<Rightarrow> fee_local \<times> 'k world \<Rightarrow> fee_charge \<times> fee_local \<times> 'k world" where
  "feeGiveBack srv stroops c st =
     (if \<not> stillOpen c then (c, st)
      else (c\<lparr>stillOpen := False\<rparr>,
        if stroops \<le> 0 then st
        else if \<not> sharedStore c then (snd (addToLocalFees (- stroops) (chargeKey c) 0 (fst st)), snd st)
        else (fst st, snd (addToDay srv (chargeKey c) (- stroops) (snd st)))))"

definition notIncluded :: "'k server \<Rightarrow> fee_charge \<Rightarrow> fee_local \<times> 'k world \<Rightarrow> fee_charge \<times> fee_local \<times> 'k world" where
  "notIncluded srv c st = feeGiveBack srv (bidStroops c) c st"

definition settled :: "'k server \<Rightarrow> fee_bid option \<Rightarrow> fee_charge \<Rightarrow> fee_local \<times> 'k world \<Rightarrow> fee_charge \<times> fee_local \<times> 'k world" where
  "settled srv feeCharged c st = (case chargedStroops feeCharged of
       None \<Rightarrow> (c\<lparr>stillOpen := False\<rparr>, st)
     | Some charged \<Rightarrow> if bidStroops c < charged then (c\<lparr>stillOpen := False\<rparr>, st)
         else feeGiveBack srv (bidStroops c - charged) c st)"

text \<open>The signer's outcome is the argument \<open>sign\<close>: the error it throws, if any.\<close>

definition signCharged :: "'k server \<Rightarrow> fee_charge \<Rightarrow> string option \<Rightarrow> fee_local \<times> 'k world \<Rightarrow> string option \<times> fee_charge \<times> fee_local \<times> 'k world" where
  "signCharged srv c sign st = (case sign of None \<Rightarrow> (None, c, st) | Some e \<Rightarrow> (Some e, notIncluded srv c st))"

subsection \<open>Reading the day back\<close>

definition getStroops :: "'k server \<Rightarrow> string \<Rightarrow> 'k world \<Rightarrow> int option \<times> 'k world" where
  "getStroops srv key w = (case pipeline srv [[''GET'', key]] w of
       (Inr (Result RNull # _), w1) \<Rightarrow> (Some 0, w1)
     | (Inr (r # _), w1) \<Rightarrow> (replyInt r, w1)
     | (_, w1) \<Rightarrow> (None, w1))"

record fee_day =
  feeDay :: string
  spentStroops :: "int option"
  grossStroops :: "int option"
  maxStroops :: int
  feeUsed :: "rat option"

definition usedShare :: "int \<Rightarrow> int \<Rightarrow> rat option" where
  "usedShare spent mx = (if 0 < mx then Some (of_int spent / of_int mx) else None)"

definition readSponsorFeeDay :: "'k server \<Rightarrow> int \<Rightarrow> int \<Rightarrow> fee_local \<times> 'k world \<Rightarrow> fee_day \<times> 'k world" where
  "readSponsorFeeDay srv maxDay now st = (case st of (l, w) \<Rightarrow>
     let key = feeDayKey now (network_of (env w)) in
     if \<not> kvConfigured w then
       (let mine = (localFeeDay l = key); spent = (if mine then localFeeStroops l else 0) in
        (\<lparr>feeDay = utcDay now, spentStroops = Some spent, grossStroops = Some (if mine then localFeeGross l else 0),
          maxStroops = maxDay, feeUsed = usedShare spent maxDay\<rparr>, w))
     else (case getStroops srv key w of (spent, w1) \<Rightarrow>
           (case getStroops srv (feeGrossDayKey now (network_of (env w))) w1 of (g, w2) \<Rightarrow>
        (\<lparr>feeDay = utcDay now, spentStroops = spent, grossStroops = g, maxStroops = maxDay,
          feeUsed = (case spent of None \<Rightarrow> None | Some n \<Rightarrow> usedShare n maxDay)\<rparr>, w2))))"

subsection \<open>One charge\<close>

lemma fee_keys_distinct [simp]:
  "feeDayKey a n \<noteq> feeGrossDayKey b n" "feeGrossDayKey b n \<noteq> feeDayKey a n" "distinct [feeDayKey a n, feeGrossDayKey b n]"
proof -
  have "length (feeDayKey a n) \<noteq> length (feeGrossDayKey b n)" by (simp add: feeDayKey_def feeGrossDayKey_def)
  then show ne: "feeDayKey a n \<noteq> feeGrossDayKey b n" by metis
  then show "feeGrossDayKey b n \<noteq> feeDayKey a n" by simp
  from ne show "distinct [feeDayKey a n, feeGrossDayKey b n]" by simp
qed

lemma toStroops_nonneg: "toStroops b = Inr fee \<Longrightarrow> 0 \<le> fee"
  by (auto simp: toStroops_def split: sum.splits if_splits)

lemma chargedStroops_nonneg: "chargedStroops v = Some n \<Longrightarrow> 0 \<le> n"
  by (auto simp: chargedStroops_def toStroops_nonneg split: option.splits sum.splits)

lemma wholeNumber_show_int: "wholeNumber (show_int n)"
  using show_nat_no_minus [of "nat n"] list_all_show_nat [of "nat n"] list_all_show_nat [of "nat (- n)"]
  by (cases "n < 0") (auto simp: wholeNumber_def show_int_def Let_def simp del: list_all_show_nat split: list.splits)

lemma toStroops_text: "toStroops (TextBid (show_int n)) = (if n < 0 then Inl NegativeBid else Inr n)"
  by (simp add: toStroops_def bidInt_def wholeNumber_show_int)

context redis
begin

lemma charge_online:
  fixes now :: int
  assumes "wf (kvs w)" "online w" "kvConfigured w" "toStroops b = Inr fee"
  defines "key \<equiv> feeDayKey now (network_of (env w))" and "g \<equiv> feeGrossDayKey now (network_of (env w))"
  assumes "all_counters view w [key, g]"
  shows "\<exists>w'. wf (kvs w') \<and> online w' \<and> env w' = env w \<and> clock w' = clock w \<and> all_counters view w' [key, g] \<and>
    chargeSponsorFee srv b mx now (l, w) =
      (if mx < cnt view w key + fee then BudgetSpent
       else Charged \<lparr>totalStroops = cnt view w key + fee, sharedStore = True, bidStroops = fee, chargeKey = key, stillOpen = True\<rparr>,
       l, w') \<and>
    (\<forall>k. cnt view w' k = cnt view w k + (if cnt view w key + fee \<le> mx \<and> k \<in> {key, g} then fee else 0))"
proof -
  have d: "distinct [key, g]" by (simp add: key_def g_def)
  obtain w1 where w1: "addToDays srv [key, g] fee w = (Inr (map (\<lambda>k. cnt view w k + fee) [key, g]), w1)"
      "wf (kvs w1)" "online w1" "env w1 = env w" "clock w1 = clock w" "all_counters view w1 [key, g]"
      "\<forall>k. cnt view w1 k = cnt view w k + (if k \<in> set [key, g] then fee else 0)"
    using addToDays_counters [OF assms(1,2) d assms(7), of fee] by blast
  obtain w2 where w2: "addToDays srv [key, g] (- fee) w1 = (Inr (map (\<lambda>k. cnt view w1 k + - fee) [key, g]), w2)"
      "wf (kvs w2)" "online w2" "env w2 = env w1" "clock w2 = clock w1" "all_counters view w2 [key, g]"
      "\<forall>k. cnt view w2 k = cnt view w1 k + (if k \<in> set [key, g] then - fee else 0)"
    using addToDays_counters [OF w1(2,3) d w1(6), of "- fee"] by blast
  have r: "chargeSponsorFee srv b mx now (l, w) =
      (if mx < cnt view w key + fee then (BudgetSpent, l, w2)
       else (Charged \<lparr>totalStroops = cnt view w key + fee, sharedStore = True, bidStroops = fee, chargeKey = key, stillOpen = True\<rparr>, l, w1))"
    using assms(3,4) w1(1) w2(1)
    by (simp add: chargeSponsorFee_def countBid_def key_def [symmetric] g_def [symmetric])
  show ?thesis
  proof (cases "mx < cnt view w key + fee")
    case True
    then show ?thesis using r w1 w2 by (intro exI [of _ w2]) auto
  next
    case False
    then show ?thesis using r w1 by (intro exI [of _ w1]) auto
  qed
qed

lemma giveBack_online:
  assumes "wf (kvs w)" "online w" "all_counters view w [chargeKey c]" "stillOpen c" "sharedStore c"
  shows "\<exists>w'. feeGiveBack srv n c (l, w) = (c\<lparr>stillOpen := False\<rparr>, l, w') \<and>
    (\<forall>k. cnt view w' k = cnt view w k - (if k = chargeKey c \<and> 0 < n then n else 0))"
proof (cases "0 < n")
  case True
  have "distinct [chargeKey c]" by simp
  from addToDays_counters [OF assms(1,2) this assms(3), of "- n"] obtain w1 where
    "addToDays srv [chargeKey c] (- n) w = (Inr (map (\<lambda>k. cnt view w k + - n) [chargeKey c]), w1)"
    "\<forall>k. cnt view w1 k = cnt view w k + (if k \<in> set [chargeKey c] then - n else 0)" by blast
  then show ?thesis using True assms(4,5)
    by (intro exI [of _ w1]) (simp add: feeGiveBack_def addToDay_def)
next
  case False
  then show ?thesis using assms(4) by (intro exI [of _ w]) (simp add: feeGiveBack_def)
qed

end

text \<open>With the store answering, a bid is taken exactly when the day's net total with it stays within
  the budget; taken, it is in the net and in the gross counter; refused, every counter is as it was.\<close>

theorem chargeSponsorFee_decides:
  fixes w :: "kv world"
  assumes "kv_wf (kvs w)" "online w" "kvConfigured w" "toStroops b = Inr fee"
    and "all_counters cell w [feeDayKey now (network_of (env w)), feeGrossDayKey now (network_of (env w))]"
    and "chargeSponsorFee runOne b mx now (l, w) = (res, l', w')"
  shows "l' = l \<and> (case res of
      Charged c \<Rightarrow> totalStroops c = cnt cell w (feeDayKey now (network_of (env w))) + fee \<and> totalStroops c \<le> mx \<and>
        stillOpen c \<and> bidStroops c = fee \<and>
        (\<forall>k. cnt cell w' k = cnt cell w k + (if k \<in> {feeDayKey now (network_of (env w)), feeGrossDayKey now (network_of (env w))} then fee else 0))
    | BudgetSpent \<Rightarrow> mx < cnt cell w (feeDayKey now (network_of (env w))) + fee \<and> (\<forall>k. cnt cell w' k = cnt cell w k)
    | BadBid e \<Rightarrow> False)"
proof -
  obtain w1 where w1: "chargeSponsorFee runOne b mx now (l, w) =
      (if mx < cnt cell w (feeDayKey now (network_of (env w))) + fee then BudgetSpent
       else Charged \<lparr>totalStroops = cnt cell w (feeDayKey now (network_of (env w))) + fee, sharedStore = True,
         bidStroops = fee, chargeKey = feeDayKey now (network_of (env w)), stillOpen = True\<rparr>, l, w1)"
    "\<forall>k. cnt cell w1 k = cnt cell w k + (if cnt cell w (feeDayKey now (network_of (env w))) + fee \<le> mx \<and>
       k \<in> {feeDayKey now (network_of (env w)), feeGrossDayKey now (network_of (env w))} then fee else 0)"
    using fake.charge_online [OF assms(1-5)] by blast
  show ?thesis
  proof (cases "mx < cnt cell w (feeDayKey now (network_of (env w))) + fee")
    case True
    then show ?thesis using assms(6) w1 by auto
  next
    case False
    then show ?thesis using assms(6) w1 by auto
  qed
qed

theorem chargeSponsorFee_decides_witness:
  "(case chargeSponsorFee runOne (TextBid ''5000'') 150000000 1791460800000 (\<lparr>localFeeDay = [], localFeeStroops = 0, localFeeGross = 0\<rparr>, pilot_world) of
     (Charged c, _, w') \<Rightarrow> totalStroops c = 5000 \<and> cnt cell w' (feeDayKey 1791460800000 ''mainnet'') = 5000
   | _ \<Rightarrow> False)"
proof -
  let ?l = "\<lparr>localFeeDay = [], localFeeStroops = 0, localFeeGross = 0\<rparr>"
  obtain res l' w' where r: "chargeSponsorFee runOne (TextBid ''5000'') 150000000 1791460800000 (?l, pilot_world) = (res, l', w')"
    by (metis prod_cases3)
  have b: "toStroops (TextBid ''5000'') = Inr 5000" by code_simp
  have c: "cnt cell pilot_world k = 0" for k by (simp add: cnt_def)
  from chargeSponsorFee_decides [OF _ _ _ b _ r]
  show ?thesis by (auto simp: r c split: charge_result.splits)
qed

subsection \<open>The count never reads below what was spent\<close>

text \<open>What a route may do with its charges, in any order; the clock moves between the calls.  Beside each
  handle stands what the transaction may still cost the sponsor: its bid while nothing decided it,
  nothing when it was not included, the fee the ledger reports once it was.\<close>

datatype fee_op = Charge fee_bid int int | NotIncluded nat | Settled nat "fee_bid option" | ClockTo int

record 'k fee_sys =
  isolate :: fee_local
  node :: "'k world"
  charges :: "(fee_charge \<times> int) list"

definition decidedCost :: "fee_charge \<Rightarrow> fee_bid option \<Rightarrow> int" where
  "decidedCost c v = (case chargedStroops v of Some n \<Rightarrow> if n \<le> bidStroops c then n else bidStroops c | None \<Rightarrow> bidStroops c)"

fun fee_do :: "'k server \<Rightarrow> fee_op \<Rightarrow> 'k fee_sys \<Rightarrow> 'k fee_sys" where
  "fee_do srv (Charge b mx now) s = (case chargeSponsorFee srv b mx now (isolate s, node s) of
      (Charged c, l, w) \<Rightarrow> s\<lparr>isolate := l, node := w, charges := charges s @ [(c, bidStroops c)]\<rparr>
    | (_, l, w) \<Rightarrow> s\<lparr>isolate := l, node := w\<rparr>)"
| "fee_do srv (NotIncluded i) s = (if length (charges s) \<le> i then s
    else (case charges s ! i of (c, owed) \<Rightarrow> case notIncluded srv c (isolate s, node s) of (c', l, w) \<Rightarrow>
      s\<lparr>isolate := l, node := w, charges := (charges s)[i := (c', if stillOpen c then 0 else owed)]\<rparr>))"
| "fee_do srv (Settled i v) s = (if length (charges s) \<le> i then s
    else (case charges s ! i of (c, owed) \<Rightarrow> case settled srv v c (isolate s, node s) of (c', l, w) \<Rightarrow>
      s\<lparr>isolate := l, node := w, charges := (charges s)[i := (c', if stillOpen c then decidedCost c v else owed)]\<rparr>))"
| "fee_do srv (ClockTo t) s = (if clock (node s) \<le> t then s\<lparr>node := (node s)\<lparr>clock := t\<rparr>\<rparr> else s)"

definition fee_run :: "'k server \<Rightarrow> fee_op list \<Rightarrow> 'k fee_sys \<Rightarrow> 'k fee_sys" where
  "fee_run srv ops s = fold (fee_do srv) ops s"

text \<open>What the charges counted under one key may still cost.\<close>

definition owedOf :: "string \<Rightarrow> fee_charge \<times> int \<Rightarrow> int" where
  "owedOf key x = (if sharedStore (fst x) \<and> chargeKey (fst x) = key then snd x else 0)"

definition owing :: "string \<Rightarrow> (fee_charge \<times> int) list \<Rightarrow> int" where
  "owing key cs = (\<Sum>x\<leftarrow>cs. owedOf key x)"

lemma owing_simps [simp]: "owing key [] = 0" "owing key (cs @ ds) = owing key cs + owing key ds"
  "owing key (x # cs) = owedOf key x + owing key cs"
  by (simp_all add: owing_def)

lemma owing_update: "i < length cs \<Longrightarrow> owing key (cs[i := x]) = owing key cs - owedOf key (cs ! i) + owedOf key x"
  by (induction cs arbitrary: i) (auto split: nat.split)

text \<open>The keys of a network's fee counters.\<close>

definition fee_keys :: "string \<Rightarrow> string set" where
  "fee_keys net = range (\<lambda>d. feeDayKey d net) \<union> range (\<lambda>d. feeGrossDayKey d net)"

lemma feeDayKey_in [simp]: "feeDayKey d n \<in> fee_keys n" "feeGrossDayKey d n \<in> fee_keys n"
  by (auto simp: fee_keys_def)

definition charge_ok :: "string \<Rightarrow> fee_charge \<times> int \<Rightarrow> bool" where
  "charge_ok net x \<longleftrightarrow> (\<exists>d. chargeKey (fst x) = feeDayKey d net) \<and> 0 \<le> bidStroops (fst x) \<and>
     (stillOpen (fst x) \<longrightarrow> snd x = bidStroops (fst x))"

definition fee_inv :: "(int \<Rightarrow> 'k \<Rightarrow> string \<Rightarrow> cell option) \<Rightarrow> ('k \<Rightarrow> bool) \<Rightarrow> string \<Rightarrow> int \<Rightarrow> int \<Rightarrow> 'k fee_sys \<Rightarrow> bool" where
  "fee_inv view ok net t0 tend s \<longleftrightarrow> ok (kvs (node s)) \<and> network_of (env (node s)) = net \<and>
     window t0 (clock (node s)) tend \<and>
     (\<forall>j\<in>fee_keys net. durable tend (view (clock (node s)) (kvs (node s)) j)) \<and>
     (\<forall>x\<in>set (charges s). charge_ok net x) \<and>
     (\<forall>d. owing (feeDayKey d net) (charges s) \<le> cnt view (node s) (feeDayKey d net))"

context redis
begin

lemma fee_move:
  assumes "fee_inv view wf net t0 tend s" and "set keys \<subseteq> fee_keys net" and "addToDays srv keys d (node s) = (res, w')"
  shows "\<exists>n. fee_inv view wf net t0 tend (s\<lparr>node := w', charges := []\<rparr>) = (\<forall>e. 0 \<le> cnt view w' (feeDayKey e net)) \<and>
    wf (kvs w') \<and> env w' = env (node s) \<and> clock w' = clock (node s) \<and>
    (\<forall>j\<in>fee_keys net. durable tend (view (clock w') (kvs w') j)) \<and>
    (\<forall>j\<in>fee_keys net. cnt view w' j = cnt view (node s) j + delta j (take n (moveCmds keys d))) \<and>
    (\<forall>ts. res = Inr ts \<longrightarrow> length (moveCmds keys d) \<le> n)"
proof -
  have inv: "wf (kvs (node s))" "window t0 (clock (node s)) tend" "\<forall>j\<in>fee_keys net. durable tend (view (clock (node s)) (kvs (node s)) j)"
    using assms(1) by (auto simp: fee_inv_def)
  obtain n where n: "wf (kvs w')" "\<forall>j\<in>fee_keys net. durable tend (view (clock (node s)) (kvs w') j)" "clock w' = clock (node s)"
    "env w' = env (node s)"
    "\<forall>j\<in>fee_keys net. counter (view (clock (node s)) (kvs w') j) = counter (view (clock (node s)) (kvs (node s)) j) + delta j (take n (moveCmds keys d))"
    "\<And>ts. res = Inr ts \<Longrightarrow> length (moveCmds keys d) \<le> n \<and> length ts = length keys"
    by (rule addToDays_any [OF inv assms(2,3)]) blast
  then show ?thesis using assms(1) by (intro exI [of _ n]) (auto simp: fee_inv_def cnt_def)
qed

text \<open>A state whose node moved and whose charges changed keeps the invariant when no counter fell by more
  than what is owed fell.\<close>

lemma fee_inv_moved:
  assumes "fee_inv view wf net t0 tend s" and "set keys \<subseteq> fee_keys net" and "addToDays srv keys d (node s) = (res, w')"
    and "\<forall>x\<in>set cs. charge_ok net x"
    and "\<And>e n. (\<And>ts. res = Inr ts \<Longrightarrow> length (moveCmds keys d) \<le> n) \<Longrightarrow>
      owing (feeDayKey e net) cs - owing (feeDayKey e net) (charges s) \<le> delta (feeDayKey e net) (take n (moveCmds keys d))"
  shows "fee_inv view wf net t0 tend (s\<lparr>isolate := l, node := w', charges := cs\<rparr>)"
proof -
  obtain n where n: "wf (kvs w')" "env w' = env (node s)" "clock w' = clock (node s)"
    "\<forall>j\<in>fee_keys net. durable tend (view (clock w') (kvs w') j)"
    "\<forall>j\<in>fee_keys net. cnt view w' j = cnt view (node s) j + delta j (take n (moveCmds keys d))"
    "\<forall>ts. res = Inr ts \<longrightarrow> length (moveCmds keys d) \<le> n"
    using fee_move [OF assms(1-3)] by blast
  have "owing (feeDayKey e net) cs \<le> cnt view w' (feeDayKey e net)" for e
  proof -
    have "owing (feeDayKey e net) (charges s) \<le> cnt view (node s) (feeDayKey e net)" using assms(1) by (simp add: fee_inv_def)
    moreover have "cnt view w' (feeDayKey e net) = cnt view (node s) (feeDayKey e net) + delta (feeDayKey e net) (take n (moveCmds keys d))"
      using n(5) by simp
    moreover have "owing (feeDayKey e net) cs - owing (feeDayKey e net) (charges s) \<le> delta (feeDayKey e net) (take n (moveCmds keys d))"
      using assms(5) n(6) by blast
    ultimately show ?thesis by linarith
  qed
  then show ?thesis using assms(1,4) n(1-4) by (simp add: fee_inv_def)
qed

lemma charge_keeps_inv:
  assumes inv: "fee_inv view wf net t0 tend s"
  shows "fee_inv view wf net t0 tend (fee_do srv (Charge b mx now) s)"
proof (cases "toStroops b")
  case (Inl e)
  then show ?thesis using inv by (simp add: chargeSponsorFee_def)
next
  case (Inr fee)
  have net: "network_of (env (node s)) = net" using inv by (simp add: fee_inv_def)
  have fee: "0 \<le> fee" using Inr by (rule toStroops_nonneg)
  define key where "key = feeDayKey now net"
  define g where "g = feeGrossDayKey now net"
  have sub: "set [key, g] \<subseteq> fee_keys net" and dist: "distinct [key, g]" by (simp_all add: key_def g_def)
  have keep: "fee_inv view wf net t0 tend (s\<lparr>isolate := l, node := node s\<rparr>)" for l
    using inv by (simp add: fee_inv_def)
  have ok: "\<forall>x\<in>set (charges s). charge_ok net x" using inv by (simp add: fee_inv_def)
  define c where "c tot sh = \<lparr>totalStroops = tot, sharedStore = sh, bidStroops = fee, chargeKey = key, stillOpen = True\<rparr>" for tot sh
  have okc: "charge_ok net (c tot sh, fee)" for tot sh using fee by (auto simp: charge_ok_def c_def key_def)
  have bid: "bidStroops (c tot sh) = fee" for tot sh by (simp add: c_def)
  have low: "0 \<le> delta j (take n (moveCmds [key, g] fee))" for j n using delta_take_bounds(1) [OF dist fee] .
  show ?thesis
  proof (cases "kvConfigured (node s)")
    case False
    then show ?thesis using inv ok okc
      by (auto simp: chargeSponsorFee_def countBid_def Inr Let_def net case_prod_unfold fee_inv_def c_def [symmetric] key_def [symmetric] bid
          owedOf_def charge_ok_def) (auto simp: c_def owedOf_def)
  next
    case conf: True
    obtain res w1 where w1: "addToDays srv [key, g] fee (node s) = (res, w1)" by (cases "addToDays srv [key, g] fee (node s)")
    show ?thesis
    proof (cases res)
      case (Inl e)
      have "fee_inv view wf net t0 tend (s\<lparr>isolate := l, node := w1, charges := charges s\<rparr>)" for l
        using low by (intro fee_inv_moved [OF inv sub w1 ok]) simp
      moreover have "fee_inv view wf net t0 tend (s\<lparr>isolate := l, node := w1, charges := charges s @ [(c tot False, fee)]\<rparr>)" for l tot
        using low ok okc by (intro fee_inv_moved [OF inv sub w1]) (auto simp: owedOf_def c_def)
      ultimately show ?thesis using conf w1 Inl
        by (simp add: chargeSponsorFee_def countBid_def Inr Let_def net case_prod_unfold key_def [symmetric] g_def [symmetric] c_def [symmetric] bid)
    next
      case r: (Inr ts)
      have all: "delta j (take n (moveCmds [key, g] fee)) = (if j \<in> {key, g} then fee else 0)"
        if "length (moveCmds [key, g] fee) \<le> n" for j n
        using that delta_moveCmds [OF dist, of j fee] by simp
      obtain res2 w2 where w2: "addToDays srv [key, g] (- fee) w1 = (res2, w2)" by (cases "addToDays srv [key, g] (- fee) w1")
      define lost where "lost = (c 0 True, fee)"
      have up: "fee_inv view wf net t0 tend (s\<lparr>isolate := l, node := w1, charges := charges s @ [(c tot True, fee)]\<rparr>)" for l tot
        using r ok okc all fee by (intro fee_inv_moved [OF inv sub w1]) (auto simp: owedOf_def c_def)
      have undone: "fee_inv view wf net t0 tend
          ((s\<lparr>isolate := l, node := w1, charges := charges s @ [lost]\<rparr>)\<lparr>isolate := l, node := w2, charges := charges s\<rparr>)" for l
      proof (rule fee_inv_moved [OF _ sub _ ok])
        show "fee_inv view wf net t0 tend (s\<lparr>isolate := l, node := w1, charges := charges s @ [lost]\<rparr>)"
          using up by (simp add: lost_def)
        show "addToDays srv [key, g] (- fee) (node (s\<lparr>isolate := l, node := w1, charges := charges s @ [lost]\<rparr>)) = (res2, w2)"
          using w2 by simp
        show "owing (feeDayKey e net) (charges s) - owing (feeDayKey e net) (charges (s\<lparr>isolate := l, node := w1, charges := charges s @ [lost]\<rparr>))
            \<le> delta (feeDayKey e net) (take n (moveCmds [key, g] (- fee)))" for e n
          using delta_take_bounds(2) [OF dist fee, of "feeDayKey e net" n] delta_take_bounds(3) [OF dist, of "feeDayKey e net" n "- fee"] fee
          by (auto simp: lost_def owedOf_def c_def g_def)
      qed
      from up [where l = "isolate s"] undone [where l = "isolate s"] show ?thesis using conf w1 w2 r
        by (simp add: chargeSponsorFee_def countBid_def Inr Let_def net case_prod_unfold key_def [symmetric] g_def [symmetric] c_def [symmetric] bid)
    qed
  qed
qed

lemma giveBack_keeps_inv:
  assumes inv: "fee_inv view wf net t0 tend s" and i: "i < length (charges s)" "charges s ! i = (c, owed)"
    and "stillOpen c" and n: "0 \<le> n" "n \<le> bidStroops c"
    and g: "feeGiveBack srv n c (isolate s, node s) = (c', l, w')"
  shows "fee_inv view wf net t0 tend (s\<lparr>isolate := l, node := w', charges := (charges s)[i := (c', bidStroops c - n)]\<rparr>)"
proof -
  have ok: "\<forall>x\<in>set (charges s). charge_ok net x" using inv by (simp add: fee_inv_def)
  then have "charge_ok net (charges s ! i)" using i(1) nth_mem by blast
  then have okc: "charge_ok net (c, owed)" and owed: "owed = bidStroops c" using i assms(4) by (auto simp: charge_ok_def)
  obtain dy where key: "chargeKey c = feeDayKey dy net" using okc by (auto simp: charge_ok_def)
  have c': "c' = c\<lparr>stillOpen := False\<rparr>" using g assms(4) by (simp add: feeGiveBack_def)
  have okc': "charge_ok net (c', m)" for m using okc by (simp add: charge_ok_def c')
  have ok': "\<forall>x\<in>set ((charges s)[i := (c', m)]). charge_ok net x" for m
    using ok okc' set_update_subset_insert [of "charges s" i "(c', m)"] by blast
  have ow: "owing k ((charges s)[i := (c', bidStroops c - n)]) - owing k (charges s) =
      (if sharedStore c \<and> chargeKey c = k then - n else 0)" for k
    using owing_update [OF i(1), of k "(c', bidStroops c - n)"] i(2) owed by (auto simp: owedOf_def c')
  show ?thesis
  proof (cases "sharedStore c \<and> 0 < n")
    case True
    obtain res w1 where w1: "addToDays srv [chargeKey c] (- n) (node s) = (res, w1)" by (cases "addToDays srv [chargeKey c] (- n) (node s)")
    then have "w' = w1" using g True assms(4) by (auto simp: feeGiveBack_def addToDay_def split: sum.splits)
    have dist: "distinct [chargeKey c]" by simp
    have sub: "set [chargeKey c] \<subseteq> fee_keys net" by (simp add: key)
    show ?thesis unfolding \<open>w' = w1\<close>
    proof (rule fee_inv_moved [OF inv sub w1 ok'])
      show "owing (feeDayKey e net) ((charges s)[i := (c', bidStroops c - n)]) - owing (feeDayKey e net) (charges s)
        \<le> delta (feeDayKey e net) (take m (moveCmds [chargeKey c] (- n)))" for e m
        using delta_take_bounds(2) [OF dist n(1), of "feeDayKey e net" m] delta_take_bounds(3) [OF dist, of "feeDayKey e net" m "- n"] True
        by (auto simp: ow)
    qed
  next
    case False
    then have "w' = node s" using g assms(4) by (auto simp: feeGiveBack_def split: if_splits)
    moreover have "owing k ((charges s)[i := (c', bidStroops c - n)]) = owing k (charges s)" for k
      using ow [of k] False n(1) by (auto split: if_splits)
    ultimately show ?thesis using inv ok' by (simp add: fee_inv_def)
  qed
qed

lemma settle_keeps_inv:
  assumes inv: "fee_inv view wf net t0 tend s"
  shows "fee_inv view wf net t0 tend (fee_do srv (NotIncluded i) s)" and "fee_inv view wf net t0 tend (fee_do srv (Settled i v) s)"
proof -
  have same: "fee_inv view wf net t0 tend (s\<lparr>isolate := l, node := node s, charges := (charges s)[i := (c', owed)]\<rparr>)"
    if "i < length (charges s)" "charges s ! i = (c, owed)" "c' = c\<lparr>stillOpen := False\<rparr> \<or> c' = c" for l c c' owed
  proof -
    have ok: "\<forall>x\<in>set (charges s). charge_ok net x" using inv by (simp add: fee_inv_def)
    then have "charge_ok net (charges s ! i)" using that(1) nth_mem by blast
    then have "charge_ok net (c', owed)" using that by (auto simp: charge_ok_def)
    then have "\<forall>x\<in>set ((charges s)[i := (c', owed)]). charge_ok net x"
      using ok set_update_subset_insert [of "charges s" i "(c', owed)"] by blast
    moreover have "owing k ((charges s)[i := (c', owed)]) = owing k (charges s)" for k
      using owing_update [OF that(1), of k "(c', owed)"] that(2,3) by (auto simp: owedOf_def)
    ultimately show ?thesis using inv by (simp add: fee_inv_def)
  qed
  have owed: "owed = bidStroops c" "0 \<le> bidStroops c"
    if "i < length (charges s)" "charges s ! i = (c, owed)" "stillOpen c" for c owed
  proof -
    have "charge_ok net (charges s ! i)" using inv that(1) nth_mem by (auto simp: fee_inv_def)
    then show "owed = bidStroops c" "0 \<le> bidStroops c" using that by (auto simp: charge_ok_def)
  qed
  show "fee_inv view wf net t0 tend (fee_do srv (NotIncluded i) s)"
  proof (cases "i < length (charges s)")
    case True
    obtain c ow where c: "charges s ! i = (c, ow)" by (cases "charges s ! i")
    obtain c' l w' where g: "feeGiveBack srv (bidStroops c) c (isolate s, node s) = (c', l, w')" by (metis prod_cases3)
    show ?thesis
    proof (cases "stillOpen c")
      case op: True
      show ?thesis using giveBack_keeps_inv [OF inv True c op _ _ g] owed [OF True c op] True c g op
        by (simp add: notIncluded_def)
    next
      case False
      then have "c' = c" "w' = node s" using g by (simp_all add: feeGiveBack_def)
      then show ?thesis using same [OF True c, of c] True c g False by (simp add: notIncluded_def)
    qed
  qed (simp add: inv)
  show "fee_inv view wf net t0 tend (fee_do srv (Settled i v) s)"
  proof (cases "i < length (charges s)")
    case True
    obtain c ow where c: "charges s ! i = (c, ow)" by (cases "charges s ! i")
    show ?thesis
    proof (cases "stillOpen c \<and> (\<exists>m. chargedStroops v = Some m \<and> m \<le> bidStroops c)")
      case op: True
      then obtain m where m: "chargedStroops v = Some m" "m \<le> bidStroops c" by blast
      obtain c' l w' where g: "feeGiveBack srv (bidStroops c - m) c (isolate s, node s) = (c', l, w')" by (metis prod_cases3)
      have "fee_inv view wf net t0 tend (s\<lparr>isolate := l, node := w', charges := (charges s)[i := (c', bidStroops c - (bidStroops c - m))]\<rparr>)"
        using giveBack_keeps_inv [OF inv True c _ _ _ g] op m chargedStroops_nonneg [OF m(1)] by simp
      then show ?thesis using True c g op m by (simp add: settled_def decidedCost_def not_less)
    next
      case False
      then have d: "(if stillOpen c then decidedCost c v else ow) = ow"
        using owed [OF True c] by (auto simp: decidedCost_def split: option.splits)
      have "settled srv v c (isolate s, node s) = (c\<lparr>stillOpen := False\<rparr>, isolate s, node s) \<or>
          settled srv v c (isolate s, node s) = (c, isolate s, node s)"
        using False by (auto simp: settled_def feeGiveBack_def split: option.splits)
      then show ?thesis using True c d same [OF True c, where l = "isolate s"] by auto
    qed
  qed (simp add: inv)
qed

lemma fee_run_inv:
  assumes "fee_inv view wf net t0 tend s" and "\<forall>t. ClockTo t \<in> set ops \<longrightarrow> t \<le> tend"
  shows "fee_inv view wf net t0 tend (fee_run srv ops s)"
  using assms
proof (induction ops arbitrary: s)
  case (Cons x ops)
  have "fee_inv view wf net t0 tend (fee_do srv x s)"
  proof (cases x)
    case (Charge b mx now)
    then show ?thesis using charge_keeps_inv [OF Cons.prems(1)] by simp
  next
    case (NotIncluded i)
    then show ?thesis using settle_keeps_inv [OF Cons.prems(1)] by simp
  next
    case (Settled i v)
    then show ?thesis using settle_keeps_inv [OF Cons.prems(1)] by simp
  next
    case (ClockTo t)
    have "t \<le> tend" using Cons.prems(2) ClockTo by simp
    have wf: "wf (kvs (node s))" using Cons.prems(1) by (simp add: fee_inv_def)
    have "view t (kvs (node s)) j = view (clock (node s)) (kvs (node s)) j" if "clock (node s) \<le> t" "j \<in> fee_keys net" for j
      using view_lapse [OF wf that(1)] durable_lapse [OF _ \<open>t \<le> tend\<close>] Cons.prems(1) that(2) by (simp add: fee_inv_def)
    then show ?thesis using Cons.prems(1) ClockTo \<open>t \<le> tend\<close> by (auto simp: fee_inv_def window_def cnt_def)
  qed
  then show ?case using Cons.IH Cons.prems(2) by (simp add: fee_run_def)
qed (simp add: fee_run_def)

end

text \<open>C10: whatever the routes do with their charges in one budget window, and whatever round trips are
  lost or broken off on the way, a day's shared fee counter never reads below what the charges
  counted under it may still cost: bids for the undecided, the reported fee for the included, nothing
  for those that provably never reached a ledger.\<close>

theorem fee_count_covers_spend:
  fixes s :: "kv fee_sys"
  assumes "kvs (node s) = empty_kv" and "charges s = []" and "clock (node s) \<le> tend"
    and "tend < clock (node s) + DAY_KEY_TTL_SECONDS * 1000" and "\<forall>t. ClockTo t \<in> set ops \<longrightarrow> t \<le> tend"
  shows "owing (feeDayKey d (network_of (env (node s)))) (charges (fee_run runOne ops s)) \<le>
    cnt cell (node (fee_run runOne ops s)) (feeDayKey d (network_of (env (node s))))"
proof -
  have "fee_inv cell kv_wf (network_of (env (node s))) (clock (node s)) tend s"
    using assms(1-4) by (simp add: fee_inv_def window_def cnt_def)
  from fake.fee_run_inv [OF this assms(5)] show ?thesis by (simp add: fee_inv_def)
qed

definition fee_start :: "kv fee_sys" where
  "fee_start = \<lparr>isolate = \<lparr>localFeeDay = [], localFeeStroops = 0, localFeeGross = 0\<rparr>,
     node = pilot_world\<lparr>nets := [Delivered, Lost 1, Delivered]\<rparr>, charges = []\<rparr>"

definition fee_story :: "fee_op list" where
  "fee_story = [Charge (BigBid 5000) 150000000 1791460800000, Charge (BigBid 700) 150000000 1791460800000,
     ClockTo 1791460801000, Settled 0 (Some (BigBid 200))]"

theorem fee_count_covers_spend_witness:
  "owing (feeDayKey 1791460800000 ''mainnet'') (charges (fee_run runOne fee_story fee_start)) \<le>
    cnt cell (node (fee_run runOne fee_story fee_start)) (feeDayKey 1791460800000 ''mainnet'')"
  using fee_count_covers_spend [of fee_start 1791460900000 fee_story 1791460800000]
  by (simp add: fee_start_def DAY_KEY_TTL_SECONDS_def) (simp add: fee_story_def)

subsection \<open>A handle settles once\<close>

datatype fee_call = CallNotIncluded | CallSettled "fee_bid option"

fun fee_call_do :: "'k server \<Rightarrow> fee_call \<Rightarrow> fee_charge \<times> fee_local \<times> 'k world \<Rightarrow> fee_charge \<times> fee_local \<times> 'k world" where
  "fee_call_do srv CallNotIncluded (c, st) = notIncluded srv c st"
| "fee_call_do srv (CallSettled v) (c, st) = settled srv v c st"

lemma fee_call_closes: "\<not> stillOpen (fst (fee_call_do srv x y))"
  by (cases x; cases y) (auto simp: notIncluded_def settled_def feeGiveBack_def split: option.splits)

lemma fee_call_closed: "\<not> stillOpen c \<Longrightarrow> fee_call_do srv x (c, st) = (c, st)"
  by (cases x) (auto simp: notIncluded_def settled_def feeGiveBack_def split: option.splits)

text \<open>A charge settles at most once: the first of its calls decides, the later ones change nothing, so no
  route can give the same bid back twice.\<close>

theorem fee_charge_settles_once:
  "fold (fee_call_do srv) (x # later) (c, st) = fee_call_do srv x (c, st)"
proof -
  have closed: "fold (fee_call_do srv) later y = y" if "\<not> stillOpen (fst y)" for y
    using that by (induction later arbitrary: y) (auto simp: fee_call_closed)
  show ?thesis using closed [OF fee_call_closes] by (simp add: fold_Cons)
qed

end
