(* ===== verification/KillSwitch.thy ===== *)
theory KillSwitch
  imports KvClient UtcDay
begin

text \<open>
  apps/sponsor/src/lib/kill-switch.ts: the halt verdict of one isolate.  A verdict comes from the
  environment, from a short cache, or from one store read per network that every caller shares;
  a halt written by the isolate itself wins over a read that left before it.  A pending read is a
  record (what its promise captured) in the list of reads the isolate started; its three moments
  (asked, answered by the store, finished) are separate operations, so they may interleave with
  writes.
\<close>

definition CACHE_MS :: int where
  "CACHE_MS = 5000"

definition HALT_KEY :: string where
  "HALT_KEY = ''sponsor:halt''"

definition haltKey :: "string \<Rightarrow> string" where
  "haltKey network = HALT_KEY @ '':'' @ network"

definition haltReasonKey :: "string \<Rightarrow> string" where
  "haltReasonKey network = haltKey network @ '':reason''"

datatype halt_source = ByEnv | ByStore | ByLegacy

record halt_verdict =
  isHaltedV :: bool
  haltSource :: "halt_source option"
  haltReason :: "string option"

definition notHalted :: halt_verdict where
  "notHalted = \<lparr>isHaltedV = False, haltSource = None, haltReason = None\<rparr>"

definition envNetwork :: "environ \<Rightarrow> string" where
  "envNetwork e = (if e ''STELLAR_NETWORK'' = Some ''mainnet'' then ''mainnet'' else ''testnet'')"

text \<open>One round trip; any error among the replies throws.\<close>

fun rows :: "reply list \<Rightarrow> string + rval list" where
  "rows [] = Inr []"
| "rows (Err e # rs) = Inl (''halt store error: '' @ e)"
| "rows (Result r # rs) = (case rows rs of Inl e \<Rightarrow> Inl e | Inr xs \<Rightarrow> Inr (r # xs))"

definition kvPipeline' :: "'k server \<Rightarrow> string list list \<Rightarrow> 'k world \<Rightarrow> (string + rval list) \<times> 'k world" where
  "kvPipeline' srv cmds w = (case pipeline srv cmds w of (Inl e, w1) \<Rightarrow> (Inl e, w1) | (Inr rs, w1) \<Rightarrow> (rows rs, w1))"

definition readVerdict :: "rval list \<Rightarrow> halt_verdict" where
  "readVerdict xs = (if xs ! 0 = RStr ''1'' then \<lparr>isHaltedV = True, haltSource = Some ByStore,
        haltReason = (case xs ! 2 of RStr r \<Rightarrow> Some r | _ \<Rightarrow> None)\<rparr>
     else if xs ! 1 = RStr ''1'' then \<lparr>isHaltedV = True, haltSource = Some ByLegacy, haltReason = None\<rparr>
     else notHalted)"

definition readHalt :: "'k server \<Rightarrow> string \<Rightarrow> 'k world \<Rightarrow> (string + halt_verdict) \<times> 'k world" where
  "readHalt srv network w =
     (case kvPipeline' srv [[''GET'', haltKey network], [''GET'', HALT_KEY], [''GET'', haltReasonKey network]] w of
        (Inl e, w1) \<Rightarrow> (Inl e, w1)
      | (Inr xs, w1) \<Rightarrow> (Inr (readVerdict xs), w1))"

record halt_read =
  readNet :: string
  startedAt :: nat
  askedAt :: int
  answer :: "halt_verdict option"

record halt_isolate =
  cached :: "(string \<times> (halt_verdict \<times> int)) list"
  inflight :: "(string \<times> nat) list"
  generation :: nat
  reads :: "halt_read list"

datatype halt_reply = Now halt_verdict | Waiting nat

text \<open>The part of \<open>haltStatus\<close> before its first await.\<close>

definition haltAsk :: "environ \<Rightarrow> bool \<Rightarrow> int \<Rightarrow> string \<Rightarrow> halt_isolate \<Rightarrow> halt_reply \<times> halt_isolate" where
  "haltAsk e configured now network h =
     (if e ''SPONSOR_HALT'' = Some ''1''
      then (Now \<lparr>isHaltedV = True, haltSource = Some ByEnv, haltReason = Some ''SPONSOR_HALT=1 in the Worker environment''\<rparr>, h)
      else if \<not> configured then (Now notHalted, h)
      else (let start = (Waiting (length (reads h)), h\<lparr>inflight := AList.update network (length (reads h)) (inflight h),
             reads := reads h @ [\<lparr>readNet = network, startedAt = generation h, askedAt = now, answer = None\<rparr>]\<rparr>);
          join = (case map_of (inflight h) network of Some i \<Rightarrow> (Waiting i, h) | None \<Rightarrow> start) in
        case map_of (cached h) network of
          Some (v, at) \<Rightarrow> if now - at < CACHE_MS then (Now v, h) else join
        | None \<Rightarrow> join))"

text \<open>The store's answer to a read; an error fails open.\<close>

definition readStore :: "'k server \<Rightarrow> nat \<Rightarrow> halt_isolate \<times> 'k world \<Rightarrow> halt_isolate \<times> 'k world" where
  "readStore srv i st = (case st of (h, w) \<Rightarrow>
     if i < length (reads h) \<and> answer (reads h ! i) = None
     then (case readHalt srv (readNet (reads h ! i)) w of (res, w1) \<Rightarrow>
       (h\<lparr>reads := (reads h)[i := (reads h ! i)\<lparr>answer := Some (case res of Inl e \<Rightarrow> notHalted | Inr v \<Rightarrow> v)\<rparr>]\<rparr>, w1))
     else (h, w))"

text \<open>The rest of the read once its answer is there: the cache, unless a write came in between.\<close>

definition finishRead :: "nat \<Rightarrow> halt_isolate \<Rightarrow> halt_isolate" where
  "finishRead i h = (if i < length (reads h) then (case answer (reads h ! i) of
       None \<Rightarrow> h
     | Some v \<Rightarrow> (let r = reads h ! i in
         h\<lparr>cached := (if generation h = startedAt r then AList.update (readNet r) (v, askedAt r) (cached h) else cached h),
           inflight := AList.delete (readNet r) (inflight h)\<rparr>)) else h)"

text \<open>\<open>haltStatus\<close> with nothing in between.\<close>

definition haltStatus :: "'k server \<Rightarrow> int \<Rightarrow> string \<Rightarrow> halt_isolate \<times> 'k world \<Rightarrow> halt_verdict \<times> halt_isolate \<times> 'k world" where
  "haltStatus srv now network st = (case st of (h, w) \<Rightarrow>
     (case haltAsk (env w) (kvConfigured w) now network h of
        (Now v, h1) \<Rightarrow> (v, h1, w)
      | (Waiting i, h1) \<Rightarrow> (case readStore srv i (h1, w) of (h2, w2) \<Rightarrow>
          ((case answer (reads h2 ! i) of Some v \<Rightarrow> v | None \<Rightarrow> notHalted), finishRead i h2, w2))))"

definition isHalted :: "'k server \<Rightarrow> int \<Rightarrow> string \<Rightarrow> halt_isolate \<times> 'k world \<Rightarrow> bool \<times> halt_isolate \<times> 'k world" where
  "isHalted srv now network st = (case haltStatus srv now network st of (v, st') \<Rightarrow> (isHaltedV v, st'))"

definition storeHaltIsSet :: "'k server \<Rightarrow> string \<Rightarrow> 'k world \<Rightarrow> bool option \<times> 'k world" where
  "storeHaltIsSet srv network w = (if \<not> kvConfigured w then (None, w)
     else (case kvPipeline' srv [[''GET'', haltKey network]] w of
         (Inl e, w1) \<Rightarrow> (None, w1) | (Inr xs, w1) \<Rightarrow> (Some (xs ! 0 = RStr ''1''), w1)))"

text \<open>\<open>toISOString\<close> of an instant.\<close>

definition toISOString :: "int \<Rightarrow> string" where
  "toISOString t = (let ms = t mod 86400000 in utcDay t @ ''T'' @ padStart 2 (show_int (ms div 3600000)) @ '':'' @
     padStart 2 (show_int (ms div 60000 mod 60)) @ '':'' @ padStart 2 (show_int (ms div 1000 mod 60)) @ ''.'' @
     padStart 3 (show_int (ms mod 1000)) @ ''Z'')"

text \<open>\<open>setHalt\<close> and \<open>clearHalt\<close>; \<open>Inl\<close> is the error they throw, \<open>Inr False\<close> a store that is not configured.\<close>

definition setHalt :: "'k server \<Rightarrow> string \<Rightarrow> string \<Rightarrow> int \<Rightarrow> halt_isolate \<times> 'k world \<Rightarrow> (string + bool) \<times> halt_isolate \<times> 'k world" where
  "setHalt srv network reason now st = (case st of (h, w) \<Rightarrow>
     if \<not> kvConfigured w then (Inr False, h, w)
     else (let stamped = toISOString now @ '' '' @ reason in
       case kvPipeline' srv [[''SET'', haltKey network, ''1''], [''SET'', haltReasonKey network, stamped]] w of
         (Inl e, w1) \<Rightarrow> (Inl e, h, w1)
       | (Inr _, w1) \<Rightarrow> (Inr True, h\<lparr>generation := Suc (generation h),
           cached := AList.update network (\<lparr>isHaltedV = True, haltSource = Some ByStore, haltReason = Some stamped\<rparr>, clock w1) (cached h)\<rparr>, w1)))"

definition clearHalt :: "'k server \<Rightarrow> string \<Rightarrow> halt_isolate \<times> 'k world \<Rightarrow> (string + bool) \<times> halt_isolate \<times> 'k world" where
  "clearHalt srv network st = (case st of (h, w) \<Rightarrow>
     if \<not> kvConfigured w then (Inr False, h, w)
     else (case kvPipeline' srv [[''DEL'', haltKey network], [''DEL'', haltReasonKey network]] w of
         (Inl e, w1) \<Rightarrow> (Inl e, h, w1)
       | (Inr _, w1) \<Rightarrow> (Inr True, h\<lparr>generation := Suc (generation h), cached := AList.delete network (cached h)\<rparr>, w1)))"

definition resetHaltCache :: "halt_isolate \<Rightarrow> halt_isolate" where
  "resetHaltCache h = h\<lparr>generation := Suc (generation h), cached := [], inflight := []\<rparr>"

definition fresh_isolate :: halt_isolate where
  "fresh_isolate = \<lparr>cached = [], inflight = [], generation = 0, reads = []\<rparr>"

subsection \<open>One read\<close>

lemma halt_keys_distinct [simp]:
  "haltKey n \<noteq> HALT_KEY" "HALT_KEY \<noteq> haltKey n" "haltReasonKey n \<noteq> HALT_KEY" "HALT_KEY \<noteq> haltReasonKey n"
  "haltReasonKey n \<noteq> haltKey n" "haltKey n \<noteq> haltReasonKey n"
  by (simp_all add: haltKey_def haltReasonKey_def HALT_KEY_def)

definition verdictOf :: "(string \<Rightarrow> cell option) \<Rightarrow> string \<Rightarrow> halt_verdict" where
  "verdictOf V network = (if cell_str (V (haltKey network)) = Some ''1''
       then \<lparr>isHaltedV = True, haltSource = Some ByStore, haltReason = cell_str (V (haltReasonKey network))\<rparr>
     else if cell_str (V HALT_KEY) = Some ''1'' then \<lparr>isHaltedV = True, haltSource = Some ByLegacy, haltReason = None\<rparr>
     else notHalted)"

definition halt_cells :: "(string \<Rightarrow> cell option) \<Rightarrow> string \<Rightarrow> bool" where
  "halt_cells V network \<longleftrightarrow> strish (V (haltKey network)) \<and> strish (V HALT_KEY) \<and> strish (V (haltReasonKey network))"

lemma str_reply_eq: "str_reply c = RStr v \<longleftrightarrow> c = Some v"
  by (simp add: str_reply_def split: option.splits)

context redis
begin

lemma gets_exec:
  assumes "wf s" "\<forall>k\<in>set ks. strish (view t s k)"
  shows "\<exists>s'. execAll srv t (map (\<lambda>k. [''GET'', k]) ks) s = (map (\<lambda>k. Result (str_reply (cell_str (view t s k)))) ks, s') \<and>
    wf s' \<and> view t s' = view t s"
  using assms
proof (induction ks arbitrary: s)
  case (Cons k ks)
  define s1 where "s1 = snd (srv t [''GET'', k] s)"
  have s1: "srv t [''GET'', k] s = (Result (str_reply (cell_str (view t s k))), s1)" "wf s1" "view t s1 = view t s"
    using get_reply [OF Cons.prems(1)] get_view [OF Cons.prems(1)] srv_wf [OF Cons.prems(1)] Cons.prems(2)
    by (simp_all add: s1_def prod_eq_iff)
  have "\<forall>k\<in>set ks. strish (view t s1 k)" using Cons.prems(2) s1(3) by simp
  from Cons.IH [OF s1(2) this] show ?case using s1 by auto
qed simp

lemma readHalt_online:
  assumes "wf (kvs w)" "online w" "halt_cells (view (clock w) (kvs w)) network"
  shows "\<exists>s'. readHalt srv network w = (Inr (verdictOf (view (clock w) (kvs w)) network), w\<lparr>kvs := s'\<rparr>) \<and> wf s' \<and>
    view (clock w) s' = view (clock w) (kvs w)"
proof -
  have "\<forall>k\<in>set [haltKey network, HALT_KEY, haltReasonKey network]. strish (view (clock w) (kvs w) k)"
    using assms(3) by (simp add: halt_cells_def)
  from gets_exec [OF assms(1) this] obtain s' where s': "execAll srv (clock w) (map (\<lambda>k. [''GET'', k]) [haltKey network, HALT_KEY, haltReasonKey network]) (kvs w) =
      (map (\<lambda>k. Result (str_reply (cell_str (view (clock w) (kvs w) k)))) [haltKey network, HALT_KEY, haltReasonKey network], s')" "wf s'"
    "view (clock w) s' = view (clock w) (kvs w)" by blast
  then show ?thesis using assms(2)
    by (intro exI [of _ s']) (auto simp: readHalt_def kvPipeline'_def pipeline_online readVerdict_def verdictOf_def
      str_reply_eq str_reply_def split: option.splits)
qed

lemma setHalt_online:
  assumes "wf (kvs w)" "online w" "kvConfigured w"
  shows "\<exists>s' h'. setHalt srv network reason now (h, w) = (Inr True, h', w\<lparr>kvs := s'\<rparr>) \<and> wf s' \<and>
    view (clock w) s' = (view (clock w) (kvs w))(haltKey network \<mapsto> (VStr ''1'', None),
      haltReasonKey network \<mapsto> (VStr (toISOString now @ '' '' @ reason), None))"
proof -
  define s1 where "s1 = snd (srv (clock w) [''SET'', haltKey network, ''1''] (kvs w))"
  define s2 where "s2 = snd (srv (clock w) [''SET'', haltReasonKey network, toISOString now @ '' '' @ reason] s1)"
  have s1: "srv (clock w) [''SET'', haltKey network, ''1''] (kvs w) = (Result (RStr ''OK''), s1)" "wf s1"
    "view (clock w) s1 = (view (clock w) (kvs w))(haltKey network \<mapsto> (VStr ''1'', None))"
    using set_reply [OF assms(1)] set_view [OF assms(1)] srv_wf [OF assms(1)] by (simp_all add: s1_def prod_eq_iff)
  have s2: "srv (clock w) [''SET'', haltReasonKey network, toISOString now @ '' '' @ reason] s1 = (Result (RStr ''OK''), s2)" "wf s2"
    "view (clock w) s2 = (view (clock w) s1)(haltReasonKey network \<mapsto> (VStr (toISOString now @ '' '' @ reason), None))"
    using set_reply [OF s1(2)] set_view [OF s1(2)] srv_wf [OF s1(2)] by (simp_all add: s2_def prod_eq_iff)
  show ?thesis using s1 s2 assms(2,3) by (auto simp: setHalt_def kvPipeline'_def pipeline_online Let_def)
qed

lemma clearHalt_online:
  assumes "wf (kvs w)" "online w" "kvConfigured w"
  shows "\<exists>s' h'. clearHalt srv network (h, w) = (Inr True, h', w\<lparr>kvs := s'\<rparr>) \<and> wf s' \<and>
    view (clock w) s' = (view (clock w) (kvs w))(haltKey network := None, haltReasonKey network := None)"
proof -
  define s1 where "s1 = snd (srv (clock w) [''DEL'', haltKey network] (kvs w))"
  define s2 where "s2 = snd (srv (clock w) [''DEL'', haltReasonKey network] s1)"
  have s1: "\<exists>n. srv (clock w) [''DEL'', haltKey network] (kvs w) = (Result (RInt n), s1)" "wf s1"
    "view (clock w) s1 = (view (clock w) (kvs w))(haltKey network := None)"
    using del_reply [OF assms(1)] del_view [OF assms(1)] srv_wf [OF assms(1)] by (simp_all add: s1_def prod_eq_iff)
  have s2: "\<exists>n. srv (clock w) [''DEL'', haltReasonKey network] s1 = (Result (RInt n), s2)" "wf s2"
    "view (clock w) s2 = (view (clock w) s1)(haltReasonKey network := None)"
    using del_reply [OF s1(2)] del_view [OF s1(2)] srv_wf [OF s1(2)] by (simp_all add: s2_def prod_eq_iff)
  show ?thesis using s1 s2 assms(2,3) by (auto simp: clearHalt_def kvPipeline'_def pipeline_online)
qed

end

subsection \<open>Events of one isolate\<close>

text \<open>Requests asking, answers arriving, reads finishing, the isolate's own writes, and other parties
  changing the store, in any order.\<close>

datatype 'k halt_event = AskAt int string | StoreAnswers nat | Finishes nat
  | Sets string string int | Clears string | Resets | Elsewhere 'k int

fun halt_do :: "'k server \<Rightarrow> 'k halt_event \<Rightarrow> halt_isolate \<times> 'k world \<Rightarrow> halt_isolate \<times> 'k world" where
  "halt_do srv (AskAt now network) (h, w) = (snd (haltAsk (env w) (kvConfigured w) now network h), w)"
| "halt_do srv (StoreAnswers i) (h, w) = readStore srv i (h, w)"
| "halt_do srv (Finishes i) (h, w) = (finishRead i h, w)"
| "halt_do srv (Sets network reason now) (h, w) = snd (setHalt srv network reason now (h, w))"
| "halt_do srv (Clears network) (h, w) = snd (clearHalt srv network (h, w))"
| "halt_do srv Resets (h, w) = (resetHaltCache h, w)"
| "halt_do srv (Elsewhere k t) (h, w) = (h, w\<lparr>kvs := k, clock := t\<rparr>)"

definition halt_run :: "'k server \<Rightarrow> 'k halt_event list \<Rightarrow> halt_isolate \<times> 'k world \<Rightarrow> halt_isolate \<times> 'k world" where
  "halt_run srv evs st = fold (halt_do srv) evs st"

text \<open>No write by the isolate itself, and no question about the network from \<open>until\<close> on.\<close>

fun undisturbed :: "string \<Rightarrow> int \<Rightarrow> 'k halt_event \<Rightarrow> bool" where
  "undisturbed network lim (AskAt now n) \<longleftrightarrow> (n = network \<longrightarrow> now < lim)"
| "undisturbed network lim (Sets n r t) \<longleftrightarrow> False"
| "undisturbed network lim (Clears n) \<longleftrightarrow> False"
| "undisturbed network lim Resets \<longleftrightarrow> False"
| "undisturbed network lim _ \<longleftrightarrow> True"

definition reads_ok :: "halt_isolate \<Rightarrow> bool" where
  "reads_ok h \<longleftrightarrow> (\<forall>r\<in>set (reads h). startedAt r \<le> generation h)"

lemma set_update_ans: "i < length rs \<Longrightarrow> r \<in> set (rs[i := (rs ! i)\<lparr>answer := a\<rparr>]) \<Longrightarrow>
    \<exists>q\<in>set rs. startedAt r = startedAt q \<and> readNet r = readNet q"
  using set_update_subset_insert [of rs i "(rs ! i)\<lparr>answer := a\<rparr>"] nth_mem [of i rs] by fastforce

lemma readHalt_env: "env (snd (readHalt srv n w)) = env w"
  by (simp add: readHalt_def kvPipeline'_def case_prod_unfold split: sum.splits)

lemma readStore_shape:
  "\<exists>a w1. readStore srv i (h, w) = (if i < length (reads h) \<and> answer (reads h ! i) = None
     then h\<lparr>reads := (reads h)[i := (reads h ! i)\<lparr>answer := Some a\<rparr>]\<rparr> else h, w1) \<and> env w1 = env w"
  using readHalt_env [of srv "readNet (reads h ! i)" w] by (cases "readHalt srv (readNet (reads h ! i)) w") (auto simp: readStore_def)

lemma readStore_fields:
  "generation (fst (readStore srv i (h, w))) = generation h" "cached (fst (readStore srv i (h, w))) = cached h"
  "env (snd (readStore srv i (h, w))) = env w"
  "r \<in> set (reads (fst (readStore srv i (h, w)))) \<Longrightarrow> \<exists>q\<in>set (reads h). startedAt r = startedAt q \<and> readNet r = readNet q"
proof -
  obtain a w1 where r: "readStore srv i (h, w) = (if i < length (reads h) \<and> answer (reads h ! i) = None
     then h\<lparr>reads := (reads h)[i := (reads h ! i)\<lparr>answer := Some a\<rparr>]\<rparr> else h, w1)" "env w1 = env w"
    using readStore_shape by blast
  then show "generation (fst (readStore srv i (h, w))) = generation h" "cached (fst (readStore srv i (h, w))) = cached h"
    "env (snd (readStore srv i (h, w))) = env w" by simp_all
  show "\<exists>q\<in>set (reads h). startedAt r = startedAt q \<and> readNet r = readNet q" if "r \<in> set (reads (fst (readStore srv i (h, w))))"
    using that set_update_ans [of i "reads h" r "Some a"] by (auto simp: r(1) split: if_splits)
qed

lemma finishRead_fields:
  "generation (finishRead i h) = generation h" "reads (finishRead i h) = reads h"
  by (simp_all add: finishRead_def Let_def split: option.splits)

lemma haltAsk_fields:
  "generation (snd (haltAsk e c now n h)) = generation h" "cached (snd (haltAsk e c now n h)) = cached h"
  "r \<in> set (reads (snd (haltAsk e c now n h))) \<Longrightarrow> r \<in> set (reads h) \<or> startedAt r = generation h \<and> readNet r = n"
  by (auto simp: haltAsk_def Let_def split: option.splits if_splits prod.splits)

lemma reads_ok_do: "reads_ok (fst st) \<Longrightarrow> reads_ok (fst (halt_do srv ev st))"
proof -
  assume ok: "reads_ok (fst st)"
  obtain h w where st: "st = (h, w)" by (cases st)
  show ?thesis
  proof (cases ev)
    case (AskAt now n)
    have "startedAt r \<le> generation h" if "r \<in> set (reads (snd (haltAsk (env w) (kvConfigured w) now n h)))" for r
      using haltAsk_fields(3) [OF that] ok by (auto simp: st reads_ok_def)
    then show ?thesis by (simp add: st AskAt reads_ok_def haltAsk_fields)
  next
    case (StoreAnswers i)
    have "startedAt r \<le> generation h" if "r \<in> set (reads (fst (readStore srv i (h, w))))" for r
      using readStore_fields(4) [OF that] ok by (auto simp: st reads_ok_def)
    then show ?thesis by (simp add: st StoreAnswers reads_ok_def readStore_fields)
  next
    case (Finishes i)
    then show ?thesis using ok by (simp add: st reads_ok_def finishRead_fields)
  next
    case (Sets n r t)
    then show ?thesis using ok by (auto simp: st setHalt_def reads_ok_def Let_def split: prod.splits sum.splits if_splits)
  next
    case (Clears n)
    then show ?thesis using ok by (auto simp: st clearHalt_def reads_ok_def split: prod.splits sum.splits if_splits)
  next
    case Resets
    then show ?thesis using ok by (auto simp: st resetHaltCache_def reads_ok_def)
  next
    case (Elsewhere k t)
    then show ?thesis using ok by (simp add: st)
  qed
qed

lemma reads_ok_run: "reads_ok (fst st) \<Longrightarrow> reads_ok (fst (halt_run srv evs st))"
  unfolding halt_run_def by (induction evs arbitrary: st) (simp_all add: reads_ok_do del: split_paired_All)

text \<open>What an undisturbed event keeps: the cached verdict, and that every read of the network is older.\<close>

definition stuck :: "string \<Rightarrow> halt_verdict \<Rightarrow> int \<Rightarrow> halt_isolate \<Rightarrow> bool" where
  "stuck network v at h \<longleftrightarrow> map_of (cached h) network = Some (v, at) \<and>
     (\<forall>r\<in>set (reads h). readNet r = network \<longrightarrow> startedAt r < generation h)"

lemma stuck_do:
  assumes "stuck network v at (fst st)" "undisturbed network (at + CACHE_MS) ev"
  shows "stuck network v at (fst (halt_do srv ev st))"
proof -
  obtain h w where st: "st = (h, w)" by (cases st)
  show ?thesis
  proof (cases ev)
    case (AskAt now n)
    have "r \<in> set (reads h) \<or> readNet r \<noteq> network" if "r \<in> set (reads (snd (haltAsk (env w) (kvConfigured w) now n h)))" for r
    proof (cases "n = network")
      case True
      then have "now - at < CACHE_MS" using assms(2) AskAt by simp
      then have "reads (snd (haltAsk (env w) (kvConfigured w) now n h)) = reads h"
        using assms(1) True by (simp add: st haltAsk_def stuck_def Let_def)
      then show ?thesis using that by simp
    next
      case False
      then show ?thesis using haltAsk_fields(3) [OF that] by auto
    qed
    then show ?thesis using assms(1) AskAt by (auto simp: st stuck_def haltAsk_fields)
  next
    case (StoreAnswers i)
    have "startedAt r < generation h" if "r \<in> set (reads (fst (readStore srv i (h, w))))" "readNet r = network" for r
      using readStore_fields(4) [OF that(1)] that(2) assms(1) by (auto simp: st stuck_def)
    then show ?thesis using assms(1) by (simp add: st StoreAnswers stuck_def readStore_fields)
  next
    case (Finishes i)
    have "map_of (cached (finishRead i h)) network = map_of (cached h) network"
    proof (cases "i < length (reads h) \<and> generation h = startedAt (reads h ! i)")
      case True
      then have "readNet (reads h ! i) \<noteq> network" using assms(1) nth_mem [of i "reads h"] by (auto simp: st stuck_def)
      then show ?thesis by (simp add: finishRead_def Let_def split: option.splits)
    next
      case False
      then show ?thesis by (auto simp: finishRead_def Let_def split: option.splits)
    qed
    then show ?thesis using assms(1) Finishes by (simp add: st stuck_def finishRead_fields)
  qed (use assms st in \<open>simp_all\<close>)
qed

lemma stuck_run:
  "stuck network v at (fst st) \<Longrightarrow> \<forall>ev\<in>set evs. undisturbed network (at + CACHE_MS) ev \<Longrightarrow>
    stuck network v at (fst (halt_run srv evs st))"
  unfolding halt_run_def by (induction evs arbitrary: st) (simp_all add: stuck_do del: split_paired_All)

text \<open>C11: a halt this isolate wrote is obeyed at once and for the whole cache time, whatever reads were in
  flight when it was written: none of them, however late it finishes and whatever it read, puts
  "not halted" back.\<close>

theorem set_halt_sticks:
  assumes "(h, w) = halt_run srv before (fresh_isolate, w0)"
    and "setHalt srv network reason now (h, w) = (Inr True, h1, w1)"
    and "(h2, w2) = halt_run srv after (h1, w1)" and "\<forall>ev\<in>set after. undisturbed network (clock w1 + CACHE_MS) ev"
    and "t < clock w1 + CACHE_MS" and "kvConfigured w2"
  shows "\<exists>v. haltAsk (env w2) (kvConfigured w2) t network h2 = (Now v, h2) \<and> isHaltedV v"
proof -
  have "reads_ok (fst (halt_run srv before (fresh_isolate, w0)))"
    by (rule reads_ok_run) (simp add: reads_ok_def fresh_isolate_def)
  then have ok: "reads_ok h" using assms(1) by (metis fst_conv)
  let ?v = "\<lparr>isHaltedV = True, haltSource = Some ByStore, haltReason = Some (toISOString now @ '' '' @ reason)\<rparr>"
  have "stuck network ?v (clock w1) h1"
    using assms(2) ok by (auto simp: setHalt_def stuck_def reads_ok_def Let_def less_Suc_eq_le split: if_splits prod.splits sum.splits)
  then have "stuck network ?v (clock w1) (fst (halt_run srv after (h1, w1)))" using stuck_run [OF _ assms(4)] by simp
  then have "map_of (cached h2) network = Some (?v, clock w1)" using assms(3) by (metis fst_conv stuck_def)
  then show ?thesis using assms(5,6) by (auto simp: haltAsk_def Let_def)
qed

definition kv_world :: "kv world" where
  "kv_world = \<lparr>env = [''KV_REST_API_URL'' \<mapsto> ''https://kv'', ''KV_REST_API_TOKEN'' \<mapsto> ''t'', ''STELLAR_NETWORK'' \<mapsto> ''mainnet''],
     clock = 1791460800000, kvs = empty_kv, nets = []\<rparr>"

lemma kv_world_simps [simp]:
  "kvs kv_world = empty_kv" "online kv_world" "kvConfigured kv_world" "clock kv_world = 1791460800000" "nets kv_world = []"
  "env kv_world ''SPONSOR_HALT'' = None"
  by (simp_all add: kv_world_def online_def kvConfigured_def kvConfigFromEnv_def)

text \<open>A read that left before the halt and finishes after it.\<close>

theorem set_halt_sticks_witness:
  "\<exists>h1 w1 h2 w2. setHalt runOne ''mainnet'' ''float'' 1791460800000
      (halt_run runOne [AskAt 1791460800000 ''mainnet'', StoreAnswers 0] (fresh_isolate, kv_world)) = (Inr True, h1, w1) \<and>
    (h2, w2) = halt_run runOne [Finishes 0] (h1, w1) \<and>
    (\<exists>v. haltAsk (env w2) (kvConfigured w2) 1791460801000 ''mainnet'' h2 = (Now v, h2) \<and> isHaltedV v)"
proof -
  obtain h w where st: "(h, w) = halt_run runOne [AskAt 1791460800000 ''mainnet'', StoreAnswers 0] (fresh_isolate, kv_world)"
    by (metis surj_pair)
  have ask: "haltAsk (env kv_world) True 1791460800000 ''mainnet'' fresh_isolate = (Waiting 0, \<lparr>cached = [],
      inflight = [(''mainnet'', 0)], generation = 0, reads = [\<lparr>readNet = ''mainnet'', startedAt = 0, askedAt = 1791460800000, answer = None\<rparr>]\<rparr>)"
    by (simp add: haltAsk_def fresh_isolate_def Let_def)
  have hc: "halt_cells (cell (clock kv_world) (kvs kv_world)) ''mainnet''" by (simp add: halt_cells_def strish_def)
  obtain s' where "readHalt runOne ''mainnet'' kv_world = (Inr (verdictOf (cell (clock kv_world) (kvs kv_world)) ''mainnet''), kv_world\<lparr>kvs := s'\<rparr>)" "kv_wf s'"
    using fake.readHalt_online [of kv_world "''mainnet''"] hc by auto
  then have w: "w = kv_world\<lparr>kvs := s'\<rparr>" using st ask by (simp add: halt_run_def readStore_def)
  obtain s2 h1 where set: "setHalt runOne ''mainnet'' ''float'' 1791460800000 (h, w) = (Inr True, h1, w\<lparr>kvs := s2\<rparr>)"
    using fake.setHalt_online [of w "''mainnet''" "''float''" 1791460800000 h] \<open>kv_wf s'\<close> by (auto simp: w)
  obtain h2 w2 where fin: "(h2, w2) = halt_run runOne [Finishes 0] (h1, w\<lparr>kvs := s2\<rparr>)" by (metis surj_pair)
  have "kvConfigured w2" "clock (w\<lparr>kvs := s2\<rparr>) = 1791460800000" using fin by (auto simp: w halt_run_def)
  then have "\<exists>v. haltAsk (env w2) (kvConfigured w2) 1791460801000 ''mainnet'' h2 = (Now v, h2) \<and> isHaltedV v"
    using set_halt_sticks [OF st set fin] by (simp add: CACHE_MS_def)
  then show ?thesis using st set fin by metis
qed

subsection \<open>What a read says\<close>

definition nothing_cached :: "string \<Rightarrow> int \<Rightarrow> halt_isolate \<Rightarrow> bool" where
  "nothing_cached network now h \<longleftrightarrow> map_of (inflight h) network = None \<and>
     (\<forall>v at. map_of (cached h) network = Some (v, at) \<longrightarrow> CACHE_MS \<le> now - at)"

lemma haltStatus_fresh:
  assumes "nothing_cached network now h" "kvConfigured w" "env w ''SPONSOR_HALT'' \<noteq> Some ''1''"
  shows "fst (haltStatus srv now network (h, w)) = (case fst (readHalt srv network w) of Inl e \<Rightarrow> notHalted | Inr v \<Rightarrow> v)"
  using assms by (auto simp: haltStatus_def haltAsk_def nothing_cached_def readStore_def Let_def nth_append case_prod_unfold
      split: option.splits sum.splits)

text \<open>With nothing usable cached, a verdict is what the store holds: the network's own key first, then the
  legacy key, "1" and nothing else; a store that does not answer fails open.\<close>

theorem halt_verdict_is_the_stores:
  fixes w :: "kv world"
  assumes "kv_wf (kvs w)" "kvConfigured w" "env w ''SPONSOR_HALT'' \<noteq> Some ''1''" "nothing_cached network now h"
    and "halt_cells (cell (clock w) (kvs w)) network" and "nets w = [] \<or> nets w = [Lost n]"
  shows "fst (haltStatus runOne now network (h, w)) =
    (if nets w = [] then verdictOf (cell (clock w) (kvs w)) network else notHalted)"
proof (cases "nets w")
  case Nil
  then have "online w" by (simp add: online_def)
  then show ?thesis using Nil haltStatus_fresh [OF assms(4,2,3), of runOne] fake.readHalt_online [OF assms(1) _ assms(5)] by auto
next
  case (Cons x xs)
  then show ?thesis using assms(6) haltStatus_fresh [OF assms(4,2,3), of runOne]
    by (simp add: readHalt_def kvPipeline'_def pipeline_def)
qed

theorem halt_verdict_is_the_stores_witness:
  "fst (haltStatus runOne 5 ''mainnet'' (fresh_isolate, kv_world)) = notHalted"
  using halt_verdict_is_the_stores [of kv_world "''mainnet''" 5 fresh_isolate 0]
  by (simp add: halt_cells_def strish_def nothing_cached_def fresh_isolate_def verdictOf_def)

text \<open>C12: a halt set by one isolate stops every other one at its next read, with its reason, and clearing it
  there leaves exactly the legacy key in force.\<close>

theorem halt_reaches_every_isolate:
  fixes w :: "kv world"
  assumes "kv_wf (kvs w)" "online w" "kvConfigured w" "env w ''SPONSOR_HALT'' \<noteq> Some ''1''" "nothing_cached network now h"
    and "halt_cells (cell (clock w) (kvs w)) network"
    and "setHalt runOne network reason t (h1, w) = (r1, h2, w2)" and "clearHalt runOne network (h3, w2) = (r2, h4, w3)"
  shows "r1 = Inr True \<and> fst (haltStatus runOne now network (h, w2)) =
      \<lparr>isHaltedV = True, haltSource = Some ByStore, haltReason = Some (toISOString t @ '' '' @ reason)\<rparr> \<and>
    r2 = Inr True \<and> isHaltedV (fst (haltStatus runOne now network (h, w3))) =
      (cell_str (cell (clock w) (kvs w) HALT_KEY) = Some ''1'')"
proof -
  obtain s2 where s2: "w2 = w\<lparr>kvs := s2\<rparr>" "kv_wf s2" "r1 = Inr True"
    "cell (clock w) s2 = (cell (clock w) (kvs w))(haltKey network \<mapsto> (VStr ''1'', None),
      haltReasonKey network \<mapsto> (VStr (toISOString t @ '' '' @ reason), None))"
    using fake.setHalt_online [OF assms(1-3), of network reason t h1] assms(7) by auto
  have o2: "online w2" "kvConfigured w2" "kv_wf (kvs w2)" "clock w2 = clock w" "env w2 = env w"
    using s2(1,2) assms(2,3) by simp_all
  obtain s3 where s3: "w3 = w2\<lparr>kvs := s3\<rparr>" "kv_wf s3" "r2 = Inr True"
    "cell (clock w) s3 = (cell (clock w) s2)(haltKey network := None, haltReasonKey network := None)"
    using fake.clearHalt_online [OF o2(3,1,2), of network h3] assms(8) s2(1) by auto
  have o3: "online w3" "kvConfigured w3" "kv_wf (kvs w3)" "clock w3 = clock w" "env w3 = env w" using s3(1,2) o2 by simp_all
  have n: "nets w2 = []" "nets w3 = []" using o2(1) o3(1) by (simp_all add: online_def)
  have hc: "halt_cells (cell (clock w2) (kvs w2)) network" "halt_cells (cell (clock w3) (kvs w3)) network"
    using assms(6) s2 s3 by (simp_all add: halt_cells_def strish_def)
  have "fst (haltStatus runOne now network (h, w2)) = verdictOf (cell (clock w2) (kvs w2)) network"
    using fake.readHalt_online [OF o2(3,1) hc(1)] haltStatus_fresh [OF assms(5) o2(2), of runOne] assms(4) o2(5) by auto
  moreover have "fst (haltStatus runOne now network (h, w3)) = verdictOf (cell (clock w3) (kvs w3)) network"
    using fake.readHalt_online [OF o3(3,1) hc(2)] haltStatus_fresh [OF assms(5) o3(2), of runOne] assms(4) o3(5) by auto
  ultimately show ?thesis using s2 s3 by (simp add: verdictOf_def notHalted_def)
qed

theorem halt_reaches_every_isolate_witness:
  "isHaltedV (fst (haltStatus runOne 9 ''mainnet'' (fresh_isolate, snd (snd (setHalt runOne ''mainnet'' ''float'' 8 (fresh_isolate, kv_world))))))"
proof -
  obtain r1 h2 w2 where a: "setHalt runOne ''mainnet'' ''float'' 8 (fresh_isolate, kv_world) = (r1, h2, w2)" by (metis prod_cases3)
  obtain r2 h4 w3 where b: "clearHalt runOne ''mainnet'' (fresh_isolate, w2) = (r2, h4, w3)" by (metis prod_cases3)
  have "nothing_cached ''mainnet'' 9 fresh_isolate" "halt_cells (cell (clock kv_world) (kvs kv_world)) ''mainnet''"
    by (simp_all add: nothing_cached_def fresh_isolate_def halt_cells_def strish_def)
  from halt_reaches_every_isolate [OF _ _ _ _ this a b] show ?thesis using a by simp
qed

end
