(* ===== verification/Channels.thy ===== *)
theory Channels
  imports KvClient
begin

text \<open>
  apps/sponsor/src/lib/channels.ts: the pool of channel accounts, each lent to one onboarding at a
  time under a lease in a store.  \<open>lease_store\<close> is the TypeScript interface \<open>LeaseStore\<close>, a record of
  operations over the store's state; the random token is an argument.  The two stores of the
  source implement it, and the locale \<open>leases\<close> states what both promise.  The key pairs are their
  public keys (the SDK derives them from the secrets), and the random order of a pass is an argument.
\<close>

definition MAX_LEASE_PROBES :: nat where
  "MAX_LEASE_PROBES = 10"

definition CHANNEL_LEASE_TTL_SECONDS :: int where
  "CHANNEL_LEASE_TTL_SECONDS = 150"

definition CHANNEL_TX_TIMEOUT_SECONDS :: int where
  "CHANNEL_TX_TIMEOUT_SECONDS = 120"

text \<open>The check the module makes when it loads.\<close>

lemma channel_invariant: "CHANNEL_TX_TIMEOUT_SECONDS < CHANNEL_LEASE_TTL_SECONDS"
  by (simp add: CHANNEL_TX_TIMEOUT_SECONDS_def CHANNEL_LEASE_TTL_SECONDS_def)

text \<open>\<open>Inl\<close> is the error an operation throws.\<close>

record 's lease_store =
  acquire :: "string \<Rightarrow> int \<Rightarrow> string \<Rightarrow> 's \<Rightarrow> (string + string option) \<times> 's"
  acquireAny :: "(string list \<Rightarrow> int \<Rightarrow> string \<Rightarrow> 's \<Rightarrow> (string + (nat \<times> string) option) \<times> 's) option"
  release :: "string \<Rightarrow> string \<Rightarrow> 's \<Rightarrow> 's"

subsection \<open>The shared store\<close>

definition oneCmd :: "'k server \<Rightarrow> string list \<Rightarrow> 'k world \<Rightarrow> (string + rval) \<times> 'k world" where
  "oneCmd srv cmd w = (case pipeline srv [cmd] w of
       (Inr (Result r # _), w1) \<Rightarrow> (Inr r, w1)
     | (Inr (Err e # _), w1) \<Rightarrow> (Inl (''channel lease store error: '' @ e), w1)
     | (Inr [], w1) \<Rightarrow> (Inl ''channel lease store error: undefined'', w1)
     | (Inl e, w1) \<Rightarrow> (Inl ''channel lease store returned an error'', w1))"

definition redisAcquire :: "'k server \<Rightarrow> string \<Rightarrow> int \<Rightarrow> string \<Rightarrow> 'k world \<Rightarrow> (string + string option) \<times> 'k world" where
  "redisAcquire srv key ttl token w = (case oneCmd srv [''SET'', key, token, ''NX'', ''EX'', show_int ttl] w of
       (Inl e, w1) \<Rightarrow> (Inl e, w1)
     | (Inr r, w1) \<Rightarrow> (Inr (if r = RStr ''OK'' then Some token else None), w1))"

definition redisAcquireAny :: "'k server \<Rightarrow> string list \<Rightarrow> int \<Rightarrow> string \<Rightarrow> 'k world \<Rightarrow> (string + (nat \<times> string) option) \<times> 'k world" where
  "redisAcquireAny srv keys ttl token w =
     (case oneCmd srv ([''EVAL'', ACQUIRE_ANY_SCRIPT, show_int (int (length keys))] @ keys @ [token, show_int ttl]) w of
       (Inl e, w1) \<Rightarrow> (Inl e, w1)
     | (Inr r, w1) \<Rightarrow> (Inr (case replyInt (Result r) of
           Some i \<Rightarrow> if 1 \<le> i \<and> i \<le> int (length keys) then Some (nat (i - 1), token) else None
         | None \<Rightarrow> None), w1))"

definition redisRelease :: "'k server \<Rightarrow> string \<Rightarrow> string \<Rightarrow> 'k world \<Rightarrow> 'k world" where
  "redisRelease srv key token w = snd (oneCmd srv [''EVAL'', FENCED_DEL, ''1'', key, token] w)"

definition redisLeaseStore :: "'k server \<Rightarrow> 'k world lease_store" where
  "redisLeaseStore srv = \<lparr>acquire = redisAcquire srv, acquireAny = Some (redisAcquireAny srv), release = redisRelease srv\<rparr>"

subsection \<open>The store of one process\<close>

record mem_leases =
  leaseMap :: "(string \<times> (string \<times> int)) list"
  memNow :: int

definition memAcquire :: "string \<Rightarrow> int \<Rightarrow> string \<Rightarrow> mem_leases \<Rightarrow> (string + string option) \<times> mem_leases" where
  "memAcquire key ttl token m = (let take_it = (Inr (Some token), m\<lparr>leaseMap := AList.update key (token, memNow m + ttl * 1000) (leaseMap m)\<rparr>) in
     case map_of (leaseMap m) key of
       Some (_, expiry) \<Rightarrow> if memNow m < expiry then (Inr None, m) else take_it
     | None \<Rightarrow> take_it)"

fun memAcquireFrom :: "nat \<Rightarrow> string list \<Rightarrow> int \<Rightarrow> string \<Rightarrow> mem_leases \<Rightarrow> (string + (nat \<times> string) option) \<times> mem_leases" where
  "memAcquireFrom i [] ttl token m = (Inr None, m)"
| "memAcquireFrom i (key # keys) ttl token m = (case memAcquire key ttl token m of
       (Inr (Some t), m1) \<Rightarrow> (Inr (Some (i, t)), m1)
     | (Inr None, m1) \<Rightarrow> memAcquireFrom (Suc i) keys ttl token m1
     | (Inl e, m1) \<Rightarrow> (Inl e, m1))"

definition memRelease :: "string \<Rightarrow> string \<Rightarrow> mem_leases \<Rightarrow> mem_leases" where
  "memRelease key token m = (case map_of (leaseMap m) key of
       Some (t, _) \<Rightarrow> if t = token then m\<lparr>leaseMap := AList.delete key (leaseMap m)\<rparr> else m
     | None \<Rightarrow> m)"

definition memoryLeaseStore :: "mem_leases lease_store" where
  "memoryLeaseStore = \<lparr>acquire = memAcquire, acquireAny = Some (memAcquireFrom 0), release = memRelease\<rparr>"

subsection \<open>The manager\<close>

record 's manager =
  keypairs :: "string list"
  leaseStore :: "'s lease_store"
  enabled :: bool
  inMemoryOnly :: bool

text \<open>\<open>own\<close> tells whether the caller passed a store; \<open>publicOf\<close> is \<open>Keypair.fromSecret(s).publicKey()\<close>.\<close>

definition newManager :: "(string \<Rightarrow> string) \<Rightarrow> environ \<Rightarrow> string list \<Rightarrow> bool \<Rightarrow> 's lease_store \<Rightarrow> 's manager" where
  "newManager publicOf e secrets own store = (let
       memOnly = (secrets \<noteq> [] \<and> \<not> own \<and> kvConfigFromEnv e = None);
       unsafe = (memOnly \<and> e ''STELLAR_NETWORK'' = Some ''mainnet'')
     in \<lparr>keypairs = map publicOf secrets, leaseStore = store, enabled = (secrets \<noteq> [] \<and> \<not> unsafe), inMemoryOnly = memOnly\<rparr>)"

definition chanKey :: "string \<Rightarrow> string" where
  "chanKey pub = ''chan:'' @ pub"

text \<open>A lease: the channel's public key and the key and token its \<open>release\<close> closes over.\<close>

datatype lease_result = Leased string string string | NoLease

text \<open>The round trips of one pass over a store without \<open>acquireAny\<close>: \<open>Inr None\<close> when none took.\<close>

fun probeEach :: "'s lease_store \<Rightarrow> string list \<Rightarrow> (nat \<Rightarrow> string) \<Rightarrow> nat \<Rightarrow> nat list \<Rightarrow> nat \<Rightarrow> 's \<Rightarrow> (lease_result option \<times> nat) \<times> 's" where
  "probeEach st pubs tok mx [] probes s = ((None, probes), s)"
| "probeEach st pubs tok mx (i # order) probes s =
     (if mx \<le> probes then ((None, probes), s)
      else (case acquire st (chanKey (pubs ! i)) CHANNEL_LEASE_TTL_SECONDS (tok probes) s of
          (Inl e, s1) \<Rightarrow> ((Some NoLease, Suc probes), s1)
        | (Inr (Some t), s1) \<Rightarrow> ((Some (Leased (pubs ! i) (chanKey (pubs ! i)) t), Suc probes), s1)
        | (Inr None, s1) \<Rightarrow> probeEach st pubs tok mx order (Suc probes) s1))"

definition onePass :: "'s lease_store \<Rightarrow> string list \<Rightarrow> (nat \<Rightarrow> string) \<Rightarrow> nat \<Rightarrow> nat list \<Rightarrow> nat \<Rightarrow> 's \<Rightarrow> (lease_result option \<times> nat) \<times> 's" where
  "onePass st pubs tok mx order probes s = (case acquireAny st of
       Some any \<Rightarrow> (case any (map (\<lambda>i. chanKey (pubs ! i)) order) CHANNEL_LEASE_TTL_SECONDS (tok probes) s of
           (Inl e, s1) \<Rightarrow> ((Some NoLease, Suc probes), s1)
         | (Inr (Some (j, t)), s1) \<Rightarrow>
             ((Some (Leased (pubs ! (order ! j)) (chanKey (pubs ! (order ! j))) t), Suc probes), s1)
         | (Inr None, s1) \<Rightarrow> ((None, Suc probes), s1))
     | None \<Rightarrow> probeEach st pubs tok mx order probes s)"

text \<open>
  The passes: \<open>left\<close> of the \<open>attempts\<close> remain.  \<open>orders\<close> gives each pass its random order, \<open>tok\<close> each
  probe its token, and \<open>wait\<close> is what the pause between two passes does to the state.
\<close>

fun passes :: "'s lease_store \<Rightarrow> string list \<Rightarrow> (nat \<Rightarrow> string) \<Rightarrow> (nat \<Rightarrow> nat list) \<Rightarrow> ('s \<Rightarrow> 's) \<Rightarrow> nat \<Rightarrow> nat \<Rightarrow> nat \<Rightarrow> 's \<Rightarrow> (lease_result \<times> nat) \<times> 's" where
  "passes st pubs tok orders wait mx 0 probes s = ((NoLease, probes), s)"
| "passes st pubs tok orders wait mx (Suc left) probes s =
     (if mx \<le> probes then ((NoLease, probes), s)
      else (case onePass st pubs tok mx (orders (Suc left)) probes s of
          ((Some r, p), s1) \<Rightarrow> ((r, p), s1)
        | ((None, p), s1) \<Rightarrow>
            passes st pubs tok orders wait mx left p (if 0 < left \<and> p < mx then wait s1 else s1)))"

definition lease :: "'s manager \<Rightarrow> (nat \<Rightarrow> string) \<Rightarrow> (nat \<Rightarrow> nat list) \<Rightarrow> ('s \<Rightarrow> 's) \<Rightarrow> nat \<Rightarrow> nat \<Rightarrow> 's \<Rightarrow> (lease_result \<times> nat) \<times> 's" where
  "lease m tok orders wait attempts maxProbes s = (if \<not> enabled m then ((NoLease, 0), s)
     else passes (leaseStore m) (keypairs m) tok orders wait maxProbes attempts 0 s)"

definition releaseLease :: "'s manager \<Rightarrow> lease_result \<Rightarrow> 's \<Rightarrow> 's" where
  "releaseLease m r s = (case r of Leased pub key t \<Rightarrow> release (leaseStore m) key t s | NoLease \<Rightarrow> s)"

subsection \<open>The bound on round trips\<close>

lemma probeEach_bound: "p \<le> mx \<Longrightarrow> snd (fst (probeEach st pubs tok mx order p s)) \<le> mx"
  by (induction st pubs tok mx order p s rule: probeEach.induct) (auto split: prod.splits sum.splits option.splits)

lemma onePass_bound: "p < mx \<Longrightarrow> snd (fst (onePass st pubs tok mx order p s)) \<le> mx"
  using probeEach_bound [of p mx] by (auto simp: onePass_def split: option.splits prod.splits sum.splits)

text \<open>A lease never spends more store round trips than its bound, whatever store it runs on, however many
  channels there are and whatever the store answers.\<close>

theorem lease_probes_bounded:
  "snd (fst (lease m tok orders wait attempts maxProbes s)) \<le> maxProbes"
proof -
  have "snd (fst (passes st pubs tok orders wait mx left p s)) \<le> mx" if "p \<le> mx" for st pubs mx left p s
    using that
  proof (induction left arbitrary: p s)
    case (Suc left)
    show ?case
    proof (cases "mx \<le> p")
      case False
      obtain r q s1 where o: "onePass st pubs tok mx (orders (Suc left)) p s = ((r, q), s1)" by (metis prod.collapse)
      then have "q \<le> mx" using onePass_bound [of p mx st pubs tok "orders (Suc left)" s] False by simp
      then show ?thesis using False o Suc.IH by (cases r) auto
    qed (use Suc.prems in simp)
  qed simp
  then show ?thesis by (simp add: lease_def)
qed

subsection \<open>The contract of a lease store\<close>

definition is_chan :: "string \<Rightarrow> bool" where
  "is_chan k \<longleftrightarrow> take 5 k = ''chan:''"

lemma is_chan_chanKey [simp]: "is_chan (chanKey p)"
  by (simp add: is_chan_def chanKey_def)

text \<open>
  \<open>holds s k\<close> is the live lease on a key: its token and its expiry.  A lease is taken only on a free
  key, a release only ends its own lease, and time only ends leases whose expiry has come; an
  operation that throws may or may not have happened.
\<close>

locale leases =
  fixes st :: "'s lease_store"
    and nowOf :: "'s \<Rightarrow> int"
    and advance :: "int \<Rightarrow> 's \<Rightarrow> 's"
    and holds :: "'s \<Rightarrow> string \<Rightarrow> (string \<times> int) option"
    and ok :: "'s \<Rightarrow> bool"
  assumes acquire_law: "ok s \<Longrightarrow> is_chan k \<Longrightarrow> 0 < ttl \<Longrightarrow> acquire st k ttl tok s = (r, s') \<Longrightarrow> ok s' \<and> nowOf s' = nowOf s \<and>
      (holds s' = holds s \<and> r \<noteq> Inr (Some tok) \<and> (\<forall>t. r = Inr (Some t) \<longrightarrow> t = tok) \<or>
       holds s k = None \<and> holds s' = (holds s)(k \<mapsto> (tok, nowOf s + ttl * 1000)) \<and> ((\<exists>e. r = Inl e) \<or> r = Inr (Some tok)))"
    and acquireAny_law: "ok s \<Longrightarrow> (\<forall>k\<in>set keys. is_chan k) \<Longrightarrow> 0 < ttl \<Longrightarrow> acquireAny st = Some any \<Longrightarrow>
      any keys ttl tok s = (ra, s') \<Longrightarrow> ok s' \<and> nowOf s' = nowOf s \<and>
      (holds s' = holds s \<and> ((\<exists>e. ra = Inl e) \<or> ra = Inr None) \<or>
       (\<exists>j<length keys. holds s (keys ! j) = None \<and> holds s' = (holds s)(keys ! j \<mapsto> (tok, nowOf s + ttl * 1000)) \<and>
          ((\<exists>e. ra = Inl e) \<or> ra = Inr (Some (j, tok)))))"
    and release_law: "ok s \<Longrightarrow> is_chan k \<Longrightarrow> ok (release st k tok s) \<and> nowOf (release st k tok s) = nowOf s \<and>
      (holds (release st k tok s) = holds s \<or>
       (\<exists>e. holds s k = Some (tok, e)) \<and> holds (release st k tok s) = (holds s)(k := None))"
    and advance_law: "ok s \<Longrightarrow> nowOf s \<le> t \<Longrightarrow> ok (advance t s) \<and> nowOf (advance t s) = t \<and>
      (\<forall>k. is_chan k \<longrightarrow> holds (advance t s) k = (case holds s k of Some (x, e) \<Rightarrow> if e \<le> t then None else Some (x, e) | None \<Rightarrow> None))"
begin

definition keeps :: "'s \<Rightarrow> 's \<Rightarrow> bool" where
  "keeps s s' \<longleftrightarrow> nowOf s \<le> nowOf s' \<and> (\<forall>k x e. is_chan k \<longrightarrow> holds s k = Some (x, e) \<longrightarrow> nowOf s' < e \<longrightarrow> holds s' k = Some (x, e))"

lemma keeps_refl: "keeps s s"
  by (simp add: keeps_def)

lemma keeps_trans: "keeps s s1 \<Longrightarrow> keeps s1 s2 \<Longrightarrow> keeps s s2"
proof -
  assume a: "keeps s s1" and b: "keeps s1 s2"
  have "holds s2 k = Some (x, e)" if "is_chan k" "holds s k = Some (x, e)" "nowOf s2 < e" for k x e
  proof -
    have "nowOf s1 < e" using b that(3) by (simp add: keeps_def)
    then show ?thesis using a b that by (simp add: keeps_def)
  qed
  then show ?thesis using a b by (simp add: keeps_def)
qed

lemma keeps_take: "holds s k = None \<Longrightarrow> holds s' = (holds s)(k \<mapsto> c) \<Longrightarrow> nowOf s' = nowOf s \<Longrightarrow> keeps s s'"
  by (auto simp: keeps_def)

lemma keeps_same: "holds s' = holds s \<Longrightarrow> nowOf s' = nowOf s \<Longrightarrow> keeps s s'"
  by (auto simp: keeps_def)

lemma keeps_advance: "ok s \<Longrightarrow> nowOf s \<le> t \<Longrightarrow> keeps s (advance t s)"
  using advance_law [of s t] by (auto simp: keeps_def)

text \<open>What the caller of \<open>lease\<close> got: a live lease on a channel nobody else was holding.\<close>

definition got :: "string list \<Rightarrow> (nat \<Rightarrow> string) \<Rightarrow> 's \<Rightarrow> lease_result \<Rightarrow> 's \<Rightarrow> bool" where
  "got pubs tok s r s' \<longleftrightarrow> ok s' \<and> keeps s s' \<and> (case r of NoLease \<Rightarrow> True
     | Leased pub key t \<Rightarrow> pub \<in> set pubs \<and> key = chanKey pub \<and> t \<in> range tok \<and>
         holds s' key = Some (t, nowOf s' + CHANNEL_LEASE_TTL_SECONDS * 1000) \<and>
         (\<forall>x e. holds s key = Some (x, e) \<longrightarrow> e \<le> nowOf s'))"

lemma got_after: "keeps s s1 \<Longrightarrow> got pubs tok s1 r s' \<Longrightarrow> got pubs tok s r s'"
proof -
  assume k: "keeps s s1" and g: "got pubs tok s1 r s'"
  have "e \<le> nowOf s'" if "holds s key = Some (x, e)" "\<And>x e. holds s1 key = Some (x, e) \<Longrightarrow> e \<le> nowOf s'" "nowOf s1 \<le> nowOf s'" "is_chan key" for key x e
    using k that unfolding keeps_def by (metis not_less order_trans less_le_trans leD le_less_linear)
  then show ?thesis using k g keeps_trans [OF k] by (auto simp: got_def keeps_def split: lease_result.splits)
qed

lemma ttl_pos: "0 < CHANNEL_LEASE_TTL_SECONDS"
  by (simp add: CHANNEL_LEASE_TTL_SECONDS_def)

lemma probeEach_got:
  assumes "ok s" "set order \<subseteq> {..<length pubs}"
  shows "case probeEach st pubs tok mx order p s of ((r, q), s') \<Rightarrow>
    got pubs tok s (case r of None \<Rightarrow> NoLease | Some x \<Rightarrow> x) s'"
  using assms
proof (induction order arbitrary: p s)
  case (Cons i order)
  show ?case
  proof (cases "mx \<le> p")
    case False
    obtain r s1 where a: "acquire st (chanKey (pubs ! i)) CHANNEL_LEASE_TTL_SECONDS (tok p) s = (r, s1)" by (metis surj_pair)
    have i: "pubs ! i \<in> set pubs" using Cons.prems(2) by simp
    note law = acquire_law [OF Cons.prems(1) is_chan_chanKey ttl_pos a]
    have ks: "keeps s s1" using law keeps_take keeps_same by blast
    show ?thesis
    proof (cases r)
      case (Inl e)
      then show ?thesis using False a law ks by (simp add: got_def)
    next
      case r: (Inr o')
      show ?thesis
      proof (cases o')
        case None
        have "got pubs tok s1 (case fst (fst (probeEach st pubs tok mx order (Suc p) s1)) of None \<Rightarrow> NoLease | Some x \<Rightarrow> x) (snd (probeEach st pubs tok mx order (Suc p) s1))"
          using Cons.IH [of s1 "Suc p"] law Cons.prems(2) by (simp add: case_prod_unfold)
        then show ?thesis using False a r None got_after [OF ks] by (simp add: case_prod_unfold)
      next
        case (Some t)
        then have "t = tok p" "holds s (chanKey (pubs ! i)) = None" "holds s1 (chanKey (pubs ! i)) = Some (tok p, nowOf s1 + CHANNEL_LEASE_TTL_SECONDS * 1000)"
          using law r by auto
        then show ?thesis using False a r Some law ks i by (simp add: got_def)
      qed
    qed
  qed (use Cons.prems(1) keeps_refl in \<open>simp add: got_def\<close>)
qed (use keeps_refl in \<open>simp add: got_def\<close>)

lemma onePass_got:
  assumes "ok s" "set order \<subseteq> {..<length pubs}"
  shows "case onePass st pubs tok mx order p s of ((r, q), s') \<Rightarrow> got pubs tok s (case r of None \<Rightarrow> NoLease | Some x \<Rightarrow> x) s'"
proof (cases "acquireAny st")
  case None
  then show ?thesis using probeEach_got [OF assms] by (simp add: onePass_def)
next
  case (Some any)
  define keys where "keys = map (\<lambda>i. chanKey (pubs ! i)) order"
  obtain r s1 where a: "any keys CHANNEL_LEASE_TTL_SECONDS (tok p) s = (r, s1)" by (metis surj_pair)
  have ch: "\<forall>k\<in>set keys. is_chan k" by (auto simp: keys_def)
  note law = acquireAny_law [OF assms(1) ch ttl_pos Some a]
  have ks: "keeps s s1" using law keeps_take keeps_same by blast
  show ?thesis
  proof (cases "\<exists>j t. r = Inr (Some (j, t))")
    case True
    then obtain j t where r: "r = Inr (Some (j, t))" by blast
    then have j: "j < length order" "t = tok p" "holds s (keys ! j) = None" "holds s1 (keys ! j) = Some (tok p, nowOf s1 + CHANNEL_LEASE_TTL_SECONDS * 1000)"
      using law by (auto simp: keys_def)
    then have "pubs ! (order ! j) \<in> set pubs" using assms(2) nth_mem by fastforce
    then show ?thesis using r j Some a law ks by (simp add: onePass_def keys_def got_def)
  next
    case False
    have "r = Inr None \<or> (\<exists>e. r = Inl e)"
    proof (cases r)
      case (Inr b)
      then show ?thesis using False by (cases b) auto
    qed simp
    then show ?thesis using Some a law ks by (auto simp: onePass_def keys_def got_def)
  qed
qed

lemma passes_got:
  assumes "ok s" "\<And>n. set (orders n) \<subseteq> {..<length pubs}" "0 \<le> d"
  shows "got pubs tok s (fst (fst (passes st pubs tok orders (\<lambda>x. advance (nowOf x + d) x) mx left p s)))
    (snd (passes st pubs tok orders (\<lambda>x. advance (nowOf x + d) x) mx left p s))"
  using assms(1)
proof (induction left arbitrary: p s)
  case (Suc left)
  show ?case
  proof (cases "mx \<le> p")
    case False
    obtain r q s1 where o: "onePass st pubs tok mx (orders (Suc left)) p s = ((r, q), s1)" by (metis prod.collapse)
    have g: "got pubs tok s (case r of None \<Rightarrow> NoLease | Some x \<Rightarrow> x) s1"
      using onePass_got [OF Suc.prems assms(2), of tok mx "Suc left" p] o by simp
    show ?thesis
    proof (cases r)
      case (Some x)
      then show ?thesis using False o g by simp
    next
      case None
      then have k: "keeps s s1" "ok s1" using g by (simp_all add: got_def)
      define s2 where "s2 = (if 0 < left \<and> q < mx then advance (nowOf s1 + d) s1 else s1)"
      have k2: "keeps s1 s2" "ok s2" using k(2) keeps_advance [OF k(2)] advance_law [OF k(2), of "nowOf s1 + d"] keeps_refl assms(3)
        by (simp_all add: s2_def)
      then show ?thesis using False o None got_after [OF keeps_trans [OF k(1) k2(1)] Suc.IH [OF k2(2), of q]]
        by (simp add: s2_def [symmetric])
    qed
  qed (use Suc.prems keeps_refl in \<open>simp add: got_def\<close>)
qed (use keeps_refl in \<open>simp add: got_def\<close>)

end

subsection \<open>One channel, one onboarding\<close>

text \<open>A pool over time: leases asked for, leases given back, time passing.  Each lease that was lent out is
  recorded with the instant it was taken; \<open>uuid n p\<close> is the token of the p-th probe of the n-th call.\<close>

datatype pool_ev = Lend "nat \<Rightarrow> nat list" int nat nat | GiveBack nat | Later int

record handout =
  hChannel :: string
  hToken :: string
  hTaken :: int
  hGiven :: bool

record 's pool =
  poolState :: 's
  calls :: nat
  handouts :: "handout list"

fun pool_do :: "'s manager \<Rightarrow> ('s \<Rightarrow> int) \<Rightarrow> (int \<Rightarrow> 's \<Rightarrow> 's) \<Rightarrow> (nat \<Rightarrow> nat \<Rightarrow> string) \<Rightarrow> pool_ev \<Rightarrow> 's pool \<Rightarrow> 's pool" where
  "pool_do m nowOf advance uuid (Lend orders d attempts mx) s =
     (case lease m (uuid (calls s)) orders (\<lambda>x. advance (nowOf x + d) x) attempts mx (poolState s) of ((r, p), s1) \<Rightarrow>
        s\<lparr>poolState := s1, calls := Suc (calls s), handouts := (case r of NoLease \<Rightarrow> handouts s
          | Leased pub key t \<Rightarrow> handouts s @ [\<lparr>hChannel = pub, hToken = t, hTaken = nowOf s1, hGiven = False\<rparr>])\<rparr>)"
| "pool_do m nowOf advance uuid (GiveBack i) s = (if length (handouts s) \<le> i then s
     else (let h = handouts s ! i in s\<lparr>poolState := releaseLease m (Leased (hChannel h) (chanKey (hChannel h)) (hToken h)) (poolState s),
       handouts := (handouts s)[i := h\<lparr>hGiven := True\<rparr>]\<rparr>))"
| "pool_do m nowOf advance uuid (Later t) s = (if nowOf (poolState s) \<le> t then s\<lparr>poolState := advance t (poolState s)\<rparr> else s)"

definition pool_run :: "'s manager \<Rightarrow> ('s \<Rightarrow> int) \<Rightarrow> (int \<Rightarrow> 's \<Rightarrow> 's) \<Rightarrow> (nat \<Rightarrow> nat \<Rightarrow> string) \<Rightarrow> pool_ev list \<Rightarrow> 's pool \<Rightarrow> 's pool" where
  "pool_run m nowOf advance uuid evs s = fold (pool_do m nowOf advance uuid) evs s"

fun pool_ev_ok :: "nat \<Rightarrow> pool_ev \<Rightarrow> bool" where
  "pool_ev_ok n (Lend orders d attempts mx) \<longleftrightarrow> (\<forall>i. set (orders i) \<subseteq> {..<n}) \<and> 0 \<le> d"
| "pool_ev_ok n _ \<longleftrightarrow> True"

text \<open>A handout whose transaction can still reach a ledger: not given back, its timebound not passed.\<close>

definition in_use :: "int \<Rightarrow> handout \<Rightarrow> bool" where
  "in_use now h \<longleftrightarrow> \<not> hGiven h \<and> now < hTaken h + CHANNEL_LEASE_TTL_SECONDS * 1000"

definition tx_alive :: "int \<Rightarrow> handout \<Rightarrow> bool" where
  "tx_alive now h \<longleftrightarrow> \<not> hGiven h \<and> now \<le> hTaken h + CHANNEL_TX_TIMEOUT_SECONDS * 1000"

lemma tx_alive_in_use: "tx_alive now h \<Longrightarrow> in_use now h"
  by (simp add: tx_alive_def in_use_def CHANNEL_TX_TIMEOUT_SECONDS_def CHANNEL_LEASE_TTL_SECONDS_def)

text \<open>What holds of every state of the pool.\<close>

definition pool_inv :: "('s \<Rightarrow> int) \<Rightarrow> ('s \<Rightarrow> string \<Rightarrow> (string \<times> int) option) \<Rightarrow> ('s \<Rightarrow> bool) \<Rightarrow> (nat \<Rightarrow> nat \<Rightarrow> string) \<Rightarrow> 's pool \<Rightarrow> bool" where
  "pool_inv nowOf holds ok uuid s \<longleftrightarrow> ok (poolState s) \<and>
     (\<forall>h\<in>set (handouts s). \<exists>n<calls s. hToken h \<in> range (uuid n)) \<and> distinct (map hToken (handouts s)) \<and>
     (\<forall>h\<in>set (handouts s). in_use (nowOf (poolState s)) h \<longrightarrow>
        holds (poolState s) (chanKey (hChannel h)) = Some (hToken h, hTaken h + CHANNEL_LEASE_TTL_SECONDS * 1000))"

lemma chanKey_inj [simp]: "chanKey p = chanKey q \<longleftrightarrow> p = q"
  by (simp add: chanKey_def)

lemma pool_inv_exclusive:
  assumes "pool_inv nowOf holds ok uuid s" and P: "\<And>h. P h \<Longrightarrow> in_use (nowOf (poolState s)) h"
  shows "distinct (map hChannel (filter P (handouts s)))"
proof -
  have held: "holds (poolState s) (chanKey (hChannel h)) = Some (hToken h, hTaken h + CHANNEL_LEASE_TTL_SECONDS * 1000)"
    if "h \<in> set (handouts s)" "P h" for h
    using assms(1) that P by (simp add: pool_inv_def)
  have tokens: "distinct (map hToken (handouts s))" using assms(1) by (simp add: pool_inv_def)
  have "inj_on hChannel (set (filter P (handouts s)))"
  proof (rule inj_onI)
    fix x y
    assume h: "x \<in> set (filter P (handouts s))" "y \<in> set (filter P (handouts s))" "hChannel x = hChannel y"
    then have "hToken x = hToken y" using held [of x] held [of y] by simp
    then show "x = y" using h tokens by (auto simp: distinct_map dest: inj_onD)
  qed
  then show ?thesis using tokens by (simp add: distinct_map)
qed

context leases
begin

lemma in_use_later: "in_use t' h \<Longrightarrow> t \<le> t' \<Longrightarrow> in_use t h"
  by (auto simp: in_use_def)

lemma lend_keeps_inv:
  assumes inv: "pool_inv nowOf holds ok uuid s" and m: "leaseStore m = st" and ev: "pool_ev_ok (length (keypairs m)) (Lend orders d attempts mx)"
    and uniq: "\<And>a b p q. uuid a p = uuid b q \<Longrightarrow> a = b"
  shows "pool_inv nowOf holds ok uuid (pool_do m nowOf advance uuid (Lend orders d attempts mx) s)"
proof -
  obtain r p s1 where l: "lease m (uuid (calls s)) orders (\<lambda>x. advance (nowOf x + d) x) attempts mx (poolState s) = ((r, p), s1)"
    by (metis prod.collapse)
  have okS: "ok (poolState s)" using inv by (simp add: pool_inv_def)
  have g: "got (keypairs m) (uuid (calls s)) (poolState s) r s1"
  proof (cases "enabled m")
    case True
    then show ?thesis using passes_got [OF okS, of orders "keypairs m" d "uuid (calls s)" mx attempts 0] ev l m by (simp add: lease_def)
  next
    case False
    then show ?thesis using l okS keeps_refl by (simp add: lease_def got_def)
  qed
  have old: "holds s1 (chanKey (hChannel h)) = Some (hToken h, hTaken h + CHANNEL_LEASE_TTL_SECONDS * 1000)"
    if h: "h \<in> set (handouts s)" "in_use (nowOf s1) h" for h
  proof -
    have k: "keeps (poolState s) s1" using g by (simp add: got_def)
    then have "in_use (nowOf (poolState s)) h" using in_use_later [OF h(2)] by (simp add: keeps_def)
    then have "holds (poolState s) (chanKey (hChannel h)) = Some (hToken h, hTaken h + CHANNEL_LEASE_TTL_SECONDS * 1000)"
      using inv h(1) by (simp add: pool_inv_def)
    then show ?thesis using k h(2) by (simp add: keeps_def in_use_def)
  qed
  have toks: "\<forall>h\<in>set (handouts s). \<exists>n<Suc (calls s). hToken h \<in> range (uuid n)"
    using inv unfolding pool_inv_def by (meson less_SucI)
  show ?thesis
  proof (cases r)
    case NoLease
    then show ?thesis using inv l g old toks by (simp add: pool_inv_def got_def)
  next
    case (Leased pub key t)
    then have t: "t \<in> range (uuid (calls s))" and key: "key = chanKey pub"
      and mine: "holds s1 key = Some (t, nowOf s1 + CHANNEL_LEASE_TTL_SECONDS * 1000)" and ok1: "ok s1"
      using g unfolding Leased got_def by auto
    have fresh: "t \<notin> set (map hToken (handouts s))"
    proof
      assume "t \<in> set (map hToken (handouts s))"
      then obtain n where n: "n < calls s" "t \<in> range (uuid n)" using inv by (auto simp: pool_inv_def)
      then show False using t uniq by (metis imageE less_irrefl)
    qed
    define x where "x = \<lparr>hChannel = pub, hToken = t, hTaken = nowOf s1, hGiven = False\<rparr>"
    have new: "pool_do m nowOf advance uuid (Lend orders d attempts mx) s =
        s\<lparr>poolState := s1, calls := Suc (calls s), handouts := handouts s @ [x]\<rparr>" using l Leased by (simp add: x_def)
    have "\<forall>h\<in>set (handouts s @ [x]). \<exists>n<Suc (calls s). hToken h \<in> range (uuid n)" using toks t by (auto simp: x_def)
    moreover have "distinct (map hToken (handouts s @ [x]))" using inv fresh by (simp add: pool_inv_def x_def)
    moreover have "\<forall>h\<in>set (handouts s @ [x]). in_use (nowOf s1) h \<longrightarrow>
        holds s1 (chanKey (hChannel h)) = Some (hToken h, hTaken h + CHANNEL_LEASE_TTL_SECONDS * 1000)"
      using old mine key by (simp add: x_def)
    ultimately show ?thesis unfolding new using ok1 by (simp add: pool_inv_def)
  qed
qed

lemma giveBack_keeps_inv:
  assumes inv: "pool_inv nowOf holds ok uuid s" and m: "leaseStore m = st"
  shows "pool_inv nowOf holds ok uuid (pool_do m nowOf advance uuid (GiveBack i) s)"
proof (cases "i < length (handouts s)")
  case True
  define g where "g = handouts s ! i"
  define s1 where "s1 = release st (chanKey (hChannel g)) (hToken g) (poolState s)"
  define hs where "hs = (handouts s)[i := g\<lparr>hGiven := True\<rparr>]"
  have law: "ok s1" "nowOf s1 = nowOf (poolState s)" "holds s1 = holds (poolState s) \<or>
       (\<exists>e. holds (poolState s) (chanKey (hChannel g)) = Some (hToken g, e)) \<and> holds s1 = (holds (poolState s))(chanKey (hChannel g) := None)"
    using release_law [of "poolState s" "chanKey (hChannel g)" "hToken g"] inv by (auto simp: pool_inv_def s1_def)
  have toks: "map hToken hs = map hToken (handouts s)"
    using True by (simp add: hs_def map_update g_def) (metis list_update_id nth_map)
  have mem: "h \<in> set (handouts s) \<and> h \<noteq> g" if hh: "h \<in> set hs" "\<not> hGiven h" for h
  proof -
    obtain j where j: "j < length hs" "h = hs ! j" using hh(1) unfolding in_set_conv_nth by auto
    then have "j \<noteq> i" using hh(2) True by (auto simp: hs_def)
    then have h: "h = handouts s ! j" "j < length (handouts s)" using j by (simp_all add: hs_def)
    have "hToken h \<noteq> hToken g"
      using nth_eq_iff_index_eq [of "map hToken (handouts s)" j i] inv h True \<open>j \<noteq> i\<close> by (simp add: pool_inv_def g_def)
    then show ?thesis using h by auto
  qed
  have diff: "hToken h \<noteq> hToken g" if "h \<in> set (handouts s)" "h \<noteq> g" for h
    using inv that nth_mem [OF True] by (auto simp: pool_inv_def g_def distinct_map inj_on_def)
  have use: "holds s1 (chanKey (hChannel h)) = Some (hToken h, hTaken h + CHANNEL_LEASE_TTL_SECONDS * 1000)"
    if "h \<in> set hs" "in_use (nowOf (poolState s)) h" for h
  proof -
    have h: "h \<in> set (handouts s)" "hToken h \<noteq> hToken g" using mem [OF that(1)] diff that(2) by (auto simp: in_use_def)
    then have "holds (poolState s) (chanKey (hChannel h)) = Some (hToken h, hTaken h + CHANNEL_LEASE_TTL_SECONDS * 1000)"
      using inv that(2) by (simp add: pool_inv_def)
    then show ?thesis using law(3) h(2) by auto
  qed
  have tok: "\<exists>n<calls s. hToken h \<in> range (uuid n)" if "h \<in> set hs" for h
  proof -
    have "hToken h \<in> set (map hToken (handouts s))" using that toks by (metis image_eqI list.set_map)
    then show ?thesis using inv by (auto simp: pool_inv_def)
  qed
  have "pool_do m nowOf advance uuid (GiveBack i) s = s\<lparr>poolState := s1, handouts := hs\<rparr>"
    using True m by (simp add: Let_def releaseLease_def s1_def hs_def g_def)
  then show ?thesis using inv law(1,2) use tok toks by (simp add: pool_inv_def)
qed (use inv in simp)

lemma pool_run_inv:
  assumes "pool_inv nowOf holds ok uuid s" "leaseStore m = st" "\<forall>ev\<in>set evs. pool_ev_ok (length (keypairs m)) ev"
    and uniq: "\<And>a b p q. uuid a p = uuid b q \<Longrightarrow> a = b"
  shows "pool_inv nowOf holds ok uuid (pool_run m nowOf advance uuid evs s)"
  using assms(1,3)
proof (induction evs arbitrary: s)
  case (Cons ev evs)
  have "pool_inv nowOf holds ok uuid (pool_do m nowOf advance uuid ev s)"
  proof (cases ev)
    case (Lend orders d attempts mx)
    then show ?thesis using lend_keeps_inv [OF Cons.prems(1) assms(2) _ uniq] Cons.prems(2) by simp
  next
    case (GiveBack i)
    then show ?thesis using giveBack_keeps_inv [OF Cons.prems(1) assms(2)] by simp
  next
    case (Later t)
    have okS: "ok (poolState s)" using Cons.prems(1) by (simp add: pool_inv_def)
    show ?thesis
    proof (cases "nowOf (poolState s) \<le> t")
      case True
      note law = advance_law [OF okS True]
      have "holds (advance t (poolState s)) (chanKey (hChannel h)) = Some (hToken h, hTaken h + CHANNEL_LEASE_TTL_SECONDS * 1000)"
        if "h \<in> set (handouts s)" "in_use t h" for h
      proof -
        have "holds (poolState s) (chanKey (hChannel h)) = Some (hToken h, hTaken h + CHANNEL_LEASE_TTL_SECONDS * 1000)"
          using Cons.prems(1) that in_use_later [OF that(2) True] by (simp add: pool_inv_def)
        then show ?thesis using law that(2) by (simp add: in_use_def)
      qed
      then show ?thesis using Later True law Cons.prems(1) by (simp add: pool_inv_def)
    qed (use Later Cons.prems(1) in simp)
  qed
  then show ?case using Cons.IH Cons.prems(2) by (simp add: pool_run_def)
qed (simp add: pool_run_def)

end

subsection \<open>The store of one process keeps the contract\<close>

definition memAdvance :: "int \<Rightarrow> mem_leases \<Rightarrow> mem_leases" where
  "memAdvance t m = m\<lparr>memNow := t\<rparr>"

definition memHolds :: "mem_leases \<Rightarrow> string \<Rightarrow> (string \<times> int) option" where
  "memHolds m k = (case map_of (leaseMap m) k of Some (t, e) \<Rightarrow> if memNow m < e then Some (t, e) else None | None \<Rightarrow> None)"

lemma memHolds_take: "0 < ttl \<Longrightarrow> memHolds (m\<lparr>leaseMap := AList.update k (tok, memNow m + ttl * 1000) (leaseMap m)\<rparr>) =
    (memHolds m)(k \<mapsto> (tok, memNow m + ttl * 1000))"
  by (auto simp: memHolds_def fun_eq_iff split: option.splits)

lemma memAcquire_cases:
  assumes "0 < ttl"
  shows "memAcquire k ttl tok m = (if memHolds m k = None
    then (Inr (Some tok), m\<lparr>leaseMap := AList.update k (tok, memNow m + ttl * 1000) (leaseMap m)\<rparr>) else (Inr None, m))"
  by (auto simp: memAcquire_def memHolds_def Let_def split: option.splits)

lemma memAcquireFrom_law:
  assumes "0 < ttl" and "memAcquireFrom i keys ttl tok m = (r, m')"
  shows "memNow m' = memNow m \<and> (memHolds m' = memHolds m \<and> r = Inr None \<or>
    (\<exists>j<length keys. memHolds m (keys ! j) = None \<and> memHolds m' = (memHolds m)(keys ! j \<mapsto> (tok, memNow m + ttl * 1000)) \<and> r = Inr (Some (i + j, tok))))"
  using assms(2)
proof (induction keys arbitrary: i)
  case (Cons k keys)
  show ?case
  proof (cases "memHolds m k = None")
    case True
    then show ?thesis using Cons.prems memHolds_take [OF assms(1)] memAcquire_cases [OF assms(1), of k tok m] by auto
  next
    case False
    then have "memAcquireFrom (Suc i) keys ttl tok m = (r, m')"
      using Cons.prems memAcquire_cases [OF assms(1), of k tok m] by (auto split: if_splits)
    from Cons.IH [OF this] show ?thesis
    proof (elim conjE disjE exE)
      fix j assume "memNow m' = memNow m" "j < length keys" "memHolds m (keys ! j) = None"
        "memHolds m' = (memHolds m)(keys ! j \<mapsto> (tok, memNow m + ttl * 1000))" "r = Inr (Some (Suc i + j, tok))"
      then show ?thesis by (intro conjI disjI2 exI [of _ "Suc j"]) auto
    qed simp
  qed
qed simp

interpretation memory: leases memoryLeaseStore memNow memAdvance memHolds "\<lambda>_. True"
proof (unfold_locales, goal_cases)
  case (1 s k ttl tok r s')
  have "memHolds (s\<lparr>leaseMap := AList.update k (tok, memNow s + ttl * 1000) (leaseMap s)\<rparr>) =
    (memHolds s)(k \<mapsto> (tok, memNow s + ttl * 1000))" by (rule memHolds_take [OF 1(3)])
  then show ?case using 1(4) memAcquire_cases [OF 1(3), of k tok s] by (auto simp: memoryLeaseStore_def split: if_splits)
next
  case (2 s keys ttl any tok ra s')
  then have "memAcquireFrom 0 keys ttl tok s = (ra, s')" by (simp add: memoryLeaseStore_def)
  from memAcquireFrom_law [OF 2(3) this] show ?case by auto
next
  case (3 s k tok)
  then show ?case by (auto simp: memoryLeaseStore_def memRelease_def memHolds_def fun_eq_iff split: option.splits)
next
  case (4 s t)
  then show ?case by (auto simp: memAdvance_def memHolds_def split: option.splits)
qed

subsection \<open>The shared store keeps it too\<close>

fun firstFree :: "(string \<Rightarrow> cell option) \<Rightarrow> string list \<Rightarrow> nat option" where
  "firstFree V [] = None"
| "firstFree V (k # ks) = (if V k = None then Some 0 else map_option Suc (firstFree V ks))"

text \<open>What the pool relies on beyond the day counters: the lease script takes the first free key.\<close>

locale redis_lease = redis +
  assumes acquire_any: "wf s \<Longrightarrow> 0 < ttl \<Longrightarrow>
      (case firstFree (view t s) keys of
        None \<Rightarrow> fst (srv t ([''EVAL'', ACQUIRE_ANY_SCRIPT, show_int (int (length keys))] @ keys @ [tok, show_int ttl]) s) = Result (RInt 0) \<and>
          view t (snd (srv t ([''EVAL'', ACQUIRE_ANY_SCRIPT, show_int (int (length keys))] @ keys @ [tok, show_int ttl]) s)) = view t s
      | Some j \<Rightarrow> fst (srv t ([''EVAL'', ACQUIRE_ANY_SCRIPT, show_int (int (length keys))] @ keys @ [tok, show_int ttl]) s) = Result (RInt (int j + 1)) \<and>
          view t (snd (srv t ([''EVAL'', ACQUIRE_ANY_SCRIPT, show_int (int (length keys))] @ keys @ [tok, show_int ttl]) s)) =
            (view t s)(keys ! j \<mapsto> (VStr tok, Some (t + ttl * 1000))))"

lemma firstFree_Some: "firstFree V ks = Some j \<Longrightarrow> j < length ks \<and> V (ks ! j) = None"
  by (induction ks arbitrary: j) (auto split: if_splits)

lemma leaseFirst_law:
  assumes "kv_wf s" "0 < ttl"
  shows "case firstFree (cell t s) keys of
      None \<Rightarrow> fst (leaseFirst t i keys tok (show_int ttl) s) = Result (RInt 0) \<and> cell t (snd (leaseFirst t i keys tok (show_int ttl) s)) = cell t s
    | Some j \<Rightarrow> fst (leaseFirst t i keys tok (show_int ttl) s) = Result (RInt (i + int j + 1)) \<and>
        cell t (snd (leaseFirst t i keys tok (show_int ttl) s)) = (cell t s)(keys ! j \<mapsto> (VStr tok, Some (t + ttl * 1000)))"
  using assms(1)
proof (induction keys arbitrary: i s)
  case (Cons k keys)
  have r: "runBasic t [''SET'', k, tok, ''NX'', ''EX'', show_int ttl] s = (if cell t s k = None
     then (Result (RStr ''OK''), setUntil k (Some (Some (t + ttl * 1000))) (setString k tok (touch t k s)))
     else (Result RNull, touch t k s))"
    using runSet_nx [OF Cons.prems assms(2), of t k tok] by (simp add: runBasic_def)
  show ?case
  proof (cases "cell t s k = None")
    case True
    then show ?thesis using r cell_write_expiring [OF Cons.prems, of "ttl * 1000" t k tok] assms(2) by simp
  next
    case False
    then obtain c where c: "cell t s k = Some c" by blast
    then have "leaseFirst t i (k # keys) tok (show_int ttl) s = leaseFirst t (i + 1) keys tok (show_int ttl) (touch t k s)"
      using r by simp
    moreover have "kv_wf (touch t k s)" "cell t (touch t k s) = cell t s" using Cons.prems by simp_all
    ultimately show ?thesis using Cons.IH [of "touch t k s" "i + 1"] c
      by (auto split: option.splits)
  qed
qed simp

lemma leaseFirst_zero:
  assumes "kv_wf s" "0 < ttl"
  shows "case firstFree (cell t s) keys of
      None \<Rightarrow> fst (leaseFirst t 0 keys tok (show_int ttl) s) = Result (RInt 0) \<and> cell t (snd (leaseFirst t 0 keys tok (show_int ttl) s)) = cell t s
    | Some j \<Rightarrow> fst (leaseFirst t 0 keys tok (show_int ttl) s) = Result (RInt (int j + 1)) \<and>
        cell t (snd (leaseFirst t 0 keys tok (show_int ttl) s)) = (cell t s)(keys ! j \<mapsto> (VStr tok, Some (t + ttl * 1000)))"
  using leaseFirst_law [OF assms, where i = 0 and t = t and keys = keys and tok = tok]
  by (cases "firstFree (cell t s) keys") simp_all

lemma runOne_acquire_any:
  "runOne t ([''EVAL'', ACQUIRE_ANY_SCRIPT, show_int (int (length keys))] @ keys @ [tok, ttl]) s = leaseFirst t 0 keys tok ttl s"
  by (simp add: runOne_def runEval_def js_Number_def Let_def)

interpretation fakel: redis_lease runOne cell kv_wf
proof (unfold_locales, goal_cases)
  case 1
  then show ?case unfolding runOne_acquire_any by (rule leaseFirst_zero)
qed

text \<open>A channel key holds a string with an expiry, or nothing.\<close>

definition lease_cell :: "cell option \<Rightarrow> bool" where
  "lease_cell c \<longleftrightarrow> (case c of None \<Rightarrow> True | Some (VStr x, Some u) \<Rightarrow> True | _ \<Rightarrow> False)"

definition lease_of :: "cell option \<Rightarrow> (string \<times> int) option" where
  "lease_of c = (case c of Some (VStr x, Some u) \<Rightarrow> Some (x, u) | _ \<Rightarrow> None)"

definition redisHolds :: "(int \<Rightarrow> 'k \<Rightarrow> string \<Rightarrow> cell option) \<Rightarrow> 'k world \<Rightarrow> string \<Rightarrow> (string \<times> int) option" where
  "redisHolds view w k = (if is_chan k then lease_of (view (clock w) (kvs w) k) else None)"

definition redisOk :: "(int \<Rightarrow> 'k \<Rightarrow> string \<Rightarrow> cell option) \<Rightarrow> ('k \<Rightarrow> bool) \<Rightarrow> 'k world \<Rightarrow> bool" where
  "redisOk view ok w \<longleftrightarrow> ok (kvs w) \<and> (\<forall>k. is_chan k \<longrightarrow> lease_cell (view (clock w) (kvs w) k))"

definition redisAdvance :: "int \<Rightarrow> 'k world \<Rightarrow> 'k world" where
  "redisAdvance t w = w\<lparr>clock := t\<rparr>"

lemma lease_of_None: "lease_cell c \<Longrightarrow> lease_of c = None \<longleftrightarrow> c = None"
  by (auto simp: lease_cell_def lease_of_def split: option.splits kval.splits prod.splits)

lemma lease_cell_strish: "lease_cell c \<Longrightarrow> strish c"
  by (auto simp: lease_cell_def strish_def split: option.splits kval.splits prod.splits)

lemma lease_of_str: "lease_cell c \<Longrightarrow> cell_str c = Some x \<longleftrightarrow> (\<exists>u. lease_of c = Some (x, u))"
  by (auto simp: lease_cell_def lease_of_def cell_str_def split: option.splits kval.splits prod.splits)

context redis
begin

text \<open>One command over a network that may lose it: it ran, or it did not.\<close>

lemma oneCmd_cases:
  assumes "oneCmd srv c w = (r, w')"
  obtains n where "w' = w\<lparr>kvs := snd (srv (clock w) c (kvs w)), nets := n\<rparr>"
      "(\<exists>e. r = Inl e) \<or> Result (case r of Inr x \<Rightarrow> x | Inl _ \<Rightarrow> RNull) = fst (srv (clock w) c (kvs w))"
    | n where "w' = w\<lparr>nets := n\<rparr>" "\<exists>e. r = Inl e"
proof (cases "\<exists>n ns. nets w = Lost n # ns")
  case True
  then obtain n ns where n: "nets w = Lost n # ns" by blast
  then show ?thesis
  proof (cases n)
    case 0
    show ?thesis by (rule that(2) [of ns]) (use 0 assms n in \<open>auto simp: oneCmd_def pipeline_def\<close>)
  next
    case (Suc m)
    then show ?thesis using that(1) [of ns] assms n by (auto simp: oneCmd_def pipeline_def case_prod_unfold)
  qed
next
  case False
  then have p: "pipeline srv [c] w = (Inr [fst (srv (clock w) c (kvs w))], w\<lparr>kvs := snd (srv (clock w) c (kvs w)), nets := drop 1 (nets w)\<rparr>)"
    by (auto simp: pipeline_def case_prod_unfold split: list.splits net.splits)
  then show ?thesis using that(1) [of "drop 1 (nets w)"] assms by (auto simp: oneCmd_def split: reply.splits)
qed

end

lemma redisOk_nets [simp]:
  "redisOk view ok (w\<lparr>nets := n\<rparr>) = redisOk view ok w" "redisHolds view (w\<lparr>nets := n\<rparr>) = redisHolds view w"
  by (simp_all add: redisOk_def redisHolds_def fun_eq_iff)

context redis_lease
begin

lemma take_lease:
  assumes "redisOk view wf w" "is_chan k" "wf s'" "view (clock w) s' = (view (clock w) (kvs w))(k \<mapsto> (VStr tok, Some u))"
  shows "redisOk view wf (w\<lparr>kvs := s', nets := n\<rparr>)" "redisHolds view (w\<lparr>kvs := s', nets := n\<rparr>) = (redisHolds view w)(k \<mapsto> (tok, u))"
  using assms by (auto simp: redisOk_def redisHolds_def lease_cell_def lease_of_def fun_eq_iff)

lemma same_leases:
  assumes "redisOk view wf w" "wf s'" "view (clock w) s' = view (clock w) (kvs w)"
  shows "redisOk view wf (w\<lparr>kvs := s', nets := n\<rparr>)" "redisHolds view (w\<lparr>kvs := s', nets := n\<rparr>) = redisHolds view w"
  using assms by (auto simp: redisOk_def redisHolds_def fun_eq_iff)

end

sublocale redis_lease \<subseteq> chan: leases "redisLeaseStore srv" clock redisAdvance "redisHolds view" "redisOk view wf"
proof (unfold_locales, goal_cases)
  case (1 w k ttl tok r w')
  have wfw: "wf (kvs w)" and k: "redisHolds view w k = None \<longleftrightarrow> view (clock w) (kvs w) k = None"
    using 1(1,2) lease_of_None by (auto simp: redisOk_def redisHolds_def)
  let ?c = "[''SET'', k, tok, ''NX'', ''EX'', show_int ttl]"
  obtain r0 w0 where r0: "oneCmd srv ?c w = (r0, w0)" by (cases "oneCmd srv ?c w")
  then have r: "w' = w0" "r = (case r0 of Inl e \<Rightarrow> Inl e | Inr x \<Rightarrow> Inr (if x = RStr ''OK'' then Some tok else None))"
    using 1(4) by (auto simp: redisLeaseStore_def redisAcquire_def split: sum.splits)
  define s' where "s' = snd (srv (clock w) ?c (kvs w))"
  have s': "wf s'" "view (clock w) s' = (if view (clock w) (kvs w) k = None then (view (clock w) (kvs w))(k \<mapsto> (VStr tok, Some (clock w + ttl * 1000)))
      else view (clock w) (kvs w))" "fst (srv (clock w) ?c (kvs w)) = Result (if view (clock w) (kvs w) k = None then RStr ''OK'' else RNull)"
    using setnx_reply [OF wfw 1(3)] setnx_view [OF wfw 1(3)] srv_wf [OF wfw] by (simp_all add: s'_def)
  from r0 show ?case
  proof (rule oneCmd_cases)
    fix n assume a: "w0 = w\<lparr>kvs := snd (srv (clock w) ?c (kvs w)), nets := n\<rparr>"
      "(\<exists>e. r0 = Inl e) \<or> Result (case r0 of Inr x \<Rightarrow> x | Inl _ \<Rightarrow> RNull) = fst (srv (clock w) ?c (kvs w))"
    then have w0: "w0 = w\<lparr>kvs := s', nets := n\<rparr>" by (simp add: s'_def)
    show ?thesis
    proof (cases "view (clock w) (kvs w) k = None")
      case True
      then have v: "view (clock w) s' = (view (clock w) (kvs w))(k \<mapsto> (VStr tok, Some (clock w + ttl * 1000)))" using s'(2) by simp
      have "redisOk view wf w0" "redisHolds view w0 = (redisHolds view w)(k \<mapsto> (tok, clock w + ttl * 1000))" "clock w0 = clock w"
        using take_lease [OF 1(1,2) s'(1) v, of n] by (simp_all add: w0)
      moreover have "(\<exists>e. r = Inl e) \<or> r = Inr (Some tok)" using a(2) s'(3) True r(2) by (auto split: sum.splits)
      ultimately show ?thesis using True k r(1) by simp
    next
      case False
      then have v: "view (clock w) s' = view (clock w) (kvs w)" using s'(2) by auto
      have "redisOk view wf w0" "redisHolds view w0 = redisHolds view w" "clock w0 = clock w"
        using same_leases [OF 1(1) s'(1) v, of n] by (simp_all add: w0)
      moreover have "r \<noteq> Inr (Some tok)" "\<And>t. r = Inr (Some t) \<Longrightarrow> t = tok" using a(2) s'(3) False r(2) by (auto split: sum.splits if_splits)
      ultimately show ?thesis using r(1) by auto
    qed
  next
    fix n assume a: "w0 = w\<lparr>nets := n\<rparr>" "\<exists>e. r0 = Inl e"
    then have "redisOk view wf w0" "redisHolds view w0 = redisHolds view w" "clock w0 = clock w" using 1(1) by simp_all
    then show ?thesis using a(2) r by auto
  qed
next
  case (2 w keys ttl any tok ra w')
  then have any: "any = redisAcquireAny srv" by (simp add: redisLeaseStore_def)
  have wfw: "wf (kvs w)" using 2(1) by (simp add: redisOk_def)
  let ?c = "[''EVAL'', ACQUIRE_ANY_SCRIPT, show_int (int (length keys))] @ keys @ [tok, show_int ttl]"
  obtain r0 w0 where r0: "oneCmd srv ?c w = (r0, w0)" by (cases "oneCmd srv ?c w")
  then have r: "w' = w0" "ra = (case r0 of Inl e \<Rightarrow> Inl e | Inr x \<Rightarrow> Inr (case replyInt (Result x) of
           Some i \<Rightarrow> if 1 \<le> i \<and> i \<le> int (length keys) then Some (nat (i - 1), tok) else None | None \<Rightarrow> None))"
    using 2(5) by (auto simp: any redisAcquireAny_def split: sum.splits)
  define s' where "s' = snd (srv (clock w) ?c (kvs w))"
  have ws: "wf s'" using srv_wf [OF wfw] by (simp add: s'_def)
  note law = acquire_any [OF wfw 2(3), of "clock w" keys tok]
  from r0 show ?case
  proof (rule oneCmd_cases)
    fix n assume a: "w0 = w\<lparr>kvs := snd (srv (clock w) ?c (kvs w)), nets := n\<rparr>"
      "(\<exists>e. r0 = Inl e) \<or> Result (case r0 of Inr x \<Rightarrow> x | Inl _ \<Rightarrow> RNull) = fst (srv (clock w) ?c (kvs w))"
    then have w0: "w0 = w\<lparr>kvs := s', nets := n\<rparr>" by (simp add: s'_def)
    show ?thesis
    proof (cases "firstFree (view (clock w) (kvs w)) keys")
      case None
      then have v: "view (clock w) s' = view (clock w) (kvs w)" "fst (srv (clock w) ?c (kvs w)) = Result (RInt 0)" using law by (simp_all add: s'_def)
      have "redisOk view wf w0" "redisHolds view w0 = redisHolds view w" "clock w0 = clock w"
        using same_leases [OF 2(1) ws v(1), of n] by (simp_all add: w0)
      moreover have "(\<exists>e. ra = Inl e) \<or> ra = Inr None" using a(2) v(2) r(2) by (auto simp: replyInt_def split: sum.splits)
      ultimately show ?thesis using r(1) by simp
    next
      case (Some j)
      then have v: "view (clock w) s' = (view (clock w) (kvs w))(keys ! j \<mapsto> (VStr tok, Some (clock w + ttl * 1000)))"
        "fst (srv (clock w) ?c (kvs w)) = Result (RInt (int j + 1))" using law by (simp_all add: s'_def)
      have j: "j < length keys" "view (clock w) (kvs w) (keys ! j) = None" using firstFree_Some [OF Some] by simp_all
      then have ch: "is_chan (keys ! j)" using 2(2) by simp
      have "redisOk view wf w0" "redisHolds view w0 = (redisHolds view w)(keys ! j \<mapsto> (tok, clock w + ttl * 1000))" "clock w0 = clock w"
        using take_lease [OF 2(1) ch ws v(1), of n] by (simp_all add: w0)
      moreover have "(\<exists>e. ra = Inl e) \<or> ra = Inr (Some (j, tok))" using a(2) v(2) r(2) j(1) by (auto simp: replyInt_def split: sum.splits)
      moreover have "redisHolds view w (keys ! j) = None" using j(2) by (simp add: redisHolds_def lease_of_def)
      ultimately show ?thesis using r(1) j(1) by auto
    qed
  next
    fix n assume a: "w0 = w\<lparr>nets := n\<rparr>" "\<exists>e. r0 = Inl e"
    then have "redisOk view wf w0" "redisHolds view w0 = redisHolds view w" "clock w0 = clock w" using 2(1) by simp_all
    then show ?thesis using a(2) r by auto
  qed
next
  case (3 w k tok)
  have wfw: "wf (kvs w)" and lc: "lease_cell (view (clock w) (kvs w) k)" using 3 by (simp_all add: redisOk_def)
  let ?c = "[''EVAL'', FENCED_DEL, ''1'', k, tok]"
  obtain r0 w0 where r0: "oneCmd srv ?c w = (r0, w0)" by (cases "oneCmd srv ?c w")
  then have rel: "release (redisLeaseStore srv) k tok w = w0" by (simp add: redisLeaseStore_def redisRelease_def)
  define s' where "s' = snd (srv (clock w) ?c (kvs w))"
  have s': "wf s'" "view (clock w) s' = (if cell_str (view (clock w) (kvs w) k) = Some tok then (view (clock w) (kvs w))(k := None) else view (clock w) (kvs w))"
    using fenced_del_view [OF wfw lease_cell_strish [OF lc]] srv_wf [OF wfw] by (simp_all add: s'_def)
  from r0 show ?case
  proof (rule oneCmd_cases)
    fix n assume "w0 = w\<lparr>kvs := snd (srv (clock w) ?c (kvs w)), nets := n\<rparr>"
    then have w0: "w0 = w\<lparr>kvs := s', nets := n\<rparr>" by (simp add: s'_def)
    then have c: "clock w0 = clock w" "kvs w0 = s'" by simp_all
    show ?thesis
    proof (cases "cell_str (view (clock w) (kvs w) k) = Some tok")
      case True
      then obtain u where "redisHolds view w k = Some (tok, u)" using lease_of_str [OF lc] 3(2) by (auto simp: redisHolds_def)
      moreover have "redisOk view wf w0" "redisHolds view w0 = (redisHolds view w)(k := None)"
        using 3 s' True c by (auto simp: redisOk_def redisHolds_def lease_cell_def lease_of_def fun_eq_iff)
      ultimately show ?thesis using rel c by auto
    next
      case False
      then show ?thesis using 3 s' rel c by (auto simp: redisOk_def redisHolds_def fun_eq_iff)
    qed
  next
    fix n assume "w0 = w\<lparr>nets := n\<rparr>"
    then have "redisOk view wf w0" "redisHolds view w0 = redisHolds view w" "clock w0 = clock w" using 3(1) by simp_all
    then show ?thesis using rel by simp
  qed
next
  case (4 w t)
  then have v: "view t (kvs w) k = lapse t (view (clock w) (kvs w) k)" for k using view_lapse by (simp add: redisOk_def)
  have "lease_cell (lapse t c)" if "lease_cell c" for c
    using that by (auto simp: lease_cell_def lapse_def split: option.splits kval.splits prod.splits)
  moreover have "lease_of (lapse t c) = (case lease_of c of Some (x, e) \<Rightarrow> if e \<le> t then None else Some (x, e) | None \<Rightarrow> None)" if "lease_cell c" for c
    using that by (auto simp: lease_cell_def lapse_def lease_of_def split: option.splits kval.splits prod.splits)
  ultimately show ?case using 4 by (auto simp: redisOk_def redisHolds_def redisAdvance_def v)
qed

subsection \<open>What the pool promises\<close>


lemma one_onboarding_per_channel_in_memory:
  fixes p :: "mem_leases pool"
  assumes "handouts p = []" and "leaseStore m = memoryLeaseStore" and "\<forall>ev\<in>set evs. pool_ev_ok (length (keypairs m)) ev"
    and "\<And>a b x y. uuid a x = uuid b y \<Longrightarrow> a = b"
  defines "q \<equiv> pool_run m memNow memAdvance uuid evs p"
  shows "distinct (map hChannel (filter (in_use (memNow (poolState q))) (handouts q)))"
proof -
  have "pool_inv memNow memHolds (\<lambda>_. True) uuid p" using assms(1) by (simp add: pool_inv_def)
  from memory.pool_run_inv [OF this assms(2-4)]
  have "pool_inv memNow memHolds (\<lambda>_. True) uuid q" by (simp add: q_def)
  then show ?thesis by (rule pool_inv_exclusive)
qed

definition two_channels :: "kv world manager" where
  "two_channels = \<lparr>keypairs = [''GA'', ''GB''], leaseStore = redisLeaseStore runOne, enabled = True, inMemoryOnly = False\<rparr>"

definition quiet_pool :: "kv world pool" where
  "quiet_pool = \<lparr>poolState = \<lparr>env = Map.empty, clock = 0, kvs = empty_kv, nets = []\<rparr>, calls = 0, handouts = []\<rparr>"

definition call_token :: "nat \<Rightarrow> nat \<Rightarrow> string" where
  "call_token n p = show_nat n"

definition two_calls :: "pool_ev list" where
  "two_calls = [Lend (\<lambda>_. [0, 1]) 250 6 10, Lend (\<lambda>_. [1, 0]) 250 6 10, GiveBack 0]"


text \<open>C14: while a channel is free and the store answers, the first pass leases one: never a held one, and with the
  full lease time.\<close>

theorem lease_takes_a_free_channel:
  fixes w :: "kv world"
  assumes "redisOk cell kv_wf w" "online w" and "enabled m" "leaseStore m = redisLeaseStore runOne"
    and "set (orders (Suc left)) = {..<length (keypairs m)}"
    and "pub \<in> set (keypairs m)" "redisHolds cell w (chanKey pub) = None" and "0 < maxProbes"
    and "lease m tok orders wait (Suc left) maxProbes w = ((r, n), w')"
  shows "\<exists>ch. r = Leased ch (chanKey ch) (tok 0) \<and> ch \<in> set (keypairs m) \<and> n = 1 \<and> redisHolds cell w (chanKey ch) = None \<and>
    redisHolds cell w' = (redisHolds cell w)(chanKey ch \<mapsto> (tok 0, clock w + CHANNEL_LEASE_TTL_SECONDS * 1000))"
proof -
  let ?pubs = "keypairs m" and ?order = "orders (Suc left)"
  define keys where "keys = map (\<lambda>i. chanKey (?pubs ! i)) ?order"
  let ?c = "[''EVAL'', ACQUIRE_ANY_SCRIPT, show_int (int (length keys))] @ keys @ [tok 0, show_int CHANNEL_LEASE_TTL_SECONDS]"
  have wf: "kv_wf (kvs w)" using assms(1) by (simp add: redisOk_def)
  have none: "redisHolds cell w (chanKey x) = None \<longleftrightarrow> cell (clock w) (kvs w) (chanKey x) = None" for x
    using assms(1) lease_of_None by (auto simp: redisOk_def redisHolds_def)
  obtain i where "i < length ?pubs" "?pubs ! i = pub" using assms(6) by (auto simp: in_set_conv_nth)
  then have "chanKey pub \<in> set keys" using assms(5) by (auto simp: keys_def image_iff)
  moreover have "cell (clock w) (kvs w) (chanKey pub) = None" using assms(7) none by simp
  ultimately have "firstFree (cell (clock w) (kvs w)) keys \<noteq> None"
    by (induction keys) auto
  then obtain j where j: "firstFree (cell (clock w) (kvs w)) keys = Some j" by blast
  then have jl: "j < length ?order" "cell (clock w) (kvs w) (keys ! j) = None" using firstFree_Some [OF j] by (auto simp: keys_def)
  have law: "fst (runOne (clock w) ?c (kvs w)) = Result (RInt (int j + 1))"
    "cell (clock w) (snd (runOne (clock w) ?c (kvs w))) = (cell (clock w) (kvs w))(keys ! j \<mapsto> (VStr (tok 0), Some (clock w + CHANNEL_LEASE_TTL_SECONDS * 1000)))"
    using fakel.acquire_any [OF wf, of CHANNEL_LEASE_TTL_SECONDS "clock w" keys "tok 0"] j by (simp_all add: CHANNEL_LEASE_TTL_SECONDS_def)
  define s' where "s' = snd (runOne (clock w) ?c (kvs w))"
  define ch where "ch = ?pubs ! (?order ! j)"
  have key: "keys ! j = chanKey ch" using jl(1) by (simp add: keys_def ch_def)
  have mem: "ch \<in> set ?pubs" using jl(1) assms(5) nth_mem [of j ?order] by (simp add: ch_def)
  have "oneCmd runOne ?c w = (Inr (RInt (int j + 1)), w\<lparr>kvs := s'\<rparr>)"
    using law(1) assms(2) by (simp add: oneCmd_def pipeline_online case_prod_unfold s'_def)
  then have any: "redisAcquireAny runOne keys CHANNEL_LEASE_TTL_SECONDS (tok 0) w = (Inr (Some (j, tok 0)), w\<lparr>kvs := s'\<rparr>)"
    using jl(1) by (simp add: redisAcquireAny_def replyInt_def keys_def)
  have "lease m tok orders wait (Suc left) maxProbes w = ((Leased ch (chanKey ch) (tok 0), 1), w\<lparr>kvs := s'\<rparr>)"
    using any assms(3,4,8) by (simp add: lease_def onePass_def redisLeaseStore_def keys_def ch_def)
  moreover have "redisHolds cell (w\<lparr>kvs := s'\<rparr>) = (redisHolds cell w)(chanKey ch \<mapsto> (tok 0, clock w + CHANNEL_LEASE_TTL_SECONDS * 1000))"
    using law(2) key by (auto simp: redisHolds_def lease_of_def fun_eq_iff s'_def)
  ultimately show ?thesis using assms(9) mem key jl(2) none by auto
qed

theorem lease_takes_a_free_channel_witness:
  "\<exists>ch. fst (fst (lease two_channels (call_token 7) (\<lambda>_. [1, 0]) id (Suc 5) 10 (poolState quiet_pool))) = Leased ch (chanKey ch) ''7''"
proof -
  obtain r n w' where l: "lease two_channels (call_token 7) (\<lambda>_. [1, 0]) id (Suc 5) 10 (poolState quiet_pool) = ((r, n), w')"
    by (metis prod.collapse)
  have t: "call_token 7 0 = ''7''" by code_simp
  have "redisOk cell kv_wf (poolState quiet_pool)" "online (poolState quiet_pool)" "redisHolds cell (poolState quiet_pool) (chanKey ''GA'') = None"
    by (simp_all add: redisOk_def quiet_pool_def lease_cell_def online_def redisHolds_def lease_of_def)
  from lease_takes_a_free_channel [OF this(1,2) _ _ _ _ this(3) _ l] show ?thesis using t l
    by (auto simp: two_channels_def numeral_2_eq_2 lessThan_Suc)
qed

end
