(* ===== verification/JsNumber.thy ===== *)
theory JsNumber
  imports Prelude Complex_Main "HOL-Library.Log_Nat"
begin

text \<open>
  The part of JavaScript's \<open>Number\<close> the sponsor's money checks use: IEEE double rounding, the
  comparisons (every one of them false on NaN), \<open>Number.parseFloat\<close> on a decimal string,
  \<open>Math.round\<close> and multiplication.  A finite double is the rational it stands for (the two
  zeros are one value here: nothing modelled tells them apart); \<open>to_double\<close> rounds a rational
  to the nearest double, ties to even, with gradual underflow and overflow to infinity.
\<close>

datatype js_num = NaN | Infinite bool | Fin rat

subsection \<open>Rounding\<close>

text \<open>The exponent of the binade a positive rational lies in.\<close>

definition flog2 :: "rat \<Rightarrow> int" where
  "flog2 x = (case quotient_of x of (p, q) \<Rightarrow>
     let n = bitlen p - bitlen q in if 2 powi n \<le> x then n else n - 1)"

definition round_even :: "rat \<Rightarrow> int" where
  "round_even x = (let f = \<lfloor>x\<rfloor>; d = x - of_int f in
     if d < 1 / 2 then f else if 1 / 2 < d then f + 1 else if even f then f else f + 1)"

definition ulp :: "rat \<Rightarrow> rat" where
  "ulp x = 2 powi (max (flog2 \<bar>x\<bar> - 52) (- 1074))"

definition round_double :: "rat \<Rightarrow> rat" where
  "round_double x = (if x = 0 then 0 else of_int (round_even (x / ulp x)) * ulp x)"

definition to_double :: "rat \<Rightarrow> js_num" where
  "to_double x = (let r = round_double x in if 2 ^ 1024 \<le> \<bar>r\<bar> then Infinite (0 < x) else Fin r)"

subsection \<open>Comparisons and operations\<close>

fun js_less :: "js_num \<Rightarrow> js_num \<Rightarrow> bool" where
  "js_less (Fin a) (Fin b) = (a < b)"
| "js_less (Fin a) (Infinite pos) = pos"
| "js_less (Infinite pos) (Fin b) = (\<not> pos)"
| "js_less (Infinite p) (Infinite q) = (\<not> p \<and> q)"
| "js_less _ _ = False"

definition js_eq :: "js_num \<Rightarrow> js_num \<Rightarrow> bool" where
  "js_eq a b \<longleftrightarrow> a \<noteq> NaN \<and> a = b"

definition isFinite :: "js_num \<Rightarrow> bool" where
  "isFinite a = (case a of Fin _ \<Rightarrow> True | _ \<Rightarrow> False)"

fun js_sign :: "js_num \<Rightarrow> int" where
  "js_sign NaN = 0"
| "js_sign (Infinite pos) = (if pos then 1 else - 1)"
| "js_sign (Fin a) = (if a = 0 then 0 else if a < 0 then - 1 else 1)"

fun js_times :: "js_num \<Rightarrow> js_num \<Rightarrow> js_num" where
  "js_times (Fin a) (Fin b) = to_double (a * b)"
| "js_times NaN _ = NaN"
| "js_times _ NaN = NaN"
| "js_times a b = (if js_sign a * js_sign b = 0 then NaN else Infinite (0 < js_sign a * js_sign b))"

text \<open>\<open>Math.round\<close>, and \<open>BigInt\<close> of its result: \<open>None\<close> is the RangeError on NaN or an infinity.\<close>

definition roundBig :: "js_num \<Rightarrow> int option" where
  "roundBig a = (case a of Fin x \<Rightarrow> Some \<lfloor>x + 1 / 2\<rfloor> | _ \<Rightarrow> None)"

subsection \<open>\<open>Number.parseFloat\<close>\<close>

text \<open>
  Leading white space, an optional sign, \<open>Infinity\<close> or the longest decimal literal: digits, an
  optional fraction, an optional exponent; no digit at all is NaN.
\<close>

definition parseExponent :: "string \<Rightarrow> int" where
  "parseExponent s = (case s of
       e # rest \<Rightarrow> if e \<in> {CHR ''e'', CHR ''E''} then
          (case rest of
             sg # r \<Rightarrow> if sg = CHR ''-'' then - int (nat_of_digits (takeWhile is_digit r))
                 else if sg = CHR ''+'' then int (nat_of_digits (takeWhile is_digit r))
                 else int (nat_of_digits (takeWhile is_digit rest))
           | [] \<Rightarrow> 0) else 0
     | [] \<Rightarrow> 0)"

definition parseDecimal :: "string \<Rightarrow> rat option" where
  "parseDecimal s = (let
       whole = takeWhile is_digit s;
       rest = dropWhile is_digit s;
       frac = (case rest of c # r \<Rightarrow> if c = CHR ''.'' then takeWhile is_digit r else [] | [] \<Rightarrow> []);
       after = (case rest of c # r \<Rightarrow> if c = CHR ''.'' then dropWhile is_digit r else rest | [] \<Rightarrow> [])
     in if whole = [] \<and> frac = [] then None
        else Some (of_nat (nat_of_digits (whole @ frac)) * 10 powi (parseExponent after - int (length frac))))"

definition parseUnsigned :: "bool \<Rightarrow> string \<Rightarrow> js_num" where
  "parseUnsigned pos s =
     (if take 8 s = ''Infinity'' then Infinite pos
      else case parseDecimal s of None \<Rightarrow> NaN | Some x \<Rightarrow> to_double (if pos then x else - x))"

definition parseFloat :: "string \<Rightarrow> js_num" where
  "parseFloat s0 = (let s = dropWhile is_space s0 in
     case s of c # r \<Rightarrow> if c = CHR ''-'' then parseUnsigned False r
                       else if c = CHR ''+'' then parseUnsigned True r else parseUnsigned True s
     | [] \<Rightarrow> NaN)"

subsection \<open>Rounding lemmas\<close>

lemma powi_less_iff [simp]: "(2::rat) powi m < 2 powi n \<longleftrightarrow> m < n"
proof
  assume "(2::rat) powi m < 2 powi n"
  then show "m < n" using power_int_increasing [of n m "2::rat"] by (cases "m < n") auto
qed (simp add: power_int_strict_increasing)

lemma flog2_bounds:
  assumes "0 < x"
  shows "2 powi flog2 x \<le> x" and "x < 2 powi (flog2 x + 1)"
proof -
  obtain p q where pq: "quotient_of x = (p, q)" by (cases "quotient_of x")
  then have q: "0 < q" and x: "x = of_int p / of_int q" by (simp_all add: quotient_of_denom_pos quotient_of_div)
  have p: "0 < p" using assms q by (simp add: x zero_less_divide_iff)
  have bounds: "2 powi (bitlen k - 1) \<le> (of_int k :: rat) \<and> of_int k < (2 powi bitlen k :: rat)" if "0 < k" for k
  proof -
    have b: "1 \<le> bitlen k" using that bitlen_nonneg [of k] bitlen_eq_zero_iff [of k] by linarith
    have "2 ^ nat (bitlen k - 1) \<le> k" "k < 2 ^ nat (bitlen k)" using bitlen_bounds [OF that] by simp_all
    then have "(2::rat) ^ nat (bitlen k - 1) \<le> of_int k" "of_int k < (2::rat) ^ nat (bitlen k)"
      by (metis of_int_le_iff of_int_numeral of_int_power, metis of_int_less_iff of_int_numeral of_int_power)
    then show ?thesis using b by (simp add: power_int_def power_one_over)
  qed
  let ?n = "bitlen p - bitlen q"
  have lo: "2 powi (?n - 1) \<le> x" if "\<not> 2 powi ?n \<le> x"
  proof -
    have "2 powi (?n - 1) * (of_int q :: rat) \<le> 2 powi (?n - 1) * 2 powi bitlen q"
      using bounds [OF q] by (intro mult_left_mono) auto
    also have "\<dots> = 2 powi (bitlen p - 1)" by (simp flip: power_int_add)
    also have "\<dots> \<le> of_int p" using bounds [OF p] by simp
    finally show ?thesis using q by (simp add: x pos_le_divide_eq)
  qed
  have hi: "x < 2 powi (?n + 1)"
  proof -
    have "of_int p < (2 powi bitlen p :: rat)" using bounds [OF p] by simp
    also have "\<dots> = 2 powi (?n + 1) * 2 powi (bitlen q - 1)" by (simp flip: power_int_add)
    also have "\<dots> \<le> 2 powi (?n + 1) * of_int q" using bounds [OF q] by (intro mult_left_mono) auto
    finally show ?thesis using q by (simp add: x pos_divide_less_eq)
  qed
  show "2 powi flog2 x \<le> x" using lo by (simp add: flog2_def pq Let_def)
  show "x < 2 powi (flog2 x + 1)" using hi by (auto simp: flog2_def pq Let_def not_le)
qed

lemma round_even_int [simp]: "round_even (of_int n) = n"
  by (simp add: round_even_def)

lemma round_even_error: "\<bar>of_int (round_even x) - x\<bar> \<le> 1 / 2"
  unfolding round_even_def Let_def using floor_correct [of x]
  by (auto simp: abs_le_iff field_simps)

lemma ulp_pos [simp]: "0 < ulp x"
  by (simp add: ulp_def)

lemma ulp_neq_zero [simp]: "ulp x \<noteq> 0"
  by (metis less_irrefl ulp_pos)

text \<open>The relative error of rounding a rational in the normal range.\<close>

lemma round_double_error:
  assumes "2 powi (- 1022) \<le> \<bar>x\<bar>"
  shows "\<bar>round_double x - x\<bar> \<le> \<bar>x\<bar> * 2 powi (- 53)"
proof -
  have x: "x \<noteq> 0" "0 < \<bar>x\<bar>" using assms by (auto simp: not_le)
  have "(2::rat) powi (- 1022) < 2 powi (flog2 \<bar>x\<bar> + 1)"
    using assms flog2_bounds(2) [OF x(2)] by (rule le_less_trans)
  then have e: "- 1022 \<le> flog2 \<bar>x\<bar>" unfolding powi_less_iff by simp
  then have "max (flog2 \<bar>x\<bar> - 52) (- 1074) = flog2 \<bar>x\<bar> - 52" by simp
  then have u: "ulp x = 2 powi flog2 \<bar>x\<bar> * 2 powi (- 52)" using power_int_add [of "2::rat" "flog2 \<bar>x\<bar>" "- 52"] by (simp add: ulp_def)
  have "round_double x - x = ulp x * (of_int (round_even (x / ulp x)) - x / ulp x)"
    using x by (simp add: round_double_def field_simps)
  then have "\<bar>round_double x - x\<bar> = ulp x * \<bar>of_int (round_even (x / ulp x)) - x / ulp x\<bar>"
    using ulp_pos [of x] by (simp only: abs_mult abs_of_pos)
  also have "\<dots> \<le> ulp x * (1 / 2)" using round_even_error by (intro mult_left_mono) (auto simp: less_imp_le)
  also have "\<dots> = 2 powi flog2 \<bar>x\<bar> * 2 powi (- 53)" by (simp add: u power_int_minus)
  also have "\<dots> \<le> \<bar>x\<bar> * 2 powi (- 53)" using flog2_bounds(1) [OF x(2)] by (intro mult_right_mono) auto
  finally show ?thesis .
qed

lemma round_double_zero [simp]: "round_double 0 = 0"
  by (simp add: round_double_def)

lemma to_double_zero [simp]: "to_double 0 = Fin 0"
  by (simp add: to_double_def)

text \<open>An integer of at most 53 bits is a double.\<close>

lemma round_double_int:
  assumes "\<bar>n\<bar> \<le> 2 ^ 53"
  shows "round_double (of_int n) = of_int n"
proof (cases "n = 0")
  case False
  let ?e = "flog2 \<bar>of_int n\<bar>"
  have pos: "0 < \<bar>of_int n :: rat\<bar>" using False by simp
  have "(1::rat) \<le> \<bar>of_int n\<bar>" using False by (metis abs_le_square_iff of_int_1_le_iff of_int_abs zabs_less_one_iff not_less)
  also have "\<dots> < 2 powi (?e + 1)" by (rule flog2_bounds(2) [OF pos])
  finally have "(2::rat) powi 0 < 2 powi (?e + 1)" by simp
  then have e0: "0 \<le> ?e" unfolding powi_less_iff by simp
  have "(2::rat) powi ?e \<le> \<bar>of_int n\<bar>" by (rule flog2_bounds(1) [OF pos])
  also have "\<dots> \<le> 2 ^ 53" using assms by (metis of_int_abs of_int_le_iff of_int_numeral of_int_power)
  also have "\<dots> < 2 powi 54" by simp
  finally have e1: "?e \<le> 53" unfolding powi_less_iff by simp
  show ?thesis
  proof (cases "?e = 53")
    case True
    then have "(of_int (2 ^ 53) :: rat) \<le> of_int \<bar>n\<bar>" using flog2_bounds(1) [OF pos] by simp
    then have "2 ^ 53 \<le> \<bar>n\<bar>" by (simp only: of_int_le_iff)
    then have "\<bar>n\<bar> = 2 ^ 53" using assms by simp
    then have n: "n = 2 ^ 53 \<or> n = - (2 ^ 53)" by arith
    have u: "ulp (of_int n) = 2" using True by (simp add: ulp_def)
    have half: "(of_int n :: rat) / 2 = of_int (n div 2)" using n by auto
    have "round_double (of_int n) = of_int (n div 2) * 2"
      unfolding round_double_def u half round_even_int using \<open>n \<noteq> 0\<close> by simp
    then show ?thesis using half by simp
  next
    case False
    then have "52 - ?e \<ge> 0" using e1 by simp
    then obtain k where k: "52 - ?e = int k" using nonneg_int_cases by blast
    have u: "ulp (of_int n) = 2 powi (- int k)" using e0 k by (simp add: ulp_def flip: k)
    have "(of_int n :: rat) / ulp (of_int n) = of_int (n * 2 ^ k)"
      by (simp add: u power_int_minus divide_inverse)
    then have "round_even (of_int n / ulp (of_int n :: rat)) = n * 2 ^ k" by (metis round_even_int)
    then show ?thesis using \<open>n \<noteq> 0\<close> by (simp add: round_double_def u power_int_minus)
  qed
qed simp

text \<open>Rounding never crosses zero.\<close>

lemma round_double_sign:
  shows "0 \<le> x \<Longrightarrow> 0 \<le> round_double x" and "x \<le> 0 \<Longrightarrow> round_double x \<le> 0"
proof -
  have "0 \<le> round_even y" if "0 \<le> y" for y
    using that by (auto simp: round_even_def Let_def)
  then show "0 \<le> x \<Longrightarrow> 0 \<le> round_double x"
    by (simp add: round_double_def less_imp_le)
  have "round_even y \<le> 0" if "y \<le> 0" for y
  proof -
    have "of_int (round_even y) \<le> y + 1 / 2" using round_even_error [of y] unfolding abs_le_iff by linarith
    then have "of_int (round_even y) < (1 :: rat)" using that by simp
    then show ?thesis by simp
  qed
  then show "x \<le> 0 \<Longrightarrow> round_double x \<le> 0"
    by (simp add: round_double_def less_imp_le mult_nonpos_nonneg divide_nonpos_pos)
qed

text \<open>
  \<open>BigInt(Math.round(Number.parseFloat(s) * Number(10_000_000n)))\<close>: the stroops of a decimal amount.  The
  two roundings of a whole number of stroops below 2^51 add up to less than half a stroop.
\<close>

definition stroopsOf :: "string \<Rightarrow> int option" where
  "stroopsOf s = roundBig (js_times (parseFloat s) (Fin 10000000))"

lemma to_double_small: "\<bar>x\<bar> < 2 ^ 1000 \<Longrightarrow> 2 powi (- 1022) \<le> \<bar>x\<bar> \<Longrightarrow> to_double x = Fin (round_double x)"
proof -
  assume x: "\<bar>x\<bar> < 2 ^ 1000" "2 powi (- 1022) \<le> \<bar>x\<bar>"
  have "\<bar>round_double x\<bar> \<le> \<bar>x\<bar> + \<bar>round_double x - x\<bar>" by simp
  also have "\<dots> \<le> \<bar>x\<bar> + \<bar>x\<bar> * 2 powi (- 53)" using round_double_error [OF x(2)] by simp
  also have "\<dots> \<le> \<bar>x\<bar> + \<bar>x\<bar> * 1" by (intro add_left_mono mult_left_mono) simp_all
  also have "\<dots> < 2 ^ 1000 + 2 ^ 1000" using x(1) by simp
  also have "\<dots> \<le> (2 ^ 1024 :: rat)" by simp
  finally show ?thesis by (simp add: to_double_def Let_def)
qed

text \<open>The value a decimal amount with seven fractional digits stands for.\<close>

lemma stroops_exact:
  assumes "0 \<le> n" and "n < 2 ^ 50"
  shows "roundBig (js_times (to_double (of_int n / 10000000)) (Fin 10000000)) = Some n"
proof (cases "n = 0")
  case False
  define x where "x = (of_int n :: rat) / 10000000"
  have n: "1 \<le> (of_int n :: rat)" "(of_int n :: rat) < 2 ^ 50"
    using assms False by (simp, metis of_int_less_iff of_int_numeral of_int_power)
  have tiny: "(2::rat) powi (- 1022) \<le> 2 powi (- 30)" by (intro power_int_increasing) simp_all
  have x: "2 powi (- 30) \<le> x" "x < 2 ^ 50" "0 < x" using n by (simp_all add: x_def)
  have big: "(2::rat) ^ 60 \<le> 2 ^ 1000" by (intro power_increasing) simp_all
  have sixty: "(2::rat) ^ 50 < 2 ^ 60" by simp
  define y where "y = round_double x"
  have y: "to_double x = Fin y" unfolding y_def
  proof (intro to_double_small)
    show "\<bar>x\<bar> < 2 ^ 1000" using x(2,3) big by (metis abs_of_pos less_le_trans less_trans order_refl sixty)
    show "2 powi (- 1022) \<le> \<bar>x\<bar>" using x(1,3) tiny by (metis abs_of_pos order_trans)
  qed
  have yx: "\<bar>y - x\<bar> \<le> x * 2 powi (- 53)" unfolding y_def
    using round_double_error [of x] x tiny by simp
  define z where "z = y * 10000000"
  have zn: "\<bar>z - of_int n\<bar> \<le> of_int n * 2 powi (- 53)"
  proof -
    have "z - of_int n = (y - x) * 10000000" by (simp add: z_def x_def field_simps)
    then have "\<bar>z - of_int n\<bar> = \<bar>y - x\<bar> * 10000000" by (simp only: abs_mult abs_numeral)
    also have "\<dots> \<le> x * 2 powi (- 53) * 10000000" using yx by (intro mult_right_mono) simp_all
    finally show ?thesis by (simp add: x_def)
  qed
  have z1: "\<bar>z - of_int n\<bar> < 1 / 8" using zn n by simp
  then have z: "2 powi (- 1022) \<le> \<bar>z\<bar>" "\<bar>z\<bar> < 2 ^ 1000" "\<bar>z\<bar> < 2 ^ 51"
    using n tiny big by (simp_all, linarith+)
  have "\<bar>round_double z - z\<bar> \<le> \<bar>z\<bar> * 2 powi (- 53)" by (rule round_double_error [OF z(1)])
  also have "\<dots> < 2 ^ 51 * 2 powi (- 53)" using z(3) by (intro mult_strict_right_mono) simp_all
  also have "\<dots> = 1 / 4" by simp
  finally have "\<bar>round_double z - of_int n\<bar> < 1 / 2" using z1 by linarith
  then have "of_int n \<le> round_double z + 1 / 2" "round_double z + 1 / 2 < of_int n + 1" by linarith+
  then have "\<lfloor>round_double z + 1 / 2\<rfloor> = n" by (simp only: floor_eq_iff)
  moreover have "js_times (Fin y) (Fin 10000000) = Fin (round_double z)"
    using to_double_small [OF z(2,1)] by (simp add: z_def)
  ultimately show ?thesis by (simp add: roundBig_def y flip: x_def)
qed (simp add: roundBig_def floor_eq_iff)

text \<open>
  The SDK prints an amount of a parsed transaction with exactly seven fractional digits
  (\<open>toFixed(7)\<close>), so the code reads back the stroops the transaction moves.
\<close>

definition sdkAmount :: "int \<Rightarrow> string" where
  "sdkAmount n = pad 1 (n div 10000000) @ ''.'' @ pad 7 (n mod 10000000)"

lemma pad_digits: "c \<in> set (pad n i) \<Longrightarrow> is_digit c"
  by (auto simp: pad_def padStart_def is_digit_def code_def dest: show_nat_digits)

lemma nat_of_digits_append: "nat_of_digits (s @ t) = nat_of_digits s * 10 ^ length t + nat_of_digits t"
  by (simp add: nat_of_digits_def rvalue_append)

lemma parseFloat_sdkAmount:
  assumes "0 \<le> n"
  shows "parseFloat (sdkAmount n) = to_double (of_int n / 10000000)"
proof -
  let ?w = "pad 1 (n div 10000000)" and ?f = "pad 7 (n mod 10000000)"
  have len: "length ?f = 7" using length_pad [of "n mod 10000000" 6] by simp
  obtain c cs where w: "?w = c # cs" using length_pad_ge [of 1 "n div 10000000"] by (cases ?w) auto
  have c: "is_digit c" using pad_digits [of c 1 "n div 10000000"] w by simp
  then have c': "\<not> is_space c" "c \<noteq> CHR ''-''" "c \<noteq> CHR ''+''" "c \<noteq> CHR ''I''"
    by (auto simp: is_digit_def code_def is_space_def)
  have dot: "\<not> is_digit (CHR ''.'')" by (simp add: is_digit_def code_def)
  have split: "takeWhile is_digit (?w @ CHR ''.'' # ?f) = ?w" "dropWhile is_digit (?w @ CHR ''.'' # ?f) = CHR ''.'' # ?f"
    using pad_digits dot by (auto simp: takeWhile_append dropWhile_append) 
  have f: "takeWhile is_digit ?f = ?f" "dropWhile is_digit ?f = []"
    using pad_digits by (auto simp: takeWhile_eq_all_conv)
  have "int (nat_of_digits (?w @ ?f)) = n div 10000000 * 10000000 + n mod 10000000"
    using assms by (simp add: nat_of_digits_append nat_of_digits_pad len pos_imp_zdiv_nonneg_iff)
  then have v: "int (nat_of_digits (?w @ ?f)) = n" by simp
  then have r: "rat_of_nat (nat_of_digits (?w @ ?f)) = of_int n" by (metis of_int_of_nat_eq)
  have seventh: "(10::rat) powi (- 7) = 1 / 10000000" by (simp add: power_int_def power_one_over)
  have "?w \<noteq> []" using w by simp
  then have "parseDecimal (?w @ CHR ''.'' # ?f) = Some (of_int n / 10000000)"
    unfolding parseDecimal_def Let_def split list.case f if_True r len by (simp add: f r len parseExponent_def seventh del: One_nat_def)
  then show ?thesis using w c' by (simp add: parseFloat_def sdkAmount_def parseUnsigned_def)
qed

lemma stroopsOf_sdkAmount:
  assumes "0 \<le> n" and "n < 2 ^ 50"
  shows "stroopsOf (sdkAmount n) = Some n"
  using stroops_exact [OF assms] assms by (simp add: stroopsOf_def parseFloat_sdkAmount)

end
