(* ===== verification/AntiDrain.thy ===== *)
theory AntiDrain
  imports JsNumber
begin

text \<open>
  The anti-drain validator (\<open>apps/sponsor/src/lib/anti-drain.ts\<close>): what the sponsor checks of a
  client's transaction before it signs or fee-bumps it.  Parsing an envelope, the key format and
  asset equality are the Stellar SDK's: an \<open>'a stellar\<close> record of arguments.  A parsed operation
  is a record of the fields the code reads, every one of them optional as the code declares
  them, and its type is the SDK's type name, so an operation the validator has never heard of
  is an ordinary value.  A verdict is \<open>None\<close> for \<open>{ok: true}\<close> and the refusal otherwise, the
  checks listed in the code's order.
\<close>

subsection \<open>Transactions and the SDK\<close>

record claimant =
  cDestination :: "string option"
  cPredicate :: "string option"

record 'a operation =
  opType :: string
  opOwnSource :: "string option"
  opDestination :: "string option"
  opStartingBalance :: "string option"
  opSponsoredId :: "string option"
  opLine :: "'a option"
  opLimit :: "string option"
  opBalanceId :: "string option"
  opAsset :: "'a option"
  opAmount :: "string option"
  opClaimants :: "claimant list option"

record 'a transaction =
  txSource :: string
  operations :: "'a operation list"

text \<open>\<open>StrKey.isValidEd25519PublicKey\<close>, whether a value has an \<open>equals\<close> method, and that method (false
  where it throws: the request is refused either way).\<close>

record 'a stellar =
  validKey :: "string \<Rightarrow> bool"
  hasEquals :: "'a \<Rightarrow> bool"
  assetEq :: "'a \<Rightarrow> 'a \<Rightarrow> bool"

subsection \<open>Policies and refusals\<close>

record 'a inner_policy =
  expectedSource :: string
  sponsor :: string
  sponsorSigner :: "string option"
  expectedAsset :: "'a option"
  expectedBalanceId :: "string option"
  allowUncheckedAsset :: bool
  allowUncheckedBalanceId :: bool
  allowedPaymentDestinations :: "string list option"
  maxStartingBalance :: "string option"
  maxOps :: "nat option"
  allowedOpTypes :: "string list option"
  expectedClaimantCount :: "nat option"
  expectedOpSequence :: "string list option"

datatype drain_reason =
    NoOps | TooManyOps nat nat | UnexpectedSource string | NotPlain string string
  | SignerRole string | SignerTxSource | SignerOpSource string
  | WrongSequence "string list" "string list"
  | DisallowedType string | SponsorSourced string | MustBeSponsor string string | MustBeRecipient string string
  | CreateDestination "string option" | CreateBalance "string option" | WrongSponsoredId "string option"
  | TrustAsset | TrustUnpinned | ClaimId "string option" | ClaimUnpinned
  | CbAsset | CbUnpinned | CbNoCount | CbCount nat nat | CbNoUnconditional | CbNoReclaim
  | PaymentDestination "string option"

definition ALLOWED_INNER_OP_TYPES :: "string list" where
  "ALLOWED_INNER_OP_TYPES = [''beginSponsoringFutureReserves'', ''createAccount'', ''changeTrust'',
     ''endSponsoringFutureReserves'', ''claimClaimableBalance'', ''payment'']"

definition SPONSOR_SOURCEABLE_OPS :: "string list" where
  "SPONSOR_SOURCEABLE_OPS = [''beginSponsoringFutureReserves'', ''createAccount'']"

definition ALLOWED_SEND_OP_TYPES :: "string list" where
  "ALLOWED_SEND_OP_TYPES = [''beginSponsoringFutureReserves'', ''createClaimableBalance'', ''endSponsoringFutureReserves'']"

subsection \<open>Checks in order\<close>

fun firstSome :: "'r option list \<Rightarrow> 'r option" where
  "firstSome [] = None"
| "firstSome (Some r # rs) = Some r"
| "firstSome (None # rs) = firstSome rs"

definition refuse :: "bool \<Rightarrow> 'r \<Rightarrow> 'r option" where
  "refuse c r = (if c then Some r else None)"

text \<open>A JavaScript string field that is present and not empty.\<close>

definition truthy :: "string option \<Rightarrow> bool" where
  "truthy s \<longleftrightarrow> s \<noteq> None \<and> s \<noteq> Some []"

definition sourceOf :: "'a transaction \<Rightarrow> 'a operation \<Rightarrow> string" where
  "sourceOf tx op = (case opOwnSource op of Some s \<Rightarrow> s | None \<Rightarrow> txSource tx)"

definition assertPlainAccount :: "'a stellar \<Rightarrow> string \<Rightarrow> string \<Rightarrow> drain_reason option" where
  "assertPlainAccount sdk label v = refuse (\<not> validKey sdk v) (NotPlain label (take 12 v))"

text \<open>The sponsor's separate signing key may stand in no role and source nothing.\<close>

definition signerRefusal :: "'a transaction \<Rightarrow> string option \<Rightarrow> string \<Rightarrow> (string \<times> string) list \<Rightarrow> drain_reason option" where
  "signerRefusal tx signer spons roles = (case signer of
       None \<Rightarrow> None
     | Some key \<Rightarrow> if key = [] \<or> key = spons then None
         else firstSome (map (\<lambda>(label, v). refuse (v = key) (SignerRole label)) roles @
           [refuse (txSource tx = key) SignerTxSource] @
           map (\<lambda>op. refuse (sourceOf tx op = key) (SignerOpSource (opType op))) (operations tx)))"

text \<open>\<open>line.equals\<close> exists and the expected asset equals it.\<close>

definition sameAsset :: "'a stellar \<Rightarrow> 'a \<Rightarrow> 'a option \<Rightarrow> bool" where
  "sameAsset sdk expected a = (case a of Some x \<Rightarrow> hasEquals sdk x \<and> assetEq sdk expected x | None \<Rightarrow> False)"

definition orZero :: "string option \<Rightarrow> string" where
  "orZero s = (case s of Some v \<Rightarrow> v | None \<Rightarrow> ''0'')"

definition assetChecks :: "'a stellar \<Rightarrow> 'a inner_policy \<Rightarrow> 'a option \<Rightarrow> drain_reason \<Rightarrow> drain_reason \<Rightarrow> drain_reason option" where
  "assetChecks sdk p a wrong unpinned = (case expectedAsset p of
       Some e \<Rightarrow> refuse (\<not> sameAsset sdk e a) wrong
     | None \<Rightarrow> refuse (\<not> allowUncheckedAsset p) unpinned)"

definition claimantsOf :: "'a operation \<Rightarrow> claimant list" where
  "claimantsOf op = (case opClaimants op of Some cs \<Rightarrow> cs | None \<Rightarrow> [])"

definition unconditional :: "claimant \<Rightarrow> bool" where
  "unconditional c \<longleftrightarrow> cPredicate c = Some ''claimPredicateUnconditional''"

text \<open>The \<open>switch\<close> on the operation's type.\<close>

definition checkParams :: "'a stellar \<Rightarrow> 'a inner_policy \<Rightarrow> 'a operation \<Rightarrow> drain_reason option" where
  "checkParams sdk p op =
    (if opType op = ''createAccount'' then firstSome
       [refuse (opDestination op \<noteq> Some (expectedSource p)) (CreateDestination (opDestination op)),
        refuse (js_less (parseFloat (orZero (maxStartingBalance p))) (parseFloat (orZero (opStartingBalance op))))
          (CreateBalance (opStartingBalance op))]
     else if opType op = ''beginSponsoringFutureReserves'' then
       refuse (opSponsoredId op \<noteq> Some (expectedSource p)) (WrongSponsoredId (opSponsoredId op))
     else if opType op = ''changeTrust'' then assetChecks sdk p (opLine op) TrustAsset TrustUnpinned
     else if opType op = ''claimClaimableBalance'' then
       (if truthy (expectedBalanceId p) then refuse (opBalanceId op \<noteq> expectedBalanceId p) (ClaimId (opBalanceId op))
        else refuse (\<not> allowUncheckedBalanceId p) ClaimUnpinned)
     else if opType op = ''createClaimableBalance'' then firstSome
       [assetChecks sdk p (opAsset op) CbAsset CbUnpinned,
        (case expectedClaimantCount p of None \<Rightarrow> Some CbNoCount
         | Some n \<Rightarrow> refuse (length (claimantsOf op) \<noteq> n) (CbCount (length (claimantsOf op)) n)),
        refuse (\<not> list_ex unconditional (claimantsOf op)) CbNoUnconditional,
        refuse (\<not> list_ex (\<lambda>c. cDestination c = Some (expectedSource p)) (claimantsOf op)) CbNoReclaim]
     else if opType op = ''payment'' then
       refuse (case allowedPaymentDestinations p of None \<Rightarrow> True
               | Some ds \<Rightarrow> ds = [] \<or> \<not> truthy (opDestination op) \<or> the (opDestination op) \<notin> set ds)
         (PaymentDestination (opDestination op))
     else None)"

definition typesOf :: "'a inner_policy \<Rightarrow> string list" where
  "typesOf p = (case allowedOpTypes p of Some ts \<Rightarrow> ts | None \<Rightarrow> ALLOWED_INNER_OP_TYPES)"

definition checkOp :: "'a stellar \<Rightarrow> 'a inner_policy \<Rightarrow> 'a transaction \<Rightarrow> 'a operation \<Rightarrow> drain_reason option" where
  "checkOp sdk p tx op = (let src = sourceOf tx op in firstSome
     [refuse (opType op \<notin> set (typesOf p)) (DisallowedType (opType op)),
      assertPlainAccount sdk (''op '' @ opType op @ '' source'') src,
      refuse (src = sponsor p \<and> opType op \<notin> set SPONSOR_SOURCEABLE_OPS) (SponsorSourced (opType op)),
      (if opType op \<in> set SPONSOR_SOURCEABLE_OPS then refuse (src \<noteq> sponsor p) (MustBeSponsor (opType op) src)
       else refuse (src \<noteq> expectedSource p) (MustBeRecipient (opType op) src)),
      checkParams sdk p op])"

definition validateInnerTransaction :: "'a stellar \<Rightarrow> 'a transaction \<Rightarrow> 'a inner_policy \<Rightarrow> drain_reason option" where
  "validateInnerTransaction sdk tx p = (let mx = (case maxOps p of Some n \<Rightarrow> n | None \<Rightarrow> 6);
       types = map opType (operations tx) in firstSome
     ([refuse (operations tx = []) NoOps,
       refuse (mx < length (operations tx)) (TooManyOps (length (operations tx)) mx),
       refuse (txSource tx \<noteq> expectedSource p) (UnexpectedSource (txSource tx)),
       assertPlainAccount sdk ''tx source'' (txSource tx),
       assertPlainAccount sdk ''expectedSource'' (expectedSource p),
       assertPlainAccount sdk ''sponsor'' (sponsor p),
       signerRefusal tx (sponsorSigner p) (sponsor p) [(''expectedSource'', expectedSource p)],
       (case expectedOpSequence p of None \<Rightarrow> None | Some e \<Rightarrow> refuse (types \<noteq> e) (WrongSequence types e))] @
      map (checkOp sdk p tx) (operations tx)))"

subsection \<open>Payouts\<close>

text \<open>An address as a payout or sweep refusal may name it.\<close>

definition short :: "string option \<Rightarrow> string" where
  "short a = (case a of None \<Rightarrow> ''undefined'' | Some v \<Rightarrow> if v = [] then [] else take 4 v @ ''...'')"

record 'a payout_policy =
  payoutSender :: string
  payoutSponsor :: string
  payoutSigner :: "string option"
  payoutUsdc :: 'a
  payoutDestination :: string
  payoutAmount :: string

datatype move_reason =
    NotOnePayment nat | DisallowedMove string | UnexpectedMoveSource string | BySigner drain_reason
  | MoveSponsorSourced string | NotSenderSourced string
  | WrongDestination string | WrongAsset | AmountNotPositive | AmountNotDeclared
  | WrongShape nat | IntoItself | WrongStep nat string string | NotThrowawaySourced string string
  | NoBalanceIdSet | WrongBalanceId string | WrongTrustAsset | TrustNotRemoved | WrongMerge string

definition ALLOWED_PAYOUT_OP_TYPES :: "string list" where
  "ALLOWED_PAYOUT_OP_TYPES = [''payment'']"

definition signerMoves :: "'a transaction \<Rightarrow> string option \<Rightarrow> string \<Rightarrow> (string \<times> string) list \<Rightarrow> move_reason option" where
  "signerMoves tx signer spons roles = map_option BySigner (signerRefusal tx signer spons roles)"

definition validatePayoutTransaction :: "'a stellar \<Rightarrow> 'a transaction \<Rightarrow> 'a payout_policy \<Rightarrow> move_reason option" where
  "validatePayoutTransaction sdk tx p = (case operations tx of
      [op] \<Rightarrow> (let src = sourceOf tx op; amount = parseFloat (orZero (opAmount op)) in firstSome
        [refuse (opType op \<notin> set ALLOWED_PAYOUT_OP_TYPES) (DisallowedMove (opType op)),
         refuse (txSource tx \<noteq> payoutSender p) (UnexpectedMoveSource (short (Some (txSource tx)))),
         signerMoves tx (payoutSigner p) (payoutSponsor p) [(''sender'', payoutSender p)],
         refuse (src = payoutSponsor p) (MoveSponsorSourced (opType op)),
         refuse (src \<noteq> payoutSender p) (NotSenderSourced (short (Some src))),
         refuse (\<not> truthy (opDestination op) \<or> opDestination op \<noteq> Some (payoutDestination p))
           (WrongDestination (short (opDestination op))),
         refuse (\<not> sameAsset sdk (payoutUsdc p) (opAsset op)) WrongAsset,
         refuse (\<not> isFinite amount \<or> \<not> js_less (Fin 0) amount) AmountNotPositive,
         refuse (\<not> js_eq amount (parseFloat (payoutAmount p))) AmountNotDeclared])
    | ops \<Rightarrow> Some (NotOnePayment (length ops)))"

subsection \<open>Sweeps\<close>

record 'a sweep_policy =
  throwaway :: string
  sweepSponsor :: string
  sweepSigner :: "string option"
  home :: string
  sweepUsdc :: 'a
  sweepAmount :: string
  sweepBalanceId :: "string option"

definition SWEEP_TAIL :: "string list" where
  "SWEEP_TAIL = [''payment'', ''changeTrust'', ''accountMerge'']"

definition sweepStep :: "'a transaction \<Rightarrow> 'a sweep_policy \<Rightarrow> nat \<times> 'a operation \<times> string \<Rightarrow> move_reason option" where
  "sweepStep tx p = (\<lambda>(i, op, expected). firstSome
     [refuse (opType op \<noteq> expected) (WrongStep i expected (opType op)),
      refuse (sourceOf tx op = sweepSponsor p) (MoveSponsorSourced (opType op)),
      refuse (sourceOf tx op \<noteq> throwaway p) (NotThrowawaySourced (opType op) (short (Some (sourceOf tx op))))])"

text \<open>The claim in front, when there is one, and the three steps that must follow.\<close>

definition claimChecks :: "'a sweep_policy \<Rightarrow> 'a operation \<Rightarrow> move_reason option" where
  "claimChecks p op = (case sweepBalanceId p of
       None \<Rightarrow> Some NoBalanceIdSet
     | Some b \<Rightarrow> refuse (opBalanceId op \<noteq> Some b) (WrongBalanceId (short (opBalanceId op))))"

definition tailChecks :: "'a stellar \<Rightarrow> 'a sweep_policy \<Rightarrow> 'a operation \<Rightarrow> 'a operation \<Rightarrow> 'a operation \<Rightarrow> move_reason option" where
  "tailChecks sdk p pay trust merge = (let amount = parseFloat (orZero (opAmount pay)) in firstSome
     [refuse (opDestination pay \<noteq> Some (home p)) (WrongDestination (short (opDestination pay))),
      refuse (\<not> sameAsset sdk (sweepUsdc p) (opAsset pay)) WrongAsset,
      refuse (\<not> js_less (Fin 0) amount) AmountNotPositive,
      refuse (\<not> js_eq amount (parseFloat (sweepAmount p))) AmountNotDeclared,
      refuse (\<not> sameAsset sdk (sweepUsdc p) (opLine trust)) WrongTrustAsset,
      refuse (\<not> js_eq (parseFloat (case opLimit trust of Some l \<Rightarrow> l | None \<Rightarrow> ''-1'')) (Fin 0)) TrustNotRemoved,
      refuse (opDestination merge \<noteq> Some (home p)) (WrongMerge (short (opDestination merge)))])"

definition validateSweepTransaction :: "'a stellar \<Rightarrow> 'a transaction \<Rightarrow> 'a sweep_policy \<Rightarrow> move_reason option" where
  "validateSweepTransaction sdk tx p = (let ops = operations tx;
       hasClaim = (length ops = 4 \<and> opType (hd ops) = ''claimClaimableBalance'');
       sequence = (if hasClaim then ''claimClaimableBalance'' # SWEEP_TAIL else SWEEP_TAIL);
       off = (if hasClaim then 1 else 0)
     in if length ops \<noteq> length sequence then Some (WrongShape (length ops)) else firstSome
       ([refuse (txSource tx \<noteq> throwaway p) (UnexpectedMoveSource (short (Some (txSource tx)))),
         signerMoves tx (sweepSigner p) (sweepSponsor p) [(''throwaway'', throwaway p), (''home'', home p)],
         refuse (home p = throwaway p) IntoItself] @
        map (sweepStep tx p) (zip [0..<length ops] (zip ops sequence)) @
        [if hasClaim then claimChecks p (hd ops) else None,
         tailChecks sdk p (ops ! off) (ops ! (off + 1)) (ops ! (off + 2))]))"

subsection \<open>Facts about the checks\<close>

lemma firstSome_None [simp]: "firstSome rs = None \<longleftrightarrow> (\<forall>r\<in>set rs. r = None)"
  by (induction rs rule: firstSome.induct) auto

lemma refuse_None [simp]: "refuse c r = None \<longleftrightarrow> \<not> c"
  by (simp add: refuse_def)

lemma assertPlain_None [simp]: "assertPlainAccount sdk label v = None \<longleftrightarrow> validKey sdk v"
  by (simp add: assertPlainAccount_def)

text \<open>The signing key that has to be kept out: present, not empty, not the sponsor account itself.\<close>

definition otherSigner :: "string option \<Rightarrow> string \<Rightarrow> string option" where
  "otherSigner signer spons = (case signer of
       Some k \<Rightarrow> if k = [] \<or> k = spons then None else Some k | None \<Rightarrow> None)"

definition keptOut :: "'a transaction \<Rightarrow> string list \<Rightarrow> string option \<Rightarrow> bool" where
  "keptOut tx roles key = (case key of None \<Rightarrow> True
     | Some k \<Rightarrow> k \<notin> set roles \<and> txSource tx \<noteq> k \<and> (\<forall>op\<in>set (operations tx). sourceOf tx op \<noteq> k))"

lemma signerRefusal_None [simp]:
  "signerRefusal tx signer spons roles = None \<longleftrightarrow> keptOut tx (map snd roles) (otherSigner signer spons)"
  by (force simp: signerRefusal_def keptOut_def otherSigner_def ball_Un split: option.splits)

lemma signerMoves_None [simp]:
  "signerMoves tx signer spons roles = None \<longleftrightarrow> keptOut tx (map snd roles) (otherSigner signer spons)"
  by (simp add: signerMoves_def)

definition maxOpsOf :: "'a inner_policy \<Rightarrow> nat" where
  "maxOpsOf p = (case maxOps p of Some n \<Rightarrow> n | None \<Rightarrow> 6)"

lemma inner_None:
  "validateInnerTransaction sdk tx p = None \<longleftrightarrow>
     operations tx \<noteq> [] \<and> length (operations tx) \<le> maxOpsOf p \<and> txSource tx = expectedSource p \<and>
     validKey sdk (expectedSource p) \<and> validKey sdk (sponsor p) \<and>
     keptOut tx [expectedSource p] (otherSigner (sponsorSigner p) (sponsor p)) \<and>
     (\<forall>e. expectedOpSequence p = Some e \<longrightarrow> map opType (operations tx) = e) \<and>
     (\<forall>op\<in>set (operations tx). checkOp sdk p tx op = None)"
  by (auto simp: validateInnerTransaction_def maxOpsOf_def Let_def ball_Un not_less split: option.splits)

subsection \<open>What an operation takes out of its source\<close>

text \<open>
  The value an operation moves out of the account that sources it, as Stellar documents its operations.  An operation
  this reading does not know counts as moving something: nothing is assumed harmless.
\<close>

datatype 'a outflow =
    OpensAccount "string option" "string option" | Pays "string option" "'a option" "string option"
  | Escrows "'a option" "string option" | UnknownMove string

definition takesOut :: "'a operation \<Rightarrow> 'a outflow list" where
  "takesOut op =
    (if opType op = ''createAccount'' then [OpensAccount (opDestination op) (opStartingBalance op)]
     else if opType op = ''payment'' then [Pays (opDestination op) (opAsset op) (opAmount op)]
     else if opType op = ''createClaimableBalance'' then [Escrows (opAsset op) (opAmount op)]
     else if opType op \<in> {''beginSponsoringFutureReserves'', ''endSponsoringFutureReserves'', ''changeTrust'',
        ''claimClaimableBalance''} then []
     else [UnknownMove (opType op)])"

definition outflows :: "'a transaction \<Rightarrow> string \<Rightarrow> 'a outflow list" where
  "outflows tx account = concat (map takesOut (filter (\<lambda>op. sourceOf tx op = account) (operations tx)))"

text \<open>C15: an inner transaction the validator lets through, under any policy whatever, takes nothing out of
  the sponsor but starting balances of the one expected account, none above the policy's maximum (zero
  unless it says otherwise); and the sponsor's separate signing key sources nothing in it at all.\<close>

theorem accepted_inner_drains_nothing:
  assumes "validateInnerTransaction sdk tx p = None"
  shows "(\<forall>m\<in>set (outflows tx (sponsor p)). \<exists>b. m = OpensAccount (Some (expectedSource p)) b \<and>
            \<not> js_less (parseFloat (orZero (maxStartingBalance p))) (parseFloat (orZero b)))
       \<and> (\<forall>k. otherSigner (sponsorSigner p) (sponsor p) = Some k \<longrightarrow> outflows tx k = [] \<and> txSource tx \<noteq> k)"
proof (intro conjI ballI allI impI)
  have ops: "checkOp sdk p tx op = None" if "op \<in> set (operations tx)" for op
    using assms that by (simp add: inner_None)
  fix m
  assume "m \<in> set (outflows tx (sponsor p))"
  then obtain op where op: "op \<in> set (operations tx)" "sourceOf tx op = sponsor p" "m \<in> set (takesOut op)"
    by (auto simp: outflows_def)
  then have "opType op \<in> set SPONSOR_SOURCEABLE_OPS" "checkParams sdk p op = None"
    using ops [OF op(1)] by (auto simp: checkOp_def Let_def split: if_splits)
  then show "\<exists>b. m = OpensAccount (Some (expectedSource p)) b \<and>
      \<not> js_less (parseFloat (orZero (maxStartingBalance p))) (parseFloat (orZero b))"
    using op(3) by (auto simp: SPONSOR_SOURCEABLE_OPS_def takesOut_def checkParams_def)
next
  fix k
  assume "otherSigner (sponsorSigner p) (sponsor p) = Some k"
  then have "\<forall>op\<in>set (operations tx). sourceOf tx op \<noteq> k" "txSource tx \<noteq> k"
    using assms by (auto simp: inner_None keptOut_def)
  then show "outflows tx k = []" and "txSource tx \<noteq> k" by (auto simp: outflows_def)
qed

text \<open>The onboarding sandwich, as a client could hand it in.\<close>

definition plain_sdk :: "string stellar" where
  "plain_sdk = \<lparr>validKey = (\<lambda>k. take 1 k = ''G''), hasEquals = (\<lambda>_. True), assetEq = (=)\<rparr>"

definition blank :: "string \<Rightarrow> string \<Rightarrow> 'a operation" where
  "blank type source = \<lparr>opType = type, opOwnSource = Some source, opDestination = None, opStartingBalance = None,
     opSponsoredId = None, opLine = None, opLimit = None, opBalanceId = None, opAsset = None, opAmount = None, opClaimants = None\<rparr>"

definition sandwich :: "string transaction" where
  "sandwich = \<lparr>txSource = ''GR'', operations =
     [(blank ''beginSponsoringFutureReserves'' ''GS'')\<lparr>opSponsoredId := Some ''GR''\<rparr>,
      (blank ''createAccount'' ''GS'')\<lparr>opDestination := Some ''GR'', opStartingBalance := Some ''0''\<rparr>,
      (blank ''changeTrust'' ''GR'')\<lparr>opLine := Some ''USDC''\<rparr>,
      blank ''endSponsoringFutureReserves'' ''GR'']\<rparr>"

definition onboarding_policy :: "string inner_policy" where
  "onboarding_policy = \<lparr>expectedSource = ''GR'', sponsor = ''GS'', sponsorSigner = Some ''GK'', expectedAsset = Some ''USDC'',
     expectedBalanceId = None, allowUncheckedAsset = False, allowUncheckedBalanceId = False,
     allowedPaymentDestinations = None, maxStartingBalance = None, maxOps = None, allowedOpTypes = None,
     expectedClaimantCount = None, expectedOpSequence = None\<rparr>"

theorem accepted_inner_drains_nothing_witness:
  "set (outflows sandwich ''GS'') = {OpensAccount (Some ''GR'') (Some ''0'')} \<and> outflows sandwich ''GK'' = []"
proof -
  have zero: "\<not> js_less x x" for x by (cases "(x, x)" rule: js_less.cases) auto
  have ok: "validateInnerTransaction plain_sdk sandwich onboarding_policy = None"
    by (simp add: inner_None maxOpsOf_def onboarding_policy_def sandwich_def blank_def plain_sdk_def keptOut_def otherSigner_def
        sourceOf_def checkOp_def typesOf_def ALLOWED_INNER_OP_TYPES_def SPONSOR_SOURCEABLE_OPS_def checkParams_def
        assetChecks_def sameAsset_def orZero_def zero Let_def)
  have "otherSigner (sponsorSigner onboarding_policy) (sponsor onboarding_policy) = Some ''GK''"
    by (simp add: onboarding_policy_def otherSigner_def)
  with accepted_inner_drains_nothing [OF ok] have "outflows sandwich ''GK'' = []" by blast
  moreover have "outflows sandwich ''GS'' = [OpensAccount (Some ''GR'') (Some ''0'')]"
    by (simp add: outflows_def sandwich_def blank_def sourceOf_def takesOut_def)
  ultimately show ?thesis by simp
qed

subsection \<open>The two shapes of money leaving\<close>

lemma payout_shape:
  "validatePayoutTransaction sdk tx p = None \<longleftrightarrow>
     (\<exists>op v. operations tx = [op] \<and> opType op = ''payment'' \<and>
        txSource tx = payoutSender p \<and> sourceOf tx op = payoutSender p \<and> payoutSender p \<noteq> payoutSponsor p \<and>
        otherSigner (payoutSigner p) (payoutSponsor p) \<noteq> Some (payoutSender p) \<and>
        opDestination op = Some (payoutDestination p) \<and> payoutDestination p \<noteq> [] \<and>
        sameAsset sdk (payoutUsdc p) (opAsset op) \<and>
        0 < v \<and> parseFloat (orZero (opAmount op)) = Fin v \<and> parseFloat (payoutAmount p) = Fin v)"
proof (cases "operations tx")
  case (Cons op rest)
  show ?thesis
  proof (cases rest)
    case Nil
    have amount: "isFinite a \<and> js_less (Fin 0) a \<and> js_eq a b \<longleftrightarrow> (\<exists>v. 0 < v \<and> a = Fin v \<and> b = Fin v)" for a b
      by (cases a) (auto simp: isFinite_def js_eq_def)
    show ?thesis
      using Cons Nil amount [of "parseFloat (orZero (opAmount op))" "parseFloat (payoutAmount p)"]
      by (auto simp: validatePayoutTransaction_def ALLOWED_PAYOUT_OP_TYPES_def keptOut_def truthy_def Let_def
          split: option.splits)
  qed (simp add: Cons validatePayoutTransaction_def)
qed (simp add: validatePayoutTransaction_def)

text \<open>A payout is let through exactly when it is one payment, sourced by the declared sender and by no key of the
  sponsor's, of the configured asset, to the declared destination, for the declared positive amount.\<close>

theorem payout_accepts_iff:
  "validatePayoutTransaction sdk tx p = None \<longleftrightarrow>
     (\<exists>op v. operations tx = [op] \<and> opType op = ''payment'' \<and>
        txSource tx = payoutSender p \<and> sourceOf tx op = payoutSender p \<and> payoutSender p \<noteq> payoutSponsor p \<and>
        otherSigner (payoutSigner p) (payoutSponsor p) \<noteq> Some (payoutSender p) \<and>
        opDestination op = Some (payoutDestination p) \<and> payoutDestination p \<noteq> [] \<and>
        sameAsset sdk (payoutUsdc p) (opAsset op) \<and>
        0 < v \<and> parseFloat (orZero (opAmount op)) = Fin v \<and> parseFloat (payoutAmount p) = Fin v)"
  by (rule payout_shape)

text \<open>The three steps every sweep ends with, as they have to be.\<close>

definition empties_into_home :: "'a stellar \<Rightarrow> 'a sweep_policy \<Rightarrow> 'a operation \<Rightarrow> 'a operation \<Rightarrow> 'a operation \<Rightarrow> bool" where
  "empties_into_home sdk p pay trust merge \<longleftrightarrow>
     opType pay = ''payment'' \<and> opDestination pay = Some (home p) \<and> sameAsset sdk (sweepUsdc p) (opAsset pay) \<and>
     js_less (Fin 0) (parseFloat (orZero (opAmount pay))) \<and>
     js_eq (parseFloat (orZero (opAmount pay))) (parseFloat (sweepAmount p)) \<and>
     opType trust = ''changeTrust'' \<and> sameAsset sdk (sweepUsdc p) (opLine trust) \<and>
     (\<exists>l. opLimit trust = Some l \<and> js_eq (parseFloat l) (Fin 0)) \<and>
     opType merge = ''accountMerge'' \<and> opDestination merge = Some (home p)"

lemma minus_one_not_zero: "\<not> js_eq (parseFloat ''-1'') (Fin 0)"
  by (simp add: parseFloat_def parseUnsigned_def parseDecimal_def is_digit_def is_space_def code_def
      nat_of_digits_def digit_val_def parseExponent_def js_eq_def to_double_def Let_def
      round_double_int [of "- 1", simplified])

lemma tailChecks_None:
  "opType pay = ''payment'' \<Longrightarrow> opType trust = ''changeTrust'' \<Longrightarrow> opType merge = ''accountMerge'' \<Longrightarrow>
   tailChecks sdk p pay trust merge = None \<longleftrightarrow> empties_into_home sdk p pay trust merge"
  by (auto simp: tailChecks_def empties_into_home_def minus_one_not_zero Let_def split: option.splits)

text \<open>The claim that may stand in front of them.\<close>

definition may_lead :: "'a sweep_policy \<Rightarrow> 'a operation list \<Rightarrow> bool" where
  "may_lead p front \<longleftrightarrow> front = [] \<or>
     (\<exists>c b. front = [c] \<and> opType c = ''claimClaimableBalance'' \<and> sweepBalanceId p = Some b \<and> opBalanceId c = Some b)"

lemma claimChecks_None: "claimChecks p c = None \<longleftrightarrow> (\<exists>b. sweepBalanceId p = Some b \<and> opBalanceId c = Some b)"
  by (auto simp: claimChecks_def split: option.splits)

lemma list_of_three: "length xs = 3 \<longleftrightarrow> (\<exists>a b c. xs = [a, b, c])"
  by (auto simp: length_Suc_conv numeral_3_eq_3)

lemma list_of_four: "length xs = 4 \<longleftrightarrow> (\<exists>a b c d. xs = [a, b, c, d])"
  by (auto simp: length_Suc_conv numeral_eq_Suc)

lemma sweep_three:
  assumes "operations tx = [pay, trust, merge]"
  shows "validateSweepTransaction sdk tx p = None \<longleftrightarrow>
     txSource tx = throwaway p \<and> home p \<noteq> throwaway p \<and>
     keptOut tx [throwaway p, home p] (otherSigner (sweepSigner p) (sweepSponsor p)) \<and>
     throwaway p \<noteq> sweepSponsor p \<and> (\<forall>op\<in>{pay, trust, merge}. sourceOf tx op = throwaway p) \<and>
     empties_into_home sdk p pay trust merge"
  using tailChecks_None [of pay trust merge sdk p]
  by (auto simp: validateSweepTransaction_def assms SWEEP_TAIL_def sweepStep_def upt_rec empties_into_home_def)

lemma sweep_four:
  assumes "operations tx = [claim, pay, trust, merge]"
  shows "validateSweepTransaction sdk tx p = None \<longleftrightarrow>
     txSource tx = throwaway p \<and> home p \<noteq> throwaway p \<and>
     keptOut tx [throwaway p, home p] (otherSigner (sweepSigner p) (sweepSponsor p)) \<and>
     throwaway p \<noteq> sweepSponsor p \<and> (\<forall>op\<in>{claim, pay, trust, merge}. sourceOf tx op = throwaway p) \<and>
     may_lead p [claim] \<and> empties_into_home sdk p pay trust merge"
proof (cases "opType claim = ''claimClaimableBalance''")
  case True
  then show ?thesis
    using tailChecks_None [of pay trust merge sdk p] claimChecks_None [of p claim]
    by (auto simp: validateSweepTransaction_def assms SWEEP_TAIL_def sweepStep_def upt_rec empties_into_home_def
        may_lead_def Let_def)
qed (simp add: validateSweepTransaction_def assms SWEEP_TAIL_def may_lead_def Let_def)

lemma sweep_shape:
  "validateSweepTransaction sdk tx p = None \<longleftrightarrow>
     (\<exists>front pay trust merge. operations tx = front @ [pay, trust, merge] \<and> may_lead p front \<and>
        empties_into_home sdk p pay trust merge \<and>
        txSource tx = throwaway p \<and> (\<forall>op\<in>set (operations tx). sourceOf tx op = throwaway p) \<and>
        home p \<noteq> throwaway p \<and> throwaway p \<noteq> sweepSponsor p \<and>
        keptOut tx [throwaway p, home p] (otherSigner (sweepSigner p) (sweepSponsor p)))"
    (is "?ok \<longleftrightarrow> ?shape")
proof
  assume ok: ?ok
  have "length (operations tx) = 3 \<or> length (operations tx) = 4"
    using ok by (auto simp: validateSweepTransaction_def SWEEP_TAIL_def Let_def split: if_splits)
  then consider (three) a b c where "operations tx = [a, b, c]" | (four) z a b c where "operations tx = [z, a, b, c]"
    by (auto simp: list_of_three list_of_four)
  then show ?shape
  proof cases
    case three
    then show ?thesis using ok by (intro exI [of _ "[]"]) (auto simp: sweep_three may_lead_def)
  next
    case four
    then show ?thesis using ok sweep_four [OF four] by (intro exI [of _ "[z]"]) auto
  qed
next
  assume ?shape
  then obtain front pay trust merge where t: "operations tx = front @ [pay, trust, merge]" "may_lead p front"
    and r: "empties_into_home sdk p pay trust merge" "txSource tx = throwaway p"
      "\<forall>op\<in>set (operations tx). sourceOf tx op = throwaway p" "home p \<noteq> throwaway p" "throwaway p \<noteq> sweepSponsor p"
      "keptOut tx [throwaway p, home p] (otherSigner (sweepSigner p) (sweepSponsor p))" by blast
  from t(2) consider "front = []" | c where "front = [c]" by (auto simp: may_lead_def)
  then show ?ok
  proof cases
    case 1
    then show ?thesis using t r by (simp add: sweep_three)
  next
    case 2
    then show ?thesis using t r by (simp add: sweep_four)
  qed
qed

text \<open>A sweep is let through exactly when, after at most one claim of the declared balance, it pays the declared
  positive amount of the configured asset into the home account, drops that trustline and merges into
  the same home account, every step sourced by the one throwaway account and by no key of the sponsor's.\<close>

theorem sweep_accepts_iff:
  "validateSweepTransaction sdk tx p = None \<longleftrightarrow>
     (\<exists>front pay trust merge. operations tx = front @ [pay, trust, merge] \<and> may_lead p front \<and>
        empties_into_home sdk p pay trust merge \<and>
        txSource tx = throwaway p \<and> list_all (\<lambda>op. sourceOf tx op = throwaway p) (operations tx) \<and>
        home p \<noteq> throwaway p \<and> throwaway p \<noteq> sweepSponsor p \<and>
        keptOut tx [throwaway p, home p] (otherSigner (sweepSigner p) (sweepSponsor p)))"
  using sweep_shape by (simp add: list_all_iff)

end
