(* ===== verification/HorizonSubmit.thy ===== *)
theory HorizonSubmit
  imports FeeBudget
begin

text \<open>
  Submitting through Horizon (\<open>apps/sponsor/src/lib/stellar.ts\<close>): what an answer decides, and how it
  settles the fee charge of the transaction.  Horizon and the XDR reader of the SDK are arguments:
  the answer one submission gets, what the two ledger lookups would find, and what a result
  envelope decodes to (\<open>None\<close> where the reader throws).
\<close>

subsection \<open>Result envelopes\<close>

text \<open>An operation's result as the id of the Claimable Balance it created, when it did.\<close>

record result_body =
  resultCode :: string
  opResults :: "string option list option"

record tx_result =
  feeOfResult :: int
  topBody :: result_body
  innerBody :: "result_body option"

type_synonym xdr_reader = "string \<Rightarrow> tx_result option"

definition feeBumpInner :: string where
  "feeBumpInner = ''txFeeBumpInner''"

definition createdBalanceIdFromResult :: "xdr_reader \<Rightarrow> string \<Rightarrow> int \<Rightarrow> string option" where
  "createdBalanceIdFromResult rd x opIndex = (if opIndex < 0 then None
     else case rd x of None \<Rightarrow> None
     | Some r \<Rightarrow> (case (if take 14 (resultCode (topBody r)) = feeBumpInner then innerBody r else Some (topBody r)) of
           None \<Rightarrow> None
         | Some b \<Rightarrow> (case opResults b of None \<Rightarrow> None
             | Some ops \<Rightarrow> if nat opIndex < length ops then ops ! nat opIndex else None)))"

definition feeChargedOf :: "xdr_reader \<Rightarrow> string option \<Rightarrow> int option" where
  "feeChargedOf rd x = (case x of None \<Rightarrow> None | Some s \<Rightarrow> if s = [] then None else map_option feeOfResult (rd s))"

definition VALIDATION_ONLY_CODES :: "string list" where
  "VALIDATION_ONLY_CODES = [''txTooEarly'', ''txTooLate'', ''txMissingOperation'', ''txBadSeq'', ''txBadAuth'',
     ''txInsufficientBalance'', ''txNoAccount'', ''txInsufficientFee'', ''txBadAuthExtra'', ''txNotSupported'',
     ''txBadMinSeqAgeOrGap'', ''txMalformed'', ''txSorobanInvalid'']"

definition refusedWhileValidating :: "xdr_reader \<Rightarrow> string option \<Rightarrow> bool" where
  "refusedWhileValidating rd x = (case x of None \<Rightarrow> False | Some s \<Rightarrow> s \<noteq> [] \<and>
     (case rd s of None \<Rightarrow> False
      | Some r \<Rightarrow> if resultCode (topBody r) = ''txFeeBumpInnerFailed''
          then (case innerBody r of None \<Rightarrow> False | Some b \<Rightarrow> resultCode b \<in> set VALIDATION_ONLY_CODES)
          else resultCode (topBody r) \<in> set VALIDATION_ONLY_CODES))"

subsection \<open>Horizon's answers\<close>

text \<open>
  What a failed submission throws, as far as the code looks: its name, the HTTP status when there is a
  response, whether \<open>extras.result_codes\<close> is there, \<open>extras.result_xdr\<close>, and the text it is reported
  with (\<open>extrasDetail\<close> or the message).
\<close>

record thrown =
  errName :: string
  errStatus :: "int option"
  errCodes :: bool
  errXdr :: "string option"
  errDetail :: string

text \<open>A landed answer carries the hash, the ledger, the result and Horizon's own fee field.\<close>

datatype horizon_answer = Accepted string int "string option" "fee_bid option" | Threw thrown

datatype ledger_read = Known "string option" | Missing | Unreadable

record horizon =
  answer :: horizon_answer
  txHash :: "string option"
  lookup :: "nat \<Rightarrow> ledger_read"

definition outcomeUnknown :: "thrown \<Rightarrow> bool" where
  "outcomeUnknown e = (if errName e = ''AccountRequiresMemoError'' then False
     else if errCodes e then False
     else case errStatus e of None \<Rightarrow> True | Some s \<Rightarrow> s = 408 \<or> 500 \<le> s)"

datatype ledger_fee = LedgerFee int | NeverIncluded | LedgerUnread

text \<open>Two reads at most; only a second 404 reads as never included.\<close>

definition readFee :: "string option \<Rightarrow> ledger_fee" where
  "readFee fee = (case fee of None \<Rightarrow> LedgerUnread
     | Some s \<Rightarrow> (case parse_bigint s of Some n \<Rightarrow> LedgerFee n | None \<Rightarrow> LedgerUnread))"

definition ledgerFeeCharged :: "horizon \<Rightarrow> ledger_fee" where
  "ledgerFeeCharged h = (case txHash h of None \<Rightarrow> LedgerUnread
     | Some x \<Rightarrow> (case lookup h 1 of
           Known fee \<Rightarrow> readFee fee
         | Unreadable \<Rightarrow> LedgerUnread
         | Missing \<Rightarrow> (case lookup h 2 of
               Known fee \<Rightarrow> readFee fee | Unreadable \<Rightarrow> LedgerUnread | Missing \<Rightarrow> NeverIncluded)))"

text \<open>What a decided refusal means for the charge.\<close>

definition bidOfFee :: "int option \<Rightarrow> fee_bid option" where
  "bidOfFee n = map_option BigBid n"

definition settleRefusal :: "'k server \<Rightarrow> xdr_reader \<Rightarrow> horizon \<Rightarrow> thrown \<Rightarrow> fee_charge \<Rightarrow> fee_local \<times> 'k world \<Rightarrow> fee_charge \<times> fee_local \<times> 'k world" where
  "settleRefusal srv rd h e c st =
     (if errXdr e \<noteq> None \<and> errXdr e \<noteq> Some [] then
        (if refusedWhileValidating rd (errXdr e) then notIncluded srv c st
         else case ledgerFeeCharged h of
             NeverIncluded \<Rightarrow> notIncluded srv c st
           | LedgerFee n \<Rightarrow> settled srv (Some (BigBid n)) c st
           | LedgerUnread \<Rightarrow> settled srv (bidOfFee (feeChargedOf rd (errXdr e))) c st)
      else if errCodes e then settled srv None c st else notIncluded srv c st)"

subsection \<open>Submitting\<close>

text \<open>What \<open>submit\<close> returns, or the two ways it throws.\<close>

datatype submitted =
    Landed string int "string option"
  | Unconfirmed string "string option"
  | SubmitFailed string

definition submit :: "'k server \<Rightarrow> xdr_reader \<Rightarrow> horizon \<Rightarrow> fee_charge \<Rightarrow> fee_local \<times> 'k world \<Rightarrow> submitted \<times> fee_charge \<times> fee_local \<times> 'k world" where
  "submit srv rd h c st = (case answer h of
       Accepted hsh ledger x fee \<Rightarrow> (Landed hsh ledger x,
         settled srv (case feeChargedOf rd x of Some n \<Rightarrow> Some (BigBid n) | None \<Rightarrow> fee) c st)
     | Threw e \<Rightarrow> if outcomeUnknown e then (Unconfirmed (errDetail e) (txHash h), c, st)
         else (SubmitFailed (errDetail e), settleRefusal srv rd h e c st))"

text \<open>The one call on the charge an answer leads to, \<open>None\<close> while nothing is decided.\<close>

definition settlement :: "xdr_reader \<Rightarrow> horizon \<Rightarrow> fee_call option" where
  "settlement rd h = (case answer h of
       Accepted hsh ledger x fee \<Rightarrow> Some (CallSettled (case feeChargedOf rd x of Some n \<Rightarrow> Some (BigBid n) | None \<Rightarrow> fee))
     | Threw e \<Rightarrow> if outcomeUnknown e then None
         else if errXdr e \<noteq> None \<and> errXdr e \<noteq> Some [] then
           (if refusedWhileValidating rd (errXdr e) then Some CallNotIncluded
            else case ledgerFeeCharged h of
                NeverIncluded \<Rightarrow> Some CallNotIncluded
              | LedgerFee n \<Rightarrow> Some (CallSettled (Some (BigBid n)))
              | LedgerUnread \<Rightarrow> Some (CallSettled (bidOfFee (feeChargedOf rd (errXdr e)))))
         else if errCodes e then Some (CallSettled None) else Some CallNotIncluded)"

lemma submit_settles:
  "submit srv rd h c st = (fst (submit srv rd h c st),
     case settlement rd h of None \<Rightarrow> (c, st) | Some call \<Rightarrow> fee_call_do srv call (c, st))"
  by (auto simp: submit_def settlement_def settleRefusal_def split: horizon_answer.splits ledger_fee.splits)

text \<open>What the charge still counts after that call.\<close>

definition stillCounted :: "int \<Rightarrow> fee_call option \<Rightarrow> int" where
  "stillCounted bid call = (case call of
       None \<Rightarrow> bid
     | Some CallNotIncluded \<Rightarrow> 0
     | Some (CallSettled v) \<Rightarrow> (case chargedStroops v of Some n \<Rightarrow> if n \<le> bid then n else bid | None \<Rightarrow> bid))"

text \<open>
  Horizon telling the truth about one transaction: \<open>truth\<close> is the fee the ledger charged, \<open>None\<close> when it was
  never included.  This is Horizon's documented behaviour: a landed answer and a ledger
  record name the fee charged; core gives a validation-only code, and Horizon answers without any result, only
  for a transaction that reached no ledger; a hash is missing a ledger after it was refused only when it
  was never included.
\<close>

definition truthful :: "xdr_reader \<Rightarrow> horizon \<Rightarrow> int option \<Rightarrow> bool" where
  "truthful rd h truth \<longleftrightarrow> (case answer h of
       Accepted hsh ledger x fee \<Rightarrow> (case truth of
            Some f \<Rightarrow> 0 \<le> f \<and> feeChargedOf rd x \<in> {None, Some f} \<and> chargedStroops fee \<in> {None, Some f} | None \<Rightarrow> False)
     | Threw e \<Rightarrow> outcomeUnknown e \<or>
         (case truth of
            Some f \<Rightarrow> 0 \<le> f \<and> \<not> refusedWhileValidating rd (errXdr e) \<and> feeChargedOf rd (errXdr e) \<in> {None, Some f} \<and>
              (errXdr e \<noteq> None \<and> errXdr e \<noteq> Some [] \<or> errCodes e) \<and> ledgerFeeCharged h \<in> {LedgerFee f, LedgerUnread}
          | None \<Rightarrow> (case ledgerFeeCharged h of LedgerFee n \<Rightarrow> False | _ \<Rightarrow> True)))"


text \<open>A transaction that was included and failed for 200 stroops; the first lookup came too early.\<close>

definition failed_body :: tx_result where
  "failed_body = \<lparr>feeOfResult = 200, topBody = \<lparr>resultCode = ''txFailed'', opResults = None\<rparr>, innerBody = None\<rparr>"

definition late_ledger :: horizon where
  "late_ledger = \<lparr>answer = Threw \<lparr>errName = ''BadResponseError'', errStatus = Some 400, errCodes = True, errXdr = Some ''AAAA'', errDetail = []\<rparr>,
     txHash = Some ''h'', lookup = (\<lambda>i. if i = 1 then Missing else Known (Some ''200''))\<rparr>"


end
