(* ===== verification/SponsorRoutes.thy ===== *)
theory SponsorRoutes
  imports AntiDrain HorizonSubmit
begin

text \<open>
  The classic money routes: \<open>feebumpHandler\<close> (lib/feebump.ts), \<open>payoutHandler\<close> (lib/payout.ts),
  \<open>sweepHandler\<close> (lib/sweep.ts) and \<open>sendLinkHandler\<close> (lib/send.ts), each from the parsed envelope to
  Horizon's answer, over the validator, the caps, the fee budget and \<open>submit\<close>.  What happens outside the
  code (the SDK, the signer, Horizon) is the record \<open>outside\<close>; a route returns its answer and the list of
  what it did with the sponsor's key and the network, in order.
\<close>

subsection \<open>The outside and the configuration\<close>

record 'a outside =
  sdk :: "'a stellar"
  reader :: xdr_reader
  horizon_says :: horizon
  parsed :: "'a transaction option"
  bumpFee :: "int \<Rightarrow> 'a transaction \<Rightarrow> int"
  signInner :: "string option"
  signBump :: "string option"
  newestBalance :: "string option"

record 'a sponsor_config =
  sponsorAccountId :: string
  signerKey :: string
  usdcAsset :: 'a
  feeBumpMaxStroops :: string
  maxDayFee :: int
  escrowCaps :: caps_config

text \<open>A signature of the sponsor's on the inner transaction or on the fee-bump around it (with its bid), and the post.\<close>

datatype 'a act = SignsInner "'a transaction" | SignsBump "'a transaction" int | Posts "'a transaction" int

datatype route_error =
    BadEnvelope | DrainRefused drain_reason | MoveRefused move_reason | FeeOverCap int string | BidDiffers int int
  | AmountUnreadable | CapRefused cap_reason | FeeBudgetRefused | BadFee fee_error | SignerThrew string | NotSubmitted string

datatype route_answer = Sent string int "string option" | Failed route_error | MayLand string "string option"

text \<open>An answer that leaves it possible that the transaction is on the ledger.\<close>

definition mayHaveMoved :: "route_answer \<Rightarrow> bool" where
  "mayHaveMoved a = (case a of Failed e \<Rightarrow> False | _ \<Rightarrow> True)"

definition FEEBUMP_PER_OP_STROOPS :: int where
  "FEEBUMP_PER_OP_STROOPS = 1000"

definition EXPECTED_CLAIMANTS :: nat where
  "EXPECTED_CLAIMANTS = 2"

definition totalFee :: "'a transaction \<Rightarrow> int" where
  "totalFee inner = FEEBUMP_PER_OP_STROOPS * (int (length (operations inner)) + 1)"

text \<open>\<open>totalFee > Number.parseInt(config.feeBumpMaxStroops, 10)\<close>, false when that is no number.\<close>

definition overFeeCap :: "'a sponsor_config \<Rightarrow> 'a transaction \<Rightarrow> bool" where
  "overFeeCap cfg inner = (case parseInt (feeBumpMaxStroops cfg) of Some n \<Rightarrow> n < totalFee inner | None \<Rightarrow> False)"

subsection \<open>Charge, sign, submit\<close>

text \<open>What the three fee-bump routes share from the built fee-bump on.\<close>

definition answerOf :: "submitted \<Rightarrow> route_answer" where
  "answerOf s = (case s of
       Landed hsh ledger x \<Rightarrow> Sent hsh ledger None
     | Unconfirmed d hsh \<Rightarrow> MayLand d hsh
     | SubmitFailed d \<Rightarrow> Failed (NotSubmitted d))"

definition bumpAndSubmit :: "'k server \<Rightarrow> 'a outside \<Rightarrow> 'a sponsor_config \<Rightarrow> int \<Rightarrow> 'a transaction \<Rightarrow> fee_local \<times> 'k world \<Rightarrow>
    (route_answer \<times> 'a act list) \<times> fee_local \<times> 'k world" where
  "bumpAndSubmit srv out cfg now inner st = (let fee = bumpFee out FEEBUMP_PER_OP_STROOPS inner in
     if fee \<noteq> totalFee inner then ((Failed (BidDiffers fee (totalFee inner)), []), st)
     else case chargeSponsorFee srv (TextBid (show_int fee)) (maxDayFee cfg) now st of
         (BadBid e, st1) \<Rightarrow> ((Failed (BadFee e), []), st1)
       | (BudgetSpent, st1) \<Rightarrow> ((Failed FeeBudgetRefused, []), st1)
       | (Charged c, st1) \<Rightarrow> (case signCharged srv c (signBump out) st1 of
             (Some e, c1, st2) \<Rightarrow> ((Failed (SignerThrew e), []), st2)
           | (None, c1, st2) \<Rightarrow> (case submit srv (reader out) (horizon_says out) c1 st2 of
                 (s, c2, st3) \<Rightarrow> ((answerOf s, [SignsBump inner fee, Posts inner fee]), st3))))"

subsection \<open>Claim, payout, sweep\<close>

definition claimPolicy :: "'a sponsor_config \<Rightarrow> string \<Rightarrow> string \<Rightarrow> 'a inner_policy" where
  "claimPolicy cfg recipient balanceId = \<lparr>expectedSource = recipient, sponsor = sponsorAccountId cfg,
     sponsorSigner = Some (signerKey cfg), expectedAsset = Some (usdcAsset cfg), expectedBalanceId = Some balanceId,
     allowUncheckedAsset = False, allowUncheckedBalanceId = False, allowedPaymentDestinations = None,
     maxStartingBalance = None, maxOps = Some 1, allowedOpTypes = None, expectedClaimantCount = None,
     expectedOpSequence = Some [''claimClaimableBalance'']\<rparr>"

definition feebumpHandler :: "'k server \<Rightarrow> 'a outside \<Rightarrow> 'a sponsor_config \<Rightarrow> int \<Rightarrow> string \<Rightarrow> string \<Rightarrow> fee_local \<times> 'k world \<Rightarrow>
    (route_answer \<times> 'a act list) \<times> fee_local \<times> 'k world" where
  "feebumpHandler srv out cfg now recipient balanceId st = (case parsed out of
       None \<Rightarrow> ((Failed BadEnvelope, []), st)
     | Some inner \<Rightarrow> (case validateInnerTransaction (sdk out) inner (claimPolicy cfg recipient balanceId) of
           Some r \<Rightarrow> ((Failed (DrainRefused r), []), st)
         | None \<Rightarrow> if overFeeCap cfg inner then ((Failed (FeeOverCap (totalFee inner) (feeBumpMaxStroops cfg)), []), st)
             else bumpAndSubmit srv out cfg now inner st))"

definition payoutPolicy :: "'a sponsor_config \<Rightarrow> string \<Rightarrow> string \<Rightarrow> string \<Rightarrow> 'a payout_policy" where
  "payoutPolicy cfg sender dest amt = \<lparr>payoutSender = sender, payoutSponsor = sponsorAccountId cfg,
     payoutSigner = Some (signerKey cfg), payoutUsdc = usdcAsset cfg, payoutDestination = dest, payoutAmount = amt\<rparr>"

definition payoutHandler :: "'k server \<Rightarrow> 'a outside \<Rightarrow> 'a sponsor_config \<Rightarrow> int \<Rightarrow> string \<Rightarrow> string \<Rightarrow> string \<Rightarrow> fee_local \<times> 'k world \<Rightarrow>
    (route_answer \<times> 'a act list) \<times> fee_local \<times> 'k world" where
  "payoutHandler srv out cfg now sender dest amt st = (case parsed out of
       None \<Rightarrow> ((Failed BadEnvelope, []), st)
     | Some inner \<Rightarrow> (case validatePayoutTransaction (sdk out) inner (payoutPolicy cfg sender dest amt) of
           Some r \<Rightarrow> ((Failed (MoveRefused r), []), st)
         | None \<Rightarrow> if overFeeCap cfg inner then ((Failed (FeeOverCap (totalFee inner) (feeBumpMaxStroops cfg)), []), st)
             else bumpAndSubmit srv out cfg now inner st))"

definition sweepPolicy :: "'a sponsor_config \<Rightarrow> string \<Rightarrow> string \<Rightarrow> string option \<Rightarrow> string \<Rightarrow> 'a sweep_policy" where
  "sweepPolicy cfg away homeKey balanceId amt = \<lparr>throwaway = away, sweepSponsor = sponsorAccountId cfg,
     sweepSigner = Some (signerKey cfg), home = homeKey, sweepUsdc = usdcAsset cfg, sweepAmount = amt, sweepBalanceId = balanceId\<rparr>"

definition sweepHandler :: "'k server \<Rightarrow> 'a outside \<Rightarrow> 'a sponsor_config \<Rightarrow> int \<Rightarrow> string \<Rightarrow> string \<Rightarrow> string option \<Rightarrow> string \<Rightarrow> fee_local \<times> 'k world \<Rightarrow>
    (route_answer \<times> 'a act list) \<times> fee_local \<times> 'k world" where
  "sweepHandler srv out cfg now away homeKey balanceId amt st = (case parsed out of
       None \<Rightarrow> ((Failed BadEnvelope, []), st)
     | Some inner \<Rightarrow> (case validateSweepTransaction (sdk out) inner (sweepPolicy cfg away homeKey balanceId amt) of
           Some r \<Rightarrow> ((Failed (MoveRefused r), []), st)
         | None \<Rightarrow> if overFeeCap cfg inner then ((Failed (FeeOverCap (totalFee inner) (feeBumpMaxStroops cfg)), []), st)
             else bumpAndSubmit srv out cfg now inner st))"

subsection \<open>Send\<close>

definition sendPolicy :: "'a sponsor_config \<Rightarrow> string \<Rightarrow> 'a inner_policy" where
  "sendPolicy cfg sender = \<lparr>expectedSource = sender, sponsor = sponsorAccountId cfg, sponsorSigner = Some (signerKey cfg),
     expectedAsset = Some (usdcAsset cfg), expectedBalanceId = None, allowUncheckedAsset = False,
     allowUncheckedBalanceId = False, allowedPaymentDestinations = None, maxStartingBalance = None, maxOps = Some 3,
     allowedOpTypes = Some ALLOWED_SEND_OP_TYPES, expectedClaimantCount = Some EXPECTED_CLAIMANTS,
     expectedOpSequence = Some [''beginSponsoringFutureReserves'', ''createClaimableBalance'', ''endSponsoringFutureReserves'']\<rparr>"

text \<open>The amount the escrow moves, in stroops, as the code reads it off the envelope.\<close>

definition isCreate :: "'a operation \<Rightarrow> bool" where
  "isCreate op \<longleftrightarrow> opType op = ''createClaimableBalance''"

definition escrowAmount :: "'a transaction \<Rightarrow> int option" where
  "escrowAmount inner = stroopsOf (case find isCreate (operations inner) of None \<Rightarrow> ''0'' | Some op \<Rightarrow> orZero (opAmount op))"

fun indexOf :: "('b \<Rightarrow> bool) \<Rightarrow> 'b list \<Rightarrow> int \<Rightarrow> int" where
  "indexOf P [] i = - 1"
| "indexOf P (x # xs) i = (if P x then i else indexOf P xs (i + 1))"

text \<open>The new balance's id, once the send has landed; without one the answer is undecided, with the hash.\<close>

definition nameBalance :: "'a outside \<Rightarrow> 'a transaction \<Rightarrow> string \<Rightarrow> int \<Rightarrow> string option \<Rightarrow> route_answer" where
  "nameBalance out inner hsh ledger x = (let
       fromResult = (case x of None \<Rightarrow> None | Some r \<Rightarrow> if r = [] then None
          else createdBalanceIdFromResult (reader out) r (indexOf isCreate (operations inner) 0));
       found = (if truthy fromResult then fromResult else newestBalance out)
     in if truthy found then Sent hsh ledger found
        else MayLand ''the send landed but its balance id could not be read'' (Some hsh))"

text \<open>Signing both, building the fee-bump between: the first thing that fails gives the bid back.\<close>

definition signBoth :: "'a outside \<Rightarrow> 'a transaction \<Rightarrow> route_error option \<times> 'a act list" where
  "signBoth out inner = (case signInner out of Some e \<Rightarrow> (Some (SignerThrew e), [])
     | None \<Rightarrow> (let fee = bumpFee out FEEBUMP_PER_OP_STROOPS inner in
         if fee \<noteq> totalFee inner then (Some (BidDiffers fee (totalFee inner)), [SignsInner inner])
         else case signBump out of Some e \<Rightarrow> (Some (SignerThrew e), [SignsInner inner])
           | None \<Rightarrow> (None, [SignsInner inner, SignsBump inner fee])))"

definition onWorld :: "('k world \<Rightarrow> 'k world) \<Rightarrow> fee_local \<times> 'k world \<Rightarrow> fee_local \<times> 'k world" where
  "onWorld f st = (fst st, f (snd st))"

definition sendReserved :: "'k server \<Rightarrow> 'a outside \<Rightarrow> 'a sponsor_config \<Rightarrow> int \<Rightarrow> 'a transaction \<Rightarrow> cap_verdict \<Rightarrow> fee_local \<times> 'k world \<Rightarrow>
    (route_answer \<times> 'a act list) \<times> fee_local \<times> 'k world" where
  "sendReserved srv out cfg now inner cap st = (let back = onWorld (runRelease srv cap) in
     case chargeSponsorFee srv (NumBid (Some (of_int (totalFee inner)))) (maxDayFee cfg) now st of
         (BadBid e, st1) \<Rightarrow> ((Failed (BadFee e), []), back st1)
       | (BudgetSpent, st1) \<Rightarrow> ((Failed FeeBudgetRefused, []), back st1)
       | (Charged c, st1) \<Rightarrow> (case signBoth out inner of
             (Some e, acts) \<Rightarrow> ((Failed e, acts), back (snd (notIncluded srv c st1)))
           | (None, acts) \<Rightarrow> (case submit srv (reader out) (horizon_says out) c st1 of
                 (Landed hsh ledger x, c1, st2) \<Rightarrow> ((nameBalance out inner hsh ledger x, acts @ [Posts inner (totalFee inner)]), st2)
               | (Unconfirmed d hsh, c1, st2) \<Rightarrow> ((MayLand d hsh, acts @ [Posts inner (totalFee inner)]), st2)
               | (SubmitFailed d, c1, st2) \<Rightarrow> ((Failed (NotSubmitted d), acts @ [Posts inner (totalFee inner)]), back st2))))"

definition sendLinkHandler :: "'k server \<Rightarrow> 'a outside \<Rightarrow> 'a sponsor_config \<Rightarrow> int \<Rightarrow> string \<Rightarrow> fee_local \<times> 'k world \<Rightarrow>
    (route_answer \<times> 'a act list) \<times> fee_local \<times> 'k world" where
  "sendLinkHandler srv out cfg now sender st = (case parsed out of
       None \<Rightarrow> ((Failed BadEnvelope, []), st)
     | Some inner \<Rightarrow> (case validateInnerTransaction (sdk out) inner (sendPolicy cfg sender) of
           Some r \<Rightarrow> ((Failed (DrainRefused r), []), st)
         | None \<Rightarrow> if overFeeCap cfg inner then ((Failed (FeeOverCap (totalFee inner) (feeBumpMaxStroops cfg)), []), st)
             else (case escrowAmount inner of None \<Rightarrow> ((Failed AmountUnreadable, []), st)
               | Some stroops \<Rightarrow> (case checkCaps srv stroops (escrowCaps cfg) now (Some sender) (snd st) of
                     (Refused r, w1) \<Rightarrow> ((Failed (CapRefused r), []), fst st, w1)
                   | (Allowed res, w1) \<Rightarrow> sendReserved srv out cfg now inner (Allowed res) (fst st, w1)))))"

subsection \<open>What the policies of the two inner routes accept\<close>

text \<open>The one claim a fee-bump may carry.\<close>

definition claim_shape :: "'a stellar \<Rightarrow> 'a sponsor_config \<Rightarrow> string \<Rightarrow> string \<Rightarrow> 'a transaction \<Rightarrow> bool" where
  "claim_shape k cfg recipient balanceId tx \<longleftrightarrow> (\<exists>op. operations tx = [op] \<and> opType op = ''claimClaimableBalance'' \<and>
     opBalanceId op = Some balanceId \<and> balanceId \<noteq> [] \<and> txSource tx = recipient \<and> sourceOf tx op = recipient \<and>
     validKey k recipient \<and> validKey k (sponsorAccountId cfg) \<and> recipient \<noteq> sponsorAccountId cfg \<and>
     otherSigner (Some (signerKey cfg)) (sponsorAccountId cfg) \<noteq> Some recipient)"

text \<open>The sponsored escrow a send may carry: the sender's own money, to two claimants, one of them the sender and one
  unconditional, between a begin sourced by the sponsor and the sender's end.\<close>

definition send_shape :: "'a stellar \<Rightarrow> 'a sponsor_config \<Rightarrow> string \<Rightarrow> 'a transaction \<Rightarrow> bool" where
  "send_shape k cfg sender tx \<longleftrightarrow> (\<exists>b cb e c1 c2. operations tx = [b, cb, e] \<and>
     opType b = ''beginSponsoringFutureReserves'' \<and> opType cb = ''createClaimableBalance'' \<and> opType e = ''endSponsoringFutureReserves'' \<and>
     txSource tx = sender \<and> sourceOf tx b = sponsorAccountId cfg \<and> sourceOf tx cb = sender \<and> sourceOf tx e = sender \<and>
     opSponsoredId b = Some sender \<and> sameAsset k (usdcAsset cfg) (opAsset cb) \<and>
     claimantsOf cb = [c1, c2] \<and> (unconditional c1 \<or> unconditional c2) \<and>
     (cDestination c1 = Some sender \<or> cDestination c2 = Some sender) \<and>
     validKey k sender \<and> validKey k (sponsorAccountId cfg) \<and> sender \<noteq> sponsorAccountId cfg \<and>
     otherSigner (Some (signerKey cfg)) (sponsorAccountId cfg) \<noteq> Some sender)"

lemma otherSigner_not_sponsor [simp]: "otherSigner signer spons \<noteq> Some spons"
  by (auto simp: otherSigner_def split: option.splits)

lemma claim_accepts_iff:
  "validateInnerTransaction k tx (claimPolicy cfg recipient balanceId) = None \<longleftrightarrow> claim_shape k cfg recipient balanceId tx"
proof -
  have one: "map opType (operations tx) = [''claimClaimableBalance''] \<longleftrightarrow>
      (\<exists>op. operations tx = [op] \<and> opType op = ''claimClaimableBalance'')"
    by (auto simp: map_eq_Cons_conv)
  show ?thesis
    unfolding inner_None claim_shape_def
    by (auto simp: claimPolicy_def one maxOpsOf_def checkOp_def typesOf_def checkParams_def ALLOWED_INNER_OP_TYPES_def
        SPONSOR_SOURCEABLE_OPS_def keptOut_def truthy_def Let_def split: option.splits)
qed

lemma two_claimants: "length cs = 2 \<longleftrightarrow> (\<exists>c1 c2. cs = [c1, c2])"
  by (auto simp: length_Suc_conv numeral_2_eq_2)

lemma send_accepts_iff:
  "validateInnerTransaction k tx (sendPolicy cfg sender) = None \<longleftrightarrow> send_shape k cfg sender tx"
proof -
  have three: "map opType (operations tx) =
      [''beginSponsoringFutureReserves'', ''createClaimableBalance'', ''endSponsoringFutureReserves''] \<longleftrightarrow>
      (\<exists>b cb e. operations tx = [b, cb, e] \<and> opType b = ''beginSponsoringFutureReserves'' \<and>
         opType cb = ''createClaimableBalance'' \<and> opType e = ''endSponsoringFutureReserves'')"
    by (auto simp: map_eq_Cons_conv)
  have cb: "checkParams k (sendPolicy cfg sender) cb = None \<longleftrightarrow> sameAsset k (usdcAsset cfg) (opAsset cb) \<and>
      (\<exists>c1 c2. claimantsOf cb = [c1, c2] \<and> (unconditional c1 \<or> unconditional c2) \<and>
         (cDestination c1 = Some sender \<or> cDestination c2 = Some sender))"
    if "opType cb = ''createClaimableBalance''" for cb
    using that by (auto simp: checkParams_def sendPolicy_def assetChecks_def EXPECTED_CLAIMANTS_def two_claimants)
  have b: "checkParams k (sendPolicy cfg sender) b = None \<longleftrightarrow> opSponsoredId b = Some sender"
    if "opType b = ''beginSponsoringFutureReserves''" for b
    using that by (simp add: checkParams_def sendPolicy_def)
  have e: "checkParams k (sendPolicy cfg sender) e = None" if "opType e = ''endSponsoringFutureReserves''" for e :: "'a operation"
    using that by (simp add: checkParams_def)
  have [simp]: "expectedSource (sendPolicy cfg sender) = sender" "sponsor (sendPolicy cfg sender) = sponsorAccountId cfg"
    "sponsorSigner (sendPolicy cfg sender) = Some (signerKey cfg)" "maxOpsOf (sendPolicy cfg sender) = 3"
    "typesOf (sendPolicy cfg sender) = ALLOWED_SEND_OP_TYPES"
    "expectedOpSequence (sendPolicy cfg sender) =
      Some [''beginSponsoringFutureReserves'', ''createClaimableBalance'', ''endSponsoringFutureReserves'']"
    by (simp_all add: sendPolicy_def maxOpsOf_def typesOf_def)
  have kb: "checkOp k (sendPolicy cfg sender) tx op = None \<longleftrightarrow>
      validKey k (sponsorAccountId cfg) \<and> sourceOf tx op = sponsorAccountId cfg \<and> opSponsoredId op = Some sender"
    if "opType op = ''beginSponsoringFutureReserves''" for op
    using b [OF that] that by (auto simp: checkOp_def ALLOWED_SEND_OP_TYPES_def SPONSOR_SOURCEABLE_OPS_def Let_def)
  have kc: "checkOp k (sendPolicy cfg sender) tx op = None \<longleftrightarrow>
      validKey k sender \<and> sourceOf tx op = sender \<and> sender \<noteq> sponsorAccountId cfg \<and> checkParams k (sendPolicy cfg sender) op = None"
    if "opType op \<in> {''createClaimableBalance'', ''endSponsoringFutureReserves''}" for op
    using that by (auto simp: checkOp_def ALLOWED_SEND_OP_TYPES_def SPONSOR_SOURCEABLE_OPS_def Let_def)
  have out: "keptOut tx [sender] (otherSigner (Some (signerKey cfg)) (sponsorAccountId cfg)) \<longleftrightarrow>
      otherSigner (Some (signerKey cfg)) (sponsorAccountId cfg) \<noteq> Some sender"
    if "txSource tx = sender" "\<forall>op\<in>set (operations tx). sourceOf tx op \<in> {sender, sponsorAccountId cfg}"
    using that by (auto simp: keptOut_def split: option.splits)
  show ?thesis
  proof (cases "\<exists>b cb e. operations tx = [b, cb, e] \<and> opType b = ''beginSponsoringFutureReserves'' \<and>
      opType cb = ''createClaimableBalance'' \<and> opType e = ''endSponsoringFutureReserves''")
    case True
    then obtain b' cb' e' where ops: "operations tx = [b', cb', e']" "opType b' = ''beginSponsoringFutureReserves''"
      "opType cb' = ''createClaimableBalance''" "opType e' = ''endSponsoringFutureReserves''" by blast
    note checks = kb [OF ops(2)] kc [of cb'] kc [of e'] cb [OF ops(3)] e [OF ops(4)]
    show ?thesis
      using out unfolding inner_None send_shape_def three
      by (simp add: ops checks) blast
  qed (auto simp: inner_None send_shape_def three)
qed

text \<open>The claim and send policies accept exactly one shape each: the named claim by the recipient alone, and the
  sender's own escrow to two claimants inside the sponsor's reserve sponsorship.\<close>

theorem inner_policies_accept_one_shape:
  "(validateInnerTransaction k tx (claimPolicy cfg recipient balanceId) = None \<longleftrightarrow> claim_shape k cfg recipient balanceId tx) \<and>
   (validateInnerTransaction k tx (sendPolicy cfg sender) = None \<longleftrightarrow> send_shape k cfg sender tx)"
  by (simp add: claim_accepts_iff send_accepts_iff)

lemma toStroops_whole: "0 \<le> n \<Longrightarrow> toStroops (NumBid (Some (of_int n))) = Inr n"
  by (simp add: toStroops_def bidInt_def)

subsection \<open>Counters across a whole route\<close>

text \<open>A store that answers and whose listed keys hold counters, and a step from it that moves counters by \<open>f\<close>.\<close>

definition steady :: "(int \<Rightarrow> 'k \<Rightarrow> string \<Rightarrow> cell option) \<Rightarrow> ('k \<Rightarrow> bool) \<Rightarrow> string list \<Rightarrow> 'k world \<Rightarrow> bool" where
  "steady view ok ks w \<longleftrightarrow> ok (kvs w) \<and> online w \<and> kvConfigured w \<and> all_counters view w ks"

definition drift :: "(int \<Rightarrow> 'k \<Rightarrow> string \<Rightarrow> cell option) \<Rightarrow> ('k \<Rightarrow> bool) \<Rightarrow> string list \<Rightarrow> 'k world \<Rightarrow> (string \<Rightarrow> int) \<Rightarrow> 'k world \<Rightarrow> bool" where
  "drift view ok ks w f w' \<longleftrightarrow> steady view ok ks w' \<and> env w' = env w \<and> clock w' = clock w \<and>
     (\<forall>k. cnt view w' k = cnt view w k + f k)"

lemma drift_refl: "steady view ok ks w \<Longrightarrow> drift view ok ks w (\<lambda>_. 0) w"
  by (simp add: drift_def)

lemma drift_trans: "drift view ok ks w f w1 \<Longrightarrow> drift view ok ks w1 g w2 \<Longrightarrow> drift view ok ks w (\<lambda>k. f k + g k) w2"
  by (simp add: drift_def)

lemma drift_steady: "drift view ok ks w f w' \<Longrightarrow> steady view ok ks w'"
  by (simp add: drift_def)

text \<open>A step that moves no counter outside \<open>S\<close>.\<close>

definition drift_in :: "(int \<Rightarrow> 'k \<Rightarrow> string \<Rightarrow> cell option) \<Rightarrow> ('k \<Rightarrow> bool) \<Rightarrow> string list \<Rightarrow> string set \<Rightarrow> 'k world \<Rightarrow> 'k world \<Rightarrow> bool" where
  "drift_in view ok ks S w w' \<longleftrightarrow> (\<exists>f. drift view ok ks w f w' \<and> (\<forall>k. k \<notin> S \<longrightarrow> f k = 0))"

lemma drift_inI: "drift view ok ks w f w' \<Longrightarrow> (\<And>k. k \<notin> S \<Longrightarrow> f k = 0) \<Longrightarrow> drift_in view ok ks S w w'"
  by (auto simp: drift_in_def)

lemma drift_in_refl: "steady view ok ks w \<Longrightarrow> drift_in view ok ks S w w"
  by (rule drift_inI [OF drift_refl]) simp_all

lemma drift_in_cnt: "drift_in view ok ks S w w' \<Longrightarrow> k \<notin> S \<Longrightarrow> cnt view w' k = cnt view w k"
  by (auto simp: drift_in_def drift_def)

lemma drift_in_steady: "drift_in view ok ks S w w' \<Longrightarrow> steady view ok ks w' \<and> env w' = env w \<and> clock w' = clock w"
  by (auto simp: drift_in_def drift_def)

context redis
begin

lemma add_drift:
  assumes "steady view wf ks w" "distinct keys" "set keys \<subseteq> set ks"
  shows "\<exists>w'. addToDays srv keys d w = (Inr (map (\<lambda>k. cnt view w k + d) keys), w') \<and>
    drift view wf ks w (\<lambda>k. if k \<in> set keys then d else 0) w'"
proof -
  have "all_counters view w keys" using assms(1,3) by (auto simp: steady_def all_counters_def)
  then obtain w' where w': "addToDays srv keys d w = (Inr (map (\<lambda>k. cnt view w k + d) keys), w')"
      "wf (kvs w')" "online w'" "env w' = env w" "clock w' = clock w" "all_counters view w' keys"
      "\<forall>k. cnt view w' k = cnt view w k + (if k \<in> set keys then d else 0)"
      "\<forall>k. k \<notin> set keys \<longrightarrow> view (clock w') (kvs w') k = view (clock w) (kvs w) k"
    using addToDays_counters [of w keys d] assms(1,2) by (auto simp: steady_def)
  have "all_counters view w' ks"
    using assms(1) w'(6,8) unfolding steady_def all_counters_def by metis
  moreover have "kvConfigured w'" using assms(1) w'(4) by (simp add: steady_def kvConfigured_def)
  ultimately show ?thesis using w' by (auto simp: drift_def steady_def)
qed

lemma back_drift:
  assumes "steady view wf ks w" "distinct keys" "set keys \<subseteq> set ks"
  shows "drift view wf ks w (\<lambda>k. if k \<in> set keys then - a else 0) (giveBack srv keys a w)"
  using add_drift [OF assms, of "- a"] by (auto simp: giveBack_def)

lemma caps_drift:
  assumes "steady view wf ks w" and "set (capKeys now sender (network_of (env w))) \<subseteq> set ks"
  shows "\<exists>v w'. checkCaps srv a caps now sender w = (v, w') \<and>
    (case v of Refused r \<Rightarrow> drift view wf ks w (\<lambda>_. 0) w'
     | Allowed res \<Rightarrow> res = Some (capKeys now sender (network_of (env w)), a) \<and>
         dayRefusal caps (map (\<lambda>k. cnt view w k + a) (capKeys now sender (network_of (env w)))) = None \<and>
         localRefusal a caps = None \<and>
         drift view wf ks w (\<lambda>k. if k \<in> set (capKeys now sender (network_of (env w))) then a else 0) w')"
proof (cases "localRefusal a caps")
  case (Some r)
  then show ?thesis using assms(1) by (simp add: checkCaps_def drift_refl)
next
  case None
  let ?keys = "capKeys now sender (network_of (env w))"
  obtain w1 where w1: "addToDays srv ?keys a w = (Inr (map (\<lambda>k. cnt view w k + a) ?keys), w1)"
      "drift view wf ks w (\<lambda>k. if k \<in> set ?keys then a else 0) w1"
    using add_drift [OF assms(1) distinct_capKeys assms(2)] by blast
  have "kvConfigured w" using assms(1) by (simp add: steady_def)
  show ?thesis
  proof (cases "dayRefusal caps (map (\<lambda>k. cnt view w k + a) ?keys)")
    case (Some r)
    have "drift view wf ks w (\<lambda>k. (if k \<in> set ?keys then a else 0) + (if k \<in> set ?keys then - a else 0)) (giveBack srv ?keys a w1)"
      using drift_trans [OF w1(2) back_drift [OF drift_steady [OF w1(2)] distinct_capKeys assms(2)]] .
    moreover have "(\<lambda>k. (if k \<in> set ?keys then a else 0) + (if k \<in> set ?keys then - a else 0)) = (\<lambda>_. 0)" by auto
    ultimately show ?thesis using None Some \<open>kvConfigured w\<close> w1(1) by (simp add: checkCaps_def)
  qed (use None \<open>kvConfigured w\<close> w1 in \<open>simp add: checkCaps_def\<close>)
qed

lemma charge_drift:
  fixes now :: int
  assumes "steady view wf ks w" "toStroops b = Inr fee"
  defines "key \<equiv> feeDayKey now (network_of (env w))" and "g \<equiv> feeGrossDayKey now (network_of (env w))"
  assumes "{key, g} \<subseteq> set ks"
  shows "\<exists>w'. chargeSponsorFee srv b mx now (l, w) =
      (if mx < cnt view w key + fee then BudgetSpent
       else Charged \<lparr>totalStroops = cnt view w key + fee, sharedStore = True, bidStroops = fee, chargeKey = key, stillOpen = True\<rparr>,
       l, w') \<and> drift_in view wf ks {key, g} w w'"
proof -
  have keys: "distinct [key, g]" "set [key, g] \<subseteq> set ks" using assms(5) by (simp_all add: key_def g_def)
  obtain w1 where w1: "addToDays srv [key, g] fee w = (Inr (map (\<lambda>k. cnt view w k + fee) [key, g]), w1)"
      "drift view wf ks w (\<lambda>k. if k \<in> set [key, g] then fee else 0) w1"
    using add_drift [OF assms(1) keys] by blast
  obtain w2 where w2: "addToDays srv [key, g] (- fee) w1 = (Inr (map (\<lambda>k. cnt view w1 k + - fee) [key, g]), w2)"
      "drift view wf ks w1 (\<lambda>k. if k \<in> set [key, g] then - fee else 0) w2"
    using add_drift [OF drift_steady [OF w1(2)] keys] by blast
  have undo: "drift_in view wf ks {key, g} w w1" "drift_in view wf ks {key, g} w w2"
    by (rule drift_inI [OF w1(2)], simp) (rule drift_inI [OF drift_trans [OF w1(2) w2(2)]], simp)
  have r: "chargeSponsorFee srv b mx now (l, w) =
      (if mx < cnt view w key + fee then (BudgetSpent, l, w2)
       else (Charged \<lparr>totalStroops = cnt view w key + fee, sharedStore = True, bidStroops = fee, chargeKey = key, stillOpen = True\<rparr>, l, w1))"
    using assms(1,2) w1(1) w2(1)
    by (simp add: chargeSponsorFee_def countBid_def steady_def key_def [symmetric] g_def [symmetric])
  show ?thesis
    using r undo by (cases "mx < cnt view w key + fee") auto
qed

lemma call_drift:
  assumes "steady view wf ks w" "chargeKey c \<in> set ks" "sharedStore c"
  shows "\<exists>c' w'. fee_call_do srv call (c, l, w) = (c', l, w') \<and> drift_in view wf ks {chargeKey c} w w'"
proof -
  note still = drift_in_refl [OF assms(1)]
  have give: "\<exists>c' w'. feeGiveBack srv n c (l, w) = (c', l, w') \<and> drift_in view wf ks {chargeKey c} w w'" for n
  proof (cases "stillOpen c \<and> 0 < n")
    case True
    have "distinct [chargeKey c]" "set [chargeKey c] \<subseteq> set ks" using assms(2) by simp_all
    then obtain w' where "addToDays srv [chargeKey c] (- n) w = (Inr (map (\<lambda>k. cnt view w k + - n) [chargeKey c]), w')"
        "drift view wf ks w (\<lambda>k. if k \<in> set [chargeKey c] then - n else 0) w'"
      using add_drift [OF assms(1)] by blast
    moreover from this(2) have "drift_in view wf ks {chargeKey c} w w'" by (rule drift_inI) simp
    ultimately show ?thesis using True assms(3) by (simp add: feeGiveBack_def addToDay_def)
  next
    case False
    then show ?thesis using still assms(3) by (auto simp: feeGiveBack_def)
  qed
  show ?thesis
    using give still by (cases call) (auto simp: notIncluded_def settled_def split: option.splits)
qed

lemma submit_drift:
  assumes "steady view wf ks w" "chargeKey c \<in> set ks" "sharedStore c"
  shows "\<exists>a c' w'. submit srv rd h c (l, w) = (a, c', l, w') \<and> drift_in view wf ks {chargeKey c} w w'"
proof (cases "settlement rd h")
  case None
  then have "submit srv rd h c (l, w) = (fst (submit srv rd h c (l, w)), c, l, w)"
    using submit_settles [of srv rd h c "(l, w)"] by simp
  then show ?thesis using drift_in_refl [OF assms(1)] by blast
next
  case (Some call)
  obtain c' w' where r: "fee_call_do srv call (c, l, w) = (c', l, w')" "drift_in view wf ks {chargeKey c} w w'"
    using call_drift [OF assms, of call l] by blast
  have "submit srv rd h c (l, w) = (fst (submit srv rd h c (l, w)), fee_call_do srv call (c, l, w))"
    using submit_settles [of srv rd h c "(l, w)"] Some by simp
  then show ?thesis using r by metis
qed

text \<open>A release after a step that left the reserved counters alone takes exactly the amount off them.\<close>

lemma released:
  assumes "distinct keys" "set keys \<subseteq> set ks" "k \<in> set keys" "drift_in view wf ks S w w1" "k \<notin> S"
  shows "cnt view (snd (onWorld (runRelease srv (Allowed (Some (keys, a)))) (l1, w1))) k = cnt view w k - a"
  using back_drift [OF conjunct1 [OF drift_in_steady [OF assms(4)]] assms(1,2), of a] drift_in_cnt [OF assms(4,5)] assms(3)
  by (simp add: onWorld_def runRelease_def drift_def)

text \<open>From the reservation on: it is kept exactly when the send may have landed.\<close>

lemma sendReserved_keeps:
  fixes now :: int and l :: fee_local
  assumes "steady view wf ks w" "distinct keys" "set keys \<subseteq> set ks"
  defines "key \<equiv> feeDayKey now (network_of (env w))" and "g \<equiv> feeGrossDayKey now (network_of (env w))"
  assumes "{key, g} \<subseteq> set ks" "key \<notin> set keys" "g \<notin> set keys"
    and run: "sendReserved srv out cfg now inner (Allowed (Some (keys, a))) (l, w) = ((ans, acts), l', w')"
  shows "k \<in> set keys \<Longrightarrow> cnt view w' k = cnt view w k - (if mayHaveMoved ans then 0 else a)"
proof -
  assume k: "k \<in> set keys"
  then have off: "k \<notin> {key, g}" using assms(7,8) by auto
  note release = released [OF assms(2,3) k, where a = a]
  have bid: "toStroops (NumBid (Some (of_int (totalFee inner)))) = Inr (totalFee inner)"
    by (rule toStroops_whole) (simp add: totalFee_def FEEBUMP_PER_OP_STROOPS_def)
  obtain w1 where w1: "chargeSponsorFee srv (NumBid (Some (of_int (totalFee inner)))) (maxDayFee cfg) now (l, w) =
      (if maxDayFee cfg < cnt view w key + totalFee inner then BudgetSpent
       else Charged \<lparr>totalStroops = cnt view w key + totalFee inner, sharedStore = True, bidStroops = totalFee inner,
         chargeKey = key, stillOpen = True\<rparr>, l, w1)" "drift_in view wf ks {key, g} w w1"
    using charge_drift [OF assms(1) bid, of now "maxDayFee cfg" l] assms(6) by (auto simp: key_def g_def)
  note undone = release [OF w1(2) off, of l]
  show ?thesis
  proof (cases "maxDayFee cfg < cnt view w key + totalFee inner")
    case True
    then show ?thesis using run undone w1(1) by (auto simp: sendReserved_def mayHaveMoved_def)
  next
    case False
    define c where "c = \<lparr>totalStroops = cnt view w key + totalFee inner, sharedStore = True, bidStroops = totalFee inner,
         chargeKey = key, stillOpen = True\<rparr>"
    have c: "sharedStore c" "chargeKey c = key" "chargeKey c \<in> set ks" using assms(6) by (simp_all add: c_def)
    have steady1: "steady view wf ks w1" using drift_in_steady [OF w1(2)] by simp
    have via: "drift_in view wf ks {key, g} w w2" if "drift_in view wf ks {chargeKey c} w1 w2" for w2
      using w1(2) that drift_trans unfolding drift_in_def c(2) by (metis (no_types, lifting) add_0 insertCI singletonD)
    show ?thesis
    proof (cases "signBoth out inner")
      case (Pair problem sigs)
      show ?thesis
      proof (cases problem)
        case (Some e)
        obtain c2 w2 where n: "notIncluded srv c (l, w1) = (c2, l, w2)" "drift_in view wf ks {chargeKey c} w1 w2"
          using call_drift [OF steady1 c(3,1), of CallNotIncluded l] by auto
        then show ?thesis
          using run False w1(1) Pair Some release [OF via [OF n(2)] off, of l]
          by (auto simp: sendReserved_def mayHaveMoved_def c_def [symmetric])
      next
        case None
        obtain got c2 w2 where n: "submit srv (reader out) (horizon_says out) c (l, w1) = (got, c2, l, w2)"
            "drift_in view wf ks {chargeKey c} w1 w2"
          using submit_drift [OF steady1 c(3,1)] by blast
        have kept: "cnt view w2 k = cnt view w k" by (rule drift_in_cnt [OF via [OF n(2)] off])
        show ?thesis
          using run False w1(1) Pair None n(1) kept release [OF via [OF n(2)] off, of l]
          by (cases got)
            (auto simp: sendReserved_def mayHaveMoved_def nameBalance_def c_def [symmetric] Let_def split: if_splits)
      qed
    qed
  qed
qed

end

text \<open>What a route needs of the caps: a refusal moves nothing, an allowance moves each of its counters by the amount.\<close>

lemma caps_reserve:
  fixes w :: "kv world" and now :: int
  assumes "steady cell kv_wf ks w" "net = network_of (env w)" "keys = capKeys now sender net" "set keys \<subseteq> set ks"
  obtains v w1 where "checkCaps runOne n caps now sender w = (v, w1)" "network_of (env w1) = net"
    "case v of Refused r \<Rightarrow> drift cell kv_wf ks w (\<lambda>_. 0) w1
     | Allowed res \<Rightarrow> res = Some (keys, n) \<and> drift cell kv_wf ks w (\<lambda>k. if k \<in> set keys then n else 0) w1"
proof -
  from fake.caps_drift [OF assms(1), of now sender n caps, folded assms(2), folded assms(3), OF assms(4)]
  obtain v w1 where v: "checkCaps runOne n caps now sender w = (v, w1)"
      "case v of Refused r \<Rightarrow> drift cell kv_wf ks w (\<lambda>_. 0) w1
       | Allowed res \<Rightarrow> res = Some (keys, n) \<and> drift cell kv_wf ks w (\<lambda>k. if k \<in> set keys then n else 0) w1"
    by (fastforce split: cap_verdict.splits)
  then have "network_of (env w1) = net" using assms(2) by (auto simp: drift_def split: cap_verdict.splits)
  with v show ?thesis using that by blast
qed

text \<open>C18: on a store that answers, a send moves the day's total and the sender's own by exactly the stroops its escrow
  holds when it landed or may still land, and by nothing when it did not: refused by the validator, a cap or
  the fee budget, by the signer, or by Horizon.\<close>

theorem send_reserves_what_may_move:
  fixes w :: "kv world" and now :: int
  defines "net \<equiv> network_of (env w)"
  assumes "kv_wf (kvs w)" "online w" "kvConfigured w" "trim sender \<noteq> []"
    and "all_counters cell w (capKeys now (Some sender) net @ [feeDayKey now net, feeGrossDayKey now net])"
    and "parsed out = Some inner" "find isCreate (operations inner) = Some op" "opAmount op = Some (sdkAmount n)"
    and "0 \<le> n" "n < 2 ^ 50"
    and "sendLinkHandler runOne out cfg now sender (l, w) = ((ans, acts), l', w')"
    and "k \<in> {dayKey now net, senderDayKey now (trim sender) net}"
  shows "cnt cell w' k = cnt cell w k + (if mayHaveMoved ans then n else 0)"
proof -
  let ?ks = "capKeys now (Some sender) net @ [feeDayKey now net, feeGrossDayKey now net]"
  have keys: "capKeys now (Some sender) net = [dayKey now net, senderDayKey now (trim sender) net]"
    using assms(5) by (simp add: capKeys_def)
  have steady: "steady cell kv_wf ?ks w" using assms(2,3,4,6) by (simp add: steady_def)
  have amount: "escrowAmount inner = Some n"
    using assms(8-11) by (simp add: escrowAmount_def orZero_def stroopsOf_sdkAmount)
  have apart: "feeDayKey now net \<notin> set (capKeys now (Some sender) net)" "feeGrossDayKey now net \<notin> set (capKeys now (Some sender) net)"
    by (simp_all add: keys dayKey_def senderDayKey_def feeDayKey_def feeGrossDayKey_def)
  have sub: "set (capKeys now (Some sender) net) \<subseteq> set ?ks" by auto
  obtain v w1 where v: "checkCaps runOne n (escrowCaps cfg) now (Some sender) w = (v, w1)" "network_of (env w1) = net"
      "case v of Refused r \<Rightarrow> drift cell kv_wf ?ks w (\<lambda>_. 0) w1
       | Allowed res \<Rightarrow> res = Some (capKeys now (Some sender) net, n) \<and>
           drift cell kv_wf ?ks w (\<lambda>k. if k \<in> set (capKeys now (Some sender) net) then n else 0) w1"
    using caps_reserve [OF steady _ refl sub] net_def by metis
  show ?thesis
  proof (cases "validateInnerTransaction (sdk out) inner (sendPolicy cfg sender) = None \<and> \<not> overFeeCap cfg inner")
    case False
    then show ?thesis using assms(7,12)
      by (cases "validateInnerTransaction (sdk out) inner (sendPolicy cfg sender)") (auto simp: sendLinkHandler_def mayHaveMoved_def)
  next
    case ok: True
    show ?thesis
    proof (cases v)
      case (Refused r)
      then show ?thesis using ok assms(7,12) amount v by (auto simp: sendLinkHandler_def mayHaveMoved_def drift_def)
    next
      case (Allowed res)
      then have w1: "res = Some (capKeys now (Some sender) net, n)"
        "drift cell kv_wf ?ks w (\<lambda>k. if k \<in> set (capKeys now (Some sender) net) then n else 0) w1" using v(3) by auto
      have run: "sendReserved runOne out cfg now inner (Allowed (Some (capKeys now (Some sender) net, n))) (l, w1) = ((ans, acts), l', w')"
        using ok assms(7,12) amount v(1) Allowed w1(1) by (simp add: sendLinkHandler_def)
      have k: "k \<in> set (capKeys now (Some sender) net)" using assms(13) by (simp add: keys)
      have "cnt cell w' k = cnt cell w1 k - (if mayHaveMoved ans then 0 else n)"
        by (rule fake.sendReserved_keeps [OF drift_steady [OF w1(2)] distinct_capKeys sub _ _ _ run k]) (use apart in \<open>simp_all add: v(2)\<close>)
      then show ?thesis using w1(2) k by (simp add: drift_def)
    qed
  qed
qed

subsection \<open>Nothing the sponsor signs drains it\<close>

datatype request =
    ClaimReq string string | PayoutReq string string string | SweepReq string string "string option" string | SendReq string

fun classicRoute :: "'k server \<Rightarrow> 'a outside \<Rightarrow> 'a sponsor_config \<Rightarrow> int \<Rightarrow> request \<Rightarrow> fee_local \<times> 'k world \<Rightarrow>
    (route_answer \<times> 'a act list) \<times> fee_local \<times> 'k world" where
  "classicRoute srv out cfg now (ClaimReq recipient balanceId) st = feebumpHandler srv out cfg now recipient balanceId st"
| "classicRoute srv out cfg now (PayoutReq sender dest amt) st = payoutHandler srv out cfg now sender dest amt st"
| "classicRoute srv out cfg now (SweepReq away homeKey balanceId amt) st = sweepHandler srv out cfg now away homeKey balanceId amt st"
| "classicRoute srv out cfg now (SendReq sender) st = sendLinkHandler srv out cfg now sender st"

text \<open>What stands between a signature and the sponsor's money: nothing leaves the sponsor's account or its signing key.\<close>

definition harmless :: "'a sponsor_config \<Rightarrow> 'a transaction \<Rightarrow> bool" where
  "harmless cfg tx \<longleftrightarrow> length (operations tx) \<le> 4 \<and> outflows tx (sponsorAccountId cfg) = [] \<and>
     (\<forall>k. otherSigner (Some (signerKey cfg)) (sponsorAccountId cfg) = Some k \<longrightarrow> outflows tx k = [])"

lemma harmlessI:
  assumes "length (operations tx) \<le> 4" "\<And>op. op \<in> set (operations tx) \<Longrightarrow> sourceOf tx op = u \<or> takesOut op = []"
    and "u \<noteq> sponsorAccountId cfg" "otherSigner (Some (signerKey cfg)) (sponsorAccountId cfg) \<noteq> Some u"
  shows "harmless cfg tx"
  using assms by (auto simp: harmless_def outflows_def)

lemma bumpAndSubmit_acts:
  "bumpAndSubmit srv out cfg now inner st = ((ans, acts), st') \<Longrightarrow> x \<in> set acts \<Longrightarrow>
     x \<in> {SignsBump inner (totalFee inner), Posts inner (totalFee inner)}"
  by (auto simp: bumpAndSubmit_def Let_def split: if_splits prod.splits charge_result.splits option.splits)

lemma sendReserved_acts:
  "sendReserved srv out cfg now inner v st = ((ans, acts), st') \<Longrightarrow> x \<in> set acts \<Longrightarrow>
     x \<in> {SignsInner inner, SignsBump inner (totalFee inner), Posts inner (totalFee inner)}"
  by (auto simp: sendReserved_def signBoth_def Let_def split: if_splits prod.splits charge_result.splits option.splits submitted.splits)

lemma claim_harmless: "claim_shape k cfg recipient balanceId tx \<Longrightarrow> harmless cfg tx"
  by (auto simp: claim_shape_def intro!: harmlessI [where u = recipient])

lemma send_harmless: "send_shape k cfg sender tx \<Longrightarrow> harmless cfg tx"
  by (auto simp: send_shape_def takesOut_def intro!: harmlessI [where u = sender])

lemma payout_harmless:
  "validatePayoutTransaction k tx (payoutPolicy cfg sender dest amt) = None \<Longrightarrow> harmless cfg tx"
  by (auto simp: payout_shape payoutPolicy_def intro!: harmlessI [where u = sender])

lemma sweep_harmless:
  "validateSweepTransaction k tx (sweepPolicy cfg away homeKey balanceId amt) = None \<Longrightarrow> harmless cfg tx"
  by (auto simp: sweep_shape sweepPolicy_def may_lead_def keptOut_def intro!: harmlessI [where u = away])

text \<open>C17: whatever a client sends to a classic money route, everything the sponsor signs or posts for it is that
  one parsed transaction, at most four operations at the flat bid of 1000 stroops each and one more, and it takes
  nothing out of the sponsor's account nor out of its separate signing key.\<close>

theorem nothing_signed_drains:
  assumes "classicRoute srv out cfg now req st = ((ans, acts), st')" and "x \<in> set acts"
  shows "\<exists>tx. parsed out = Some tx \<and> x \<in> {SignsInner tx, SignsBump tx (totalFee tx), Posts tx (totalFee tx)} \<and>
    harmless cfg tx \<and> totalFee tx \<le> 5000"
proof -
  obtain tx where tx: "parsed out = Some tx"
    using assms by (cases req; cases "parsed out")
      (auto simp: feebumpHandler_def payoutHandler_def sweepHandler_def sendLinkHandler_def)
  have "x \<in> {SignsInner tx, SignsBump tx (totalFee tx), Posts tx (totalFee tx)} \<and> harmless cfg tx"
  proof (cases req)
    case (ClaimReq r b)
    then show ?thesis using assms tx
      by (auto simp: feebumpHandler_def claim_accepts_iff dest: claim_harmless bumpAndSubmit_acts split: option.splits if_splits)
  next
    case (PayoutReq s d a)
    then show ?thesis using assms tx
      by (auto simp: payoutHandler_def dest: payout_harmless bumpAndSubmit_acts split: option.splits if_splits)
  next
    case (SweepReq a h b n)
    then show ?thesis using assms tx
      by (auto simp: sweepHandler_def dest: sweep_harmless bumpAndSubmit_acts split: option.splits if_splits)
  next
    case (SendReq s)
    then show ?thesis using assms tx
      by (auto simp: sendLinkHandler_def send_accepts_iff dest: send_harmless sendReserved_acts
          split: option.splits if_splits prod.splits cap_verdict.splits)
  qed
  then show ?thesis using tx by (auto simp: harmless_def totalFee_def FEEBUMP_PER_OP_STROOPS_def)
qed

text \<open>One dollar sent, and Horizon's gateway timing out.\<close>

definition dollar_send :: "string transaction" where
  "dollar_send = \<lparr>txSource = ''GA'', operations =
     [(blank ''beginSponsoringFutureReserves'' ''GS'')\<lparr>opSponsoredId := Some ''GA''\<rparr>,
      (blank ''createClaimableBalance'' ''GA'')\<lparr>opAsset := Some ''USDC'', opAmount := Some (sdkAmount 10000000), opClaimants :=
         Some [\<lparr>cDestination = Some ''GB'', cPredicate = Some ''claimPredicateUnconditional''\<rparr>,
               \<lparr>cDestination = Some ''GA'', cPredicate = Some ''claimPredicateNot''\<rparr>]\<rparr>,
      blank ''endSponsoringFutureReserves'' ''GA'']\<rparr>"

definition slow_horizon :: "string outside" where
  "slow_horizon = \<lparr>sdk = plain_sdk, reader = (\<lambda>_. None),
     horizon_says = \<lparr>answer = Threw \<lparr>errName = ''BadResponseError'', errStatus = Some 504, errCodes = False, errXdr = None, errDetail = []\<rparr>,
       txHash = Some ''h'', lookup = (\<lambda>_. Missing)\<rparr>,
     parsed = Some dollar_send, bumpFee = (\<lambda>b tx. b * (int (length (operations tx)) + 1)),
     signInner = None, signBump = None, newestBalance = None\<rparr>"

definition pilot_config :: "string sponsor_config" where
  "pilot_config = \<lparr>sponsorAccountId = ''GS'', signerKey = ''GK'', usdcAsset = ''USDC'', feeBumpMaxStroops = ''10000'',
     maxDayFee = 150000000, escrowCaps = pilot_caps\<rparr>"

definition cold_fees :: fee_local where
  "cold_fees = \<lparr>localFeeDay = [], localFeeStroops = 0, localFeeGross = 0\<rparr>"

theorem send_reserves_what_may_move_witness:
  "case sendLinkHandler runOne slow_horizon pilot_config 1791460800000 ''GA'' (cold_fees, pilot_world) of
     ((ans, acts), l', w') \<Rightarrow> cnt cell w' (dayKey 1791460800000 ''mainnet'') =
        cnt cell pilot_world (dayKey 1791460800000 ''mainnet'') + (if mayHaveMoved ans then 10000000 else 0)"
proof -
  obtain ans acts l' w' where r: "sendLinkHandler runOne slow_horizon pilot_config 1791460800000 ''GA'' (cold_fees, pilot_world) =
      ((ans, acts), l', w')" by (metis surj_pair)
  have "trim ''GA'' \<noteq> []" "parsed slow_horizon = Some dollar_send" by (simp_all add: slow_horizon_def)
  from send_reserves_what_may_move [OF _ _ _ this(1) _ this(2) _ _ _ _ r] show ?thesis
    by (simp add: r dollar_send_def blank_def isCreate_def)
qed

theorem nothing_signed_drains_witness:
  "set (snd (fst (classicRoute runOne slow_horizon pilot_config 1791460800000 (SendReq ''GA'') (cold_fees, pilot_world))))
     \<subseteq> {SignsInner dollar_send, SignsBump dollar_send 4000, Posts dollar_send 4000}"
proof
  fix x
  assume x: "x \<in> set (snd (fst (classicRoute runOne slow_horizon pilot_config 1791460800000 (SendReq ''GA'') (cold_fees, pilot_world))))"
  obtain ans acts st' where r: "classicRoute runOne slow_horizon pilot_config 1791460800000 (SendReq ''GA'') (cold_fees, pilot_world) =
      ((ans, acts), st')" by (metis surj_pair)
  have "x \<in> set acts" using x unfolding r by simp
  moreover have "parsed slow_horizon = Some dollar_send" "totalFee dollar_send = 4000"
    by (simp_all add: slow_horizon_def totalFee_def dollar_send_def FEEBUMP_PER_OP_STROOPS_def)
  ultimately show "x \<in> {SignsInner dollar_send, SignsBump dollar_send 4000, Posts dollar_send 4000}"
    using nothing_signed_drains [OF r] by fastforce
qed

end
