(* ===== verification/SorobanRelay.thy ===== *)
theory SorobanRelay
  imports SponsorRoutes
begin

text \<open>
  The Soroban relays (\<open>apps/sponsor/src/lib/soroban-relay.ts\<close>): \<open>relayClaimHandler\<close>,
  \<open>relayDepositHandler\<close>, \<open>relayReclaimHandler\<close> and what they share, with the subrequest meter
  (lib/subrequests.ts) that bounds their polling.  The RPC and the SDK are arguments: an envelope
  already parsed, the simulation's answer, the fee of the fee-bump built at a base, what the send
  answers, and the answer each poll will get.
\<close>

subsection \<open>Values and envelopes\<close>

datatype sc_error = CryptoError | ContractError int | OtherError

text \<open>A value of an event, as far as a failure's reason is looked for in it.\<close>

datatype scval = ScErr sc_error | ScVec "scval list option" | ScOther

text \<open>An argument of a call, with its \<open>scValToNative\<close>: an address, a bigint, a number, a text, or anything else with
  what \<open>BigInt\<close> makes of it.\<close>

datatype call_arg = ArgAddress string | ArgBig int | ArgNumber int | ArgText string | ArgOther "int option"

record soroban_inner =
  innerSource :: string
  innerOpCount :: nat
  isInvoke :: bool
  isContractCall :: bool
  calledContract :: string
  calledFn :: string
  callArgs :: "call_arg list"
  innerFee :: int
  resourceFee :: int

definition bigOf :: "call_arg \<Rightarrow> int option" where
  "bigOf v = (case v of ArgBig n \<Rightarrow> Some n | ArgNumber n \<Rightarrow> Some n | ArgText s \<Rightarrow> parse_bigint s | ArgAddress s \<Rightarrow> None
     | ArgOther n \<Rightarrow> n)"

subsection \<open>Limits\<close>

definition ALLOWED_METHODS :: "string list" where
  "ALLOWED_METHODS = [''claim'', ''claim_share'']"

definition ALLOWED_DEPOSIT_METHODS :: "string list" where
  "ALLOWED_DEPOSIT_METHODS = [''deposit'', ''create_drop'']"

definition DEPOSIT_ARITY :: "string \<Rightarrow> nat option" where
  "DEPOSIT_ARITY = [''deposit'' \<mapsto> 4, ''create_drop'' \<mapsto> 5]"

definition ALLOWED_RECLAIM_METHODS :: "string list" where
  "ALLOWED_RECLAIM_METHODS = [''reclaim'', ''reclaim_pool'']"

definition MIN_POOL_SLOTS :: int where "MIN_POOL_SLOTS = 2"
definition DEFAULT_MAX_POOL_SLOTS :: int where "DEFAULT_MAX_POOL_SLOTS = 30"
definition MAINNET_DEFAULT_POOL_SLOTS :: int where "MAINNET_DEFAULT_POOL_SLOTS = 6"
definition MAINNET_POOL_SLOTS_CEILING :: int where "MAINNET_POOL_SLOTS_CEILING = 8"
definition V2_DEPOSIT_FEE_CAP :: int where "V2_DEPOSIT_FEE_CAP = 20000000"
definition V2_RECLAIM_INCLUSION_HEADROOM :: int where "V2_RECLAIM_INCLUSION_HEADROOM = 2500000"
definition DEPOSIT_INCLUSION_HEADROOM :: int where "DEPOSIT_INCLUSION_HEADROOM = 2500000"

definition maxPoolSlots :: "environ \<Rightarrow> string \<Rightarrow> int" where
  "maxPoolSlots e network = (let
       n = (case e ''MAX_POOL_SLOTS'' of Some raw \<Rightarrow> if raw = [] then None else parseInt raw | None \<Rightarrow> None);
       configured = (case n of Some k \<Rightarrow> if MIN_POOL_SLOTS \<le> k then Some k else None | None \<Rightarrow> None)
     in if network = ''mainnet''
        then min (case configured of Some k \<Rightarrow> k | None \<Rightarrow> MAINNET_DEFAULT_POOL_SLOTS) MAINNET_POOL_SLOTS_CEILING
        else (case configured of Some k \<Rightarrow> k | None \<Rightarrow> DEFAULT_MAX_POOL_SLOTS))"

subsection \<open>Fees\<close>

datatype relay_error =
    NotConfigured | BadInner | WrongInnerSource | NotOneOp | NotAnInvoke | NotAContractCall | WrongContract | MethodNotRelayed
  | InnerFeeOverCap | WrongArity | FromNotAddress | FromNotSender | AmountNotANumber | SlotsNotWhole | SlotsOutOfRange
  | ShareBelowMinimum | SimulationFailed string | SimulationThrew | NoResourceFee | InnerFeeOverNeeded | NegativeResourceFee
  | ResourceFeeUncovered | CapRefused cap_reason | BidInflated | FeeRefused | FeeUnreadable fee_error | SignerFailed string
  | SendRefused | SendError | OnLedgerFailed | GroupClaimFailed string
  | BadLink | BadSig | BadPayout | NoSourceAccount

text \<open>Bigint division drops the fraction; \<open>Math.ceil\<close> rounds a quotient up.\<close>

definition bigDiv :: "int \<Rightarrow> int \<Rightarrow> int" where
  "bigDiv a b = sgn a * sgn b * (\<bar>a\<bar> div \<bar>b\<bar>)"

lemma bigDiv_one [simp]: "bigDiv a 1 = a"
  by (simp add: bigDiv_def sgn_mult_abs)

text \<open>The fee-bump base of an inner transaction; \<open>Inl\<close> where it throws.\<close>

definition feeBumpBase :: "soroban_inner \<Rightarrow> relay_error + int" where
  "feeBumpBase i = (let
       ops = max 1 (int (innerOpCount i));
       perOp = bigDiv (innerFee i + ops - 1) ops - resourceFee i
     in if resourceFee i < 0 then Inl NegativeResourceFee
        else if 0 < resourceFee i \<and> perOp < 100 then Inl ResourceFeeUncovered
        else Inr (if 100 < perOp then perOp else 100))"

definition refuseOversizedResourceFee :: "soroban_inner \<Rightarrow> relay_error option" where
  "refuseOversizedResourceFee i =
     (if resourceFee i < 0 then Some NegativeResourceFee
      else if innerFee i - 100 < resourceFee i then Some ResourceFeeUncovered else None)"

definition refuseInflatedBid :: "int \<Rightarrow> soroban_inner \<Rightarrow> relay_error option" where
  "refuseInflatedBid bump i = (if 2 * innerFee i < bump then Some BidInflated else None)"

subsection \<open>Sending and watching\<close>

text \<open>What \<open>sendTransaction\<close> throws: a JSON-RPC error object, or an error with an HTTP status when there is a response.\<close>

datatype send_throw = RpcErrorObject "int option" | HttpThrow "int option"

definition sendRefusedOutright :: "send_throw \<Rightarrow> bool" where
  "sendRefusedOutright e = (case e of
       RpcErrorObject c \<Rightarrow> c \<in> {Some (- 32700), Some (- 32600), Some (- 32601), Some (- 32602)}
     | HttpThrow (Some s) \<Rightarrow> 400 \<le> s \<and> s < 500 \<and> s \<noteq> 408
     | HttpThrow None \<Rightarrow> False)"

datatype send_answer = SendThrew send_throw | SendErrorStatus | TryAgainLater | Queued string

text \<open>A poll's answer: the fee an included transaction's result names, when it can be read, and a failure's events.\<close>

type_synonym diagnostic = "(scval list \<times> scval) option"

datatype poll = Success "int option" | FailedOn "int option" "diagnostic list" | NotFound | PollThrew

record watched =
  got :: poll
  cut :: bool
  readsMade :: nat

text \<open>\<open>left\<close> is what the invocation may still fetch, \<open>None\<close> outside a metered request.\<close>

definition roomFor :: "int option \<Rightarrow> int \<Rightarrow> bool" where
  "roomFor left n = (case left of None \<Rightarrow> True | Some k \<Rightarrow> n \<le> k)"

fun pollFrom :: "(nat \<Rightarrow> poll) \<Rightarrow> int option \<Rightarrow> int \<Rightarrow> nat \<Rightarrow> nat \<Rightarrow> watched option" where
  "pollFrom polls left reserve 0 i = Some \<lparr>got = NotFound, cut = False, readsMade = i\<rparr>"
| "pollFrom polls left reserve (Suc n) i =
     (if \<not> roomFor left (1 + reserve) then Some \<lparr>got = NotFound, cut = True, readsMade = i\<rparr>
      else case polls i of
          PollThrew \<Rightarrow> None
        | NotFound \<Rightarrow> pollFrom polls (map_option (\<lambda>k. k - 1) left) reserve n (Suc i)
        | said \<Rightarrow> Some \<lparr>got = said, cut = False, readsMade = Suc i\<rparr>)"

text \<open>At most one read at once and \<open>maxPolls\<close> more; \<open>None\<close> when a read threw (undecided).\<close>

definition pollUntilDecided :: "(nat \<Rightarrow> poll) \<Rightarrow> int option \<Rightarrow> int \<Rightarrow> nat \<Rightarrow> watched option" where
  "pollUntilDecided polls left reserve maxPolls = pollFrom polls left reserve (Suc maxPolls) 0"

record rpc_outside =
  signErr :: "string option"
  sendSays :: send_answer
  pollSays :: "nat \<Rightarrow> poll"
  leftAfterSend :: "int option"
  hashOfTx :: string

datatype paid = Watched string watched | PayFailed relay_error | Busy | Undecided string

definition V2_SUBMIT_MAX_POLLS :: nat where "V2_SUBMIT_MAX_POLLS = 40"

definition payAndSubmit :: "'k server \<Rightarrow> rpc_outside \<Rightarrow> int \<Rightarrow> int \<Rightarrow> int \<Rightarrow> nat \<Rightarrow> int \<Rightarrow> fee_local \<times> 'k world \<Rightarrow> paid \<times> fee_local \<times> 'k world" where
  "payAndSubmit srv out maxDay now fee maxPolls reserve st =
     (case chargeSponsorFee srv (TextBid (show_int fee)) maxDay now st of
         (BadBid e, st1) \<Rightarrow> (PayFailed (FeeUnreadable e), st1)
       | (BudgetSpent, st1) \<Rightarrow> (PayFailed FeeRefused, st1)
       | (Charged c, st1) \<Rightarrow> (case signCharged srv c (signErr out) st1 of
             (Some e, c1, st2) \<Rightarrow> (PayFailed (SignerFailed e), st2)
           | (None, c1, st2) \<Rightarrow> (case sendSays out of
                 SendThrew e \<Rightarrow> if sendRefusedOutright e then (PayFailed SendRefused, snd (notIncluded srv c1 st2))
                     else (Undecided (hashOfTx out), st2)
               | SendErrorStatus \<Rightarrow> (PayFailed SendError, snd (notIncluded srv c1 st2))
               | TryAgainLater \<Rightarrow> (Busy, snd (notIncluded srv c1 st2))
               | Queued hsh \<Rightarrow> (case pollUntilDecided (pollSays out) (leftAfterSend out) (reserve + 1) maxPolls of
                     None \<Rightarrow> (Undecided hsh, st2)
                   | Some r \<Rightarrow> (Watched hsh r, (case got r of
                         Success f \<Rightarrow> snd (settled srv (bidOfFee f) c1 st2)
                       | FailedOn f ev \<Rightarrow> snd (settled srv (bidOfFee f) c1 st2)
                       | _ \<Rightarrow> st2))))))"

subsection \<open>Deposits\<close>

record relay_config =
  lumendropContract :: "string option"
  lumendropLegacyContracts :: "string list"
  relayNetwork :: string
  relayEnv :: environ
  relayMaxDayFee :: int
  relayCaps :: caps_config

datatype sim_answer = SimError string | SimOk string | SimThrew

datatype relay_answer = Confirmed string | Accepted202 string | RelayFailed relay_error | RelayBusy | RelayUndecided string

definition configured :: "string option \<Rightarrow> bool" where
  "configured c \<longleftrightarrow> c \<noteq> None \<and> c \<noteq> Some []"

text \<open>A POOL's second number: its type before its bounds, and the minimum per share.\<close>

definition poolRefusal :: "relay_config \<Rightarrow> call_arg \<Rightarrow> int \<Rightarrow> relay_error option" where
  "poolRefusal cfg slots stroops = (case slots of
       ArgNumber n \<Rightarrow> if n < MIN_POOL_SLOTS \<or> maxPoolSlots (relayEnv cfg) (relayNetwork cfg) < n then Some SlotsOutOfRange
         else if bigDiv stroops n < minDropStroops (relayCaps cfg) then Some ShareBelowMinimum else None
     | _ \<Rightarrow> Some SlotsNotWhole)"

definition depositGuards :: "relay_config \<Rightarrow> string \<Rightarrow> soroban_inner \<Rightarrow> relay_error + int" where
  "depositGuards cfg sender i = (let args = callArgs i in
     if innerSource i \<noteq> sender then Inl WrongInnerSource
     else if innerOpCount i \<noteq> 1 then Inl NotOneOp
     else if \<not> isInvoke i then Inl NotAnInvoke
     else if \<not> isContractCall i then Inl NotAContractCall
     else if Some (calledContract i) \<noteq> lumendropContract cfg then Inl WrongContract
     else if calledFn i \<notin> set ALLOWED_DEPOSIT_METHODS then Inl MethodNotRelayed
     else if V2_DEPOSIT_FEE_CAP < innerFee i then Inl InnerFeeOverCap
     else if Some (length args) \<noteq> DEPOSIT_ARITY (calledFn i) then Inl WrongArity
     else (case args ! 0 of
         ArgAddress from \<Rightarrow> if from \<noteq> sender then Inl FromNotSender
           else (case bigOf (args ! 2) of None \<Rightarrow> Inl AmountNotANumber
             | Some stroops \<Rightarrow> if calledFn i = ''create_drop'' then
                   (case poolRefusal cfg (args ! 3) stroops of Some r \<Rightarrow> Inl r | None \<Rightarrow> Inr stroops)
                 else Inr stroops)
       | _ \<Rightarrow> Inl FromNotAddress))"

text \<open>The simulation, and the fee it bounds; both relayed routes check the same way.\<close>

definition simulationRefusal :: "sim_answer \<Rightarrow> int \<Rightarrow> soroban_inner \<Rightarrow> relay_error option" where
  "simulationRefusal sim headroom i = (case sim of
       SimThrew \<Rightarrow> Some SimulationThrew
     | SimError e \<Rightarrow> Some (SimulationFailed e)
     | SimOk minFee \<Rightarrow> (case parseInt minFee of None \<Rightarrow> Some NoResourceFee
         | Some n \<Rightarrow> if n + headroom < innerFee i then Some InnerFeeOverNeeded else refuseOversizedResourceFee i))"

text \<open>The bid of the fee-bump around an inner transaction, or why it is refused.\<close>

definition bidFor :: "(int \<Rightarrow> soroban_inner \<Rightarrow> int) \<Rightarrow> soroban_inner \<Rightarrow> relay_error + int" where
  "bidFor build i = (case feeBumpBase i of Inl e \<Rightarrow> Inl e
     | Inr base \<Rightarrow> (case refuseInflatedBid (build base i) i of Some e \<Rightarrow> Inl e | None \<Rightarrow> Inr (build base i)))"

definition depositReserved :: "'k server \<Rightarrow> rpc_outside \<Rightarrow> (int \<Rightarrow> soroban_inner \<Rightarrow> int) \<Rightarrow> relay_config \<Rightarrow> int \<Rightarrow> soroban_inner \<Rightarrow> cap_verdict \<Rightarrow>
    fee_local \<times> 'k world \<Rightarrow> relay_answer \<times> fee_local \<times> 'k world" where
  "depositReserved srv out build cfg now i cap st = (let release = onWorld (runRelease srv cap) in
     case bidFor build i of
         Inl e \<Rightarrow> (RelayFailed e, release st)
       | Inr fee \<Rightarrow> (case payAndSubmit srv out (relayMaxDayFee cfg) now fee V2_SUBMIT_MAX_POLLS 2 st of
             (PayFailed e, st1) \<Rightarrow> (RelayFailed e, release st1)
           | (Busy, st1) \<Rightarrow> (RelayBusy, release st1)
           | (Undecided hsh, st1) \<Rightarrow> (RelayUndecided hsh, st1)
           | (Watched hsh r, st1) \<Rightarrow> (case got r of
                 Success f \<Rightarrow> (Confirmed hsh, st1)
               | FailedOn f ev \<Rightarrow> (RelayFailed OnLedgerFailed, release st1)
               | _ \<Rightarrow> (Accepted202 hsh, st1))))"

definition relayDepositHandler :: "'k server \<Rightarrow> rpc_outside \<Rightarrow> (int \<Rightarrow> soroban_inner \<Rightarrow> int) \<Rightarrow> sim_answer \<Rightarrow> relay_config \<Rightarrow> int \<Rightarrow>
    string \<Rightarrow> soroban_inner option \<Rightarrow> fee_local \<times> 'k world \<Rightarrow> relay_answer \<times> fee_local \<times> 'k world" where
  "relayDepositHandler srv out build sim cfg now sender parsedInner st =
     (if \<not> configured (lumendropContract cfg) then (RelayFailed NotConfigured, st)
      else case parsedInner of None \<Rightarrow> (RelayFailed BadInner, st)
      | Some i \<Rightarrow> (case depositGuards cfg sender i of Inl e \<Rightarrow> (RelayFailed e, st)
          | Inr stroops \<Rightarrow> (case simulationRefusal sim DEPOSIT_INCLUSION_HEADROOM i of Some e \<Rightarrow> (RelayFailed e, st)
              | None \<Rightarrow> (case checkCaps srv stroops (relayCaps cfg) now (Some sender) (snd st) of
                    (Refused r, w1) \<Rightarrow> (RelayFailed (CapRefused r), fst st, w1)
                  | (Allowed res, w1) \<Rightarrow> depositReserved srv out build cfg now i (Allowed res) (fst st, w1)))))"

subsection \<open>Reclaims\<close>

text \<open>Exits may also target a superseded contract; \<open>None\<close> where the code throws.\<close>

definition exitContract :: "relay_config \<Rightarrow> string option \<Rightarrow> string option" where
  "exitContract cfg requested = (if \<not> configured requested \<or> requested = lumendropContract cfg then lumendropContract cfg
     else if the requested \<in> set (lumendropLegacyContracts cfg) then requested else None)"

definition reclaimGuards :: "relay_config \<Rightarrow> string \<Rightarrow> soroban_inner \<Rightarrow> relay_error option" where
  "reclaimGuards cfg sender i =
     (if innerSource i \<noteq> sender then Some WrongInnerSource
      else if innerOpCount i \<noteq> 1 then Some NotOneOp
      else if \<not> isInvoke i then Some NotAnInvoke
      else if \<not> isContractCall i then Some NotAContractCall
      else if exitContract cfg (Some (calledContract i)) = None then Some WrongContract
      else if calledFn i \<notin> set ALLOWED_RECLAIM_METHODS then Some MethodNotRelayed
      else if V2_DEPOSIT_FEE_CAP < innerFee i then Some InnerFeeOverCap else None)"

definition watchedAnswer :: "string \<Rightarrow> watched \<Rightarrow> relay_answer" where
  "watchedAnswer hsh r = (case got r of
       Success f \<Rightarrow> Confirmed hsh | FailedOn f ev \<Rightarrow> RelayFailed OnLedgerFailed | _ \<Rightarrow> Accepted202 hsh)"

definition paidAnswer :: "paid \<Rightarrow> relay_answer" where
  "paidAnswer p = (case p of
       PayFailed e \<Rightarrow> RelayFailed e | Busy \<Rightarrow> RelayBusy | Undecided hsh \<Rightarrow> RelayUndecided hsh | Watched hsh r \<Rightarrow> watchedAnswer hsh r)"

definition relayReclaimHandler :: "'k server \<Rightarrow> rpc_outside \<Rightarrow> (int \<Rightarrow> soroban_inner \<Rightarrow> int) \<Rightarrow> sim_answer \<Rightarrow> relay_config \<Rightarrow> int \<Rightarrow>
    string \<Rightarrow> soroban_inner option \<Rightarrow> fee_local \<times> 'k world \<Rightarrow> relay_answer \<times> fee_local \<times> 'k world" where
  "relayReclaimHandler srv out build sim cfg now sender parsedInner st =
     (if \<not> configured (lumendropContract cfg) then (RelayFailed NotConfigured, st)
      else case parsedInner of None \<Rightarrow> (RelayFailed BadInner, st)
      | Some i \<Rightarrow> (case reclaimGuards cfg sender i of Some e \<Rightarrow> (RelayFailed e, st)
          | None \<Rightarrow> (case simulationRefusal sim V2_RECLAIM_INCLUSION_HEADROOM i of Some e \<Rightarrow> (RelayFailed e, st)
              | None \<Rightarrow> (case bidFor build i of Inl e \<Rightarrow> (RelayFailed e, st)
                  | Inr fee \<Rightarrow> (case payAndSubmit srv out (relayMaxDayFee cfg) now fee V2_SUBMIT_MAX_POLLS 0 st of
                        (p, st1) \<Rightarrow> (paidAnswer p, st1))))))"

subsection \<open>Why a group claim failed\<close>

fun findScError :: "scval \<Rightarrow> sc_error option" and findScErrorIn :: "scval list \<Rightarrow> sc_error option" where
  "findScError (ScErr e) = Some e"
| "findScError (ScVec (Some vs)) = findScErrorIn vs"
| "findScError _ = None"
| "findScErrorIn [] = None"
| "findScErrorIn (v # vs) = (case findScError v of Some e \<Rightarrow> Some e | None \<Rightarrow> findScErrorIn vs)"

definition GROUP_CLAIM_ERROR_TOKENS :: "int \<Rightarrow> string option" where
  "GROUP_CLAIM_ERROR_TOKENS = [7 \<mapsto> ''drop-empty'', 8 \<mapsto> ''already-claimed-this'', 9 \<mapsto> ''expired'']"

text \<open>What one value says; a contract code without a token says nothing.\<close>

definition tokenOf :: "scval \<Rightarrow> string option" where
  "tokenOf v = (case findScError v of
       Some CryptoError \<Rightarrow> Some ''bad-link-key''
     | Some (ContractError n) \<Rightarrow> GROUP_CLAIM_ERROR_TOKENS n
     | _ \<Rightarrow> None)"

fun firstToken :: "scval list \<Rightarrow> string option" where
  "firstToken [] = None"
| "firstToken (v # vs) = (case tokenOf v of Some t \<Rightarrow> Some t | None \<Rightarrow> firstToken vs)"

text \<open>An event is its topics and data when its body is the v0 arm.\<close>

definition groupClaimFailureToken :: "diagnostic list \<Rightarrow> string" where
  "groupClaimFailureToken events = (case firstToken (concat (map (\<lambda>e. case e of None \<Rightarrow> [] | Some (topics, d) \<Rightarrow> topics @ [d]) events)) of
       Some t \<Rightarrow> t | None \<Rightarrow> ''unknown'')"

subsection \<open>Claims\<close>

text \<open>\<open>Buffer.from(s, "hex").length\<close>: whole pairs of hex digits up to the first that is not one.\<close>

definition isHex :: "char \<Rightarrow> bool" where
  "isHex c \<longleftrightarrow> is_digit c \<or> (97 \<le> code c \<and> code c \<le> 102) \<or> (65 \<le> code c \<and> code c \<le> 70)"

fun hexBytes :: "string \<Rightarrow> nat" where
  "hexBytes (a # b # rest) = (if isHex a \<and> isHex b then Suc (hexBytes rest) else 0)"
| "hexBytes _ = 0"

record claim_input =
  claimMethod :: string
  linkHex :: string
  payoutValid :: bool
  sigHex :: string
  claimContract :: "string option"

text \<open>What the claim's path to a submission meets: a leased channel, its account, the simulation and the transaction assembled from it.\<close>

record claim_path =
  leased :: "string option"
  accountLoads :: bool
  claimSim :: sim_answer
  preparedInner :: soroban_inner

definition V2_CLAIM_TIMEOUT_SECONDS :: int where "V2_CLAIM_TIMEOUT_SECONDS = 60"
definition V2_CLAIM_POLL_MS :: int where "V2_CLAIM_POLL_MS = 1500"

definition ceil_div :: "int \<Rightarrow> int \<Rightarrow> int" where
  "ceil_div a b = (a + b - 1) div b"

definition claimPolls :: nat where
  "claimPolls = nat (ceil_div (V2_CLAIM_TIMEOUT_SECONDS * 1000) V2_CLAIM_POLL_MS)"

definition claimGuards :: "relay_config \<Rightarrow> claim_input \<Rightarrow> relay_error option" where
  "claimGuards cfg input =
     (if \<not> configured (lumendropContract cfg) then Some NotConfigured
      else if claimMethod input \<notin> set ALLOWED_METHODS then Some MethodNotRelayed
      else if exitContract cfg (claimContract input) = None then Some WrongContract
      else if hexBytes (linkHex input) \<noteq> 32 then Some BadLink
      else if hexBytes (sigHex input) \<noteq> 64 then Some BadSig
      else if \<not> payoutValid input then Some BadPayout else None)"

text \<open>The bid: a fee-bump around the channel's transaction, or the sponsor's own transaction as it is.\<close>

definition claimBid :: "(int \<Rightarrow> soroban_inner \<Rightarrow> int) \<Rightarrow> claim_path \<Rightarrow> relay_error + int" where
  "claimBid build path = (let i = preparedInner path in
     if \<not> accountLoads path then Inl NoSourceAccount
     else case claimSim path of
         SimThrew \<Rightarrow> Inl SimulationThrew
       | SimError e \<Rightarrow> Inl (SimulationFailed e)
       | SimOk x \<Rightarrow> if V2_DEPOSIT_FEE_CAP < innerFee i then Inl InnerFeeOverCap
           else (case leased path of None \<Rightarrow> Inr (innerFee i)
             | Some ch \<Rightarrow> (case feeBumpBase i of Inl e \<Rightarrow> Inl e | Inr base \<Rightarrow> Inr (build base i))))"

definition claimAnswer :: "claim_input \<Rightarrow> string \<Rightarrow> watched \<Rightarrow> relay_answer" where
  "claimAnswer input hsh r = (case got r of
       Success f \<Rightarrow> Confirmed hsh
     | FailedOn f ev \<Rightarrow> if claimMethod input = ''claim_share'' then RelayFailed (GroupClaimFailed (groupClaimFailureToken ev))
         else RelayFailed OnLedgerFailed
     | _ \<Rightarrow> Accepted202 hsh)"

text \<open>The lease is given back for a decided claim, kept for one that may still land: the last component says which.\<close>

definition relayClaimHandler :: "'k server \<Rightarrow> rpc_outside \<Rightarrow> (int \<Rightarrow> soroban_inner \<Rightarrow> int) \<Rightarrow> relay_config \<Rightarrow> int \<Rightarrow> claim_input \<Rightarrow> claim_path \<Rightarrow>
    fee_local \<times> 'k world \<Rightarrow> (relay_answer \<times> bool) \<times> fee_local \<times> 'k world" where
  "relayClaimHandler srv out build cfg now input path st = (case claimGuards cfg input of
       Some e \<Rightarrow> ((RelayFailed e, False), st)
     | None \<Rightarrow> (let mine = (leased path \<noteq> None) in
         case claimBid build path of
             Inl e \<Rightarrow> ((RelayFailed e, mine), st)
           | Inr fee \<Rightarrow> (case payAndSubmit srv out (relayMaxDayFee cfg) now fee claimPolls 1 st of
                 (Watched hsh r, st1) \<Rightarrow> ((claimAnswer input hsh r, mine \<and> \<not> (cut r \<and> got r = NotFound)), st1)
               | (Undecided hsh, st1) \<Rightarrow> ((RelayUndecided hsh, False), st1)
               | (p, st1) \<Rightarrow> ((paidAnswer p, mine), st1))))"

subsection \<open>The polling window\<close>

text \<open>Every read is paid for, and what has to follow the window keeps its room.\<close>

lemma pollFrom_bounds:
  assumes "pollFrom polls left reserve n i = Some r"
  shows "i \<le> readsMade r \<and> readsMade r \<le> i + n \<and>
    (\<forall>k. left = Some k \<longrightarrow> reserve \<le> k \<longrightarrow> int (readsMade r - i) + reserve \<le> k) \<and>
    (\<forall>j. i \<le> j \<longrightarrow> Suc j < readsMade r \<longrightarrow> polls j = NotFound) \<and>
    got r \<noteq> PollThrew \<and> (got r = NotFound \<longrightarrow> (cut r \<or> readsMade r = i + n) \<and> (\<forall>j. i \<le> j \<longrightarrow> j < readsMade r \<longrightarrow> polls j = NotFound))"
  using assms
proof (induction n arbitrary: left i)
  case (Suc n)
  show ?case
  proof (cases "roomFor left (1 + reserve)")
    case True
    show ?thesis
    proof (cases "polls i")
      case NotFound
      then have "pollFrom polls (map_option (\<lambda>k. k - 1) left) reserve n (Suc i) = Some r" using Suc.prems True by simp
      note ih = Suc.IH [OF this]
      have "polls j = NotFound" if "i \<le> j" "Suc j < readsMade r \<or> got r = NotFound \<and> j < readsMade r" for j
        using ih that NotFound by (cases "j = i") auto
      moreover have "int (readsMade r - i) + reserve \<le> k" if "left = Some k" "reserve \<le> k" for k
        using ih that True by (auto simp: roomFor_def)
      ultimately show ?thesis using ih by auto
    qed (use Suc.prems True in \<open>auto simp: roomFor_def\<close>)
  qed (use Suc.prems in auto)
qed auto

lemma poll_window:
  assumes "pollUntilDecided polls left reserve maxPolls = Some r"
  shows "readsMade r \<le> maxPolls + 1 \<and>
    (\<forall>k. left = Some k \<longrightarrow> reserve \<le> k \<longrightarrow> int (readsMade r) + reserve \<le> k) \<and>
    (got r = NotFound \<longrightarrow> \<not> cut r \<longrightarrow> readsMade r = maxPolls + 1 \<and> (\<forall>j\<le>maxPolls. polls j = NotFound))"
  using pollFrom_bounds [OF assms [unfolded pollUntilDecided_def]] by auto

text \<open>C21: a relay's poll window ends: after at most \<open>maxPolls + 1\<close> reads it has a decision, an RPC that threw, or
  nothing yet; and a metered request that still had room for what must follow the window (the fee settle, a cap, a pilot
  slot or a lease release) still has it when the window closes.\<close>

theorem poll_window_leaves_room:
  assumes "pollUntilDecided polls left reserve maxPolls = Some r"
  shows "readsMade r \<le> maxPolls + 1 \<and>
    (\<forall>k. left = Some k \<longrightarrow> reserve \<le> k \<longrightarrow> int (readsMade r) + reserve \<le> k) \<and>
    (got r = NotFound \<longrightarrow> \<not> cut r \<longrightarrow> readsMade r = maxPolls + 1 \<and> (\<forall>j\<le>maxPolls. polls j = NotFound))"
  by (rule poll_window [OF assms])

subsection \<open>The bid\<close>

text \<open>The fee the SDK builds a fee-bump with, at a base per operation.\<close>

definition sdkBump :: "int \<Rightarrow> soroban_inner \<Rightarrow> int" where
  "sdkBump base i = base * (int (innerOpCount i) + 1) + resourceFee i"

text \<open>What the sponsor bids for a relayed deposit or reclaim is at most twice what the simulation says it needs plus the
  client's own headroom, and never above 4 XLM, whatever fee the SDK builds; and with the fee the SDK does build, a
  transaction that passed the guards is never refused for its bid, which is twice its inclusion fee and its resource fee.\<close>

theorem relayed_bid_bounded:
  assumes "(\<exists>s. depositGuards cfg sender i = Inr s) \<or> reclaimGuards cfg sender i = None"
    and "simulationRefusal (SimOk minFee) headroom i = None"
  shows "(\<forall>fee. bidFor build i = Inr fee \<longrightarrow> fee \<le> 40000000 \<and> (\<forall>n. parseInt minFee = Some n \<longrightarrow> fee \<le> 2 * (n + headroom))) \<and>
    bidFor sdkBump i = Inr (2 * (innerFee i - resourceFee i) + resourceFee i)"
proof -
  have i: "innerFee i \<le> 20000000" "innerOpCount i = 1"
    using assms(1) by (auto simp: depositGuards_def reclaimGuards_def V2_DEPOSIT_FEE_CAP_def Let_def split: if_splits)
  have r: "0 \<le> resourceFee i" "resourceFee i \<le> innerFee i - 100"
    and n: "\<And>n. parseInt minFee = Some n \<Longrightarrow> innerFee i \<le> n + headroom"
    using assms(2) by (auto simp: simulationRefusal_def refuseOversizedResourceFee_def split: option.splits if_splits)
  have "bidFor build i = Inr fee \<Longrightarrow> fee \<le> 2 * innerFee i" for fee
    by (auto simp: bidFor_def refuseInflatedBid_def split: sum.splits if_splits)
  then have "\<forall>fee. bidFor build i = Inr fee \<longrightarrow> fee \<le> 40000000 \<and> (\<forall>n. parseInt minFee = Some n \<longrightarrow> fee \<le> 2 * (n + headroom))"
    using i(1) n by force
  moreover have "bidFor sdkBump i = Inr (2 * (innerFee i - resourceFee i) + resourceFee i)"
    using i(2) r by (auto simp: bidFor_def feeBumpBase_def sdkBump_def refuseInflatedBid_def Let_def)
  ultimately show ?thesis ..
qed

subsection \<open>A channel lent to a claim\<close>


subsection \<open>A deposit's reservation\<close>

text \<open>An answer that leaves it possible that the deposit is, or will be, on the ledger.\<close>

definition mayBeHeld :: "relay_answer \<Rightarrow> bool" where
  "mayBeHeld a = (case a of Confirmed h \<Rightarrow> True | Accepted202 h \<Rightarrow> True | RelayUndecided h \<Rightarrow> True | _ \<Rightarrow> False)"

context redis
begin

lemma drift_in_trans:
  assumes "drift_in view wf ks S w w1" "drift_in view wf ks S w1 w2"
  shows "drift_in view wf ks S w w2"
  using assms drift_trans unfolding drift_in_def by (metis (no_types, lifting) add_0)

lemma drift_in_mono: "drift_in view wf ks S w w1 \<Longrightarrow> S \<subseteq> T \<Longrightarrow> drift_in view wf ks T w w1"
  unfolding drift_in_def by blast

text \<open>Whatever becomes of the transaction, paying for it moves only the fee counters.\<close>

lemma pay_drift:
  fixes now :: int and l :: fee_local
  assumes "steady view wf ks w"
  defines "key \<equiv> feeDayKey now (network_of (env w))" and "g \<equiv> feeGrossDayKey now (network_of (env w))"
  assumes "{key, g} \<subseteq> set ks"
  shows "\<exists>p w'. payAndSubmit srv out mx now fee n res (l, w) = (p, l, w') \<and> drift_in view wf ks {key, g} w w'"
proof (cases "fee < 0")
  case True
  then have "chargeSponsorFee srv (TextBid (show_int fee)) mx now (l, w) = (BadBid NegativeBid, l, w)"
    by (simp add: chargeSponsorFee_def toStroops_text)
  then show ?thesis using drift_in_refl [OF assms(1)] by (auto simp: payAndSubmit_def)
next
  case False
  then have bid: "toStroops (TextBid (show_int fee)) = Inr fee" by (simp add: toStroops_text)
  obtain w1 where w1: "chargeSponsorFee srv (TextBid (show_int fee)) mx now (l, w) =
      (if mx < cnt view w key + fee then BudgetSpent
       else Charged \<lparr>totalStroops = cnt view w key + fee, sharedStore = True, bidStroops = fee,
         chargeKey = key, stillOpen = True\<rparr>, l, w1)" "drift_in view wf ks {key, g} w w1"
    using charge_drift [OF assms(1) bid, of now mx l] assms(4) by (auto simp: key_def g_def)
  show ?thesis
  proof (cases "mx < cnt view w key + fee")
    case True
    then show ?thesis using w1 by (auto simp: payAndSubmit_def)
  next
    case False
    define c where "c = \<lparr>totalStroops = cnt view w key + fee, sharedStore = True, bidStroops = fee, chargeKey = key, stillOpen = True\<rparr>"
    have c: "sharedStore c" "chargeKey c = key" "chargeKey c \<in> set ks" using assms(4) by (simp_all add: c_def)
    have steady1: "steady view wf ks w1" using drift_in_steady [OF w1(2)] by simp
    have via: "drift_in view wf ks {key, g} w w2" if "drift_in view wf ks {chargeKey c} w1 w2" for w2
      using drift_in_trans [OF w1(2) drift_in_mono [OF that]] by (simp add: c(2))
    have call: "\<exists>c' w2. fee_call_do srv x (c, l, w1) = (c', l, w2) \<and> drift_in view wf ks {key, g} w w2" for x
      using call_drift [OF steady1 c(3,1), of x l] via by blast
    obtain c2 w2 where ni: "notIncluded srv c (l, w1) = (c2, l, w2)" "drift_in view wf ks {key, g} w w2"
      using call [of CallNotIncluded] by auto
    have se: "\<exists>c3 w3. settled srv v c (l, w1) = (c3, l, w3) \<and> drift_in view wf ks {key, g} w w3" for v
      using call [of "CallSettled v"] by auto
    have charged: "chargeSponsorFee srv (TextBid (show_int fee)) mx now (l, w) = (Charged c, l, w1)"
      using w1(1) False by (simp add: c_def)
    show ?thesis
    proof (cases "signErr out = None \<and> (\<exists>h r. sendSays out = Queued h \<and>
        pollUntilDecided (pollSays out) (leftAfterSend out) (res + 1) n = Some r)")
      case True
      then obtain h r where run: "signErr out = None" "sendSays out = Queued h"
          "pollUntilDecided (pollSays out) (leftAfterSend out) (res + 1) n = Some r" by blast
      obtain c3 w3 where s3: "settled srv (bidOfFee (case got r of Success f \<Rightarrow> f | FailedOn f ev \<Rightarrow> f)) c (l, w1) = (c3, l, w3)"
          "drift_in view wf ks {key, g} w w3" using se by blast
      show ?thesis using charged run s3 w1(2) by (cases "got r") (auto simp: payAndSubmit_def signCharged_def)
    qed (use charged ni w1(2) in \<open>auto simp: payAndSubmit_def signCharged_def split: option.splits send_answer.splits\<close>)
  qed
qed

text \<open>From the reservation on: it is kept exactly when the deposit may have landed.\<close>

lemma depositReserved_keeps:
  fixes now :: int and l :: fee_local
  assumes "steady view wf ks w" "distinct keys" "set keys \<subseteq> set ks"
  defines "key \<equiv> feeDayKey now (network_of (env w))" and "g \<equiv> feeGrossDayKey now (network_of (env w))"
  assumes "{key, g} \<subseteq> set ks" "key \<notin> set keys" "g \<notin> set keys"
    and run: "depositReserved srv out build cfg now i (Allowed (Some (keys, a))) (l, w) = (ans, l', w')"
  shows "k \<in> set keys \<Longrightarrow> cnt view w' k = cnt view w k - (if mayBeHeld ans then 0 else a)"
proof -
  assume k: "k \<in> set keys"
  then have off: "k \<notin> {key, g}" using assms(7,8) by auto
  note release = released [OF assms(2,3) k, where a = a and ?l1.0 = l]
  show ?thesis
  proof (cases "bidFor build i")
    case (Inl e)
    then show ?thesis
      using run release [OF drift_in_refl [OF assms(1), of "{}"]] by (auto simp: depositReserved_def mayBeHeld_def)
  next
    case (Inr fee)
    obtain p w1 where p: "payAndSubmit srv out (relayMaxDayFee cfg) now fee V2_SUBMIT_MAX_POLLS 2 (l, w) = (p, l, w1)"
        "drift_in view wf ks {key, g} w w1"
      using pay_drift [OF assms(1), of now out "relayMaxDayFee cfg" fee V2_SUBMIT_MAX_POLLS 2 l] assms(6)
      by (auto simp: key_def g_def)
    show ?thesis
      using run Inr p(1) release [OF p(2) off] drift_in_cnt [OF p(2) off]
      by (cases p) (auto simp: depositReserved_def mayBeHeld_def Let_def split: poll.splits)
  qed
qed

end

text \<open>C19: on a store that answers, a relayed deposit moves the day's total and the sender's own by exactly the stroops it
  names when it is confirmed, or may still land: its window passed with no decision, its RPC stopped answering.  A deposit
  refused by a cap, the fee budget, the signer or the RPC, or failed on the ledger, moves them by nothing.\<close>

theorem deposit_reserves_what_may_move:
  fixes w :: "kv world" and now :: int
  defines "net \<equiv> network_of (env w)"
  assumes "kv_wf (kvs w)" "online w" "kvConfigured w" "trim sender \<noteq> []"
    and "all_counters cell w (capKeys now (Some sender) net @ [feeDayKey now net, feeGrossDayKey now net])"
    and "depositGuards cfg sender i = Inr n"
    and "relayDepositHandler runOne out build sim cfg now sender (Some i) (l, w) = (ans, l', w')"
    and "k \<in> {dayKey now net, senderDayKey now (trim sender) net}"
  shows "cnt cell w' k = cnt cell w k + (if mayBeHeld ans then n else 0)"
proof -
  let ?keys = "capKeys now (Some sender) net"
  let ?ks = "?keys @ [feeDayKey now net, feeGrossDayKey now net]"
  have keys: "?keys = [dayKey now net, senderDayKey now (trim sender) net]" using assms(5) by (simp add: capKeys_def)
  have k: "k \<in> set ?keys" using assms(9) by (simp add: keys)
  have steady: "steady cell kv_wf ?ks w" using assms(2,3,4,6) by (simp add: steady_def)
  have apart: "feeDayKey now net \<notin> set ?keys" "feeGrossDayKey now net \<notin> set ?keys"
    by (simp_all add: keys dayKey_def senderDayKey_def feeDayKey_def feeGrossDayKey_def)
  have sub: "set ?keys \<subseteq> set ?ks" by auto
  show ?thesis
  proof (cases "configured (lumendropContract cfg) \<and> simulationRefusal sim DEPOSIT_INCLUSION_HEADROOM i = None")
    case False
    then show ?thesis using assms(7,8)
      by (cases "simulationRefusal sim DEPOSIT_INCLUSION_HEADROOM i") (auto simp: relayDepositHandler_def mayBeHeld_def split: if_splits)
  next
    case ok: True
    obtain v w1 where v: "checkCaps runOne n (relayCaps cfg) now (Some sender) w = (v, w1)" "network_of (env w1) = net"
        "case v of Refused r \<Rightarrow> drift cell kv_wf ?ks w (\<lambda>_. 0) w1
         | Allowed res \<Rightarrow> res = Some (?keys, n) \<and> drift cell kv_wf ?ks w (\<lambda>k. if k \<in> set ?keys then n else 0) w1"
      using caps_reserve [OF steady _ refl sub] net_def by metis
    show ?thesis
    proof (cases v)
      case (Refused r)
      then show ?thesis using ok assms(7,8) v by (auto simp: relayDepositHandler_def mayBeHeld_def drift_def)
    next
      case (Allowed res)
      then have w1: "res = Some (?keys, n)" "drift cell kv_wf ?ks w (\<lambda>k. if k \<in> set ?keys then n else 0) w1" using v(3) by auto
      have run: "depositReserved runOne out build cfg now i (Allowed (Some (?keys, n))) (l, w1) = (ans, l', w')"
        using ok assms(7,8) v(1) Allowed w1(1) by (simp add: relayDepositHandler_def)
      have "cnt cell w' k = cnt cell w1 k - (if mayBeHeld ans then 0 else n)"
        by (rule fake.depositReserved_keeps [OF drift_steady [OF w1(2)] distinct_capKeys sub _ _ _ run k]) (use apart in \<open>simp_all add: v(2)\<close>)
      then show ?thesis using w1(2) k by (simp add: drift_def)
    qed
  qed
qed

subsection \<open>Concrete relays\<close>

text \<open>One dollar deposited on mainnet, and an RPC that takes it and then answers nothing within a small budget.\<close>

definition dollar_deposit :: soroban_inner where
  "dollar_deposit = \<lparr>innerSource = ''GA'', innerOpCount = 1, isInvoke = True, isContractCall = True, calledContract = ''CDROP'',
     calledFn = ''deposit'', callArgs = [ArgAddress ''GA'', ArgOther None, ArgBig 10000000, ArgNumber 604800],
     innerFee = 100200, resourceFee = 100000\<rparr>"

definition quiet_rpc :: rpc_outside where
  "quiet_rpc = \<lparr>signErr = None, sendSays = Queued ''h'', pollSays = (\<lambda>_. NotFound), leftAfterSend = Some 5, hashOfTx = ''h''\<rparr>"

definition mainnet_relay :: relay_config where
  "mainnet_relay = \<lparr>lumendropContract = Some ''CDROP'', lumendropLegacyContracts = [''COLD''], relayNetwork = ''mainnet'',
     relayEnv = env pilot_world, relayMaxDayFee = 150000000, relayCaps = pilot_caps\<rparr>"

lemma dollar_deposit_passes: "depositGuards mainnet_relay ''GA'' dollar_deposit = Inr 10000000"
  by (simp add: depositGuards_def dollar_deposit_def mainnet_relay_def Let_def ALLOWED_DEPOSIT_METHODS_def V2_DEPOSIT_FEE_CAP_def
      DEPOSIT_ARITY_def bigOf_def)

theorem poll_window_leaves_room_witness:
  "pollUntilDecided (\<lambda>_. NotFound) (Some 5) 3 40 = Some \<lparr>got = NotFound, cut = True, readsMade = 2\<rparr> \<and>
     (2::nat) \<le> 40 + 1 \<and> int 2 + 3 \<le> (5::int)"
proof -
  have r: "pollUntilDecided (\<lambda>_. NotFound) (Some 5) 3 40 = Some \<lparr>got = NotFound, cut = True, readsMade = 2\<rparr>"
    by (simp add: pollUntilDecided_def roomFor_def numeral_eq_Suc)
  then show ?thesis using poll_window_leaves_room [OF r] by simp
qed

theorem relayed_bid_bounded_witness:
  "bidFor sdkBump dollar_deposit = Inr 100400"
proof -
  have "\<exists>s. depositGuards mainnet_relay ''GA'' dollar_deposit = Inr s" using dollar_deposit_passes by blast
  moreover have "simulationRefusal (SimOk (show_int 100000)) DEPOSIT_INCLUSION_HEADROOM dollar_deposit = None"
    by (simp add: simulationRefusal_def refuseOversizedResourceFee_def dollar_deposit_def DEPOSIT_INCLUSION_HEADROOM_def show_int_def)
  ultimately show ?thesis
    using relayed_bid_bounded [of mainnet_relay "''GA''" dollar_deposit "show_int 100000"] by (simp add: dollar_deposit_def)
qed

lemma hexBytes_replicate: "isHex c \<Longrightarrow> hexBytes (replicate (2 * n) c) = n"
  by (induction n) simp_all

definition share_claim :: claim_input where
  "share_claim = \<lparr>claimMethod = ''claim_share'', linkHex = replicate 64 CHR ''1'', payoutValid = True, sigHex = replicate 128 CHR ''2'',
     claimContract = Some ''COLD''\<rparr>"

definition refused_path :: claim_path where
  "refused_path = \<lparr>leased = Some ''GCH'', accountLoads = True, claimSim = SimError ''expired'', preparedInner = dollar_deposit\<rparr>"


theorem deposit_reserves_what_may_move_witness:
  "case relayDepositHandler runOne quiet_rpc sdkBump (SimOk ''100000'') mainnet_relay 1791460800000 ''GA'' (Some dollar_deposit)
       (cold_fees, pilot_world) of
     (ans, l', w') \<Rightarrow> cnt cell w' (senderDayKey 1791460800000 ''GA'' ''mainnet'') =
        cnt cell pilot_world (senderDayKey 1791460800000 ''GA'' ''mainnet'') + (if mayBeHeld ans then 10000000 else 0)"
proof -
  obtain ans l' w' where r: "relayDepositHandler runOne quiet_rpc sdkBump (SimOk ''100000'') mainnet_relay 1791460800000 ''GA''
      (Some dollar_deposit) (cold_fees, pilot_world) = (ans, l', w')" by (metis surj_pair)
  have "trim ''GA'' \<noteq> []" by simp
  from deposit_reserves_what_may_move [OF _ _ _ this _ dollar_deposit_passes r] show ?thesis
    by (simp add: r)
qed

end
