(* ===== verification/KvCommands.thy ===== *)
theory KvCommands
  imports RateLimit
begin

text \<open>
  The commands the services send, as values: what each answers and what it leaves in the view of the
  store.  \<open>execAll_render\<close> runs a whole pipeline of them at once, so an operation's proof computes on
  views instead of on stores.  The locale \<open>redis_commands\<close> adds DECR and SET NX without an expiry to
  the promises of \<open>redis_window\<close>; fake-kv.ts keeps them.
\<close>

locale redis_commands = redis_window +
  assumes decr_reply: "wf s \<Longrightarrow> cell_int (view t s k) = Some n \<Longrightarrow> fst (srv t [''DECR'', k] s) = Result (RInt (n - 1))"
    and decr_view: "wf s \<Longrightarrow> cell_int (view t s k) = Some n \<Longrightarrow>
      view t (snd (srv t [''DECR'', k] s)) = (view t s)(k \<mapsto> int_cell (n - 1) (cell_exp (view t s k)))"
    and setnew_reply: "wf s \<Longrightarrow> fst (srv t [''SET'', k, v, ''NX''] s) =
      Result (if view t s k = None then RStr ''OK'' else RNull)"
    and setnew_view: "wf s \<Longrightarrow> view t (snd (srv t [''SET'', k, v, ''NX''] s)) =
      (if view t s k = None then (view t s)(k \<mapsto> (VStr v, None)) else view t s)"

lemma upper_decr [simp]: "toUpperCase ''DECR'' = ''DECR''"
  by code_simp

lemma run_decr: "runOne t [''DECR'', k] s = runIncr t k (- 1) s"
  by (simp add: runOne_basic runBasic_def)

lemma runSet_new:
  "kv_wf s \<Longrightarrow> runSet t k [k, v, ''NX''] s =
    (if cell t s k = None then (Result (RStr ''OK''), setUntil k None (setString k v (touch t k s)))
     else (Result RNull, touch t k s))"
  by (simp add: runSet_simps)

interpretation fakec: redis_commands runOne cell kv_wf
proof (unfold_locales, goal_cases)
  case (1 s t k n)
  then show ?case by (simp add: run_decr runIncr_eq)
next
  case (2 s t k n)
  then show ?case by (simp add: run_decr runIncr_eq)
next
  case (3 s t k v)
  then show ?case by (simp add: run_simps runSet_new)
next
  case (4 s t k v)
  then show ?case by (simp add: run_simps runSet_new cell_write_plain)
qed

type_synonym kv_view = "string \<Rightarrow> cell option"

datatype cmd =
    Get string | Put string string | PutFor string string int | PutNew string string | PutNewFor string string int | Drop string | Take string | Bump string | Unbump string

primrec render :: "cmd \<Rightarrow> string list" where
  "render (Get k) = [''GET'', k]"
| "render (Put k v) = [''SET'', k, v]"
| "render (PutFor k v n) = [''SET'', k, v, ''EX'', show_int n]"
| "render (PutNew k v) = [''SET'', k, v, ''NX'']"
| "render (PutNewFor k v n) = [''SET'', k, v, ''NX'', ''EX'', show_int n]"
| "render (Drop k) = [''DEL'', k]"
| "render (Take k) = [''GETDEL'', k]"
| "render (Bump k) = [''INCR'', k]"
| "render (Unbump k) = [''DECR'', k]"

primrec fits :: "cmd \<Rightarrow> kv_view \<Rightarrow> bool" where
  "fits (Get k) v \<longleftrightarrow> strish (v k)"
| "fits (Put k x) v \<longleftrightarrow> True"
| "fits (PutFor k x n) v \<longleftrightarrow> 0 < n"
| "fits (PutNew k x) v \<longleftrightarrow> True"
| "fits (PutNewFor k x n) v \<longleftrightarrow> 0 < n"
| "fits (Drop k) v \<longleftrightarrow> True"
| "fits (Take k) v \<longleftrightarrow> strish (v k)"
| "fits (Bump k) v \<longleftrightarrow> is_counter (v k)"
| "fits (Unbump k) v \<longleftrightarrow> is_counter (v k)"

primrec said :: "cmd \<Rightarrow> kv_view \<Rightarrow> rval" where
  "said (Get k) v = str_reply (cell_str (v k))"
| "said (Put k x) v = RStr ''OK''"
| "said (PutFor k x n) v = RStr ''OK''"
| "said (PutNew k x) v = (if v k = None then RStr ''OK'' else RNull)"
| "said (PutNewFor k x n) v = (if v k = None then RStr ''OK'' else RNull)"
| "said (Drop k) v = RInt (if v k = None then 0 else 1)"
| "said (Take k) v = str_reply (cell_str (v k))"
| "said (Bump k) v = RInt (counter (v k) + 1)"
| "said (Unbump k) v = RInt (counter (v k) - 1)"

primrec left :: "int \<Rightarrow> cmd \<Rightarrow> kv_view \<Rightarrow> kv_view" where
  "left t (Get k) v = v"
| "left t (Put k x) v = v(k \<mapsto> (VStr x, None))"
| "left t (PutFor k x n) v = v(k \<mapsto> (VStr x, Some (t + n * 1000)))"
| "left t (PutNew k x) v = (if v k = None then v(k \<mapsto> (VStr x, None)) else v)"
| "left t (PutNewFor k x n) v = (if v k = None then v(k \<mapsto> (VStr x, Some (t + n * 1000))) else v)"
| "left t (Drop k) v = v(k := None)"
| "left t (Take k) v = v(k := None)"
| "left t (Bump k) v = v(k \<mapsto> int_cell (counter (v k) + 1) (cell_exp (v k)))"
| "left t (Unbump k) v = v(k \<mapsto> int_cell (counter (v k) - 1) (cell_exp (v k)))"

fun fitAll :: "int \<Rightarrow> cmd list \<Rightarrow> kv_view \<Rightarrow> bool" where
  "fitAll t [] v \<longleftrightarrow> True"
| "fitAll t (c # cs) v \<longleftrightarrow> fits c v \<and> fitAll t cs (left t c v)"

fun saidAll :: "int \<Rightarrow> cmd list \<Rightarrow> kv_view \<Rightarrow> rval list" where
  "saidAll t [] v = []"
| "saidAll t (c # cs) v = said c v # saidAll t cs (left t c v)"

definition leftAll :: "int \<Rightarrow> cmd list \<Rightarrow> kv_view \<Rightarrow> kv_view" where
  "leftAll t cs v = fold (left t) cs v"

lemma leftAll_simps [simp]: "leftAll t [] v = v" "leftAll t (c # cs) v = leftAll t cs (left t c v)"
  by (simp_all add: leftAll_def)

lemma fitAll_take: "fitAll t cs v \<Longrightarrow> fitAll t (take n cs) v"
  by (induction cs arbitrary: n v) (auto simp: take_Cons split: nat.splits)

lemma fitAll_append: "fitAll t (cs @ ds) v \<longleftrightarrow> fitAll t cs v \<and> fitAll t ds (leftAll t cs v)"
  by (induction cs arbitrary: v) auto

lemma saidAll_append: "saidAll t (cs @ ds) v = saidAll t cs v @ saidAll t ds (leftAll t cs v)"
  by (induction cs arbitrary: v) auto

lemma leftAll_append [simp]: "leftAll t (cs @ ds) v = leftAll t ds (leftAll t cs v)"
  by (simp add: leftAll_def)

lemma length_saidAll [simp]: "length (saidAll t cs v) = length cs"
  by (induction cs arbitrary: v) auto

context redis_commands
begin

lemma render_exec:
  assumes "wf s" "fits c (view t s)"
  shows "fst (srv t (render c) s) = Result (said c (view t s))" "view t (snd (srv t (render c) s)) = left t c (view t s)"
  using assms get_reply get_view set_reply set_view setex_reply setex_view setnx_reply setnx_view setnew_reply setnew_view del_reply del_view getdel_reply getdel_view
    incr_reply [OF assms(1) is_counter_int] incr_view [OF assms(1) is_counter_int]
    decr_reply [OF assms(1) is_counter_int] decr_view [OF assms(1) is_counter_int]
  by (cases c; simp)+

lemma execAll_render:
  assumes "wf s" "fitAll t cs (view t s)"
  shows "\<exists>s'. execAll srv t (map render cs) s = (map Result (saidAll t cs (view t s)), s') \<and> wf s' \<and>
    view t s' = leftAll t cs (view t s)"
  using assms
proof (induction cs arbitrary: s)
  case (Cons c cs)
  define s1 where "s1 = snd (srv t (render c) s)"
  have s1: "srv t (render c) s = (Result (said c (view t s)), s1)" "view t s1 = left t c (view t s)" "wf s1"
    using render_exec [OF Cons.prems(1)] Cons.prems srv_wf by (simp_all add: s1_def prod_eq_iff)
  have "fitAll t cs (view t s1)" using Cons.prems(2) s1(2) by simp
  from Cons.IH [OF s1(3) this] s1 show ?case by auto
qed simp

text \<open>One round trip: answered in full, or lost after some of its commands.\<close>

lemma pipeline_render:
  assumes "wf (kvs w)" "fitAll (clock w) cs (view (clock w) (kvs w))"
  shows "\<exists>n w'. pipeline srv (map render cs) w =
      (if n = length cs \<and> (\<forall>m ns. nets w \<noteq> Lost m # ns) then Inr (map Result (saidAll (clock w) cs (view (clock w) (kvs w))))
       else Inl ''caps store unavailable'', w') \<and>
    wf (kvs w') \<and> env w' = env w \<and> clock w' = clock w \<and> nets w' = drop 1 (nets w) \<and>
    view (clock w) (kvs w') = leftAll (clock w) (take n cs) (view (clock w) (kvs w)) \<and> (nets w = [] \<longrightarrow> n = length cs)"
proof (cases "\<exists>m ns. nets w = Lost m # ns")
  case True
  then obtain m ns where lost: "nets w = Lost m # ns" by blast
  obtain s' where "execAll srv (clock w) (map render (take m cs)) (kvs w) =
      (map Result (saidAll (clock w) (take m cs) (view (clock w) (kvs w))), s')" "wf s'"
      "view (clock w) s' = leftAll (clock w) (take m cs) (view (clock w) (kvs w))"
    using execAll_render [OF assms(1) fitAll_take [OF assms(2)], of m] by blast
  then show ?thesis using lost by (intro exI [of _ m]) (auto simp: pipeline_def take_map)
next
  case False
  obtain s' where "execAll srv (clock w) (map render cs) (kvs w) =
      (map Result (saidAll (clock w) cs (view (clock w) (kvs w))), s')" "wf s'"
      "view (clock w) s' = leftAll (clock w) cs (view (clock w) (kvs w))"
    using execAll_render [OF assms] by blast
  then show ?thesis using False
    by (intro exI [of _ "length cs"]) (auto simp: pipeline_def split: list.splits net.splits)
qed

lemma pipeline_render_online:
  assumes "wf (kvs w)" "online w" "fitAll (clock w) cs (view (clock w) (kvs w))"
  shows "\<exists>s'. pipeline srv (map render cs) w = (Inr (map Result (saidAll (clock w) cs (view (clock w) (kvs w)))), w\<lparr>kvs := s'\<rparr>) \<and>
    wf s' \<and> view (clock w) s' = leftAll (clock w) cs (view (clock w) (kvs w))"
  using execAll_render [OF assms(1,3)] assms(2) by (auto simp: pipeline_online)

end

end
