(* ===== verification/Pilot.thy ===== *)
theory Pilot
  imports KvCommands Caps
begin

text \<open>
  apps/sponsor/src/lib/pilot.ts: who may move real money and how often.  A wallet's application is
  four keys of the shared store (the allowlist flag, the spend counter, the recorded status, the
  revoked flag) beside its contact; a send reserves a slot by an INCR and gives it back by a DECR; an owner's
  emailed link carries an HMAC over the action, the wallet and an expiry.  SHA-256 and HMAC are
  arguments of the definitions that use them.  \<open>pilot_view\<close> is the abstract state an application has,
  \<open>pilot_spec\<close> what each operation does to it; \<open>pilot_do\<close> runs sends of many wallets command by command.
\<close>

subsection \<open>Approval links\<close>

definition APPROVE_TTL_SEC :: int where
  "APPROVE_TTL_SEC = 7 * 24 * 60 * 60"

definition pilotEnabled :: "environ \<Rightarrow> bool" where
  "pilotEnabled e \<longleftrightarrow> e ''PILOT_MODE'' = Some ''1''"

definition approveSecret :: "environ \<Rightarrow> string option" where
  "approveSecret e = (case e ''PILOT_APPROVE_TOKEN'' of Some s \<Rightarrow> if s = [] then None else Some s | None \<Rightarrow> None)"

text \<open>The comparison without an early exit.\<close>

fun diffBits :: "string \<Rightarrow> string \<Rightarrow> nat \<Rightarrow> nat" where
  "diffBits (x # xs) (y # ys) d = diffBits xs ys (or d (xor (code x) (code y)))"
| "diffBits _ _ d = d"

definition timingSafeEqualHex :: "string \<Rightarrow> string \<Rightarrow> bool" where
  "timingSafeEqualHex a b \<longleftrightarrow> length a = length b \<and> diffBits a b 0 = 0"

datatype approval = Approve | Reject

definition actionText :: "approval \<Rightarrow> string" where
  "actionText a = (case a of Approve \<Rightarrow> ''approve'' | Reject \<Rightarrow> ''reject'')"

definition approvalMessage :: "approval \<Rightarrow> string \<Rightarrow> int \<Rightarrow> string" where
  "approvalMessage a pubkey expiry = actionText a @ '':'' @ pubkey @ '':'' @ show_int expiry"

text \<open>\<open>hmac secret message\<close> is the HMAC-SHA256 in hex.\<close>

definition mintApprovalToken :: "(string \<Rightarrow> string \<Rightarrow> string) \<Rightarrow> environ \<Rightarrow> approval \<Rightarrow> string \<Rightarrow> int \<Rightarrow> (string \<times> int) option" where
  "mintApprovalToken hmac e a pubkey nowMs = (case approveSecret e of None \<Rightarrow> None
     | Some secret \<Rightarrow> (let expiry = nowMs div 1000 + APPROVE_TTL_SEC in Some (hmac secret (approvalMessage a pubkey expiry), expiry)))"

definition lowerHex :: "nat \<Rightarrow> string \<Rightarrow> bool" where
  "lowerHex n s \<longleftrightarrow> length s = n \<and> list_all (\<lambda>c. is_digit c \<or> (97 \<le> code c \<and> code c \<le> 102)) s"

definition verifyApprovalToken :: "(string \<Rightarrow> string \<Rightarrow> string) \<Rightarrow> environ \<Rightarrow> approval \<Rightarrow> string \<Rightarrow> string \<Rightarrow> string \<Rightarrow> int \<Rightarrow> bool" where
  "verifyApprovalToken hmac e a pubkey token rawExp nowMs = (case approveSecret e of None \<Rightarrow> False
     | Some secret \<Rightarrow> lowerHex 64 token \<and> (case parseInt rawExp of None \<Rightarrow> False
         | Some expiry \<Rightarrow> \<not> expiry * 1000 < nowMs \<and> timingSafeEqualHex token (hmac secret (approvalMessage a pubkey expiry))))"

subsection \<open>Keys and reads\<close>

definition maxTx :: "environ \<Rightarrow> int" where
  "maxTx e = (case parseInt (case e ''PILOT_MAX_TX'' of Some v \<Rightarrow> v | None \<Rightarrow> ''5'') of
       Some n \<Rightarrow> if 0 < n then n else 5 | None \<Rightarrow> 5)"

definition pilotLimit :: "environ \<Rightarrow> int" where
  "pilotLimit e = maxTx e"

definition shortAddress :: "string \<Rightarrow> string" where
  "shortAddress pubkey = (if 12 < length pubkey then take 6 pubkey @ ''...'' @ drop (length pubkey - 6) pubkey else pubkey)"

definition pilotKey :: "environ \<Rightarrow> string \<Rightarrow> string \<Rightarrow> string" where
  "pilotKey e kind pk = ''pilot:'' @ network_of e @ '':'' @ kind @ '':'' @ pk"

abbreviation "apprKey e \<equiv> pilotKey e ''appr''"
abbreviation "txKey e \<equiv> pilotKey e ''tx''"
abbreviation "statusKey e \<equiv> pilotKey e ''status''"
abbreviation "emailKey e \<equiv> pilotKey e ''email''"
abbreviation "srcKey e \<equiv> pilotKey e ''src''"
abbreviation "mailedKey e \<equiv> pilotKey e ''mailed''"
abbreviation "revokedKey e \<equiv> pilotKey e ''revoked''"

definition PILOT_EMAIL_RETENTION_SECONDS :: int where "PILOT_EMAIL_RETENTION_SECONDS = 90 * 24 * 60 * 60"
definition PILOT_MAILED_SECONDS :: int where "PILOT_MAILED_SECONDS = 7 * 24 * 60 * 60"

definition cleanEmail :: "string \<Rightarrow> string" where
  "cleanEmail email = toLowerCase (trim email)"

text \<open>\<open>sha\<close> is SHA-256 in hex.\<close>

definition seenEmailKey :: "(string \<Rightarrow> string) \<Rightarrow> environ \<Rightarrow> string \<Rightarrow> string" where
  "seenEmailKey sha e email = pilotKey e ''seen'' (sha (cleanEmail email))"

text \<open>One round trip; the first command that failed throws.\<close>

fun pipeRows :: "reply list \<Rightarrow> string + rval list" where
  "pipeRows [] = Inr []"
| "pipeRows (Err e # rs) = (if e \<noteq> [] then Inl (''pilot store error: '' @ e)
     else (case pipeRows rs of Inl x \<Rightarrow> Inl x | Inr xs \<Rightarrow> Inr (RNull # xs)))"
| "pipeRows (Result r # rs) = (case pipeRows rs of Inl x \<Rightarrow> Inl x | Inr xs \<Rightarrow> Inr (r # xs))"

definition pipe :: "'k server \<Rightarrow> string list list \<Rightarrow> 'k world \<Rightarrow> (string + rval list) \<times> 'k world" where
  "pipe srv cmds w = (case pipeline srv cmds w of (Inl e, w1) \<Rightarrow> (Inl e, w1) | (Inr rs, w1) \<Rightarrow> (pipeRows rs, w1))"

text \<open>\<open>Number(v ?? 0)\<close>; \<open>None\<close> is NaN.\<close>

definition numberOf :: "rval \<Rightarrow> int option" where
  "numberOf v = (case v of RNull \<Rightarrow> Some 0 | RInt n \<Rightarrow> Some n | RStr s \<Rightarrow> parse_bigint s | RList xs \<Rightarrow> None)"

datatype pilot_state = NoState | Pending | Approved | Rejected

definition stateText :: "pilot_state \<Rightarrow> string" where
  "stateText s = (case s of NoState \<Rightarrow> ''none'' | Pending \<Rightarrow> ''pending'' | Approved \<Rightarrow> ''approved'' | Rejected \<Rightarrow> ''rejected'')"

definition stateOf :: "rval \<Rightarrow> pilot_state option" where
  "stateOf v = (case v of RStr s \<Rightarrow> (if s = ''none'' then Some NoState else if s = ''pending'' then Some Pending
       else if s = ''approved'' then Some Approved else if s = ''rejected'' then Some Rejected else None) | _ \<Rightarrow> None)"

record standing =
  state :: pilot_state
  approved :: bool
  revoked :: bool

definition readState :: "rval \<Rightarrow> rval \<Rightarrow> rval \<Rightarrow> standing" where
  "readState st appr revokedFlag = (let ok = (appr = RStr ''1''); recorded = stateOf st in
     if recorded = Some Approved \<and> \<not> ok then \<lparr>state = Rejected, approved = False, revoked = True\<rparr>
     else \<lparr>state = (case recorded of Some s \<Rightarrow> s | None \<Rightarrow> if ok then Approved else NoState), approved = ok,
       revoked = (revokedFlag = RStr ''1'')\<rparr>)"

subsection \<open>Admission\<close>

datatype pilot_refusal = ListUnavailable | ListUnreadable string | NotOnList | CounterUnavailable string | LimitReached int

text \<open>An admission's \<open>release\<close> is \<open>releasePilot\<close> of the wallet.\<close>

definition releasePilot :: "'k server \<Rightarrow> string \<Rightarrow> 'k world \<Rightarrow> 'k world" where
  "releasePilot srv pk w = snd (pipe srv [[''DECR'', txKey (env w) pk]] w)"

definition enforcePilot :: "'k server \<Rightarrow> string \<Rightarrow> 'k world \<Rightarrow> pilot_refusal option \<times> 'k world" where
  "enforcePilot srv pk w = (if \<not> kvConfigured w then (Some ListUnavailable, w)
     else (case pipe srv [[''GET'', apprKey (env w) pk]] w of
         (Inl e, w1) \<Rightarrow> (Some (ListUnreadable e), w1)
       | (Inr xs, w1) \<Rightarrow> if xs ! 0 \<noteq> RStr ''1'' then (Some NotOnList, w1)
           else (case pipe srv [[''INCR'', txKey (env w) pk]] w1 of
               (Inl e, w2) \<Rightarrow> (Some (CounterUnavailable e), w2)
             | (Inr ys, w2) \<Rightarrow> (case numberOf (ys ! 0) of
                   Some used \<Rightarrow> if maxTx (env w) < used then (Some (LimitReached (maxTx (env w))), releasePilot srv pk w2) else (None, w2)
                 | None \<Rightarrow> (None, w2)))))"

subsection \<open>Applications\<close>

record start_answer =
  created :: bool
  startState :: string
  collidesWith :: "string option"

text \<open>The unsigned ask; \<open>Inl\<close> where a store problem throws.\<close>

definition fileUnsigned :: "'k server \<Rightarrow> (string \<Rightarrow> string) \<Rightarrow> string \<Rightarrow> string \<Rightarrow> 'k world \<Rightarrow> (string + start_answer) \<times> 'k world" where
  "fileUnsigned srv sha pk email w = (let e = env w in
     case pipe srv [[''SET'', statusKey e pk, ''pending''],
         [''SET'', seenEmailKey sha e (cleanEmail email), pk, ''EX'', show_int PILOT_EMAIL_RETENTION_SECONDS],
         [''SET'', emailKey e pk, cleanEmail email, ''EX'', show_int PILOT_EMAIL_RETENTION_SECONDS]] w of
       (Inl x, w1) \<Rightarrow> (Inl x, w1)
     | (Inr ys, w1) \<Rightarrow> (Inr \<lparr>created = True, startState = ''pending'', collidesWith = None\<rparr>, w1))"

definition startPilotRequest :: "'k server \<Rightarrow> (string \<Rightarrow> string) \<Rightarrow> string \<Rightarrow> string \<Rightarrow> 'k world \<Rightarrow> (string + start_answer) \<times> 'k world" where
  "startPilotRequest srv sha pk email w = (let e = env w in
     if \<not> kvConfigured w then (Inr \<lparr>created = True, startState = ''pending'', collidesWith = None\<rparr>, w)
     else (case pipe srv [[''GET'', statusKey e pk], [''GET'', seenEmailKey sha e (cleanEmail email)]] w of
         (Inl x, w1) \<Rightarrow> (Inl x, w1)
       | (Inr xs, w1) \<Rightarrow> (let existing = (case xs ! 0 of RStr s \<Rightarrow> s | _ \<Rightarrow> ''none'') in
           if existing \<noteq> ''none'' then (Inr \<lparr>created = False, startState = existing, collidesWith = None\<rparr>, w1)
           else (case xs ! 1 of
               RStr other \<Rightarrow> if other \<noteq> pk then (Inr \<lparr>created = False, startState = ''pending'', collidesWith = Some other\<rparr>, w1)
                 else fileUnsigned srv sha pk email w1
             | _ \<Rightarrow> fileUnsigned srv sha pk email w1))))"

datatype owner_mail = RequestMail | MoreSendsMail

record filing =
  filedState :: pilot_state
  already :: bool
  ownerMail :: "owner_mail option"
  otherWallet :: "(string \<times> pilot_state) option"
  usedSlots :: "int option"
  slotLimit :: int

text \<open>The contact, the email's latest wallet and where the ask came from, refreshed on every signed ask.\<close>

definition refreshCmds :: "(string \<Rightarrow> string) \<Rightarrow> environ \<Rightarrow> string \<Rightarrow> string \<Rightarrow> string option \<Rightarrow> string list list" where
  "refreshCmds sha e pk email src =
     [[''SET'', emailKey e pk, cleanEmail email, ''EX'', show_int PILOT_EMAIL_RETENTION_SECONDS],
      [''SET'', seenEmailKey sha e (cleanEmail email), pk, ''EX'', show_int PILOT_EMAIL_RETENTION_SECONDS]] @
     (case src of None \<Rightarrow> [] | Some s \<Rightarrow> [[''SET'', srcKey e pk, s, ''EX'', show_int PILOT_EMAIL_RETENTION_SECONDS]])"

text \<open>The other wallet that last asked with this email, and where it stands.\<close>

definition readOther :: "'k server \<Rightarrow> rval \<Rightarrow> string \<Rightarrow> 'k world \<Rightarrow> (string + (string \<times> pilot_state) option) \<times> 'k world" where
  "readOther srv seen pk w = (case seen of
       RStr other \<Rightarrow> if other = [] \<or> other = pk then (Inr None, w)
         else (case pipe srv [[''GET'', statusKey (env w) other], [''GET'', apprKey (env w) other], [''GET'', revokedKey (env w) other]] w of
             (Inl x, w1) \<Rightarrow> (Inl x, w1)
           | (Inr ys, w1) \<Rightarrow> (Inr (Some (other, state (readState (ys ! 0) (ys ! 1) (ys ! 2)))), w1))
     | _ \<Rightarrow> (Inr None, w))"

text \<open>What the owner is mailed about an ask that changed nothing.\<close>

definition repeatMail :: "pilot_state \<Rightarrow> bool \<Rightarrow> int option \<Rightarrow> int \<Rightarrow> owner_mail option" where
  "repeatMail s recentlyMailed used limit = (case s of
       Pending \<Rightarrow> if recentlyMailed then None else Some RequestMail
     | Approved \<Rightarrow> (case used of Some u \<Rightarrow> if limit \<le> u \<and> \<not> recentlyMailed then Some MoreSendsMail else None | None \<Rightarrow> None)
     | _ \<Rightarrow> None)"

definition filePilotRequest :: "'k server \<Rightarrow> (string \<Rightarrow> string) \<Rightarrow> string \<Rightarrow> string \<Rightarrow> string option \<Rightarrow> 'k world \<Rightarrow> (string + filing) \<times> 'k world" where
  "filePilotRequest srv sha pk email src w = (let e = env w; refresh = refreshCmds sha e pk email src in
     if \<not> kvConfigured w then (Inl ''pilot store not configured'', w)
     else (case pipe srv [[''GET'', statusKey e pk], [''GET'', apprKey e pk], [''GET'', txKey e pk], [''GET'', revokedKey e pk],
           [''GET'', seenEmailKey sha e (cleanEmail email)], [''GET'', mailedKey e pk]] w of
         (Inl x, w1) \<Rightarrow> (Inl x, w1)
       | (Inr xs, w1) \<Rightarrow> (let now = readState (xs ! 0) (xs ! 1) (xs ! 3); used = numberOf (xs ! 2); recently = (xs ! 5 = RStr ''1'') in
           case readOther srv (xs ! 4) pk w1 of
             (Inl x, w2) \<Rightarrow> (Inl x, w2)
           | (Inr other, w2) \<Rightarrow> (let filed = (\<lambda>s a m. \<lparr>filedState = s, already = a, ownerMail = m, otherWallet = other,
                   usedSlots = used, slotLimit = maxTx e\<rparr>) in
               if state now = NoState
               then (case pipe srv ([''SET'', statusKey e pk, ''pending'', ''NX''] # refresh) w2 of
                   (Inl x, w3) \<Rightarrow> (Inl x, w3)
                 | (Inr ys, w3) \<Rightarrow> if ys ! 0 = RStr ''OK'' then (Inr (filed Pending False (Some RequestMail)), w3)
                     else (Inr (filed Pending True (repeatMail Pending recently used (maxTx e))), w3))
               else (case pipe srv refresh w2 of
                   (Inl x, w3) \<Rightarrow> (Inl x, w3)
                 | (Inr ys, w3) \<Rightarrow> (Inr (filed (state now) True (repeatMail (state now) recently used (maxTx e))), w3))))))"

definition markOwnerMailed :: "'k server \<Rightarrow> string \<Rightarrow> 'k world \<Rightarrow> (string + unit) \<times> 'k world" where
  "markOwnerMailed srv pk w = (if \<not> kvConfigured w then (Inr (), w)
     else (case pipe srv [[''SET'', mailedKey (env w) pk, ''1'', ''EX'', show_int PILOT_MAILED_SECONDS]] w of
         (Inl x, w1) \<Rightarrow> (Inl x, w1) | (Inr xs, w1) \<Rightarrow> (Inr (), w1)))"

definition ownerMailedRecently :: "'k server \<Rightarrow> string \<Rightarrow> 'k world \<Rightarrow> (string + bool) \<times> 'k world" where
  "ownerMailedRecently srv pk w = (if \<not> kvConfigured w then (Inr False, w)
     else (case pipe srv [[''GET'', mailedKey (env w) pk]] w of
         (Inl x, w1) \<Rightarrow> (Inl x, w1) | (Inr xs, w1) \<Rightarrow> (Inr (xs ! 0 = RStr ''1''), w1)))"

definition getPilotSrc :: "'k server \<Rightarrow> string \<Rightarrow> 'k world \<Rightarrow> string option \<times> 'k world" where
  "getPilotSrc srv pk w = (if \<not> kvConfigured w then (None, w)
     else (case pipe srv [[''GET'', srcKey (env w) pk]] w of
         (Inl x, w1) \<Rightarrow> (None, w1)
       | (Inr xs, w1) \<Rightarrow> (case xs ! 0 of RStr s \<Rightarrow> if s = ''web'' \<or> s = ''ext'' then Some s else None | _ \<Rightarrow> None, w1)))"

definition isPilotApproved :: "'k server \<Rightarrow> string \<Rightarrow> 'k world \<Rightarrow> (string + bool) \<times> 'k world" where
  "isPilotApproved srv pk w = (if \<not> kvConfigured w then (Inl ''pilot store not configured'', w)
     else (case pipe srv [[''GET'', apprKey (env w) pk]] w of
         (Inl x, w1) \<Rightarrow> (Inl x, w1) | (Inr xs, w1) \<Rightarrow> (Inr (xs ! 0 = RStr ''1''), w1)))"

definition getPilotState :: "'k server \<Rightarrow> string \<Rightarrow> 'k world \<Rightarrow> pilot_state \<times> 'k world" where
  "getPilotState srv pk w = (let e = env w in if \<not> kvConfigured w then (NoState, w)
     else (case pipe srv [[''GET'', statusKey e pk], [''GET'', apprKey e pk], [''GET'', revokedKey e pk]] w of
         (Inl x, w1) \<Rightarrow> (state (readState RNull RNull RNull), w1)
       | (Inr xs, w1) \<Rightarrow> (state (readState (xs ! 0) (xs ! 1) (xs ! 2)), w1)))"

subsection \<open>The owner's decisions\<close>

text \<open>\<open>Inl\<close> where the code throws: no store, or a store that did not answer.\<close>

definition ownerDoes :: "'k server \<Rightarrow> string list list \<Rightarrow> 'k world \<Rightarrow> (string + rval list) \<times> 'k world" where
  "ownerDoes srv cmds w = (if \<not> kvConfigured w then (Inl ''pilot store not configured'', w) else pipe srv cmds w)"

definition approvePilot :: "'k server \<Rightarrow> string \<Rightarrow> 'k world \<Rightarrow> (string + rval list) \<times> 'k world" where
  "approvePilot srv pk w = (let e = env w in ownerDoes srv
     [[''SET'', apprKey e pk, ''1''], [''SET'', txKey e pk, ''0'', ''NX''], [''SET'', statusKey e pk, ''approved''],
      [''DEL'', revokedKey e pk], [''DEL'', mailedKey e pk]] w)"

text \<open>What it was, \<open>None\<close> for NaN.\<close>

definition resetPilotBudget :: "'k server \<Rightarrow> string \<Rightarrow> 'k world \<Rightarrow> (string + int option) \<times> 'k world" where
  "resetPilotBudget srv pk w = (let e = env w in case ownerDoes srv [[''GET'', txKey e pk]] w of
       (Inl x, w1) \<Rightarrow> (Inl x, w1)
     | (Inr xs, w1) \<Rightarrow> (case pipe srv [[''SET'', txKey e pk, ''0''], [''DEL'', mailedKey e pk]] w1 of
           (Inl x, w2) \<Rightarrow> (Inl x, w2) | (Inr ys, w2) \<Rightarrow> (Inr (numberOf (xs ! 0)), w2)))"

definition rejectPilot :: "'k server \<Rightarrow> string \<Rightarrow> 'k world \<Rightarrow> (string + rval list) \<times> 'k world" where
  "rejectPilot srv pk w = (let e = env w in ownerDoes srv
     [[''SET'', statusKey e pk, ''rejected''], [''DEL'', apprKey e pk], [''DEL'', revokedKey e pk]] w)"

text \<open>The command that forgets the email's latest wallet, when it is this one.\<close>

definition seenDel :: "'k server \<Rightarrow> (string \<Rightarrow> string) \<Rightarrow> string \<Rightarrow> rval \<Rightarrow> 'k world \<Rightarrow> (string + string list list) \<times> 'k world" where
  "seenDel srv sha pk email w = (case email of
       RStr m \<Rightarrow> if m = [] then (Inr [], w)
         else (case pipe srv [[''GET'', seenEmailKey sha (env w) m]] w of
             (Inl x, w1) \<Rightarrow> (Inl x, w1)
           | (Inr ys, w1) \<Rightarrow> (Inr (if ys ! 0 = RStr pk then [[''DEL'', seenEmailKey sha (env w) m]] else []), w1))
     | _ \<Rightarrow> (Inr [], w))"

definition revokePilot :: "'k server \<Rightarrow> (string \<Rightarrow> string) \<Rightarrow> string \<Rightarrow> 'k world \<Rightarrow> (string + rval list) \<times> 'k world" where
  "revokePilot srv sha pk w = (let e = env w in case ownerDoes srv [[''GET'', emailKey e pk]] w of
       (Inl x, w1) \<Rightarrow> (Inl x, w1)
     | (Inr xs, w1) \<Rightarrow> (case seenDel srv sha pk (xs ! 0) w1 of
           (Inl x, w2) \<Rightarrow> (Inl x, w2)
         | (Inr del, w2) \<Rightarrow> pipe srv ([[''DEL'', apprKey e pk], [''DEL'', emailKey e pk], [''SET'', statusKey e pk, ''rejected''],
             [''SET'', revokedKey e pk, ''1'']] @ del) w2))"

record status_answer =
  statusOf :: standing
  statusUsed :: "int option"
  statusLimit :: int

definition pilotStatus :: "'k server \<Rightarrow> string \<Rightarrow> 'k world \<Rightarrow> (string + status_answer) \<times> 'k world" where
  "pilotStatus srv pk w = (let e = env w in
     case ownerDoes srv [[''GET'', apprKey e pk], [''GET'', txKey e pk], [''GET'', statusKey e pk], [''GET'', revokedKey e pk]] w of
       (Inl x, w1) \<Rightarrow> (Inl x, w1)
     | (Inr xs, w1) \<Rightarrow> (Inr \<lparr>statusOf = readState (xs ! 2) (xs ! 0) (xs ! 3), statusUsed = numberOf (xs ! 1), statusLimit = maxTx e\<rparr>, w1))"

text \<open>The contact, best effort.\<close>

definition storePilotEmail :: "'k server \<Rightarrow> string \<Rightarrow> string \<Rightarrow> 'k world \<Rightarrow> 'k world" where
  "storePilotEmail srv pk email w = (if \<not> kvConfigured w then w
     else snd (pipe srv [[''SET'', emailKey (env w) pk, email, ''EX'', show_int PILOT_EMAIL_RETENTION_SECONDS]] w))"

definition forgetPilotEmail :: "'k server \<Rightarrow> string \<Rightarrow> 'k world \<Rightarrow> 'k world" where
  "forgetPilotEmail srv pk w = (if \<not> kvConfigured w then w else snd (pipe srv [[''DEL'', emailKey (env w) pk]] w))"

definition getPilotEmail :: "'k server \<Rightarrow> string \<Rightarrow> 'k world \<Rightarrow> string option \<times> 'k world" where
  "getPilotEmail srv pk w = (if \<not> kvConfigured w then (None, w)
     else (case pipe srv [[''GET'', emailKey (env w) pk]] w of
         (Inl x, w1) \<Rightarrow> (None, w1)
       | (Inr xs, w1) \<Rightarrow> (case xs ! 0 of RStr m \<Rightarrow> if m = [] then None else Some m | _ \<Rightarrow> None, w1)))"

subsection \<open>The owner's list\<close>

text \<open>The SCAN walk: \<open>n\<close> is how many pages may still follow; the 1001st page throws.\<close>

fun scanPages :: "'k server \<Rightarrow> string \<Rightarrow> nat \<Rightarrow> string \<Rightarrow> string list \<Rightarrow> 'k world \<Rightarrow> (string + string list) \<times> 'k world" where
  "scanPages srv prefix n cursor ks w =
     (case pipe srv [[''SCAN'', cursor, ''MATCH'', prefix @ ''*'', ''COUNT'', ''500'']] w of
         (Inl x, w1) \<Rightarrow> (Inl x, w1)
       | (Inr xs, w1) \<Rightarrow> (case xs of
           RList [c, RList page] # _ \<Rightarrow> (let next = (case c of RStr s \<Rightarrow> s | RInt i \<Rightarrow> show_int i | _ \<Rightarrow> ''null'');
               ks' = ks @ concat (map (\<lambda>r. case r of RStr s \<Rightarrow> [s] | _ \<Rightarrow> []) page) in
             (case n of 0 \<Rightarrow> (Inl ''pilot store SCAN did not terminate'', w1)
              | Suc m \<Rightarrow> if next = ''0'' then (Inr ks', w1) else scanPages srv prefix m next ks' w1))
         | _ \<Rightarrow> (Inl ''not iterable'', w1)))"

record pilot_row =
  rowWallet :: string
  rowStanding :: standing
  hasEmail :: bool
  rowSrc :: "string option"

fun listRows :: "string list \<Rightarrow> rval list \<Rightarrow> pilot_row list" where
  "listRows (pk # pks) (st # email # appr # gone # src # rest) =
     \<lparr>rowWallet = pk, rowStanding = readState st appr gone, hasEmail = (case email of RStr m \<Rightarrow> m \<noteq> [] | _ \<Rightarrow> False),
       rowSrc = (case src of RStr s \<Rightarrow> if s = ''web'' \<or> s = ''ext'' then Some s else None | _ \<Rightarrow> None)\<rparr> # listRows pks rest"
| "listRows _ _ = []"

text \<open>\<open>before\<close> is \<open>localeCompare\<close> of two wallets; the sort is stable.\<close>

fun putInOrder :: "(string \<Rightarrow> string \<Rightarrow> bool) \<Rightarrow> pilot_row \<Rightarrow> pilot_row list \<Rightarrow> pilot_row list" where
  "putInOrder before x [] = [x]"
| "putInOrder before x (y # ys) = (if before (rowWallet y) (rowWallet x) then y # putInOrder before x ys else x # y # ys)"

definition listPilot :: "'k server \<Rightarrow> (string \<Rightarrow> string \<Rightarrow> bool) \<Rightarrow> pilot_state option \<Rightarrow> 'k world \<Rightarrow> (string + pilot_row list) \<times> 'k world" where
  "listPilot srv before only w = (let e = env w; prefix = pilotKey e ''status'' [] in
     if \<not> kvConfigured w then (Inl ''pilot store not configured'', w)
     else case scanPages srv prefix 1000 ''0'' [] w of
       (Inl x, w1) \<Rightarrow> (Inl x, w1)
     | (Inr ks, w1) \<Rightarrow> (let pks = rev (remdups (rev (map (drop (length prefix)) ks))) in
         if pks = [] then (Inr [], w1)
         else (case pipe srv (concat (map (\<lambda>pk. [[''GET'', statusKey e pk], [''GET'', emailKey e pk], [''GET'', apprKey e pk],
               [''GET'', revokedKey e pk], [''GET'', srcKey e pk]]) pks)) w1 of
             (Inl x, w2) \<Rightarrow> (Inl x, w2)
           | (Inr xs, w2) \<Rightarrow> (Inr (foldr (putInOrder before)
               (filter (\<lambda>r. only = None \<or> only = Some (state (rowStanding r))) (listRows pks xs)) []), w2))))"

subsection \<open>An approval link opens its own action\<close>

lemma xor_zero_iff: "xor a b = 0 \<longleftrightarrow> a = b" for a b :: nat
proof
  assume "xor a b = 0"
  then have "xor (xor a b) b = b" by simp
  then show "a = b" by (simp add: xor.assoc)
qed simp

lemma diffBits_zero: "length a = length b \<Longrightarrow> diffBits a b d = 0 \<longleftrightarrow> d = 0 \<and> a = b"
proof (induction a b d rule: diffBits.induct)
  case (1 x xs y ys d)
  have "xor (code x) (code y) = 0 \<longleftrightarrow> x = y" by (simp add: code_def xor_zero_iff)
  then show ?case using 1 by (auto simp: or_eq_0_iff)
qed auto

lemma timingSafeEqualHex_eq: "timingSafeEqualHex a b \<longleftrightarrow> a = b"
  using diffBits_zero [of a b 0] by (auto simp: timingSafeEqualHex_def)

lemma show_int_no_colon: "CHR '':'' \<notin> set (show_int n)"
proof -
  have "\<not> is_digit CHR '':''" by (simp add: is_digit_def code_def)
  then show ?thesis using show_nat_digits by (auto simp: show_int_def)
qed

lemma append_last_sep_eq:
  assumes "c \<notin> set b" "c \<notin> set d"
  shows "a @ c # b = e @ c # d \<longleftrightarrow> a = e \<and> b = d"
proof
  assume "a @ c # b = e @ c # d"
  then have "rev b @ c # rev a = rev d @ c # rev e" by (metis append.assoc append_Cons append_Nil rev.simps(2) rev_append)
  then show "a = e \<and> b = d" using append_sep_eq [of c "rev b" "rev d" "rev a" "rev e"] assms by simp
qed simp

lemma approvalMessage_inj: "approvalMessage a p m = approvalMessage b q n \<longleftrightarrow> a = b \<and> p = q \<and> m = n"
proof
  assume eq: "approvalMessage a p m = approvalMessage b q n"
  have no: "CHR '':'' \<notin> set (actionText x)" for x by (cases x) (simp_all add: actionText_def)
  from eq have "actionText a = actionText b" "p @ CHR '':'' # show_int m = q @ CHR '':'' # show_int n"
    using append_sep_eq [OF no no] by (auto simp: approvalMessage_def)
  then show "a = b \<and> p = q \<and> m = n"
    using append_last_sep_eq [OF show_int_no_colon show_int_no_colon, of p m q n] by (cases a; cases b) (simp_all add: actionText_def)
qed simp

text \<open>C24: an emailed link opens exactly what it was minted for: the same action, the same wallet, the expiry it
  carries, and not after it; seven days from when it was minted.  The HMAC is only asked for 64 hex digits and not to collide on the two messages
  at hand.\<close>

theorem approval_link_opens_its_action:
  assumes "mintApprovalToken hmac e a pk now = Some (token, expiry)" and "approveSecret e = Some secret"
    and "lowerHex 64 token"
    and "\<And>m. parseInt rawExp = Some m \<Longrightarrow> hmac secret (approvalMessage b q m) = hmac secret (approvalMessage a pk expiry) \<Longrightarrow>
      approvalMessage b q m = approvalMessage a pk expiry"
  shows "(verifyApprovalToken hmac e b q token rawExp later \<longleftrightarrow>
      b = a \<and> q = pk \<and> parseInt rawExp = Some expiry \<and> later \<le> expiry * 1000) \<and> expiry = now div 1000 + 604800"
proof -
  have t: "token = hmac secret (approvalMessage a pk expiry)" and x: "expiry = now div 1000 + 604800"
    using assms(1,2) by (auto simp: mintApprovalToken_def Let_def APPROVE_TTL_SEC_def)
  have "verifyApprovalToken hmac e b q token rawExp later \<longleftrightarrow>
      b = a \<and> q = pk \<and> parseInt rawExp = Some expiry \<and> later \<le> expiry * 1000"
  proof (cases "parseInt rawExp")
    case (Some m)
    have "hmac secret (approvalMessage b q m) = token \<longleftrightarrow> b = a \<and> q = pk \<and> m = expiry"
      using assms(4) [OF Some] t by (auto simp: approvalMessage_inj)
    then show ?thesis using Some assms(2,3) by (auto simp: verifyApprovalToken_def timingSafeEqualHex_eq)
  qed (simp add: verifyApprovalToken_def assms(2))
  then show ?thesis using x by simp
qed

subsection \<open>What a pilot application is\<close>

text \<open>The abstract state: where each wallet stands, what it has spent, its contact, and the latest wallet to
  have asked with an email (by the email's hash).\<close>

datatype pilot_phase = Unknown | Waiting | OnList | Declined | TakenOff

record pilot_abs =
  phase :: "string \<Rightarrow> pilot_phase"
  spent :: "string \<Rightarrow> int"
  contact :: "string \<Rightarrow> string option"
  latest :: "string \<Rightarrow> string option"

datatype pilot_op =
    OpApprove | OpReject | OpRevoke | OpReset | OpAsk string "string option" | OpAskUnsigned string
  | OpContact string | OpForget | OpSend | OpRelease

text \<open>What each operation does to it; \<open>limit\<close> is the sends a wallet has, \<open>sha\<close> hashes an email.\<close>

fun pilot_spec :: "(string \<Rightarrow> string) \<Rightarrow> int \<Rightarrow> pilot_op \<Rightarrow> string \<Rightarrow> pilot_abs \<Rightarrow> pilot_abs" where
  "pilot_spec sha limit OpApprove pk a = a\<lparr>phase := (phase a)(pk := OnList)\<rparr>"
| "pilot_spec sha limit OpReject pk a = a\<lparr>phase := (phase a)(pk := Declined)\<rparr>"
| "pilot_spec sha limit OpRevoke pk a = a\<lparr>phase := (phase a)(pk := TakenOff), contact := (contact a)(pk := None),
     latest := (case contact a pk of None \<Rightarrow> latest a
       | Some m \<Rightarrow> if m \<noteq> [] \<and> latest a (sha (cleanEmail m)) = Some pk then (latest a)(sha (cleanEmail m) := None) else latest a)\<rparr>"
| "pilot_spec sha limit OpReset pk a = a\<lparr>spent := (spent a)(pk := 0)\<rparr>"
| "pilot_spec sha limit (OpAsk email src) pk a = a\<lparr>phase := (phase a)(pk := if phase a pk = Unknown then Waiting else phase a pk),
     contact := (contact a)(pk \<mapsto> cleanEmail email), latest := (latest a)(sha (cleanEmail (cleanEmail email)) \<mapsto> pk)\<rparr>"
| "pilot_spec sha limit (OpAskUnsigned email) pk a = (let h = sha (cleanEmail (cleanEmail email)) in
     if phase a pk = Unknown \<and> (latest a h = None \<or> latest a h = Some pk)
     then a\<lparr>phase := (phase a)(pk := Waiting), contact := (contact a)(pk \<mapsto> cleanEmail email), latest := (latest a)(h \<mapsto> pk)\<rparr>
     else a)"
| "pilot_spec sha limit (OpContact email) pk a = a\<lparr>contact := (contact a)(pk \<mapsto> email)\<rparr>"
| "pilot_spec sha limit OpForget pk a = a\<lparr>contact := (contact a)(pk := None)\<rparr>"
| "pilot_spec sha limit OpSend pk a =
     (if phase a pk = OnList \<and> spent a pk < limit then a\<lparr>spent := (spent a)(pk := spent a pk + 1)\<rparr> else a)"
| "pilot_spec sha limit OpRelease pk a = a\<lparr>spent := (spent a)(pk := spent a pk - 1)\<rparr>"

text \<open>The code's operation, for its effect on the store.\<close>

fun pilot_run :: "'k server \<Rightarrow> (string \<Rightarrow> string) \<Rightarrow> pilot_op \<Rightarrow> string \<Rightarrow> 'k world \<Rightarrow> 'k world" where
  "pilot_run srv sha OpApprove pk w = snd (approvePilot srv pk w)"
| "pilot_run srv sha OpReject pk w = snd (rejectPilot srv pk w)"
| "pilot_run srv sha OpRevoke pk w = snd (revokePilot srv sha pk w)"
| "pilot_run srv sha OpReset pk w = snd (resetPilotBudget srv pk w)"
| "pilot_run srv sha (OpAsk email src) pk w = snd (filePilotRequest srv sha pk email src w)"
| "pilot_run srv sha (OpAskUnsigned email) pk w = snd (startPilotRequest srv sha pk email w)"
| "pilot_run srv sha (OpContact email) pk w = storePilotEmail srv pk email w"
| "pilot_run srv sha OpForget pk w = forgetPilotEmail srv pk w"
| "pilot_run srv sha OpSend pk w = snd (enforcePilot srv pk w)"
| "pilot_run srv sha OpRelease pk w = releasePilot srv pk w"

text \<open>The abstraction of a store, and the keys it needs to be in order.\<close>

definition phaseOf :: "string option \<Rightarrow> string option \<Rightarrow> pilot_phase" where
  "phaseOf st flag = (if st = Some ''pending'' then Waiting else if st = Some ''approved'' then OnList
     else if st = Some ''rejected'' then (if flag = Some ''1'' then TakenOff else Declined) else Unknown)"

definition pilotAbs :: "environ \<Rightarrow> kv_view \<Rightarrow> pilot_abs" where
  "pilotAbs e v = \<lparr>phase = (\<lambda>pk. phaseOf (cell_str (v (statusKey e pk))) (cell_str (v (revokedKey e pk)))),
     spent = (\<lambda>pk. counter (v (txKey e pk))), contact = (\<lambda>pk. cell_str (v (emailKey e pk))),
     latest = (\<lambda>h. cell_str (v (pilotKey e ''seen'' h)))\<rparr>"

definition wallet_ok :: "environ \<Rightarrow> kv_view \<Rightarrow> string \<Rightarrow> bool" where
  "wallet_ok e v pk \<longleftrightarrow> is_counter (v (txKey e pk)) \<and> strish (v (apprKey e pk)) \<and> strish (v (statusKey e pk)) \<and>
     strish (v (revokedKey e pk)) \<and> strish (v (emailKey e pk)) \<and> strish (v (mailedKey e pk)) \<and> strish (v (srcKey e pk)) \<and>
     strish (v (pilotKey e ''seen'' pk)) \<and>
     (v (statusKey e pk) = None \<or> cell_str (v (statusKey e pk)) \<in> {Some ''pending'', Some ''approved'', Some ''rejected''}) \<and>
     (cell_str (v (apprKey e pk)) = Some ''1'' \<longleftrightarrow> cell_str (v (statusKey e pk)) = Some ''approved'') \<and>
     (cell_str (v (revokedKey e pk)) = Some ''1'' \<longrightarrow> cell_str (v (statusKey e pk)) = Some ''rejected'')"

definition pilot_ok :: "environ \<Rightarrow> kv_view \<Rightarrow> bool" where
  "pilot_ok e v \<longleftrightarrow> (\<forall>pk. wallet_ok e v pk)"

text \<open>What the status route says of an abstract wallet.\<close>

definition standingOf :: "pilot_phase \<Rightarrow> standing" where
  "standingOf p = (case p of
       Unknown \<Rightarrow> \<lparr>state = NoState, approved = False, revoked = False\<rparr>
     | Waiting \<Rightarrow> \<lparr>state = Pending, approved = False, revoked = False\<rparr>
     | OnList \<Rightarrow> \<lparr>state = Approved, approved = True, revoked = False\<rparr>
     | Declined \<Rightarrow> \<lparr>state = Rejected, approved = False, revoked = False\<rparr>
     | TakenOff \<Rightarrow> \<lparr>state = Rejected, approved = False, revoked = True\<rparr>)"

lemma pilotKey_eq [simp]: "pilotKey e a x = pilotKey e b y \<longleftrightarrow> a @ CHR '':'' # x = b @ CHR '':'' # y"
  by (simp add: pilotKey_def)

lemma pipeRows_results [simp]: "pipeRows (map Result xs) = Inr xs"
  by (induction xs) auto

lemma str_reply_simps [simp]: "str_reply None = RNull" "str_reply (Some x) = RStr x"
  by (simp_all add: str_reply_def)

lemma readState_standing:
  assumes "wallet_ok e v pk"
  shows "readState (str_reply (cell_str (v (statusKey e pk)))) (str_reply (cell_str (v (apprKey e pk))))
      (str_reply (cell_str (v (revokedKey e pk)))) = standingOf (phase (pilotAbs e v) pk)"
  using assms
  by (cases "cell_str (v (statusKey e pk))"; cases "cell_str (v (apprKey e pk))"; cases "cell_str (v (revokedKey e pk))")
    (auto simp: wallet_ok_def readState_def stateOf_def standingOf_def pilotAbs_def phaseOf_def)

text \<open>The commands each operation writes with, by what the store holds.\<close>

fun pilot_cmds :: "environ \<Rightarrow> (string \<Rightarrow> string) \<Rightarrow> pilot_op \<Rightarrow> string \<Rightarrow> kv_view \<Rightarrow> cmd list" where
  "pilot_cmds e sha OpApprove pk v = [Put (apprKey e pk) ''1'', PutNew (txKey e pk) ''0'', Put (statusKey e pk) ''approved'',
     Drop (revokedKey e pk), Drop (mailedKey e pk)]"
| "pilot_cmds e sha OpReject pk v = [Put (statusKey e pk) ''rejected'', Drop (apprKey e pk), Drop (revokedKey e pk)]"
| "pilot_cmds e sha OpRevoke pk v = [Drop (apprKey e pk), Drop (emailKey e pk), Put (statusKey e pk) ''rejected'', Put (revokedKey e pk) ''1''] @
     (case cell_str (v (emailKey e pk)) of None \<Rightarrow> []
      | Some m \<Rightarrow> if m \<noteq> [] \<and> cell_str (v (seenEmailKey sha e m)) = Some pk then [Drop (seenEmailKey sha e m)] else [])"
| "pilot_cmds e sha OpReset pk v = [Put (txKey e pk) ''0'', Drop (mailedKey e pk)]"
| "pilot_cmds e sha (OpAsk email src) pk v =
     (if phase (pilotAbs e v) pk = Unknown then [PutNew (statusKey e pk) ''pending''] else []) @
     [PutFor (emailKey e pk) (cleanEmail email) PILOT_EMAIL_RETENTION_SECONDS,
      PutFor (seenEmailKey sha e (cleanEmail email)) pk PILOT_EMAIL_RETENTION_SECONDS] @
     (case src of None \<Rightarrow> [] | Some x \<Rightarrow> [PutFor (srcKey e pk) x PILOT_EMAIL_RETENTION_SECONDS])"
| "pilot_cmds e sha (OpAskUnsigned email) pk v =
     (if phase (pilotAbs e v) pk = Unknown \<and> cell_str (v (seenEmailKey sha e (cleanEmail email))) \<in> {None, Some pk}
      then [Put (statusKey e pk) ''pending'', PutFor (seenEmailKey sha e (cleanEmail email)) pk PILOT_EMAIL_RETENTION_SECONDS,
        PutFor (emailKey e pk) (cleanEmail email) PILOT_EMAIL_RETENTION_SECONDS] else [])"
| "pilot_cmds e sha (OpContact email) pk v = [PutFor (emailKey e pk) email PILOT_EMAIL_RETENTION_SECONDS]"
| "pilot_cmds e sha OpForget pk v = [Drop (emailKey e pk)]"
| "pilot_cmds e sha OpSend pk v = (if phase (pilotAbs e v) pk = OnList
     then Bump (txKey e pk) # (if spent (pilotAbs e v) pk < maxTx e then [] else [Unbump (txKey e pk)]) else [])"
| "pilot_cmds e sha OpRelease pk v = [Unbump (txKey e pk)]"

lemma zero_cell [simp]: "is_counter (Some (VStr ''0'', x))" "counter (Some (VStr ''0'', x)) = 0"
proof -
  have "''0'' = show_int 0" by code_simp
  then have "parse_bigint ''0'' = Some 0" by (metis parse_show_int)
  then show "is_counter (Some (VStr ''0'', x))" "counter (Some (VStr ''0'', x)) = 0" by (simp_all add: is_counter_def counter_def)
qed

lemma pilot_seconds [simp]: "0 < PILOT_EMAIL_RETENTION_SECONDS" "0 < PILOT_MAILED_SECONDS"
  by (simp_all add: PILOT_EMAIL_RETENTION_SECONDS_def PILOT_MAILED_SECONDS_def)

lemma pilot_cmds_fit: "pilot_ok e v \<Longrightarrow> fitAll t (pilot_cmds e sha op pk v) v"
  by (cases op) (auto simp: pilot_ok_def wallet_ok_def seenEmailKey_def split: option.splits)

lemma pilot_abs_eqI:
  "(\<And>x. phase a x = phase b x) \<Longrightarrow> (\<And>x. spent a x = spent b x) \<Longrightarrow> (\<And>x. contact a x = contact b x) \<Longrightarrow>
    (\<And>x. latest a x = latest b x) \<Longrightarrow> a = (b :: pilot_abs)"
  by (simp add: fun_eq_iff)

text \<open>On views: the commands do to the abstract state what the specification says, and keep the keys in order.\<close>

lemma unknown_iff: "wallet_ok e v pk \<Longrightarrow> phase (pilotAbs e v) pk = Unknown \<longleftrightarrow> v (statusKey e pk) = None"
  by (cases "v (statusKey e pk) = None") (auto simp: wallet_ok_def pilotAbs_def phaseOf_def simp del: not_None_eq)

lemma revoke_spec:
  "pilotAbs e (leftAll t (pilot_cmds e sha OpRevoke pk v) v) = pilot_spec sha (maxTx e) OpRevoke pk (pilotAbs e v)"
proof (cases "cell_str (v (emailKey e pk))")
  case None
  then show ?thesis by (intro pilot_abs_eqI) (auto simp: pilotAbs_def phaseOf_def)
next
  case (Some m)
  then show ?thesis
    by (cases "m \<noteq> [] \<and> cell_str (v (seenEmailKey sha e m)) = Some pk"; intro pilot_abs_eqI) (auto simp: pilotAbs_def seenEmailKey_def phaseOf_def)
qed

lemma pilot_cmds_spec:
  assumes "pilot_ok e v"
  shows "pilotAbs e (leftAll t (pilot_cmds e sha op pk v) v) = pilot_spec sha (maxTx e) op pk (pilotAbs e v)"
proof -
  note defs = pilotAbs_def seenEmailKey_def phaseOf_def
  have unknown: "phase (pilotAbs e v) pk = Unknown \<longleftrightarrow> v (statusKey e pk) = None" using assms by (simp add: pilot_ok_def unknown_iff)
  show ?thesis
  proof (cases op)
    case (OpAsk email src)
    show ?thesis
    proof (cases "v (statusKey e pk) = None")
      case True
      then show ?thesis using OpAsk unknown by (cases src) (auto simp: defs fun_eq_iff)
    next
      case False
      then have "phase (pilotAbs e v) pk \<noteq> Unknown" using unknown by simp
      then show ?thesis using OpAsk by (cases src) (auto simp: defs fun_eq_iff)
    qed
  next
    case OpRevoke
    then show ?thesis using revoke_spec by simp
  qed (auto simp: defs fun_eq_iff Let_def split: option.splits)
qed

lemma pilot_cmds_ok:
  assumes "pilot_ok e v"
  shows "pilot_ok e (leftAll t (pilot_cmds e sha op pk v) v)"
  unfolding pilot_ok_def
proof
  fix x
  have x: "wallet_ok e v x" and pk: "wallet_ok e v pk" using assms by (simp_all add: pilot_ok_def)
  note unknown = unknown_iff [OF pk]
  show "wallet_ok e (leftAll t (pilot_cmds e sha op pk v) v) x"
  proof (cases "x = pk")
    case True
    then show ?thesis using pk unknown by (cases op) (auto simp: wallet_ok_def seenEmailKey_def split: option.splits)
  next
    case False
    then show ?thesis using x unknown by (cases op) (auto simp: wallet_ok_def seenEmailKey_def split: option.splits)
  qed
qed

context redis_commands
begin

lemma pipe_render:
  assumes "wf (kvs w)" "online w" "fitAll (clock w) cs (view (clock w) (kvs w))"
  shows "\<exists>s'. pipe srv (map render cs) w = (Inr (saidAll (clock w) cs (view (clock w) (kvs w))), w\<lparr>kvs := s'\<rparr>) \<and>
    wf s' \<and> view (clock w) s' = leftAll (clock w) cs (view (clock w) (kvs w))"
  using pipeline_render_online [OF assms] by (auto simp: pipe_def)

lemma pipe_gets:
  assumes "wf (kvs w)" "online w" "\<And>k. k \<in> set ks \<Longrightarrow> strish (view (clock w) (kvs w) k)"
  shows "\<exists>s'. pipe srv (map (\<lambda>k. [''GET'', k]) ks) w = (Inr (map (\<lambda>k. str_reply (cell_str (view (clock w) (kvs w) k))) ks), w\<lparr>kvs := s'\<rparr>) \<and>
    wf s' \<and> view (clock w) s' = view (clock w) (kvs w)"
proof -
  have fit: "fitAll t (map Get ks) v" if "\<And>k. k \<in> set ks \<Longrightarrow> strish (v k)" for t v
    using that by (induction ks) auto
  have "saidAll t (map Get ks) v = map (\<lambda>k. str_reply (cell_str (v k))) ks" "leftAll t (map Get ks) v = v" for t v
    by (induction ks) auto
  moreover have "map render (map Get ks) = map (\<lambda>k. [''GET'', k]) ks" by simp
  ultimately show ?thesis using pipe_render [OF assms(1,2) fit, OF assms(3)] by metis
qed

lemma ownerDoes_cmds:
  assumes "wf (kvs w)" "online w" "kvConfigured w" "fitAll (clock w) cs (view (clock w) (kvs w))"
  shows "\<exists>s'. ownerDoes srv (map render cs) w = (Inr (saidAll (clock w) cs (view (clock w) (kvs w))), w\<lparr>kvs := s'\<rparr>) \<and>
    wf s' \<and> view (clock w) s' = leftAll (clock w) cs (view (clock w) (kvs w))"
  using pipe_render [OF assms(1,2,4)] assms(3) by (simp add: ownerDoes_def)

lemma pilot_run_cmds:
  fixes w :: "'a world"
  defines "v \<equiv> view (clock w) (kvs w)"
  assumes "wf (kvs w)" "online w" "kvConfigured w" "pilot_ok (env w) v"
  shows "\<exists>s'. pilot_run srv sha op pk w = w\<lparr>kvs := s'\<rparr> \<and> wf s' \<and>
    view (clock w) s' = leftAll (clock w) (pilot_cmds (env w) sha op pk v) v"
proof -
  let ?e = "env w"
  note fit = pilot_cmds_fit [OF assms(5), of "clock w" sha _ pk]
  have ok: "wallet_ok ?e v x" for x using assms(5) by (simp add: pilot_ok_def)
  note owner = ownerDoes_cmds [OF assms(2-4), folded v_def, OF fit]
  have vw: "view (clock w) (kvs w) = v" by (simp add: v_def)
  have puts: "\<exists>s'. pipe srv (map render cs) (w\<lparr>kvs := s1\<rparr>) = (Inr (saidAll (clock w) cs u), w\<lparr>kvs := s'\<rparr>) \<and> wf s' \<and>
      view (clock w) s' = leftAll (clock w) cs u" if "wf s1" "view (clock w) s1 = u" "fitAll (clock w) cs u" for s1 cs u
    using pipe_render [of "w\<lparr>kvs := s1\<rparr>" cs] that assms(3) by simp
  have reads: "\<exists>s'. pipe srv (map (\<lambda>k. [''GET'', k]) ks) (w\<lparr>kvs := s1\<rparr>) = (Inr (map (\<lambda>k. str_reply (cell_str (v k))) ks), w\<lparr>kvs := s'\<rparr>) \<and>
      wf s' \<and> view (clock w) s' = v" if "wf s1" "view (clock w) s1 = v" "\<And>k. k \<in> set ks \<Longrightarrow> strish (v k)" for s1 ks
    using pipe_gets [of "w\<lparr>kvs := s1\<rparr>" ks] that assms(3) by simp
  note first = reads [of "kvs w", OF assms(2) vw, simplified]
  have tx: "strish (v (txKey ?e x))" for x using ok [of x] cell_int_strish is_counter_int unfolding wallet_ok_def by blast
  have seen: "strish (v (seenEmailKey sha ?e m))" for m using ok by (simp add: wallet_ok_def seenEmailKey_def)
  note strs = tx seen ok [unfolded wallet_ok_def]
  show ?thesis
  proof (cases op)
    case OpApprove
    then show ?thesis using owner [of OpApprove] by (auto simp: approvePilot_def Let_def)
  next
    case OpReject
    then show ?thesis using owner [of OpReject] by (auto simp: rejectPilot_def Let_def)
  next
    case OpForget
    then show ?thesis using puts [OF assms(2) vw fit, of OpForget] assms(4) by (auto simp: forgetPilotEmail_def)
  next
    case (OpContact email)
    then show ?thesis using puts [OF assms(2) vw fit, of "OpContact email"] assms(4) by (auto simp: storePilotEmail_def)
  next
    case OpRelease
    then show ?thesis using puts [OF assms(2) vw fit, of OpRelease] by (auto simp: releasePilot_def)
  next
    case OpReset
    obtain s1 where s1: "pipe srv [[''GET'', txKey ?e pk]] w = (Inr [str_reply (cell_str (v (txKey ?e pk)))], w\<lparr>kvs := s1\<rparr>)"
        "wf s1" "view (clock w) s1 = v" using first [of "[txKey ?e pk]"] tx by auto
    show ?thesis using OpReset s1(1) puts [OF s1(2,3) fit, of OpReset] assms(4) by (auto simp: resetPilotBudget_def ownerDoes_def Let_def)
  next
    case OpSend
    obtain s1 where s1: "pipe srv [[''GET'', apprKey ?e pk]] w = (Inr [str_reply (cell_str (v (apprKey ?e pk)))], w\<lparr>kvs := s1\<rparr>)"
        "wf s1" "view (clock w) s1 = v" using first [of "[apprKey ?e pk]"] strs by auto
    show ?thesis
    proof (cases "phase (pilotAbs ?e v) pk = OnList")
      case True
      then have on: "cell_str (v (apprKey ?e pk)) = Some ''1''" using ok [of pk] by (auto simp: wallet_ok_def pilotAbs_def phaseOf_def split: if_splits)
      obtain s2 where s2: "pipe srv [[''INCR'', txKey ?e pk]] (w\<lparr>kvs := s1\<rparr>) = (Inr [RInt (counter (v (txKey ?e pk)) + 1)], w\<lparr>kvs := s2\<rparr>)"
          "wf s2" "view (clock w) s2 = leftAll (clock w) [Bump (txKey ?e pk)] v"
        using puts [OF s1(2,3), of "[Bump (txKey ?e pk)]"] ok [of pk] by (auto simp: wallet_ok_def)
      have "fitAll (clock w) [Unbump (txKey ?e pk)] (leftAll (clock w) [Bump (txKey ?e pk)] v)" by simp
      from puts [OF s2(2,3) this]
      show ?thesis using OpSend True on s1(1) s2 assms(4)
        by (auto simp: enforcePilot_def releasePilot_def numberOf_def pilotAbs_def)
    next
      case False
      then have "cell_str (v (apprKey ?e pk)) \<noteq> Some ''1''" using ok [of pk] by (auto simp: wallet_ok_def pilotAbs_def phaseOf_def)
      then have "str_reply (cell_str (v (apprKey ?e pk))) \<noteq> RStr ''1''" by (auto simp: str_reply_def split: option.splits)
      then show ?thesis using OpSend False s1 assms(4) by (auto simp: enforcePilot_def)
    qed
  next
    case OpRevoke
    obtain s1 where s1: "pipe srv [[''GET'', emailKey ?e pk]] w = (Inr [str_reply (cell_str (v (emailKey ?e pk)))], w\<lparr>kvs := s1\<rparr>)"
        "wf s1" "view (clock w) s1 = v" using first [of "[emailKey ?e pk]"] strs by auto
    define del where "del = (case cell_str (v (emailKey ?e pk)) of None \<Rightarrow> []
      | Some m \<Rightarrow> if m \<noteq> [] \<and> cell_str (v (seenEmailKey sha ?e m)) = Some pk then [Drop (seenEmailKey sha ?e m)] else [])"
    obtain s2 where s2: "seenDel srv sha pk (str_reply (cell_str (v (emailKey ?e pk)))) (w\<lparr>kvs := s1\<rparr>) = (Inr (map render del), w\<lparr>kvs := s2\<rparr>)"
        "wf s2" "view (clock w) s2 = v"
    proof (cases "\<exists>m. cell_str (v (emailKey ?e pk)) = Some m \<and> m \<noteq> []")
      case True
      then obtain m where m: "cell_str (v (emailKey ?e pk)) = Some m" "m \<noteq> []" by blast
      obtain s2 where "pipe srv [[''GET'', seenEmailKey sha ?e m]] (w\<lparr>kvs := s1\<rparr>) =
          (Inr [str_reply (cell_str (v (seenEmailKey sha ?e m)))], w\<lparr>kvs := s2\<rparr>)" "wf s2" "view (clock w) s2 = v"
        using reads [OF s1(2,3), of "[seenEmailKey sha ?e m]"] seen by auto
      then show ?thesis using that m by (auto simp: seenDel_def del_def str_reply_def split: option.splits)
    qed (use that s1 in \<open>auto simp: seenDel_def del_def str_reply_def split: option.splits\<close>)
    show ?thesis
      using OpRevoke s1(1) s2(1) puts [OF s2(2,3) fit, of OpRevoke] assms(4)
      by (auto simp: revokePilot_def ownerDoes_def Let_def del_def [symmetric])
  next
    case (OpAskUnsigned email)
    let ?seen = "seenEmailKey sha ?e (cleanEmail email)"
    obtain s1 where s1: "pipe srv [[''GET'', statusKey ?e pk], [''GET'', ?seen]] w =
        (Inr [str_reply (cell_str (v (statusKey ?e pk))), str_reply (cell_str (v ?seen))], w\<lparr>kvs := s1\<rparr>)"
        "wf s1" "view (clock w) s1 = v" using first [of "[statusKey ?e pk, ?seen]"] strs by auto
    show ?thesis
    proof (cases "v (statusKey ?e pk) = None")
      case True
      then have un: "phase (pilotAbs ?e v) pk = Unknown" using unknown_iff [OF ok] by blast
      have "\<exists>s'. snd (fileUnsigned srv sha pk email (w\<lparr>kvs := s1\<rparr>)) = w\<lparr>kvs := s'\<rparr> \<and> wf s' \<and>
          view (clock w) s' = leftAll (clock w) [Put (statusKey ?e pk) ''pending'', PutFor ?seen pk PILOT_EMAIL_RETENTION_SECONDS,
            PutFor (emailKey ?e pk) (cleanEmail email) PILOT_EMAIL_RETENTION_SECONDS] v"
        using puts [OF s1(2,3), of "[Put (statusKey ?e pk) ''pending'', PutFor ?seen pk PILOT_EMAIL_RETENTION_SECONDS,
            PutFor (emailKey ?e pk) (cleanEmail email) PILOT_EMAIL_RETENTION_SECONDS]"] by (auto simp: fileUnsigned_def Let_def)
      then show ?thesis using OpAskUnsigned True un s1 assms(4)
        by (cases "cell_str (v ?seen)") (auto simp: startPilotRequest_def Let_def)
    next
      case False
      then have "phase (pilotAbs ?e v) pk \<noteq> Unknown" "cell_str (v (statusKey ?e pk)) \<in> {Some ''pending'', Some ''approved'', Some ''rejected''}"
        using unknown_iff [OF ok, of pk] ok [of pk] by (simp_all add: wallet_ok_def del: not_None_eq)
      then show ?thesis using OpAskUnsigned s1 assms(4) by (auto simp: startPilotRequest_def Let_def)
    qed
  next
    case (OpAsk email src)
    let ?seen = "seenEmailKey sha ?e (cleanEmail email)"
    let ?ks = "[statusKey ?e pk, apprKey ?e pk, txKey ?e pk, revokedKey ?e pk, ?seen, mailedKey ?e pk]"
    obtain s1 where s1: "pipe srv (map (\<lambda>k. [''GET'', k]) ?ks) w = (Inr (map (\<lambda>k. str_reply (cell_str (v k))) ?ks), w\<lparr>kvs := s1\<rparr>)"
        "wf s1" "view (clock w) s1 = v" using first [of ?ks] strs by auto
    obtain other s2 where s2: "readOther srv (str_reply (cell_str (v ?seen))) pk (w\<lparr>kvs := s1\<rparr>) = (Inr other, w\<lparr>kvs := s2\<rparr>)"
        "wf s2" "view (clock w) s2 = v"
    proof (cases "cell_str (v ?seen)")
      case (Some x)
      obtain s2 where "pipe srv (map (\<lambda>k. [''GET'', k]) [statusKey ?e x, apprKey ?e x, revokedKey ?e x]) (w\<lparr>kvs := s1\<rparr>) =
          (Inr (map (\<lambda>k. str_reply (cell_str (v k))) [statusKey ?e x, apprKey ?e x, revokedKey ?e x]), w\<lparr>kvs := s2\<rparr>)"
          "wf s2" "view (clock w) s2 = v" using reads [OF s1(2,3), of "[statusKey ?e x, apprKey ?e x, revokedKey ?e x]"] strs by auto
      then show ?thesis using that s1 Some by (cases "x = [] \<or> x = pk") (auto simp: readOther_def)
    qed (use that s1 in \<open>auto simp: readOther_def\<close>)
    have standing: "readState (str_reply (cell_str (v (statusKey ?e pk)))) (str_reply (cell_str (v (apprKey ?e pk))))
        (str_reply (cell_str (v (revokedKey ?e pk)))) = standingOf (phase (pilotAbs ?e v) pk)" by (rule readState_standing [OF ok])
    have none: "state (standingOf p) = NoState \<longleftrightarrow> p = Unknown" for p by (cases p) (simp_all add: standingOf_def)
    have refresh: "refreshCmds sha ?e pk email src = map render (PutFor (emailKey ?e pk) (cleanEmail email) PILOT_EMAIL_RETENTION_SECONDS #
        PutFor ?seen pk PILOT_EMAIL_RETENTION_SECONDS # (case src of None \<Rightarrow> [] | Some x \<Rightarrow> [PutFor (srcKey ?e pk) x PILOT_EMAIL_RETENTION_SECONDS]))"
      by (cases src) (simp_all add: refreshCmds_def)
    have "snd (filePilotRequest srv sha pk email src w) = snd (pipe srv (map render (pilot_cmds ?e sha op pk v)) (w\<lparr>kvs := s2\<rparr>))"
      using OpAsk s1(1) s2(1) standing none assms(4) refresh
      by (cases "phase (pilotAbs ?e v) pk = Unknown")
        (auto simp: filePilotRequest_def Let_def split: prod.splits sum.splits)
    then show ?thesis using OpAsk puts [OF s2(2,3) fit, of op] by auto
  qed
qed

lemma pilot_status_of:
  fixes w :: "'a world"
  defines "v \<equiv> view (clock w) (kvs w)"
  assumes "wf (kvs w)" "online w" "kvConfigured w" "wallet_ok (env w) v pk"
  shows "fst (pilotStatus srv pk w) = Inr \<lparr>statusOf = standingOf (phase (pilotAbs (env w) v) pk),
    statusUsed = Some (spent (pilotAbs (env w) v) pk), statusLimit = maxTx (env w)\<rparr>"
proof -
  let ?e = "env w"
  let ?ks = "[apprKey ?e pk, txKey ?e pk, statusKey ?e pk, revokedKey ?e pk]"
  have tx: "is_counter (v (txKey ?e pk))" using assms(5) by (simp add: wallet_ok_def)
  have "strish (v k)" if "k \<in> set ?ks" for k
    using that assms(5) cell_int_strish [OF is_counter_int [OF tx]] by (auto simp: wallet_ok_def)
  from pipe_gets [OF assms(2,3), folded v_def, of ?ks, OF this]
  have "fst (ownerDoes srv (map (\<lambda>k. [''GET'', k]) ?ks) w) = Inr (map (\<lambda>k. str_reply (cell_str (v k))) ?ks)"
    using assms(4) by (auto simp: ownerDoes_def)
  moreover have "numberOf (str_reply (cell_str (v (txKey ?e pk)))) = Some (counter (v (txKey ?e pk)))"
    using is_counter_int [OF tx] by (cases "v (txKey ?e pk)") (auto simp: numberOf_def counter_def cell_int_def split: kval.splits prod.splits)
  ultimately show ?thesis
    using readState_standing [OF assms(5)]
    by (auto simp: pilotStatus_def Let_def pilotAbs_def split: prod.splits sum.splits)
qed

lemma enforce_verdict:
  fixes w :: "'a world"
  defines "v \<equiv> view (clock w) (kvs w)"
  assumes "wf (kvs w)" "online w" "kvConfigured w" "wallet_ok (env w) v pk"
  shows "fst (enforcePilot srv pk w) = None \<longleftrightarrow>
    phase (pilotAbs (env w) v) pk = OnList \<and> spent (pilotAbs (env w) v) pk < maxTx (env w)"
proof -
  let ?e = "env w"
  obtain s1 where s1: "pipe srv [[''GET'', apprKey ?e pk]] w = (Inr [str_reply (cell_str (v (apprKey ?e pk)))], w\<lparr>kvs := s1\<rparr>)"
      "wf s1" "view (clock w) s1 = v"
    using pipe_gets [OF assms(2,3), folded v_def, of "[apprKey ?e pk]"] assms(5) by (auto simp: wallet_ok_def)
  have on: "str_reply (cell_str (v (apprKey ?e pk))) = RStr ''1'' \<longleftrightarrow> phase (pilotAbs ?e v) pk = OnList"
    using assms(5) by (cases "cell_str (v (apprKey ?e pk))") (auto simp: wallet_ok_def pilotAbs_def phaseOf_def)
  have "fst (pipe srv [[''INCR'', txKey ?e pk]] (w\<lparr>kvs := s1\<rparr>)) = Inr [RInt (counter (v (txKey ?e pk)) + 1)]"
    using pipe_render [of "w\<lparr>kvs := s1\<rparr>" "[Bump (txKey ?e pk)]"] s1(2,3) assms(3,5) by (auto simp: wallet_ok_def)
  then show ?thesis
    using s1(1) on assms(4) by (auto simp: enforcePilot_def numberOf_def pilotAbs_def split: prod.splits sum.splits if_splits)
qed

end

definition applications :: "kv world \<Rightarrow> pilot_abs" where
  "applications w = pilotAbs (env w) (cell (clock w) (kvs w))"

text \<open>C22: on a store that answers, every operation of the pilot does to the applications (where each wallet
  stands, what it spent, its contact, the latest wallet of an email) exactly what the specification
  says, and keeps the store in order; the status route then answers each wallet's abstract standing, and a send is
  admitted exactly when its wallet is on the list with a slot left.\<close>

theorem pilot_refines_spec:
  fixes w :: "kv world"
  assumes "kv_wf (kvs w)" "online w" "kvConfigured w" "pilot_ok (env w) (cell (clock w) (kvs w))"
    and "w' = pilot_run runOne sha op pk w"
  shows "applications w' = pilot_spec sha (maxTx (env w)) op pk (applications w) \<and> pilot_ok (env w') (cell (clock w') (kvs w')) \<and>
    (\<forall>q. fst (pilotStatus runOne q w') = Inr \<lparr>statusOf = standingOf (phase (applications w') q), statusUsed = Some (spent (applications w') q),
        statusLimit = maxTx (env w)\<rparr> \<and>
      (fst (enforcePilot runOne q w') = None \<longleftrightarrow> phase (applications w') q = OnList \<and> spent (applications w') q < maxTx (env w)))"
proof -
  obtain s' where s': "w' = w\<lparr>kvs := s'\<rparr>" "kv_wf s'"
      "cell (clock w) s' = leftAll (clock w) (pilot_cmds (env w) sha op pk (cell (clock w) (kvs w))) (cell (clock w) (kvs w))"
    using fakec.pilot_run_cmds [OF assms(1-4), of sha op pk] assms(5) by blast
  have ok: "pilot_ok (env w') (cell (clock w') (kvs w'))" using s' pilot_cmds_ok [OF assms(4)] by simp
  have w': "kv_wf (kvs w')" "online w'" "kvConfigured w'" "env w' = env w" using s' assms(2,3) by simp_all
  have "wallet_ok (env w') (cell (clock w') (kvs w')) q" for q using ok by (simp add: pilot_ok_def)
  note says = fakec.pilot_status_of [OF w'(1-3) this] fakec.enforce_verdict [OF w'(1-3) this]
  show ?thesis
    unfolding applications_def using ok says w'(4) pilot_cmds_spec [OF assms(4)] s' by simp
qed

subsection \<open>Concrete applications\<close>

definition plain_hmac :: "string \<Rightarrow> string \<Rightarrow> string" where
  "plain_hmac secret m = replicate 64 (if m = approvalMessage Approve ''GA'' 1792065600 then CHR ''1'' else CHR ''2'')"

definition pilot_secret_env :: environ where
  "pilot_secret_env = [''PILOT_APPROVE_TOKEN'' \<mapsto> ''key'']"

theorem approval_link_opens_its_action_witness:
  "case mintApprovalToken plain_hmac pilot_secret_env Approve ''GA'' 1791460800000 of
     Some (token, expiry) \<Rightarrow> expiry = 1792065600 \<and>
       verifyApprovalToken plain_hmac pilot_secret_env Approve ''GA'' token (show_int expiry) 1792065600000 \<and>
       \<not> verifyApprovalToken plain_hmac pilot_secret_env Approve ''GB'' token (show_int expiry) 1791460800001
   | None \<Rightarrow> False"
proof -
  let ?t = "replicate 64 CHR ''1''"
  have m: "mintApprovalToken plain_hmac pilot_secret_env Approve ''GA'' 1791460800000 = Some (?t, 1792065600)"
    by (simp add: mintApprovalToken_def approveSecret_def pilot_secret_env_def APPROVE_TTL_SEC_def plain_hmac_def Let_def)
  have s: "approveSecret pilot_secret_env = Some ''key''" by (simp add: approveSecret_def pilot_secret_env_def)
  have h: "lowerHex 64 ?t" by (simp add: lowerHex_def is_digit_def code_def list_all_iff)
  have c: "approvalMessage b q k = approvalMessage Approve ''GA'' 1792065600"
    if "plain_hmac ''key'' (approvalMessage b q k) = plain_hmac ''key'' (approvalMessage Approve ''GA'' 1792065600)" for b q k
    using that by (simp add: plain_hmac_def split: if_splits)
  note opens = approval_link_opens_its_action [OF m s h]
  have p: "parseInt (show_int 1792065600) = Some 1792065600" by (simp add: show_int_def)
  have "verifyApprovalToken plain_hmac pilot_secret_env Approve ''GA'' ?t (show_int 1792065600) 1792065600000"
    using opens [of "show_int 1792065600" Approve "''GA''"] c p by simp
  moreover have "\<not> verifyApprovalToken plain_hmac pilot_secret_env Approve ''GB'' ?t (show_int 1792065600) 1791460800001"
    using opens [of "show_int 1792065600" Approve "''GB''"] c p by simp
  ultimately show ?thesis by (simp add: m)
qed

lemma pilot_ok_empty: "pilot_ok e (\<lambda>_. None)"
  by (simp add: pilot_ok_def wallet_ok_def)

theorem pilot_refines_spec_witness:
  "phase (applications (pilot_run runOne id (OpAsk ''a@b.co'' None) ''GA'' pilot_world)) ''GA'' = Waiting \<and>
   phase (applications (pilot_run runOne id (OpAsk ''a@b.co'' None) ''GA'' pilot_world)) ''GB'' = Unknown"
proof -
  have "pilot_ok (env pilot_world) (cell (clock pilot_world) (kvs pilot_world))" by (simp add: pilot_ok_empty)
  from pilot_refines_spec [OF _ _ _ this refl, of id "OpAsk ''a@b.co'' None" "''GA''"]
  have "applications (pilot_run runOne id (OpAsk ''a@b.co'' None) ''GA'' pilot_world) =
      pilot_spec id (maxTx (env pilot_world)) (OpAsk ''a@b.co'' None) ''GA'' (applications pilot_world)" by simp
  moreover have "phase (applications pilot_world) q = Unknown" for q
    by (simp add: applications_def pilotAbs_def phaseOf_def)
  ultimately show ?thesis by simp
qed

end
