(* ===== verification/PilotSlots.thy ===== *)
theory PilotSlots
  imports Pilot
begin

text \<open>
  Many sends at once: \<open>enforcePilot\<close> (lib/pilot.ts) one round trip at a time, with the rest of the service writing in
  between, command by command, round trips lost before or after their command ran, and time passing.
  \<open>enforce_steps\<close> says the steps are the operation; the property bounds the slots held.
\<close>

datatype attempt = Asking | Counting | Holding | HandingBack | Over

text \<open>One round trip of an attempt; \<open>Holding\<close> waits for its release.\<close>

definition attempt_step :: "'k server \<Rightarrow> string \<Rightarrow> attempt \<Rightarrow> 'k world \<Rightarrow> attempt \<times> 'k world" where
  "attempt_step srv pk a w = (case a of
       Asking \<Rightarrow> if \<not> kvConfigured w then (Over, w)
         else (case pipe srv [[''GET'', apprKey (env w) pk]] w of
             (Inl x, w1) \<Rightarrow> (Over, w1)
           | (Inr xs, w1) \<Rightarrow> (if xs ! 0 = RStr ''1'' then Counting else Over, w1))
     | Counting \<Rightarrow> (case pipe srv [[''INCR'', txKey (env w) pk]] w of
             (Inl x, w1) \<Rightarrow> (Over, w1)
           | (Inr xs, w1) \<Rightarrow> (case numberOf (xs ! 0) of
                 Some used \<Rightarrow> if maxTx (env w) < used then HandingBack else Holding
               | None \<Rightarrow> Holding, w1))
     | HandingBack \<Rightarrow> (Over, releasePilot srv pk w)
     | _ \<Rightarrow> (a, w))"

lemma enforce_steps:
  "enforcePilot srv pk w = (if kvConfigured w then (case attempt_step srv pk Asking w of
       (Counting, w1) \<Rightarrow> (case attempt_step srv pk Counting w1 of
           (Holding, w2) \<Rightarrow> (None, w2)
         | (HandingBack, w2) \<Rightarrow> (Some (LimitReached (maxTx (env w))), snd (attempt_step srv pk HandingBack w2))
         | (b, w2) \<Rightarrow> (Some (CounterUnavailable (case fst (pipe srv [[''INCR'', txKey (env w) pk]] w1) of Inl x \<Rightarrow> x | _ \<Rightarrow> [])), w2))
     | (a, w1) \<Rightarrow> (Some (case fst (pipe srv [[''GET'', apprKey (env w) pk]] w) of Inl x \<Rightarrow> ListUnreadable x | _ \<Rightarrow> NotOnList), w1))
   else (Some ListUnavailable, w))"
proof -
  have env: "env (snd (pipe srv cs w)) = env w" for cs and w :: "'a world"
    by (simp add: pipe_def case_prod_unfold split: sum.splits)
  show ?thesis
    using env [of "[[''GET'', apprKey (env w) pk]]" w]
    by (auto simp: enforcePilot_def attempt_step_def split: prod.splits sum.splits option.splits)
qed

record 'k door =
  node :: "'k world"
  attempts :: "(string \<times> attempt) list"

text \<open>The commands the other operations send one by one: none counts on a spend counter, which they only read or
  create at 0 (\<open>resetPilotBudget\<close> aside).\<close>

definition spares :: "environ \<Rightarrow> cmd \<Rightarrow> bool" where
  "spares e c = (let p = txKey e []; tx = (\<lambda>k. take (length p) k = p) in case c of
       Get k \<Rightarrow> True | Put k x \<Rightarrow> \<not> tx k | PutFor k x n \<Rightarrow> 0 < n \<and> \<not> tx k | PutNew k x \<Rightarrow> \<not> tx k \<or> x = ''0'' | Drop k \<Rightarrow> \<not> tx k
     | _ \<Rightarrow> False)"

datatype pilot_event = Arrive string | Go nat | GiveBack nat | Other cmd | Later int | Network "net list"

definition onAttempt :: "nat \<Rightarrow> (string \<Rightarrow> attempt \<Rightarrow> 'k world \<Rightarrow> attempt \<times> 'k world) \<Rightarrow> 'k door \<Rightarrow> 'k door" where
  "onAttempt i f d = (if i < length (attempts d) then (case attempts d ! i of (pk, a) \<Rightarrow> case f pk a (node d) of (a', w') \<Rightarrow>
     \<lparr>node = w', attempts = (attempts d)[i := (pk, a')]\<rparr>) else d)"

fun pilot_do :: "'k server \<Rightarrow> pilot_event \<Rightarrow> 'k door \<Rightarrow> 'k door" where
  "pilot_do srv (Arrive pk) d = d\<lparr>attempts := attempts d @ [(pk, Asking)]\<rparr>"
| "pilot_do srv (Go i) d = onAttempt i (attempt_step srv) d"
| "pilot_do srv (GiveBack i) d = onAttempt i (\<lambda>pk a w. if a = Holding then (Over, releasePilot srv pk w) else (a, w)) d"
| "pilot_do srv (Other c) d = (let w = node d in
     if spares (env w) c then d\<lparr>node := w\<lparr>kvs := snd (srv (clock w) (render c) (kvs w))\<rparr>\<rparr> else d)"
| "pilot_do srv (Later ms) d = (let w = node d in d\<lparr>node := w\<lparr>clock := clock w + max 0 ms\<rparr>\<rparr>)"
| "pilot_do srv (Network ns) d = (let w = node d in d\<lparr>node := w\<lparr>nets := ns\<rparr>\<rparr>)"

text \<open>The sends a wallet holds a slot for, and those that still have one to hand back.\<close>

definition holding :: "string \<Rightarrow> (string \<times> attempt) list \<Rightarrow> nat" where
  "holding pk ats = length (filter (\<lambda>x. x = (pk, Holding)) ats)"

definition counted :: "string \<Rightarrow> (string \<times> attempt) list \<Rightarrow> nat" where
  "counted pk ats = length (filter (\<lambda>x. x = (pk, Holding) \<or> x = (pk, HandingBack)) ats)"

lemma length_filter_update:
  assumes "i < length xs"
  shows "int (length (filter P (xs[i := y]))) = int (length (filter P xs)) - of_bool (P (xs ! i)) + of_bool (P y)"
  using assms
proof (induction xs arbitrary: i)
  case (Cons x xs)
  then show ?case by (cases i) auto
qed simp

text \<open>Every operation but the counting ones and the reset spares the counters.\<close>

lemma pilot_cmds_spare:
  assumes "op \<notin> {OpSend, OpRelease, OpReset}"
  shows "list_all (spares e) (pilot_cmds e sha op pk v)"
proof -
  have no: "take (length (txKey e [])) (pilotKey e kind x) \<noteq> txKey e []" if "kind = c # cs" "c \<noteq> CHR ''t''" for kind x c cs
  proof
    assume "take (length (txKey e [])) (pilotKey e kind x) = txKey e []"
    then have "take (length (txKey e []) - length (''pilot:'' @ network_of e @ '':'')) (kind @ '':'' @ x) = ''tx:''"
      by (simp add: pilotKey_def take_append)
    then show False using that by (simp add: pilotKey_def)
  qed
  show ?thesis
    using assms by (cases op) (auto simp: spares_def Let_def seenEmailKey_def no split: option.splits)
qed

definition slots_ok :: "environ \<Rightarrow> kv_view \<Rightarrow> bool" where
  "slots_ok e v \<longleftrightarrow> (\<forall>pk. is_counter (v (txKey e pk)) \<and> cell_exp (v (txKey e pk)) = None \<and> strish (v (apprKey e pk)))"

definition slots_held :: "environ \<Rightarrow> kv_view \<Rightarrow> (string \<times> attempt) list \<Rightarrow> bool" where
  "slots_held e v ats \<longleftrightarrow> (\<forall>pk. int (counted pk ats) \<le> counter (v (txKey e pk)) \<and> int (holding pk ats) \<le> maxTx e)"

lemma slots_ok_left:
  assumes "slots_ok e v" "spares e c \<or> c = Bump (txKey e pk) \<or> c = Unbump (txKey e pk) \<or> c = Get (apprKey e pk)"
  shows "slots_ok e (left t c v)"
proof -
  have key: "take (length (txKey e [])) (txKey e x) = txKey e []" for x by (simp add: pilotKey_def)
  show ?thesis
    using assms by (cases c) (auto simp: slots_ok_def spares_def Let_def key split: if_splits)
qed

lemma counter_left_spares: "spares e c \<Longrightarrow> counter (left t c v (txKey e pk)) = counter (v (txKey e pk))"
proof -
  have key: "take (length (txKey e [])) (txKey e x) = txKey e []" for x by (simp add: pilotKey_def)
  show "spares e c \<Longrightarrow> counter (left t c v (txKey e pk)) = counter (v (txKey e pk))"
    by (cases c) (auto simp: spares_def Let_def key split: if_splits)
qed

lemma maxTx_pos: "0 < maxTx e"
  by (auto simp: maxTx_def split: option.splits)

definition door_ok :: "(int \<Rightarrow> 'k \<Rightarrow> kv_view) \<Rightarrow> ('k \<Rightarrow> bool) \<Rightarrow> environ \<Rightarrow> 'k door \<Rightarrow> bool" where
  "door_ok view ok e d \<longleftrightarrow> ok (kvs (node d)) \<and> env (node d) = e \<and> slots_ok e (view (clock (node d)) (kvs (node d))) \<and>
     slots_held e (view (clock (node d)) (kvs (node d))) (attempts d)"

lemma lapse_forever: "cell_exp c = None \<Longrightarrow> lapse t c = c"
  by (cases c) (auto simp: lapse_def split: option.splits)

lemma strish_lapse: "strish c \<Longrightarrow> strish (lapse t c)"
  by (auto simp: lapse_def split: option.splits)

text \<open>What one attempt may do to the counts: the others are untouched, and a slot taken is a count made.\<close>

lemma slots_held_update:
  assumes "slots_held e v ats" "i < length ats" "ats ! i = (pk, a)"
    and "\<And>q. q \<noteq> pk \<Longrightarrow> counter (u (txKey e q)) = counter (v (txKey e q))"
    and "of_bool (b \<in> {Holding, HandingBack}) - of_bool (a \<in> {Holding, HandingBack}) \<le> counter (u (txKey e pk)) - counter (v (txKey e pk))"
    and "b = Holding \<Longrightarrow> a = Holding \<or> counter (u (txKey e pk)) \<le> maxTx e"
  shows "slots_held e u (ats[i := (pk, b)])"
proof -
  have c: "int (counted q (ats[i := (pk, b)])) = int (counted q ats) -
      of_bool (q = pk \<and> a \<in> {Holding, HandingBack}) + of_bool (q = pk \<and> b \<in> {Holding, HandingBack})" for q
    unfolding counted_def using length_filter_update [OF assms(2), of "\<lambda>x. x = (q, Holding) \<or> x = (q, HandingBack)" "(pk, b)"] assms(3)
    by auto
  have h: "int (holding q (ats[i := (pk, b)])) = int (holding q ats) - of_bool (q = pk \<and> a = Holding) + of_bool (q = pk \<and> b = Holding)" for q
    unfolding holding_def using length_filter_update [OF assms(2), of "\<lambda>x. x = (q, Holding)" "(pk, b)"] assms(3) by auto
  have sub: "holding q xs \<le> counted q xs" for q xs
    unfolding holding_def counted_def by (induction xs) auto
  show ?thesis
    unfolding slots_held_def
  proof
    fix q
    have old: "int (counted q ats) \<le> counter (v (txKey e q))" "int (holding q ats) \<le> maxTx e" using assms(1) by (simp_all add: slots_held_def)
    have new: "int (counted q (ats[i := (pk, b)])) \<le> counter (u (txKey e q))"
      using c [of q] old(1) assms(4,5) by (cases "q = pk") (auto simp: of_bool_def split: if_splits)
    moreover have "int (holding q (ats[i := (pk, b)])) \<le> maxTx e"
      using h [of q] old(2) assms(6) new sub [of q "ats[i := (pk, b)]"] by (cases "q = pk \<and> b = Holding \<and> a \<noteq> Holding") (auto simp: of_bool_def split: if_splits)
    ultimately show "int (counted q (ats[i := (pk, b)])) \<le> counter (u (txKey e q)) \<and> int (holding q (ats[i := (pk, b)])) \<le> maxTx e" ..
  qed
qed

context redis_commands
begin

lemma pipe_one:
  assumes "wf (kvs w)" "fits c (view (clock w) (kvs w))"
  shows "\<exists>r w'. pipe srv [render c] w = (r, w') \<and> wf (kvs w') \<and> env w' = env w \<and> clock w' = clock w \<and>
    (r = Inr [said c (view (clock w) (kvs w))] \<and> view (clock w) (kvs w') = left (clock w) c (view (clock w) (kvs w)) \<or>
     (\<exists>x. r = Inl x) \<and> view (clock w) (kvs w') \<in> {view (clock w) (kvs w), left (clock w) c (view (clock w) (kvs w))})"
proof -
  have "fitAll (clock w) [c] (view (clock w) (kvs w))" using assms(2) by simp
  from pipeline_render [OF assms(1) this]
  obtain n w' where n: "pipeline srv (map render [c]) w = (if n = length [c] \<and> (\<forall>m ns. nets w \<noteq> Lost m # ns)
        then Inr (map Result (saidAll (clock w) [c] (view (clock w) (kvs w)))) else Inl ''caps store unavailable'', w')"
      "wf (kvs w')" "env w' = env w" "clock w' = clock w" "view (clock w) (kvs w') = leftAll (clock w) (take n [c]) (view (clock w) (kvs w))"
    by blast
  have "take n [c] = (if n = 0 then [] else [c])" by (cases n) auto
  then show ?thesis using n by (auto simp: pipe_def)
qed

lemma attempt_ok:
  assumes "door_ok view wf e d" "i < length (attempts d)" "attempts d ! i = (pk, a)" "attempt_step srv pk a (node d) = (b, w')"
  shows "door_ok view wf e \<lparr>node = w', attempts = (attempts d)[i := (pk, b)]\<rparr>"
proof -
  let ?w = "node d"
  define v where "v = view (clock ?w) (kvs ?w)"
  have inv: "wf (kvs ?w)" "env ?w = e" "slots_ok e v" "slots_held e v (attempts d)" using assms(1) by (simp_all add: door_ok_def v_def)
  have tx: "is_counter (v (txKey e pk))" "strish (v (apprKey e pk))" using inv(3) by (simp_all add: slots_ok_def)
  have goal: ?thesis if "wf (kvs w')" "env w' = e" "clock w' = clock ?w" "view (clock ?w) (kvs w') = u" "slots_ok e u"
      "slots_held e u ((attempts d)[i := (pk, b)])" for u
    using that by (simp add: door_ok_def)
  have upd: "slots_held e u ((attempts d)[i := (pk, b)])"
    if "\<And>q. q \<noteq> pk \<Longrightarrow> counter (u (txKey e q)) = counter (v (txKey e q))"
      "of_bool (b \<in> {Holding, HandingBack}) - of_bool (a \<in> {Holding, HandingBack}) \<le> counter (u (txKey e pk)) - counter (v (txKey e pk))"
      "b = Holding \<Longrightarrow> a = Holding \<or> counter (u (txKey e pk)) \<le> maxTx e" for u
    by (rule slots_held_update [OF inv(4) assms(2,3) that])
  show ?thesis
  proof (cases a)
    case Asking
    obtain r w1 where one: "pipe srv [[''GET'', apprKey e pk]] ?w = (r, w1)" "wf (kvs w1)" "env w1 = e" "clock w1 = clock ?w"
        "view (clock ?w) (kvs w1) = v"
      using pipe_one [OF inv(1), of "Get (apprKey e pk)"] tx inv(2) by (auto simp: v_def)
    have "b \<in> {Over, Counting}" "w' \<in> {?w, w1}"
      using assms(4) Asking one(1) inv(2) by (auto simp: attempt_step_def split: sum.splits if_splits)
    then show ?thesis using Asking one inv upd [of v] by (auto simp: door_ok_def v_def)
  next
    case Counting
    obtain r where one: "pipe srv [[''INCR'', txKey e pk]] ?w = (r, w')" "wf (kvs w')" "env w' = e" "clock w' = clock ?w"
        "r = Inr [RInt (counter (v (txKey e pk)) + 1)] \<and> view (clock ?w) (kvs w') = left (clock ?w) (Bump (txKey e pk)) v \<or>
         (\<exists>x. r = Inl x) \<and> view (clock ?w) (kvs w') \<in> {v, left (clock ?w) (Bump (txKey e pk)) v}"
      using pipe_one [OF inv(1), of "Bump (txKey e pk)"] tx inv(2) assms(4) Counting
      by (auto simp: v_def attempt_step_def split: sum.splits)
    show ?thesis
      using assms(4) Counting one inv(2,3) slots_ok_left [OF inv(3), of "Bump (txKey e pk)" pk "clock ?w"]
      by (intro goal [OF one(2-4) refl _ upd]) (auto simp: attempt_step_def numberOf_def split: if_splits)
  next
    case HandingBack
    obtain r where one: "pipe srv [[''DECR'', txKey e pk]] ?w = (r, w')" "wf (kvs w')" "env w' = e" "clock w' = clock ?w"
        "view (clock ?w) (kvs w') \<in> {v, left (clock ?w) (Unbump (txKey e pk)) v}"
      using pipe_one [OF inv(1), of "Unbump (txKey e pk)"] tx inv(2) assms(4) HandingBack
      by (auto simp: v_def attempt_step_def releasePilot_def)
    show ?thesis
      using assms(4) HandingBack one inv(2,3) slots_ok_left [OF inv(3), of "Unbump (txKey e pk)" pk "clock ?w"]
      by (intro goal [OF one(2-4) refl _ upd]) (auto simp: attempt_step_def)
  qed (use assms(3,4) inv upd [of v] in \<open>auto simp: attempt_step_def v_def door_ok_def\<close>)
qed

lemma give_back_ok:
  assumes "door_ok view wf e d" "i < length (attempts d)" "attempts d ! i = (pk, Holding)"
  shows "door_ok view wf e \<lparr>node = releasePilot srv pk (node d), attempts = (attempts d)[i := (pk, Over)]\<rparr>"
proof -
  let ?w = "node d"
  define v where "v = view (clock ?w) (kvs ?w)"
  have inv: "wf (kvs ?w)" "env ?w = e" "slots_ok e v" "slots_held e v (attempts d)" using assms(1) by (simp_all add: door_ok_def v_def)
  obtain r w' where one: "pipe srv [[''DECR'', txKey e pk]] ?w = (r, w')" "wf (kvs w')" "env w' = e" "clock w' = clock ?w"
      "view (clock ?w) (kvs w') \<in> {v, left (clock ?w) (Unbump (txKey e pk)) v}"
    using pipe_one [OF inv(1), of "Unbump (txKey e pk)"] inv(2,3) by (auto simp: v_def slots_ok_def)
  have "slots_held e (view (clock ?w) (kvs w')) ((attempts d)[i := (pk, Over)])"
    by (rule slots_held_update [OF inv(4) assms(2,3)]) (use one(5) in auto)
  moreover have "slots_ok e (view (clock ?w) (kvs w'))"
    using one(5) inv(3) slots_ok_left [OF inv(3), of "Unbump (txKey e pk)" pk "clock ?w"] by auto
  ultimately show ?thesis using one inv(2) by (simp add: door_ok_def releasePilot_def)
qed

lemma event_ok:
  assumes "door_ok view wf e d"
  shows "door_ok view wf e (pilot_do srv ev d)"
proof -
  let ?w = "node d"
  have inv: "wf (kvs ?w)" "env ?w = e" "slots_ok e (view (clock ?w) (kvs ?w))" "slots_held e (view (clock ?w) (kvs ?w)) (attempts d)"
    using assms by (simp_all add: door_ok_def)
  show ?thesis
  proof (cases ev)
    case (Go i)
    then show ?thesis using assms attempt_ok by (auto simp: onAttempt_def split: prod.splits)
  next
    case (GiveBack i)
    then show ?thesis using assms give_back_ok
      by (auto simp: onAttempt_def split: prod.splits) (metis list_update_id door.surjective old.unit.exhaust)
  next
    case (Other c)
    show ?thesis
    proof (cases "spares e c")
      case True
      have "fits c (view (clock ?w) (kvs ?w)) \<or> (\<exists>k. c = Get k)" using True by (cases c) (auto simp: spares_def Let_def)
      then have "view (clock ?w) (snd (srv (clock ?w) (render c) (kvs ?w))) = left (clock ?w) c (view (clock ?w) (kvs ?w))"
        using render_exec(2) [OF inv(1)] get_view [OF inv(1)] by auto
      then show ?thesis
        using Other True inv srv_wf slots_ok_left [OF inv(3), of c] counter_left_spares [OF True]
        by (auto simp: door_ok_def Let_def slots_held_def)
    qed (use Other assms inv(2) in \<open>auto simp: Let_def\<close>)
  next
    case (Later ms)
    let ?t = "clock ?w + max 0 ms"
    have v: "view ?t (kvs ?w) k = lapse ?t (view (clock ?w) (kvs ?w) k)" for k using view_lapse [OF inv(1), of "clock ?w" ?t k] by simp
    have tx: "view ?t (kvs ?w) (txKey e pk) = view (clock ?w) (kvs ?w) (txKey e pk)" for pk
      using v [of "txKey e pk"] inv(3) lapse_forever by (simp add: slots_ok_def)
    have "slots_ok e (view ?t (kvs ?w))" using inv(3) tx v strish_lapse by (simp add: slots_ok_def)
    then show ?thesis using Later inv tx by (simp add: door_ok_def Let_def slots_held_def)
  qed (use assms in \<open>auto simp: door_ok_def Let_def slots_held_def counted_def holding_def\<close>)
qed

lemma events_ok: "door_ok view wf e d \<Longrightarrow> door_ok view wf e (fold (pilot_do srv) evs d)"
  by (induction evs arbitrary: d) (auto simp: event_ok)

end


text \<open>A wallet put on the list sends twice at once; the second INCR runs but its answer is lost.\<close>

definition two_sends :: "pilot_event list" where
  "two_sends = [Other (Put (apprKey pilot_env ''GA'') ''1''), Arrive ''GA'', Arrive ''GA'', Go 0, Go 1, Go 0, Network [Lost 1], Go 1]"


end
