(* ===== verification/Json.thy ===== *)
theory Json
  imports Prelude
begin

text \<open>
  \<open>JSON.stringify\<close> and \<open>JSON.parse\<close> of the values the services keep in the shared store: null,
  booleans, strings, arrays, objects and whole numbers.  A number with a fraction or an exponent
  parses to nothing here (the services write none), and whole numbers are the ones a double holds
  exactly.  Of a repeated member name the last value counts, at the first one's place, as in JavaScript.
\<close>

datatype json = JNull | JBool bool | JInt int | JStr string | JArr "json list" | JObj "(string \<times> json) list"

subsection \<open>Strings\<close>

definition hexDigit :: "nat \<Rightarrow> char" where
  "hexDigit d = (if d < 10 then digit_char d else char_of (87 + d))"

definition hexVal :: "char \<Rightarrow> nat option" where
  "hexVal c = (if is_digit c then Some (digit_val c)
     else if 97 \<le> code c \<and> code c \<le> 102 then Some (code c - 87)
     else if 65 \<le> code c \<and> code c \<le> 70 then Some (code c - 55) else None)"

text \<open>The two-character escapes, by the letter after the backslash.\<close>

definition shortEscapes :: "(char \<times> nat) list" where
  "shortEscapes = [(CHR ''b'', 8), (CHR ''t'', 9), (CHR ''n'', 10), (CHR ''f'', 12), (CHR ''r'', 13),
     (CHR 0x22, 34), (CHR 0x5C, 92)]"

definition escapeChar :: "char \<Rightarrow> string" where
  "escapeChar c = (case filter (\<lambda>(l, n). n = code c) shortEscapes of
       (l, n) # _ \<Rightarrow> [CHR 0x5C, l]
     | [] \<Rightarrow> if code c < 32 then [CHR 0x5C, CHR ''u'', CHR ''0'', CHR ''0'', hexDigit (code c div 16), hexDigit (code c mod 16)]
         else [c])"

definition quoted :: "string \<Rightarrow> string" where
  "quoted s = CHR 0x22 # concat (map escapeChar s) @ [CHR 0x22]"

text \<open>A \<open>\u\<close> escape beyond one byte parses to nothing: a string is a list of bytes here.\<close>

definition unicodeEscape :: "char \<Rightarrow> char \<Rightarrow> char \<Rightarrow> char \<Rightarrow> char option" where
  "unicodeEscape a b c d = (case (hexVal a, hexVal b, hexVal c, hexVal d) of
       (Some 0, Some 0, Some x, Some y) \<Rightarrow> Some (char_of (16 * x + y))
     | _ \<Rightarrow> None)"

definition shortEscape :: "char \<Rightarrow> char option" where
  "shortEscape l = (if l = CHR ''/'' then Some l else map_option char_of (map_of shortEscapes l))"

text \<open>The characters after the opening quote, to the closing one.\<close>

fun parseStr :: "string \<Rightarrow> (string \<times> string) option" where
  "parseStr [] = None"
| "parseStr (c # cs) =
     (if c = CHR 0x22 then Some ([], cs)
      else if code c < 32 then None
      else if c = CHR 0x5C then (case cs of
          [] \<Rightarrow> None
        | l # rest \<Rightarrow> if l = CHR ''u'' then (case rest of
              h1 # h2 # h3 # h4 # after \<Rightarrow> (case unicodeEscape h1 h2 h3 h4 of None \<Rightarrow> None
                | Some x \<Rightarrow> map_option (apfst (Cons x)) (parseStr after))
            | _ \<Rightarrow> None)
          else (case shortEscape l of None \<Rightarrow> None | Some x \<Rightarrow> map_option (apfst (Cons x)) (parseStr rest)))
      else map_option (apfst (Cons c)) (parseStr cs))"

subsection \<open>Values\<close>

fun showJson :: "json \<Rightarrow> string" where
  "showJson JNull = ''null''"
| "showJson (JBool b) = (if b then ''true'' else ''false'')"
| "showJson (JInt i) = show_int i"
| "showJson (JStr s) = quoted s"
| "showJson (JArr xs) = ''['' @ join '','' (map showJson xs) @ '']''"
| "showJson (JObj kvs) = ''{'' @ join '','' (map (\<lambda>(k, v). quoted k @ '':'' @ showJson v) kvs) @ ''}''"

definition json_space :: "char \<Rightarrow> bool" where
  "json_space c \<longleftrightarrow> code c \<in> {9, 10, 13, 32}"

definition skip :: "string \<Rightarrow> string" where
  "skip s = dropWhile json_space s"

definition parseDigits :: "string \<Rightarrow> (int \<times> string) option" where
  "parseDigits s = (let ds = takeWhile is_digit s; rest = dropWhile is_digit s in
     if ds = [] \<or> (1 < length ds \<and> hd ds = CHR ''0'') then None
     else if rest \<noteq> [] \<and> hd rest \<in> {CHR ''.'', CHR ''e'', CHR ''E''} then None
     else Some (int (nat_of_digits ds), rest))"

definition parseNum :: "string \<Rightarrow> (json \<times> string) option" where
  "parseNum s = (if s \<noteq> [] \<and> hd s = CHR ''-'' then map_option (\<lambda>(n, rest). (JInt (- n), rest)) (parseDigits (tl s))
     else map_option (apfst JInt) (parseDigits s))"

definition parseWord :: "string \<Rightarrow> (json \<times> string) option" where
  "parseWord s = (if take 4 s = ''null'' then Some (JNull, drop 4 s)
     else if take 4 s = ''true'' then Some (JBool True, drop 4 s)
     else if take 5 s = ''false'' then Some (JBool False, drop 5 s) else None)"

text \<open>The fuel bounds the number of characters: each call reads at least one.\<close>

fun parseVal :: "nat \<Rightarrow> string \<Rightarrow> (json \<times> string) option"
  and parseElems :: "nat \<Rightarrow> string \<Rightarrow> (json list \<times> string) option"
  and parseMembers :: "nat \<Rightarrow> (string \<times> json) list \<Rightarrow> string \<Rightarrow> ((string \<times> json) list \<times> string) option" where
  "parseVal 0 s = None"
| "parseVal (Suc n) s = (case skip s of
       [] \<Rightarrow> None
     | c # cs \<Rightarrow>
        if c = CHR 0x22 then map_option (apfst JStr) (parseStr cs)
        else if c = CHR ''['' then
          (if skip cs \<noteq> [] \<and> hd (skip cs) = CHR '']'' then Some (JArr [], tl (skip cs))
           else map_option (apfst JArr) (parseElems n cs))
        else if c = CHR ''{'' then
          (if skip cs \<noteq> [] \<and> hd (skip cs) = CHR ''}'' then Some (JObj [], tl (skip cs))
           else map_option (apfst JObj) (parseMembers n [] cs))
        else if c = CHR ''-'' \<or> is_digit c then parseNum (c # cs)
        else parseWord (c # cs))"
| "parseElems 0 s = None"
| "parseElems (Suc n) s = (case parseVal n s of None \<Rightarrow> None
     | Some (x, rest) \<Rightarrow> (case skip rest of
          [] \<Rightarrow> None
        | c # cs \<Rightarrow> if c = CHR '','' then map_option (apfst (Cons x)) (parseElems n cs)
            else if c = CHR '']'' then Some ([x], cs) else None))"
| "parseMembers 0 acc s = None"
| "parseMembers (Suc n) acc s = (case skip s of
       [] \<Rightarrow> None
     | q # qs \<Rightarrow> if q \<noteq> CHR 0x22 then None else (case parseStr qs of None \<Rightarrow> None
        | Some (k, rest) \<Rightarrow> (case skip rest of
             [] \<Rightarrow> None
           | c # cs \<Rightarrow> if c \<noteq> CHR '':'' then None else (case parseVal n cs of None \<Rightarrow> None
              | Some (v, more1) \<Rightarrow> (case skip more1 of
                   [] \<Rightarrow> None
                 | d # ds \<Rightarrow> if d = CHR '','' then parseMembers n (AList.update k v acc) ds
                     else if d = CHR ''}'' then Some (AList.update k v acc, ds) else None)))))"

definition parseJson :: "string \<Rightarrow> json option" where
  "parseJson s = (case parseVal (length s) s of
       Some (j, rest) \<Rightarrow> if skip rest = [] then Some j else None
     | None \<Rightarrow> None)"

text \<open>The member a field access reads; \<open>None\<close> is undefined.\<close>

definition field :: "string \<Rightarrow> json \<Rightarrow> json option" where
  "field k j = (case j of JObj kvs \<Rightarrow> map_of kvs k | _ \<Rightarrow> None)"

subsection \<open>Parsing what was printed\<close>

text \<open>Objects as JavaScript builds them: no member name twice.\<close>

fun json_wf :: "json \<Rightarrow> bool" where
  "json_wf (JArr xs) \<longleftrightarrow> list_all json_wf xs"
| "json_wf (JObj kvs) \<longleftrightarrow> distinct (map fst kvs) \<and> list_all (\<lambda>(k, v). json_wf v) kvs"
| "json_wf _ \<longleftrightarrow> True"

lemma hexVal_hexDigit: "d < 16 \<Longrightarrow> hexVal (hexDigit d) = Some d"
proof (cases "d < 10")
  case True
  then show ?thesis using digit_char_props by (simp add: hexDigit_def hexVal_def)
next
  case False
  moreover assume "d < 16"
  ultimately show ?thesis by (simp add: hexDigit_def hexVal_def code_char_of is_digit_def)
qed

lemma escapes_table:
  "map_of shortEscapes l = Some n \<Longrightarrow> l \<noteq> CHR ''u'' \<and> shortEscape l = Some (char_of n)"
  by (auto simp: shortEscapes_def shortEscape_def split: if_splits)

lemma parseStr_escape: "parseStr (escapeChar c @ s) = map_option (apfst (Cons c)) (parseStr s)"
proof (cases "filter (\<lambda>(l, n). n = code c) shortEscapes")
  case Nil
  then have c: "code c \<noteq> 34" "code c \<noteq> 92" by (auto simp: shortEscapes_def split: if_splits)
  have "c \<noteq> CHR 0x22" "c \<noteq> CHR 0x5C" using c by (auto simp: code_def)
  moreover have "hexVal (hexDigit (code c div 16)) = Some (code c div 16)" "hexVal (hexDigit (code c mod 16)) = Some (code c mod 16)"
    if "code c < 32" using that by (simp_all add: hexVal_hexDigit)
  moreover have "char_of (code c) = c" by (simp add: code_def)
  moreover have "hexVal (CHR ''0'') = Some 0" by code_simp
  ultimately show ?thesis using Nil
    by (simp add: escapeChar_def unicodeEscape_def code_def)
next
  case (Cons p ps)
  then have "p \<in> set (filter (\<lambda>(l, n). n = code c) shortEscapes)" by simp
  then obtain l where p: "p = (l, code c)" "p \<in> set shortEscapes" by auto
  have "distinct (map fst shortEscapes)" by (simp add: shortEscapes_def)
  then have "map_of shortEscapes l = Some (code c)" using p by simp
  from escapes_table [OF this] have l: "l \<noteq> CHR ''u''" "shortEscape l = Some c" by (simp_all add: code_def)
  have "escapeChar c = [CHR 0x5C, l]" using Cons p(1) by (simp add: escapeChar_def)
  then show ?thesis using l by (simp add: code_def)
qed

lemma parseStr_quoted: "parseStr (concat (map escapeChar s) @ CHR 0x22 # rest) = Some (s, rest)"
  by (induction s) (simp_all add: parseStr_escape)

text \<open>What may follow a value in a printed text.\<close>

definition stops :: "string \<Rightarrow> bool" where
  "stops r \<longleftrightarrow> r = [] \<or> hd r \<in> {CHR '','', CHR '']'', CHR ''}''}"

lemma last_rdigits: "0 < n \<Longrightarrow> 0 < last (rdigits n)"
proof (induction n rule: rdigits.induct)
  case (1 n)
  then show ?case by (subst rdigits.simps) (auto simp: div_greater_zero_iff)
qed

lemma hd_show_nat: "1 < length (show_nat n) \<Longrightarrow> hd (show_nat n) \<noteq> CHR ''0''"
proof -
  have first: "hd (show_nat n) = digit_char (last (rdigits n))" by (simp add: show_nat_def hd_map hd_rev)
  assume "1 < length (show_nat n)"
  then have "0 < n" by (subst (asm) show_nat_def, subst (asm) rdigits.simps) (auto split: if_splits)
  then have "0 < last (rdigits n)" by (rule last_rdigits)
  moreover have "last (rdigits n) < 10" using rdigits_small last_in_set rdigits_nonempty by blast
  moreover have "digit_char 0 = CHR ''0''" by code_simp
  ultimately show ?thesis using digit_char_inj [of "last (rdigits n)" 0] first by simp
qed

lemma parseDigits_show: "stops rest \<Longrightarrow> parseDigits (show_nat n @ rest) = Some (int n, rest)"
proof -
  assume "stops rest"
  then have "takeWhile is_digit rest = []" "dropWhile is_digit rest = rest" "rest = [] \<or> hd rest \<notin> {CHR ''.'', CHR ''e'', CHR ''E''}"
    by (cases rest; auto simp: stops_def is_digit_def code_def)+
  moreover have "\<And>c. c \<in> set (show_nat n) \<Longrightarrow> is_digit c" by (rule show_nat_digits)
  ultimately show ?thesis using hd_show_nat [of n]
    by (auto simp: parseDigits_def Let_def takeWhile_append2 dropWhile_append2)
qed

lemma parseNum_show: "stops rest \<Longrightarrow> parseNum (show_int i @ rest) = Some (JInt i, rest)"
proof -
  assume "stops rest"
  moreover have "hd (show_nat n @ rest) \<noteq> CHR ''-''" for n
    using show_nat_no_minus [of n] by (cases "show_nat n") auto
  ultimately show ?thesis by (simp add: parseNum_def show_int_def parseDigits_show)
qed

lemma skip_char: "\<not> json_space c \<Longrightarrow> skip (c # s) = c # s"
  by (simp add: skip_def)

text \<open>How a printed value begins.\<close>

lemma showJson_first: "\<exists>c s. showJson j = c # s \<and> \<not> json_space c \<and> c \<notin> {CHR '']'', CHR ''}''}"
proof (cases j)
  case (JInt i)
  have "\<exists>c s. show_nat n = c # s \<and> is_digit c" for n
    using show_nat_nonempty [of n] show_nat_digits [of _ n] by (cases "show_nat n") auto
  moreover have "is_digit c \<Longrightarrow> \<not> json_space c \<and> c \<notin> {CHR '']'', CHR ''}''}" for c
    by (auto simp: is_digit_def json_space_def code_def)
  ultimately have "\<exists>c s. show_nat n = c # s \<and> \<not> json_space c \<and> c \<notin> {CHR '']'', CHR ''}''}" for n by metis
  then show ?thesis using JInt by (auto simp: show_int_def json_space_def code_def)
qed (auto simp: json_space_def code_def quoted_def)

lemma join_Cons: "join sep (x # xs) = x @ (if xs = [] then [] else sep @ join sep xs)"
  by (cases xs) simp_all

lemma not_json_space [simp]:
  "\<not> json_space (CHR '','')" "\<not> json_space (CHR '']'')" "\<not> json_space (CHR ''}'')" "\<not> json_space (CHR '':'')"
  "\<not> json_space (CHR 0x22)" "\<not> json_space (CHR ''['')" "\<not> json_space (CHR ''{'')"
  by (simp_all add: json_space_def code_def)

lemma stops_simps [simp]:
  "stops (CHR '','' # r)" "stops (CHR '']'' # r)" "stops (CHR ''}'' # r)"
  by (simp_all add: stops_def)

definition reads :: "json \<Rightarrow> bool" where
  "reads j \<longleftrightarrow> (\<forall>n rest. length (showJson j) \<le> n \<longrightarrow> stops rest \<longrightarrow> parseVal n (showJson j @ rest) = Some (j, rest))"

lemma readsD: "reads j \<Longrightarrow> length (showJson j) \<le> n \<Longrightarrow> stops rest \<Longrightarrow> parseVal n (showJson j @ rest) = Some (j, rest)"
  by (simp add: reads_def)

lemma parse_elems:
  "xs \<noteq> [] \<Longrightarrow> list_all reads xs \<Longrightarrow> length (join '','' (map showJson xs)) < n \<Longrightarrow>
   parseElems n (join '','' (map showJson xs) @ CHR '']'' # rest) = Some (xs, rest)"
proof (induction xs arbitrary: n)
  case (Cons x xs)
  then obtain m where m: "n = Suc m" by (cases n) auto
  show ?case using Cons by (auto simp: m join_Cons readsD skip_char)
qed simp

lemma update_new: "k \<notin> fst ` set m \<Longrightarrow> AList.update k v m = m @ [(k, v)]"
  by (induction m) auto

lemma parse_members:
  "kvs \<noteq> [] \<Longrightarrow> list_all (\<lambda>(k, v). reads v) kvs \<Longrightarrow> distinct (map fst (acc @ kvs)) \<Longrightarrow>
   length (join '','' (map (\<lambda>(k, v). quoted k @ '':'' @ showJson v) kvs)) < n \<Longrightarrow>
   parseMembers n acc (join '','' (map (\<lambda>(k, v). quoted k @ '':'' @ showJson v) kvs) @ CHR ''}'' # rest) = Some (acc @ kvs, rest)"
proof (induction kvs arbitrary: n acc)
  case (Cons p kvs)
  obtain k v where p: "p = (k, v)" by (cases p)
  obtain m where m: "n = Suc m" using Cons.prems(4) by (cases n) auto
  have "AList.update k v acc = acc @ [(k, v)]" using Cons.prems(3) by (simp add: p update_new)
  then show ?case using Cons by (auto simp: p m join_Cons readsD skip_char quoted_def parseStr_quoted)
qed simp

lemma parse_word: "parseVal (Suc n) (''null'' @ r) = Some (JNull, r)" "parseVal (Suc n) (''true'' @ r) = Some (JBool True, r)"
  "parseVal (Suc n) (''false'' @ r) = Some (JBool False, r)"
  by (simp_all add: skip_def json_space_def code_def parseWord_def is_digit_def)

lemma parse_int: "stops r \<Longrightarrow> parseVal (Suc n) (show_int i @ r) = Some (JInt i, r)"
proof -
  assume r: "stops r"
  obtain c s where cs: "show_int i = c # s" "\<not> json_space c" "c = CHR ''-'' \<or> is_digit c"
    using showJson_first [of "JInt i"] show_nat_digits [of _ "nat i"] by (auto simp: show_int_def split: if_splits)
  moreover have "c \<noteq> CHR 0x22" "c \<noteq> CHR ''[''" "c \<noteq> CHR ''{''" using cs(3) by (auto simp: is_digit_def code_def)
  ultimately show ?thesis using parseNum_show [OF r, of i] by (simp add: skip_char)
qed

text \<open>Neither closing bracket opens what is inside a printed array or object.\<close>

lemma reads_arr: "list_all reads xs \<Longrightarrow> reads (JArr xs)"
proof (cases xs)
  case Nil
  then show ?thesis unfolding reads_def by (auto simp: gr0_conv_Suc skip_char dest!: Suc_le_D)
next
  case (Cons x xs')
  assume r: "list_all reads xs"
  obtain c s where "showJson x = c # s" "\<not> json_space c" "c \<notin> {CHR '']'', CHR ''}''}" using showJson_first by blast
  then have first: "skip (join '','' (map showJson xs) @ t) \<noteq> [] \<and> hd (skip (join '','' (map showJson xs) @ t)) \<noteq> CHR '']''" for t
    by (simp add: Cons join_Cons skip_char)
  show ?thesis unfolding reads_def
  proof (intro allI impI)
    fix n rest assume n: "length (showJson (JArr xs)) \<le> n"
    then obtain m where m: "n = Suc m" by (cases n) auto
    have "parseElems m (join '','' (map showJson xs) @ CHR '']'' # rest) = Some (xs, rest)"
      using n r by (intro parse_elems) (auto simp: m Cons)
    then show "parseVal n (showJson (JArr xs) @ rest) = Some (JArr xs, rest)"
      using first by (simp add: m skip_char)
  qed
qed

lemma reads_obj: "distinct (map fst kvs) \<Longrightarrow> list_all (\<lambda>(k, v). reads v) kvs \<Longrightarrow> reads (JObj kvs)"
proof (cases kvs)
  case Nil
  then show ?thesis unfolding reads_def by (auto simp: gr0_conv_Suc skip_char dest!: Suc_le_D)
next
  case (Cons p kvs')
  assume r: "distinct (map fst kvs)" "list_all (\<lambda>(k, v). reads v) kvs"
  let ?body = "join '','' (map (\<lambda>(k, v). quoted k @ '':'' @ showJson v) kvs)"
  have first: "skip (?body @ t) \<noteq> [] \<and> hd (skip (?body @ t)) \<noteq> CHR ''}''" for t
    by (simp add: Cons join_Cons skip_char quoted_def split: prod.split)
  show ?thesis unfolding reads_def
  proof (intro allI impI)
    fix n rest assume n: "length (showJson (JObj kvs)) \<le> n"
    then obtain m where m: "n = Suc m" by (cases n) auto
    have "parseMembers m [] (?body @ CHR ''}'' # rest) = Some ([] @ kvs, rest)"
      using n r by (intro parse_members) (auto simp: m Cons)
    then show "parseVal n (showJson (JObj kvs) @ rest) = Some (JObj kvs, rest)"
      using first by (simp add: m skip_char)
  qed
qed

lemma reads_printed: "json_wf j \<Longrightarrow> reads j"
proof (induction j)
  case (JInt i)
  show ?case unfolding reads_def using parse_int by (metis Suc_le_D length_greater_0_conv le_zero_eq not0_implies_Suc showJson.simps(3) show_int_nonempty length_0_conv)
next
  case (JStr s)
  show ?case unfolding reads_def by (auto simp: quoted_def parseStr_quoted skip_char dest!: Suc_le_D)
next
  case (JArr xs)
  then show ?case by (intro reads_arr) (auto simp: list_all_iff)
next
  case (JObj kvs)
  then show ?case by (intro reads_obj) (fastforce simp: list_all_iff)+
qed (auto simp: reads_def parse_word [simplified] split: if_splits dest!: Suc_le_D)

lemma parse_showJson [simp]: "json_wf j \<Longrightarrow> parseJson (showJson j) = Some j"
  using readsD [OF reads_printed, of j "length (showJson j)" "[]"] by (simp add: parseJson_def stops_def skip_def)

declare showJson.simps [simp del]

end
