(* ===== verification/RecoveryOtp.thy ===== *)
theory RecoveryOtp
  imports PilotSlots Json
begin

text \<open>
  apps/sponsor/src/lib/recovery-otp.ts: the six-digit code that proves control of an email.  A request
  counts against a cap per email and stores the code hashed, with an expiry and a try count; a verify
  first spends one unit of a separate hourly budget, then reads, compares and consumes.  Both run on
  the shared store or on the isolate's own maps.  SHA-256 is an argument; the random number is one of a
  request's; the mail itself is what \<open>sendCodeEmail\<close> answers.  \<open>verify_spec\<close> is the contract of one verify;
  \<open>guess_do\<close> runs many of them one round trip at a time.
\<close>

subsection \<open>Codes and records\<close>

definition TTL_SEC :: int where "TTL_SEC = 600"
definition MAX_TRIES :: int where "MAX_TRIES = 5"
definition MAX_VERIFY_PER_WINDOW :: int where "MAX_VERIFY_PER_WINDOW = 12"
definition VERIFY_WINDOW_SEC :: int where "VERIFY_WINDOW_SEC = 3600"
definition MAX_OTP_PER_WINDOW :: int where "MAX_OTP_PER_WINDOW = 10"
definition OTP_WINDOW_SEC :: int where "OTP_WINDOW_SEC = 3600"

record otp_rec =
  codeHash :: string
  expAt :: int
  tries :: int

record span =
  hits :: int
  endsAt :: int

text \<open>The isolate's maps \<open>mem\<close>, \<open>tryMem\<close> and \<open>reqMem\<close>.\<close>

record otp_mem =
  codes :: "(string \<times> otp_rec) list"
  tryMem :: "(string \<times> span) list"
  reqMem :: "(string \<times> span) list"

datatype otp_error = InvalidEmail | OtpBudgetExceeded | OtpCheckUnavailable | OtpStore string | MailerMissing

text \<open>\<open>JSON.stringify\<close> of a record, and the reading of a stored one; a text that is no record is a store error.\<close>

definition otpJson :: "otp_rec \<Rightarrow> json" where
  "otpJson r = JObj [(''codeHash'', JStr (codeHash r)), (''exp'', JInt (expAt r)), (''tries'', JInt (tries r))]"

definition showOtp :: "otp_rec \<Rightarrow> string" where
  "showOtp r = showJson (otpJson r)"

definition parseOtp :: "string \<Rightarrow> otp_rec option" where
  "parseOtp s = (case parseJson s of None \<Rightarrow> None
     | Some j \<Rightarrow> (case (field ''codeHash'' j, field ''exp'' j, field ''tries'' j) of
          (Some (JStr h), Some (JInt x), Some (JInt n)) \<Rightarrow> Some \<lparr>codeHash = h, expAt = x, tries = n\<rparr>
        | _ \<Rightarrow> None))"

lemma parseOtp_showOtp [simp]: "parseOtp (showOtp r) = Some r"
  by (simp add: parseOtp_def showOtp_def otpJson_def field_def)

definition idForEmail :: "(string \<Rightarrow> string) \<Rightarrow> string \<Rightarrow> string" where
  "idForEmail sha email = sha (toLowerCase (trim email))"

definition sixDigit :: "nat \<Rightarrow> string" where
  "sixDigit rnd = padStart 6 (show_nat (rnd mod 1000000))"

definition hashOf :: "(string \<Rightarrow> string) \<Rightarrow> string \<Rightarrow> string \<Rightarrow> string" where
  "hashOf sha i c = sha (i @ '':'' @ c)"

definition otpKey :: "string \<Rightarrow> string" where "otpKey i = ''lumenia:recovery-otp:'' @ i"
definition reqKey :: "string \<Rightarrow> string" where "reqKey i = ''lumenia:recovery-otpreq:'' @ i"
definition tryKey :: "string \<Rightarrow> string" where "tryKey i = ''lumenia:recovery-otptry:'' @ i"

text \<open>\<open>EMAIL_RE\<close>: one at sign between two non-empty runs without white space, a dot inside the second.\<close>

definition dotInside :: "string \<Rightarrow> bool" where
  "dotInside d \<longleftrightarrow> CHR ''.'' \<in> set (butlast (drop 1 d))"

definition emailShape :: "string \<Rightarrow> bool" where
  "emailShape s \<longleftrightarrow> (\<forall>c \<in> set s. \<not> is_space c) \<and> (case split_on (CHR ''@'') s of
       [u, d] \<Rightarrow> u \<noteq> [] \<and> dotInside d
     | _ \<Rightarrow> False)"

subsection \<open>One command of the store\<close>

definition restCall :: "'k server \<Rightarrow> string list \<Rightarrow> 'k world \<Rightarrow> (otp_error + rval) \<times> 'k world" where
  "restCall srv cmd w = (case pipeline srv [cmd] w of
       (Inr (Result r # rs), w1) \<Rightarrow> (Inr r, w1)
     | (Inr _, w1) \<Rightarrow> (Inl (OtpStore ''otp store returned an error''), w1)
     | (Inl e, w1) \<Rightarrow> (Inl (OtpStore e), w1))"

definition kvSetJson :: "'k server \<Rightarrow> string \<Rightarrow> otp_rec \<Rightarrow> int \<Rightarrow> 'k world \<Rightarrow> (otp_error + unit) \<times> 'k world" where
  "kvSetJson srv key val ttlSec w = (case restCall srv [''SET'', key, showOtp val, ''EX'', show_int ttlSec] w of
       (Inl e, w1) \<Rightarrow> (Inl e, w1)
     | (Inr r, w1) \<Rightarrow> (Inr (), w1))"

definition kvGetJson :: "'k server \<Rightarrow> string \<Rightarrow> 'k world \<Rightarrow> (otp_error + otp_rec option) \<times> 'k world" where
  "kvGetJson srv key w = (case restCall srv [''GET'', key] w of
       (Inl e, w1) \<Rightarrow> (Inl e, w1)
     | (Inr (RStr s), w1) \<Rightarrow> if s = [] then (Inr None, w1) else (case parseOtp s of
            None \<Rightarrow> (Inl (OtpStore ''invalid JSON''), w1)
          | Some r \<Rightarrow> (Inr (Some r), w1))
     | (Inr _, w1) \<Rightarrow> (Inr None, w1))"

definition kvDel :: "'k server \<Rightarrow> string \<Rightarrow> 'k world \<Rightarrow> 'k world" where
  "kvDel srv key w = snd (restCall srv [''DEL'', key] w)"

subsection \<open>The two windows\<close>

definition spanBump :: "int \<Rightarrow> int \<Rightarrow> int \<Rightarrow> string \<Rightarrow> (string \<times> span) list \<Rightarrow> bool \<times> (string \<times> span) list" where
  "spanBump cap windowSec now i m = (let fresh = (False, AList.update i \<lparr>hits = 1, endsAt = now + windowSec * 1000\<rparr> m) in
     case map_of m i of None \<Rightarrow> fresh
     | Some r \<Rightarrow> if endsAt r < now then fresh else (cap < hits r + 1, AList.update i (r\<lparr>hits := hits r + 1\<rparr>) m))"

definition bumpCmds :: "string \<Rightarrow> int \<Rightarrow> string list list" where
  "bumpCmds key windowSec = [[''INCR'', key], [''EXPIRE'', key, show_int windowSec, ''NX'']]"

text \<open>\<open>Number(first?.result ?? 0) > cap\<close>: a row that carries an error counts as 0.\<close>

definition firstOver :: "reply list \<Rightarrow> int \<Rightarrow> bool" where
  "firstOver rows cap = (case rows of
       Result r # rs \<Rightarrow> (case numberOf r of Some n \<Rightarrow> cap < n | None \<Rightarrow> False)
     | _ \<Rightarrow> cap < 0)"

definition overRequestCap :: "'k server \<Rightarrow> string \<Rightarrow> otp_mem \<times> 'k world \<Rightarrow> bool \<times> otp_mem \<times> 'k world" where
  "overRequestCap srv i s = (case s of (m, w) \<Rightarrow>
     if \<not> kvConfigured w then (case spanBump MAX_OTP_PER_WINDOW OTP_WINDOW_SEC (clock w) i (reqMem m) of
         (over, q) \<Rightarrow> (over, m\<lparr>reqMem := q\<rparr>, w))
     else (case pipeline srv (bumpCmds (reqKey i) OTP_WINDOW_SEC) w of
         (Inl e, w1) \<Rightarrow> (False, m, w1)
       | (Inr rows, w1) \<Rightarrow> (firstOver rows MAX_OTP_PER_WINDOW, m, w1)))"

definition overVerifyBudget :: "'k server \<Rightarrow> string \<Rightarrow> otp_mem \<times> 'k world \<Rightarrow> (otp_error + bool) \<times> otp_mem \<times> 'k world" where
  "overVerifyBudget srv i s = (case s of (m, w) \<Rightarrow>
     if \<not> kvConfigured w then (case spanBump MAX_VERIFY_PER_WINDOW VERIFY_WINDOW_SEC (clock w) i (tryMem m) of
         (over, q) \<Rightarrow> (Inr over, m\<lparr>tryMem := q\<rparr>, w))
     else (case pipeline srv (bumpCmds (tryKey i) VERIFY_WINDOW_SEC) w of
         (Inl e, w1) \<Rightarrow> (Inl OtpCheckUnavailable, m, w1)
       | (Inr rows, w1) \<Rightarrow> (Inr (firstOver rows MAX_VERIFY_PER_WINDOW), m, w1)))"

subsection \<open>Requesting a code\<close>

datatype mailed = Logged | Sent

text \<open>Without a mailer key only a flagged local run goes on; a mail that does not go out is no error.\<close>

definition sendCodeEmail :: "environ \<Rightarrow> otp_error + mailed" where
  "sendCodeEmail e = (if e ''RESEND_API_KEY'' \<in> {None, Some []}
     then (if e ''RECOVERY_ALLOW_MEMORY_STORE'' = Some ''1'' then Inr Logged else Inl MailerMissing)
     else Inr Sent)"

definition storeCode :: "'k server \<Rightarrow> string \<Rightarrow> otp_rec \<Rightarrow> int \<Rightarrow> otp_mem \<times> 'k world \<Rightarrow> (otp_error + unit) \<times> otp_mem \<times> 'k world" where
  "storeCode srv i r ttlSec s = (case s of (m, w) \<Rightarrow>
     if \<not> kvConfigured w then (Inr (), m\<lparr>codes := AList.update i r (codes m)\<rparr>, w)
     else (case kvSetJson srv (otpKey i) r ttlSec w of (x, w1) \<Rightarrow> (x, m, w1)))"

definition requestOtp :: "'k server \<Rightarrow> (string \<Rightarrow> string) \<Rightarrow> nat \<Rightarrow> string option \<Rightarrow> otp_mem \<times> 'k world \<Rightarrow> (otp_error + mailed) \<times> otp_mem \<times> 'k world" where
  "requestOtp srv sha rnd rawEmail s = (let email = (case rawEmail of None \<Rightarrow> [] | Some x \<Rightarrow> toLowerCase (trim x)) in
     if 200 < length email \<or> \<not> emailShape email then (Inl InvalidEmail, s)
     else (let i = idForEmail sha email in case overRequestCap srv i s of
         (True, s1) \<Rightarrow> (Inl OtpBudgetExceeded, s1)
       | (False, s1) \<Rightarrow> (let now = clock (snd s1); r = \<lparr>codeHash = hashOf sha i (sixDigit rnd), expAt = now + TTL_SEC * 1000, tries = 0\<rparr> in
            case storeCode srv i r TTL_SEC s1 of
              (Inl e, s2) \<Rightarrow> (Inl e, s2)
            | (Inr (), s2) \<Rightarrow> (sendCodeEmail (env (snd s2)), s2))))"

subsection \<open>Verifying one\<close>

datatype verdict = Ok | Wrong | Spent

text \<open>The id and the code, when both have their shape.\<close>

definition wellFormed :: "string option \<Rightarrow> string option \<Rightarrow> (string \<times> string) option" where
  "wellFormed rawId rawCode = (case (rawId, rawCode) of
       (Some i, Some c) \<Rightarrow> if lowerHex 64 i \<and> length (trim c) = 6 \<and> list_all is_digit (trim c) then Some (i, trim c) else None
     | _ \<Rightarrow> None)"

definition loadCode :: "'k server \<Rightarrow> string \<Rightarrow> otp_mem \<times> 'k world \<Rightarrow> (otp_error + otp_rec option) \<times> otp_mem \<times> 'k world" where
  "loadCode srv i s = (case s of (m, w) \<Rightarrow>
     if \<not> kvConfigured w then (Inr (map_of (codes m) i), m, w)
     else (case kvGetJson srv (otpKey i) w of (x, w1) \<Rightarrow> (x, m, w1)))"

definition dropCode :: "'k server \<Rightarrow> string \<Rightarrow> otp_mem \<times> 'k world \<Rightarrow> otp_mem \<times> 'k world" where
  "dropCode srv i s = (case s of (m, w) \<Rightarrow>
     if \<not> kvConfigured w then (m\<lparr>codes := AList.delete i (codes m)\<rparr>, w) else (m, kvDel srv (otpKey i) w))"

definition remainSec :: "int \<Rightarrow> int \<Rightarrow> int" where
  "remainSec x now = max 1 (- ((now - x) div 1000))"

text \<open>What follows the read of a record: a dead one goes, a wrong guess is counted, a right one consumes it.\<close>

definition settleCode :: "'k server \<Rightarrow> (string \<Rightarrow> string) \<Rightarrow> string \<Rightarrow> string \<Rightarrow> otp_rec \<Rightarrow> otp_mem \<times> 'k world \<Rightarrow> (otp_error + verdict) \<times> otp_mem \<times> 'k world" where
  "settleCode srv sha i c r s = (let now = clock (snd s) in
     if expAt r < now \<or> MAX_TRIES \<le> tries r then (Inr Wrong, dropCode srv i s)
     else if \<not> timingSafeEqualHex (hashOf sha i c) (codeHash r) then
       (case storeCode srv i (r\<lparr>tries := tries r + 1\<rparr>) (remainSec (expAt r) now) s of
          (Inl e, s1) \<Rightarrow> (Inl e, s1)
        | (Inr (), s1) \<Rightarrow> (Inr Wrong, s1))
     else (Inr Ok, dropCode srv i s))"

definition verifyOtpDetailed :: "'k server \<Rightarrow> (string \<Rightarrow> string) \<Rightarrow> string option \<Rightarrow> string option \<Rightarrow> otp_mem \<times> 'k world \<Rightarrow> (otp_error + verdict) \<times> otp_mem \<times> 'k world" where
  "verifyOtpDetailed srv sha rawId rawCode s = (case wellFormed rawId rawCode of None \<Rightarrow> (Inr Wrong, s)
     | Some (i, c) \<Rightarrow> (case overVerifyBudget srv i s of
          (Inl e, s1) \<Rightarrow> (Inl e, s1)
        | (Inr True, s1) \<Rightarrow> (Inr Spent, s1)
        | (Inr False, s1) \<Rightarrow> (case loadCode srv i s1 of
              (Inl e, s2) \<Rightarrow> (Inl e, s2)
            | (Inr None, s2) \<Rightarrow> (Inr Wrong, s2)
            | (Inr (Some r), s2) \<Rightarrow> settleCode srv sha i c r s2)))"

definition verifyOtp :: "'k server \<Rightarrow> (string \<Rightarrow> string) \<Rightarrow> string option \<Rightarrow> string option \<Rightarrow> otp_mem \<times> 'k world \<Rightarrow> (otp_error + bool) \<times> otp_mem \<times> 'k world" where
  "verifyOtp srv sha rawId rawCode s = (case verifyOtpDetailed srv sha rawId rawCode s of
       (Inr v, s1) \<Rightarrow> (Inr (v = Ok), s1)
     | (Inl e, s1) \<Rightarrow> if e = OtpCheckUnavailable then (Inr False, s1) else (Inl e, s1))"

subsection \<open>What the windows rely on\<close>

text \<open>INCR, then EXPIRE with NX: the count goes up by one, and the expiry is the one it had or a new one.
  Redis keeps an expiry that is set; fake-kv.ts reads no flag after the seconds and sets it anew.\<close>

definition bumped :: "string \<Rightarrow> int \<Rightarrow> kv_view \<Rightarrow> kv_view \<Rightarrow> bool" where
  "bumped k limit v v' \<longleftrightarrow> (\<exists>e \<in> {cell_exp (v k), Some limit}. v' = v(k \<mapsto> int_cell (counter (v k) + 1) e))"

locale redis_expiry = redis_commands +
  assumes expire_nx: "wf s \<Longrightarrow> 0 < n \<Longrightarrow> view t s k = Some (c, e) \<Longrightarrow>
    \<exists>e' \<in> {e, Some (t + n * 1000)}. view t (snd (srv t [''EXPIRE'', k, show_int n, ''NX''] s)) = (view t s)(k \<mapsto> (c, e'))"

lemma fake_expire_nx:
  assumes "kv_wf s" "cell t s k = Some (c, e)" "0 < n"
  shows "cell t (snd (runOne t [''EXPIRE'', k, show_int n, ''NX''] s)) = (cell t s)(k \<mapsto> (c, Some (t + n * 1000)))"
proof -
  have js: "js_Number (k # show_int n # xs) (Suc 0) = Some n" for xs by (simp add: js_Number_def)
  have "runOne t [''EXPIRE'', k, show_int n, ''NX''] s = runOne t [''EXPIRE'', k, show_int n] s"
    by (cases "live t k s") (simp add: runOne_basic runBasic_def runExpire_def js split: option.split)
  then show ?thesis using fake.expire_view [OF assms(1,3,2)] by simp
qed

interpretation fakee: redis_expiry runOne cell kv_wf
  by unfold_locales (blast intro: fake_expire_nx)

context redis_expiry
begin

lemma bump_any:
  assumes "wf (kvs w)" "is_counter (view (clock w) (kvs w) k)" "0 < sec"
  shows "\<exists>r w'. pipeline srv (bumpCmds k sec) w = (r, w') \<and> wf (kvs w') \<and> env w' = env w \<and> clock w' = clock w \<and> nets w' = drop 1 (nets w) \<and>
    ((\<exists>y. r = Inr [Result (RInt (counter (view (clock w) (kvs w) k) + 1)), y]) \<and>
        bumped k (clock w + sec * 1000) (view (clock w) (kvs w)) (view (clock w) (kvs w')) \<or>
     (\<exists>x. r = Inl x) \<and> nets w \<noteq> [] \<and> (view (clock w) (kvs w') = view (clock w) (kvs w) \<or>
        bumped k (clock w + sec * 1000) (view (clock w) (kvs w)) (view (clock w) (kvs w'))))"
proof -
  let ?t = "clock w" and ?v = "view (clock w) (kvs w)"
  define s1 where "s1 = snd (srv ?t [''INCR'', k] (kvs w))"
  have one: "srv ?t [''INCR'', k] (kvs w) = (Result (RInt (counter (?v k) + 1)), s1)" "wf s1"
      "view ?t s1 = ?v(k \<mapsto> int_cell (counter (?v k) + 1) (cell_exp (?v k)))"
    using incr_reply [OF assms(1) is_counter_int [OF assms(2)]] incr_view [OF assms(1) is_counter_int [OF assms(2)]] srv_wf [OF assms(1)]
    by (simp_all add: s1_def prod_eq_iff)
  obtain r s2 where two: "srv ?t [''EXPIRE'', k, show_int sec, ''NX''] s1 = (r, s2)" by fastforce
  have "view ?t s1 k = Some (VStr (show_int (counter (?v k) + 1)), cell_exp (?v k))" by (simp add: one(3) int_cell_def)
  from expire_nx [OF one(2) assms(3) this] have b2: "bumped k (?t + sec * 1000) ?v (view ?t s2)"
    using two one(3) by (auto simp: bumped_def int_cell_def)
  have b1: "bumped k (?t + sec * 1000) ?v (view ?t s1)" using one(3) by (simp add: bumped_def)
  have wf2: "wf s2" using srv_wf [OF one(2), of ?t "[''EXPIRE'', k, show_int sec, ''NX'']"] two by simp
  have all: "execAll srv ?t (bumpCmds k sec) (kvs w) = ([Result (RInt (counter (?v k) + 1)), r], s2)"
    by (simp add: bumpCmds_def one(1) two)
  show ?thesis
  proof (cases "\<exists>m ns. nets w = Lost m # ns")
    case True
    then obtain m ns where lost: "nets w = Lost m # ns" by blast
    define s' where "s' = snd (execAll srv ?t (take m (bumpCmds k sec)) (kvs w))"
    have "m = 0 \<or> m = 1 \<or> take m (bumpCmds k sec) = bumpCmds k sec" by (auto simp: bumpCmds_def)
    then have "s' \<in> {kvs w, s1, s2}" using all one(1) by (auto simp: s'_def bumpCmds_def)
    then show ?thesis using lost b1 b2 one(2) wf2 assms(1)
      by (intro exI [of _ "Inl ''caps store unavailable''"] exI [of _ "w\<lparr>kvs := s', nets := ns\<rparr>"]) (auto simp: pipeline_def s'_def)
  next
    case False
    then show ?thesis using all b2 wf2 by (auto simp: pipeline_def split: list.splits net.splits)
  qed
qed

lemma restCall_any:
  assumes "wf (kvs w)" "fits c (view (clock w) (kvs w))"
  shows "\<exists>r w'. restCall srv (render c) w = (r, w') \<and> wf (kvs w') \<and> env w' = env w \<and> clock w' = clock w \<and> nets w' = drop 1 (nets w) \<and>
    (r = Inr (said c (view (clock w) (kvs w))) \<and> view (clock w) (kvs w') = left (clock w) c (view (clock w) (kvs w)) \<or>
     (\<exists>x. r = Inl (OtpStore x)) \<and> nets w \<noteq> [] \<and> view (clock w) (kvs w') \<in> {view (clock w) (kvs w), left (clock w) c (view (clock w) (kvs w))})"
proof -
  have "fitAll (clock w) [c] (view (clock w) (kvs w))" using assms(2) by simp
  from pipeline_render [OF assms(1) this]
  obtain n w' where n: "pipeline srv (map render [c]) w = (if n = length [c] \<and> (\<forall>m ns. nets w \<noteq> Lost m # ns)
        then Inr (map Result (saidAll (clock w) [c] (view (clock w) (kvs w)))) else Inl ''caps store unavailable'', w')"
      "wf (kvs w')" "env w' = env w" "clock w' = clock w" "nets w' = drop 1 (nets w)"
      "view (clock w) (kvs w') = leftAll (clock w) (take n [c]) (view (clock w) (kvs w))" "nets w = [] \<longrightarrow> n = length [c]"
    by blast
  have "take n [c] = (if n = 0 then [] else [c])" by (cases n) auto
  then show ?thesis using n by (auto simp: restCall_def)
qed

end

subsection \<open>The contract of one verify\<close>

text \<open>What an email's keys hold: the guesses its window has counted, and the code in force.\<close>

definition codeOf :: "cell option \<Rightarrow> otp_rec option" where
  "codeOf c = (case cell_str c of None \<Rightarrow> None | Some s \<Rightarrow> parseOtp s)"

definition spanCount :: "int \<Rightarrow> span option \<Rightarrow> int" where
  "spanCount now x = (case x of None \<Rightarrow> 0 | Some r \<Rightarrow> if endsAt r < now then 0 else hits r)"

definition otp_abs :: "(int \<Rightarrow> 'k \<Rightarrow> kv_view) \<Rightarrow> string \<Rightarrow> otp_mem \<times> 'k world \<Rightarrow> int \<times> otp_rec option" where
  "otp_abs view i s = (case s of (m, w) \<Rightarrow> let v = view (clock w) (kvs w) in
     if kvConfigured w then (counter (v (tryKey i)), codeOf (v (otpKey i)))
     else (spanCount (clock w) (map_of (tryMem m) i), map_of (codes m) i))"

definition settle_spec :: "(string \<Rightarrow> string) \<Rightarrow> int \<Rightarrow> string \<Rightarrow> string \<Rightarrow> otp_rec \<Rightarrow> verdict \<times> otp_rec option" where
  "settle_spec sha now i c r = (if expAt r < now \<or> MAX_TRIES \<le> tries r then (Wrong, None)
     else if hashOf sha i c = codeHash r then (Ok, None) else (Wrong, Some (r\<lparr>tries := tries r + 1\<rparr>)))"

definition verify_spec :: "(string \<Rightarrow> string) \<Rightarrow> int \<Rightarrow> string \<Rightarrow> string \<Rightarrow> int \<times> otp_rec option \<Rightarrow> verdict \<times> int \<times> otp_rec option" where
  "verify_spec sha now i c a = (case a of (g, r) \<Rightarrow>
     if MAX_VERIFY_PER_WINDOW < g + 1 then (Spent, g + 1, r)
     else (case r of None \<Rightarrow> (Wrong, g + 1, None)
       | Some x \<Rightarrow> (case settle_spec sha now i c x of (v, r') \<Rightarrow> (v, g + 1, r'))))"

definition otp_cell :: "cell option \<Rightarrow> bool" where
  "otp_cell c \<longleftrightarrow> (c = None \<or> (\<exists>r e. c = Some (VStr (showOtp r), e)))"

definition otp_ok :: "kv_view \<Rightarrow> bool" where
  "otp_ok v \<longleftrightarrow> (\<forall>i. is_counter (v (tryKey i)) \<and> is_counter (v (reqKey i)) \<and> otp_cell (v (otpKey i)))"

lemma otp_keys [simp]:
  "otpKey i \<noteq> tryKey j" "tryKey j \<noteq> otpKey i" "otpKey i \<noteq> reqKey j" "reqKey j \<noteq> otpKey i" "tryKey i \<noteq> reqKey j" "reqKey j \<noteq> tryKey i"
  "otpKey i = otpKey j \<longleftrightarrow> i = j" "tryKey i = tryKey j \<longleftrightarrow> i = j" "reqKey i = reqKey j \<longleftrightarrow> i = j"
  by (simp_all add: otpKey_def tryKey_def reqKey_def)

lemma showJson_nonempty [simp]: "showJson j \<noteq> []"
  using showJson_first [of j] by auto

lemma showOtp_nonempty [simp]: "showOtp r \<noteq> []"
  by (simp add: showOtp_def)

lemma codeOf_simps [simp]: "codeOf None = None" "codeOf (Some (VStr (showOtp r), e)) = Some r"
  by (simp_all add: codeOf_def)

lemma otp_cell_simps [simp]: "otp_cell None" "otp_cell (Some (VStr (showOtp r), e))"
  by (auto simp: otp_cell_def)

lemma otp_cell_strish: "otp_cell c \<Longrightarrow> strish c"
  by (auto simp: otp_cell_def)

lemma otp_okD:
  "otp_ok v \<Longrightarrow> is_counter (v (tryKey i))" "otp_ok v \<Longrightarrow> is_counter (v (reqKey i))" "otp_ok v \<Longrightarrow> otp_cell (v (otpKey i))"
  "otp_ok v \<Longrightarrow> strish (v (otpKey i))"
  using otp_cell_strish by (auto simp: otp_ok_def)

lemma otp_ok_bumped:
  assumes "otp_ok v" "bumped k limit v v'" "k = tryKey i \<or> k = reqKey i"
  shows "otp_ok v'"
  using assms by (auto simp: otp_ok_def bumped_def)

lemma otp_ok_code: "otp_ok v \<Longrightarrow> otp_cell c \<Longrightarrow> otp_ok (v(otpKey i := c))"
  by (simp add: otp_ok_def)

context redis_expiry
begin

lemma load_any:
  assumes "wf (kvs w)" "otp_ok (view (clock w) (kvs w))"
  shows "\<exists>r w'. kvGetJson srv (otpKey i) w = (r, w') \<and> wf (kvs w') \<and> env w' = env w \<and> clock w' = clock w \<and> nets w' = drop 1 (nets w) \<and>
    view (clock w) (kvs w') = view (clock w) (kvs w) \<and>
    (r = Inr (codeOf (view (clock w) (kvs w) (otpKey i))) \<or> (\<exists>x. r = Inl (OtpStore x)) \<and> nets w \<noteq> [])"
proof -
  have "fits (Get (otpKey i)) (view (clock w) (kvs w))" using otp_okD(4) [OF assms(2)] by simp
  from restCall_any [OF assms(1) this]
  obtain r w' where "restCall srv (render (Get (otpKey i))) w = (r, w')" "wf (kvs w')" "env w' = env w" "clock w' = clock w"
      "nets w' = drop 1 (nets w)" "view (clock w) (kvs w') = view (clock w) (kvs w)"
      "r = Inr (str_reply (cell_str (view (clock w) (kvs w) (otpKey i)))) \<or> (\<exists>x. r = Inl (OtpStore x)) \<and> nets w \<noteq> []"
    by (auto simp del: ex_simps)
  then show ?thesis using otp_okD(3) [OF assms(2), of i]
    by (auto simp: kvGetJson_def str_reply_def otp_cell_def codeOf_def)
qed

lemma settle_any:
  assumes "wf (kvs w)" "kvConfigured w"
  shows "\<exists>r w'. settleCode srv sha i c x (m, w) = (r, m, w') \<and> wf (kvs w') \<and> env w' = env w \<and> clock w' = clock w \<and> nets w' = drop 1 (nets w) \<and>
    (r = Inr (fst (settle_spec sha (clock w) i c x)) \<or> (\<exists>e. r = Inl (OtpStore e)) \<and> nets w \<noteq> []) \<and>
    (nets w \<noteq> [] \<and> view (clock w) (kvs w') = view (clock w) (kvs w) \<or>
     (\<exists>e. view (clock w) (kvs w') = (view (clock w) (kvs w))(otpKey i :=
        map_option (\<lambda>y. (VStr (showOtp y), Some e)) (snd (settle_spec sha (clock w) i c x)))))"
proof -
  let ?t = "clock w" and ?v = "view (clock w) (kvs w)"
  define del where "del = Drop (otpKey i)"
  define put where "put = PutFor (otpKey i) (showOtp (x\<lparr>tries := tries x + 1\<rparr>)) (remainSec (expAt x) ?t)"
  have fit: "fits del ?v" "fits put ?v" by (simp_all add: del_def put_def remainSec_def)
  obtain r1 w1 where d: "restCall srv (render del) w = (r1, w1)" "wf (kvs w1)" "env w1 = env w" "clock w1 = ?t" "nets w1 = drop 1 (nets w)"
      "nets w \<noteq> [] \<and> view ?t (kvs w1) = ?v \<or> view ?t (kvs w1) = left ?t del ?v"
    using restCall_any [OF assms(1) fit(1)] by blast
  obtain r2 w2 where p: "restCall srv (render put) w = (r2, w2)" "wf (kvs w2)" "env w2 = env w" "clock w2 = ?t" "nets w2 = drop 1 (nets w)"
      "(\<exists>y. r2 = Inr y) \<or> (\<exists>e. r2 = Inl (OtpStore e)) \<and> nets w \<noteq> []"
      "nets w \<noteq> [] \<and> view ?t (kvs w2) = ?v \<or> view ?t (kvs w2) = left ?t put ?v"
    using restCall_any [OF assms(1) fit(2)] by blast
  consider "expAt x < ?t \<or> MAX_TRIES \<le> tries x" | "\<not> (expAt x < ?t \<or> MAX_TRIES \<le> tries x)" "hashOf sha i c = codeHash x"
    | "\<not> (expAt x < ?t \<or> MAX_TRIES \<le> tries x)" "hashOf sha i c \<noteq> codeHash x" by blast
  then show ?thesis
  proof cases
    case 1
    then have "settleCode srv sha i c x (m, w) = (Inr Wrong, m, w1)" "settle_spec sha ?t i c x = (Wrong, None)"
      using d(1) assms(2) by (simp_all add: settleCode_def settle_spec_def dropCode_def kvDel_def del_def)
    then show ?thesis using d(2-6) by (intro exI [of _ "Inr Wrong"] exI [of _ w1]) (simp add: del_def)
  next
    case 2
    then have "settleCode srv sha i c x (m, w) = (Inr Ok, m, w1)" "settle_spec sha ?t i c x = (Ok, None)"
      using d(1) assms(2) by (simp_all add: settleCode_def settle_spec_def dropCode_def kvDel_def del_def timingSafeEqualHex_eq)
    then show ?thesis using d(2-6) by (intro exI [of _ "Inr Ok"] exI [of _ w1]) (simp add: del_def)
  next
    case 3
    let ?r = "case r2 of Inl e \<Rightarrow> Inl e | Inr y \<Rightarrow> Inr Wrong"
    have "settleCode srv sha i c x (m, w) = (?r, m, w2)" "settle_spec sha ?t i c x = (Wrong, Some (x\<lparr>tries := tries x + 1\<rparr>))"
      using 3 p(1) assms(2)
      by (simp_all add: settleCode_def settle_spec_def storeCode_def kvSetJson_def put_def timingSafeEqualHex_eq split: sum.split unit.split)
    then show ?thesis using p(2-7) by (intro exI [of _ ?r] exI [of _ w2]) (auto simp: put_def)
  qed
qed

end

text \<open>One verify is the contract, on the shared store and on the isolate's maps alike.\<close>

definition otp_good :: "(int \<Rightarrow> 'k \<Rightarrow> kv_view) \<Rightarrow> ('k \<Rightarrow> bool) \<Rightarrow> 'k world \<Rightarrow> bool" where
  "otp_good view ok w \<longleftrightarrow> ok (kvs w) \<and> online w \<and> otp_ok (view (clock w) (kvs w))"

lemma kvConfigured_cong: "env w' = env w \<Longrightarrow> kvConfigured w' = kvConfigured w"
  by (simp add: kvConfigured_def)

lemma otp_ok_settled:
  assumes "otp_ok v"
  shows "otp_ok (v(otpKey i := map_option (\<lambda>y. (VStr (showOtp y), Some e)) z))"
  using assms by (cases z) (auto intro!: otp_ok_code)

context redis_expiry
begin

lemma verify_kv:
  assumes "otp_good view wf w" "wellFormed rawId rawCode = Some (i, c)" "kvConfigured w"
  shows "\<exists>w'. verifyOtpDetailed srv sha rawId rawCode (m, w) = (Inr (fst (verify_spec sha (clock w) i c (otp_abs view i (m, w)))), m, w') \<and>
    otp_abs view i (m, w') = snd (verify_spec sha (clock w) i c (otp_abs view i (m, w))) \<and>
    otp_good view wf w' \<and> env w' = env w \<and> clock w' = clock w"
proof -
  let ?t = "clock w" and ?v = "view (clock w) (kvs w)"
  define g where "g = counter (?v (tryKey i))"
  have w0: "wf (kvs w)" "nets w = []" "otp_ok ?v" using assms(1) by (simp_all add: otp_good_def online_def)
  obtain y w1 where b: "pipeline srv (bumpCmds (tryKey i) VERIFY_WINDOW_SEC) w = (Inr [Result (RInt (g + 1)), y], w1)"
      "wf (kvs w1)" "env w1 = env w" "clock w1 = ?t" "nets w1 = []" "bumped (tryKey i) (?t + VERIFY_WINDOW_SEC * 1000) ?v (view ?t (kvs w1))"
    using bump_any [OF w0(1) otp_okD(1) [OF w0(3)], of VERIFY_WINDOW_SEC i] w0(2) by (auto simp: VERIFY_WINDOW_SEC_def g_def)
  have over: "overVerifyBudget srv i (m, w) = (Inr (MAX_VERIFY_PER_WINDOW < g + 1), m, w1)"
    using b(1) assms(3) by (simp add: overVerifyBudget_def firstOver_def numberOf_def)
  have ok1: "otp_ok (view ?t (kvs w1))" using otp_ok_bumped [OF w0(3) b(6)] by blast
  have v1: "counter (view ?t (kvs w1) (tryKey i)) = g + 1" "view ?t (kvs w1) (otpKey i) = ?v (otpKey i)"
    using b(6) by (auto simp: bumped_def g_def)
  have abs0: "otp_abs view i (m, w) = (g, codeOf (?v (otpKey i)))" using assms(3) by (simp add: otp_abs_def Let_def g_def)
  have k1: "kvConfigured w1" using kvConfigured_cong [OF b(3)] assms(3) by simp
  show ?thesis
  proof (cases "MAX_VERIFY_PER_WINDOW < g + 1")
    case True
    then show ?thesis using over b ok1 v1 assms(2) k1
      by (simp add: verifyOtpDetailed_def verify_spec_def abs0 otp_good_def online_def) (simp add: otp_abs_def Let_def)
  next
    case False
    obtain w2 where l: "kvGetJson srv (otpKey i) w1 = (Inr (codeOf (?v (otpKey i))), w2)" "wf (kvs w2)" "env w2 = env w" "clock w2 = ?t"
        "nets w2 = []" "view ?t (kvs w2) = view ?t (kvs w1)"
      using load_any [of w1 i] b(2-5) ok1 v1(2) by auto
    have load: "loadCode srv i (m, w1) = (Inr (codeOf (?v (otpKey i))), m, w2)" using l(1) k1 by (simp add: loadCode_def)
    have k2: "kvConfigured w2" using kvConfigured_cong [OF l(3)] assms(3) by simp
    show ?thesis
    proof (cases "codeOf (?v (otpKey i))")
      case None
      then show ?thesis using False over load l(2-6) ok1 v1 assms(2) k2
        by (simp add: verifyOtpDetailed_def verify_spec_def abs0 otp_good_def online_def) (simp add: otp_abs_def Let_def)
    next
      case (Some x)
      let ?n = "settle_spec sha ?t i c x"
      obtain w3 where st: "settleCode srv sha i c x (m, w2) = (Inr (fst ?n), m, w3)" "wf (kvs w3)" "env w3 = env w" "clock w3 = ?t" "nets w3 = []"
          "\<exists>e. view ?t (kvs w3) = (view ?t (kvs w2))(otpKey i := map_option (\<lambda>y. (VStr (showOtp y), Some e)) (snd ?n))"
        using settle_any [OF l(2) k2, of sha i c x m] l(3-5) by auto
      obtain e where e: "view ?t (kvs w3) = (view ?t (kvs w1))(otpKey i := map_option (\<lambda>y. (VStr (showOtp y), Some e)) (snd ?n))"
        using st(6) l(6) by auto
      have ok3: "otp_ok (view ?t (kvs w3))" unfolding e by (rule otp_ok_settled [OF ok1])
      have "codeOf (view ?t (kvs w3) (otpKey i)) = snd ?n" "counter (view ?t (kvs w3) (tryKey i)) = g + 1"
        using v1 by (simp_all add: e codeOf_def cell_str_def split: option.split)
      moreover have "kvConfigured w3" using kvConfigured_cong [OF st(3)] assms(3) by simp
      ultimately have abs3: "otp_abs view i (m, w3) = (g + 1, snd ?n)" using st(4) by (simp add: otp_abs_def Let_def)
      have spec: "verify_spec sha ?t i c (otp_abs view i (m, w)) = (fst ?n, g + 1, snd ?n)"
        using False Some by (simp add: verify_spec_def abs0 case_prod_unfold)
      have "verifyOtpDetailed srv sha rawId rawCode (m, w) = (Inr (fst ?n), m, w3)"
        using False over load Some assms(2) st(1) by (simp add: verifyOtpDetailed_def)
      then show ?thesis using abs3 spec st(2-5) ok3 by (intro exI [of _ w3]) (simp add: otp_good_def online_def)
    qed
  qed
qed

end

lemma settle_mem:
  assumes "\<not> kvConfigured w"
  shows "\<exists>m'. settleCode srv sha i c x (m, w) = (Inr (fst (settle_spec sha (clock w) i c x)), m', w) \<and> tryMem m' = tryMem m \<and>
    map_of (codes m') i = snd (settle_spec sha (clock w) i c x)"
  using assms by (simp add: settleCode_def settle_spec_def storeCode_def dropCode_def timingSafeEqualHex_eq Let_def split: unit.split)

lemma verify_mem:
  assumes "wellFormed rawId rawCode = Some (i, c)" "\<not> kvConfigured w"
  shows "\<exists>m'. verifyOtpDetailed srv sha rawId rawCode (m, w) = (Inr (fst (verify_spec sha (clock w) i c (otp_abs view i (m, w)))), m', w) \<and>
    otp_abs view i (m', w) = snd (verify_spec sha (clock w) i c (otp_abs view i (m, w)))"
proof -
  let ?t = "clock w"
  define g where "g = spanCount ?t (map_of (tryMem m) i)"
  obtain over q where b: "spanBump MAX_VERIFY_PER_WINDOW VERIFY_WINDOW_SEC ?t i (tryMem m) = (over, q)" by fastforce
  have over: "over = (MAX_VERIFY_PER_WINDOW < g + 1)" "spanCount ?t (map_of q i) = g + 1"
    using b by (auto simp: spanBump_def Let_def g_def spanCount_def MAX_VERIFY_PER_WINDOW_def VERIFY_WINDOW_SEC_def split: option.splits if_splits)
  have "overVerifyBudget srv i (m, w) = (Inr over, m\<lparr>tryMem := q\<rparr>, w)" using b assms(2) by (simp add: overVerifyBudget_def)
  moreover have "otp_abs view i (m, w) = (g, map_of (codes m) i)" using assms(2) by (simp add: otp_abs_def g_def)
  ultimately have eq: "verifyOtpDetailed srv sha rawId rawCode (m, w) = (if MAX_VERIFY_PER_WINDOW < g + 1 then (Inr Spent, m\<lparr>tryMem := q\<rparr>, w)
        else (case map_of (codes m) i of None \<Rightarrow> (Inr Wrong, m\<lparr>tryMem := q\<rparr>, w) | Some x \<Rightarrow> settleCode srv sha i c x (m\<lparr>tryMem := q\<rparr>, w)))"
      "otp_abs view i (m, w) = (g, map_of (codes m) i)"
    using assms over(1) by (simp_all add: verifyOtpDetailed_def loadCode_def split: option.split)
  show ?thesis
  proof (cases "MAX_VERIFY_PER_WINDOW < g + 1 \<or> map_of (codes m) i = None")
    case True
    then show ?thesis using over(2) assms(2) by (auto simp: eq verify_spec_def otp_abs_def g_def [symmetric])
  next
    case False
    then obtain x where x: "map_of (codes m) i = Some x" by auto
    obtain m' where "settleCode srv sha i c x (m\<lparr>tryMem := q\<rparr>, w) = (Inr (fst (settle_spec sha ?t i c x)), m', w)" "tryMem m' = q"
        "map_of (codes m') i = snd (settle_spec sha ?t i c x)"
      using settle_mem [OF assms(2), of srv sha i c x "m\<lparr>tryMem := q\<rparr>"] by auto
    then show ?thesis using False x over(2) assms(2) by (simp add: eq verify_spec_def otp_abs_def case_prod_unfold g_def [symmetric])
  qed
qed

text \<open>The guesses on one email, each at its own instant.\<close>

fun guesses :: "'k server \<Rightarrow> (string \<Rightarrow> string) \<Rightarrow> string \<Rightarrow> (int \<times> string) list \<Rightarrow> otp_mem \<times> 'k world \<Rightarrow> (otp_error + verdict) list" where
  "guesses srv sha i [] s = []"
| "guesses srv sha i ((t, c) # later) s = (case s of (m, w) \<Rightarrow>
     (case verifyOtpDetailed srv sha (Some i) (Some c) (m, w\<lparr>clock := t\<rparr>) of (v, s1) \<Rightarrow> v # guesses srv sha i later s1))"

subsection \<open>A code opens once, and within its first five guesses\<close>

text \<open>What is left of a code: the guesses it still takes, if it is in force.\<close>

definition lives :: "otp_rec option \<Rightarrow> nat" where
  "lives r = (case r of None \<Rightarrow> 0 | Some x \<Rightarrow> nat (MAX_TRIES - tries x))"

lemma verify_spec_lives:
  assumes "n = verify_spec sha now i c a"
  shows "lives (snd (snd n)) \<le> lives (snd a) - (if fst n = Spent then 0 else 1)" "fst n = Ok \<Longrightarrow> lives (snd (snd n)) = 0 \<and> 0 < lives (snd a)"
  unfolding assms
  by (auto simp: verify_spec_def settle_spec_def lives_def case_prod_unfold split: if_splits option.splits)

lemma otp_cell_lapse: "otp_cell c \<Longrightarrow> otp_cell (lapse t c) \<and> (codeOf (lapse t c) = codeOf c \<or> codeOf (lapse t c) = None)"
  by (auto simp: lapse_def split: option.splits)

lemma is_counter_lapse: "is_counter c \<Longrightarrow> is_counter (lapse t c)"
  by (auto simp: lapse_def split: option.splits)

context redis_expiry
begin

lemma otp_ok_later: "wf s \<Longrightarrow> otp_ok (view t s) \<Longrightarrow> t \<le> t' \<Longrightarrow> otp_ok (view t' s)"
  by (auto simp: otp_ok_def view_lapse [of s t t'] otp_cell_lapse is_counter_lapse)

lemma otp_good_later:
  assumes "otp_good view wf w" "clock w \<le> t"
  shows "otp_good view wf (w\<lparr>clock := t\<rparr>)" "lives (snd (otp_abs view i (m, w\<lparr>clock := t\<rparr>))) \<le> lives (snd (otp_abs view i (m, w)))"
proof -
  have ok: "wf (kvs w)" "otp_ok (view (clock w) (kvs w))" using assms(1) by (simp_all add: otp_good_def)
  show "otp_good view wf (w\<lparr>clock := t\<rparr>)" using assms otp_ok_later [OF ok assms(2)] by (simp add: otp_good_def online_def)
  have "kvConfigured (w\<lparr>clock := t\<rparr>) = kvConfigured w" by (simp add: kvConfigured_def)
  then show "lives (snd (otp_abs view i (m, w\<lparr>clock := t\<rparr>))) \<le> lives (snd (otp_abs view i (m, w)))"
    using otp_cell_lapse [OF otp_okD(3) [OF ok(2)], of t i] view_lapse [OF ok(1) assms(2)]
    by (auto simp: otp_abs_def Let_def lives_def)
qed

lemma guesses_open_once:
  assumes "otp_good view wf w" "list_all (\<lambda>(t, c). wellFormed (Some i) (Some c) \<noteq> None) gs" "sorted (clock w # map fst gs)"
  shows "length (filter ((=) (Inr Ok)) (guesses srv sha i gs (m, w))) \<le> of_bool (0 < lives (snd (otp_abs view i (m, w)))) \<and>
    Inr Ok \<notin> set (drop (lives (snd (otp_abs view i (m, w)))) (filter ((\<noteq>) (Inr Spent)) (guesses srv sha i gs (m, w))))"
  using assms
proof (induction gs arbitrary: m w)
  case (Cons p gs)
  obtain t c where p: "p = (t, c)" by (cases p)
  obtain j c' where wfm: "wellFormed (Some i) (Some c) = Some (j, c')" using Cons.prems(2) by (auto simp: p)
  then have j: "j = i" by (auto simp: wellFormed_def split: if_splits)
  let ?w = "w\<lparr>clock := t\<rparr>"
  have t: "clock w \<le> t" using Cons.prems(3) by (simp add: p)
  note good = otp_good_later [OF Cons.prems(1) t]
  define a where "a = otp_abs view i (m, ?w)"
  define n where "n = verify_spec sha t i c' a"
  obtain m1 w1 where v: "verifyOtpDetailed srv sha (Some i) (Some c) (m, ?w) = (Inr (fst n), m1, w1)" "otp_abs view i (m1, w1) = snd n"
      "otp_good view wf w1" "clock w1 = t"
  proof (cases "kvConfigured ?w")
    case True
    then show ?thesis using verify_kv [OF good(1) wfm True, of sha m] that by (auto simp: j n_def a_def)
  next
    case False
    then show ?thesis using verify_mem [OF wfm False, of srv sha m view] that good(1) by (auto simp: j n_def a_def)
  qed
  have "sorted (clock w1 # map fst gs)" "list_all (\<lambda>(t, c). wellFormed (Some i) (Some c) \<noteq> None) gs"
    using Cons.prems(2,3) by (simp_all add: p v(4))
  note ih = Cons.IH [OF v(3) this(2,1), of m1, unfolded v(2), THEN conjunct1] Cons.IH [OF v(3) this(2,1), of m1, unfolded v(2), THEN conjunct2]
  have later: "Inr Ok \<notin> set (drop k xs)" if "Inr Ok \<notin> set (drop l xs)" "l \<le> k" for k l and xs :: "(otp_error + verdict) list"
    using that set_drop_subset_set_drop [of l k xs] by blast
  have less: "lives (snd (snd n)) \<le> lives (snd a) - (if fst n = Spent then 0 else 1)" "fst n = Ok \<Longrightarrow> lives (snd (snd n)) = 0 \<and> 0 < lives (snd a)"
    using verify_spec_lives [OF n_def] by simp_all
  define L where "L = lives (snd (otp_abs view i (m, w)))"
  have L: "lives (snd a) \<le> L" using good(2) by (simp add: L_def a_def)
  have run: "guesses srv sha i (p # gs) (m, w) = Inr (fst n) # guesses srv sha i gs (m1, w1)" by (simp add: p v(1))
  show ?case
  proof (cases "fst n")
    case Ok
    then obtain l where "L = Suc l" using less L by (cases L) auto
    then show ?thesis using ih less Ok later [OF ih(2), of l] by (simp add: run L_def [symmetric])
  next
    case Wrong
    have "lives (snd (snd n)) \<le> L - 1" using less(1) L Wrong by simp
    then show ?thesis using ih Wrong later [OF ih(2), of "L - 1"]
      by (cases L) (auto simp: run L_def [symmetric] of_bool_def split: if_splits)
  next
    case Spent
    have "lives (snd (snd n)) \<le> L" using less(1) L Spent by simp
    then show ?thesis using ih Spent later [OF ih(2), of L] by (auto simp: run L_def [symmetric] of_bool_def split: if_splits)
  qed
qed simp

end


text \<open>An isolate with no store, a code asked for at 0, and three guesses: wrong, right, the right one again.\<close>

definition demo_id :: string where "demo_id = replicate 64 (CHR ''a'')"

definition demo_mem :: otp_mem where
  "demo_mem = \<lparr>codes = [(demo_id, \<lparr>codeHash = hashOf rev demo_id ''123456'', expAt = 600000, tries = 0\<rparr>)], tryMem = [], reqMem = []\<rparr>"

lemma otp_good_quiet [simp]: "otp_good cell kv_wf (quiet_world e t)"
  by (simp add: otp_good_def otp_ok_def cell_empty)


subsection \<open>Many guesses at once\<close>

text \<open>Requests and verifies on the shared store, one round trip at a time.\<close>

datatype job = Budgeting string string | Loading string string | Settling string string otp_rec | Answered string "otp_error + verdict"
  | Capping string nat | Storing string nat | Mailed "otp_error + mailed"

definition job_step :: "'k server \<Rightarrow> (string \<Rightarrow> string) \<Rightarrow> job \<Rightarrow> otp_mem \<times> 'k world \<Rightarrow> job \<times> otp_mem \<times> 'k world" where
  "job_step srv sha j s = (case j of
       Budgeting i c \<Rightarrow> (case overVerifyBudget srv i s of (Inl e, s1) \<Rightarrow> (Answered i (Inl e), s1)
         | (Inr over, s1) \<Rightarrow> (if over then Answered i (Inr Spent) else Loading i c, s1))
     | Loading i c \<Rightarrow> (case loadCode srv i s of (Inl e, s1) \<Rightarrow> (Answered i (Inl e), s1)
         | (Inr None, s1) \<Rightarrow> (Answered i (Inr Wrong), s1)
         | (Inr (Some r), s1) \<Rightarrow> (Settling i c r, s1))
     | Settling i c r \<Rightarrow> (case settleCode srv sha i c r s of (v, s1) \<Rightarrow> (Answered i v, s1))
     | Capping i rnd \<Rightarrow> (case overRequestCap srv i s of (over, s1) \<Rightarrow> (if over then Mailed (Inl OtpBudgetExceeded) else Storing i rnd, s1))
     | Storing i rnd \<Rightarrow> (case storeCode srv i \<lparr>codeHash = hashOf sha i (sixDigit rnd), expAt = clock (snd s) + TTL_SEC * 1000, tries = 0\<rparr> TTL_SEC s of
           (Inl e, s1) \<Rightarrow> (Mailed (Inl e), s1)
         | (Inr (), s1) \<Rightarrow> (Mailed (sendCodeEmail (env (snd s1))), s1))
     | _ \<Rightarrow> (j, s))"

fun job_run :: "nat \<Rightarrow> 'k server \<Rightarrow> (string \<Rightarrow> string) \<Rightarrow> job \<Rightarrow> otp_mem \<times> 'k world \<Rightarrow> job \<times> otp_mem \<times> 'k world" where
  "job_run 0 srv sha j s = (j, s)"
| "job_run (Suc n) srv sha j s = (case job_step srv sha j s of (j1, s1) \<Rightarrow> job_run n srv sha j1 s1)"

text \<open>The steps are the operations.\<close>

lemma job_run_verify:
  assumes "wellFormed rawId rawCode = Some (i, c)"
  shows "job_run 3 srv sha (Budgeting i c) s = (case verifyOtpDetailed srv sha rawId rawCode s of (v, s1) \<Rightarrow> (Answered i v, s1))"
  using assms by (simp add: verifyOtpDetailed_def job_step_def numeral_3_eq_3 split: prod.split sum.split option.split bool.split)

lemma job_run_request:
  assumes "emailShape (toLowerCase (trim raw))" "length (toLowerCase (trim raw)) \<le> 200"
  shows "job_run 2 srv sha (Capping (idForEmail sha (toLowerCase (trim raw))) rnd) s =
    (case requestOtp srv sha rnd (Some raw) s of (v, s1) \<Rightarrow> (Mailed v, s1))"
  using assms by (simp add: requestOtp_def Let_def job_step_def numeral_2_eq_2 split: prod.split sum.split unit.split)

record 'k desk =
  place :: "otp_mem \<times> 'k world"
  jobs :: "job list"

datatype otp_event = Guess string string | Ask string nat | Turn nat | Elapse int | Lines "net list"

fun desk_do :: "'k server \<Rightarrow> (string \<Rightarrow> string) \<Rightarrow> otp_event \<Rightarrow> 'k desk \<Rightarrow> 'k desk" where
  "desk_do srv sha (Guess rawId rawCode) d = (case wellFormed (Some rawId) (Some rawCode) of None \<Rightarrow> d
     | Some (i, c) \<Rightarrow> d\<lparr>jobs := jobs d @ [Budgeting i c]\<rparr>)"
| "desk_do srv sha (Ask raw rnd) d = (let email = toLowerCase (trim raw) in
     if 200 < length email \<or> \<not> emailShape email then d else d\<lparr>jobs := jobs d @ [Capping (idForEmail sha email) rnd]\<rparr>)"
| "desk_do srv sha (Turn n) d = (if n < length (jobs d) then (case job_step srv sha (jobs d ! n) (place d) of
     (j, s) \<Rightarrow> \<lparr>place = s, jobs = (jobs d)[n := j]\<rparr>) else d)"
| "desk_do srv sha (Elapse ms) d = (case place d of (m, w) \<Rightarrow> d\<lparr>place := (m, w\<lparr>clock := clock w + max 0 ms\<rparr>)\<rparr>)"
| "desk_do srv sha (Lines ns) d = (case place d of (m, w) \<Rightarrow> d\<lparr>place := (m, w\<lparr>nets := ns\<rparr>)\<rparr>)"

text \<open>The guesses on an email that got past its budget: those whose code is, will be or was compared.\<close>

definition compared :: "string \<Rightarrow> job \<Rightarrow> bool" where
  "compared i j = (case j of Loading k c \<Rightarrow> k = i | Settling k c r \<Rightarrow> k = i
     | Answered k v \<Rightarrow> k = i \<and> v \<notin> {Inr Spent, Inl OtpCheckUnavailable} | _ \<Rightarrow> False)"

definition let_through :: "string \<Rightarrow> job list \<Rightarrow> nat" where
  "let_through i js = length (filter (compared i) js)"

text \<open>Until \<open>limit\<close> the budget of \<open>i\<close> does not lapse, and it counts every guess let through.\<close>

definition budget_ok :: "int \<Rightarrow> string \<Rightarrow> kv_view \<Rightarrow> job list \<Rightarrow> bool" where
  "budget_ok limit i v js \<longleftrightarrow> (case cell_exp (v (tryKey i)) of None \<Rightarrow> True | Some e \<Rightarrow> limit \<le> e) \<and>
     int (let_through i js) \<le> min MAX_VERIFY_PER_WINDOW (counter (v (tryKey i)))"

definition desk_ok :: "(int \<Rightarrow> 'k \<Rightarrow> kv_view) \<Rightarrow> ('k \<Rightarrow> bool) \<Rightarrow> int \<Rightarrow> string \<Rightarrow> 'k desk \<Rightarrow> bool" where
  "desk_ok view ok limit i d \<longleftrightarrow> (case place d of (m, w) \<Rightarrow> let v = view (clock w) (kvs w) in
     ok (kvs w) \<and> kvConfigured w \<and> otp_ok v \<and> limit \<le> clock w + VERIFY_WINDOW_SEC * 1000 \<and> (clock w < limit \<longrightarrow> budget_ok limit i v (jobs d)))"

context redis_expiry
begin

text \<open>One round trip of a job keeps the store well formed, and only a budget trip moves a budget.\<close>

lemma job_step_ok:
  assumes "wf (kvs w)" "kvConfigured w" "otp_ok (view (clock w) (kvs w))" "job_step srv sha j (m, w) = (j', m', w')"
  shows "wf (kvs w') \<and> env w' = env w \<and> clock w' = clock w \<and> otp_ok (view (clock w) (kvs w')) \<and>
    (view (clock w) (kvs w') (tryKey i) = view (clock w) (kvs w) (tryKey i) \<and> (compared i j' \<longrightarrow> compared i j) \<or>
     bumped (tryKey i) (clock w + VERIFY_WINDOW_SEC * 1000) (view (clock w) (kvs w)) (view (clock w) (kvs w')) \<and> \<not> compared i j \<and>
       (compared i j' \<longrightarrow> counter (view (clock w) (kvs w) (tryKey i)) + 1 \<le> MAX_VERIFY_PER_WINDOW))"
proof -
  let ?t = "clock w" and ?v = "view (clock w) (kvs w)"
  have other: "bumped k l v u \<Longrightarrow> k \<noteq> q \<Longrightarrow> u q = v q" for k l v u q by (auto simp: bumped_def)
  show ?thesis
  proof (cases j)
    case (Budgeting k c)
    obtain r w1 where b: "pipeline srv (bumpCmds (tryKey k) VERIFY_WINDOW_SEC) w = (r, w1)" "wf (kvs w1)" "env w1 = env w" "clock w1 = ?t"
        "(\<exists>y. r = Inr [Result (RInt (counter (?v (tryKey k)) + 1)), y]) \<and> bumped (tryKey k) (?t + VERIFY_WINDOW_SEC * 1000) ?v (view ?t (kvs w1)) \<or>
         (\<exists>x. r = Inl x) \<and> (view ?t (kvs w1) = ?v \<or> bumped (tryKey k) (?t + VERIFY_WINDOW_SEC * 1000) ?v (view ?t (kvs w1)))"
      using bump_any [OF assms(1) otp_okD(1) [OF assms(3)], of VERIFY_WINDOW_SEC k] by (auto simp: VERIFY_WINDOW_SEC_def)
    have w': "w' = w1" "compared i j' \<longrightarrow> k = i \<and> \<not> MAX_VERIFY_PER_WINDOW < counter (?v (tryKey k)) + 1 \<and> (\<exists>y. r = Inr y)" "\<not> compared i j"
      using assms(2,4) b(1,5) by (auto simp: Budgeting job_step_def overVerifyBudget_def firstOver_def numberOf_def compared_def split: if_splits)
    have ok: "otp_ok (view ?t (kvs w1))" using b(5) otp_ok_bumped [OF assms(3), of "tryKey k"] assms(3) by auto
    show ?thesis
    proof (cases "k = i")
      case True
      then show ?thesis using b w' ok by auto
    next
      case False
      then have "view ?t (kvs w1) (tryKey i) = ?v (tryKey i)" using b(5) other [of "tryKey k" _ ?v _ "tryKey i"] by auto
      then show ?thesis using False b w' ok by auto
    qed
  next
    case (Loading k c)
    obtain r w1 where l: "kvGetJson srv (otpKey k) w = (r, w1)" "wf (kvs w1)" "env w1 = env w" "clock w1 = ?t" "view ?t (kvs w1) = ?v"
      using load_any [OF assms(1,3), of k] by blast
    have "w' = w1" "compared i j' \<longrightarrow> compared i j"
      using l(1) assms(2,4) by (auto simp: Loading job_step_def loadCode_def compared_def split: sum.splits option.splits)
    then show ?thesis using l assms(3) by simp
  next
    case (Settling k c x)
    obtain r w1 where l: "settleCode srv sha k c x (m, w) = (r, m, w1)" "wf (kvs w1)" "env w1 = env w" "clock w1 = ?t"
        "view ?t (kvs w1) = ?v \<or> (\<exists>e. view ?t (kvs w1) = ?v(otpKey k := map_option (\<lambda>y. (VStr (showOtp y), Some e)) (snd (settle_spec sha ?t k c x))))"
      using settle_any [OF assms(1,2), of sha k c x m] by blast
    have "w' = w1" "compared i j' \<longrightarrow> compared i j"
      using l(1) assms(4) by (auto simp: Settling job_step_def compared_def)
    moreover have "otp_ok (view ?t (kvs w1))" using l(5) assms(3) otp_ok_settled [OF assms(3)] by auto
    moreover have "view ?t (kvs w1) (tryKey i) = ?v (tryKey i)" using l(5) by auto
    ultimately show ?thesis using l by simp
  next
    case (Capping k rnd)
    obtain r w1 where b: "pipeline srv (bumpCmds (reqKey k) OTP_WINDOW_SEC) w = (r, w1)" "wf (kvs w1)" "env w1 = env w" "clock w1 = ?t"
        "view ?t (kvs w1) = ?v \<or> bumped (reqKey k) (?t + OTP_WINDOW_SEC * 1000) ?v (view ?t (kvs w1))"
      using bump_any [OF assms(1) otp_okD(2) [OF assms(3)], of OTP_WINDOW_SEC k] by (auto simp: OTP_WINDOW_SEC_def)
    have "w' = w1" "\<not> compared i j'"
      using b(1) assms(2,4) by (auto simp: Capping job_step_def overRequestCap_def compared_def split: sum.splits if_splits)
    moreover have "otp_ok (view ?t (kvs w1))" using b(5) otp_ok_bumped [OF assms(3), of "reqKey k"] assms(3) by auto
    moreover have "view ?t (kvs w1) (tryKey i) = ?v (tryKey i)" using b(5) other [of "reqKey k" _ ?v _ "tryKey i"] by auto
    ultimately show ?thesis using b by simp
  next
    case (Storing k rnd)
    define x where "x = \<lparr>codeHash = hashOf sha k (sixDigit rnd), expAt = ?t + TTL_SEC * 1000, tries = 0\<rparr>"
    define put where "put = PutFor (otpKey k) (showOtp x) TTL_SEC"
    obtain r w1 where p: "restCall srv (render put) w = (r, w1)" "wf (kvs w1)" "env w1 = env w" "clock w1 = ?t"
        "view ?t (kvs w1) = ?v \<or> view ?t (kvs w1) = left ?t put ?v"
      using restCall_any [OF assms(1), of put] by (auto simp: put_def TTL_SEC_def)
    have "w' = w1" "\<not> compared i j'"
      using p(1) assms(2,4) by (auto simp: Storing job_step_def storeCode_def kvSetJson_def x_def [symmetric] put_def compared_def split: sum.splits unit.splits)
    moreover have "otp_ok (view ?t (kvs w1))" using p(5) assms(3) by (auto simp: put_def intro!: otp_ok_code)
    moreover have "view ?t (kvs w1) (tryKey i) = ?v (tryKey i)" using p(5) by (auto simp: put_def)
    ultimately show ?thesis using p by simp
  qed (use assms in \<open>auto simp: job_step_def\<close>)
qed

lemma desk_do_ok:
  assumes "desk_ok view wf limit i d"
  shows "desk_ok view wf limit i (desk_do srv sha e d)"
proof -
  obtain m w where mw: "place d = (m, w)" by fastforce
  let ?t = "clock w" and ?v = "view (clock w) (kvs w)"
  have d: "wf (kvs w)" "kvConfigured w" "otp_ok ?v" "limit \<le> ?t + VERIFY_WINDOW_SEC * 1000" "?t < limit \<Longrightarrow> budget_ok limit i ?v (jobs d)"
    using assms by (simp_all add: desk_ok_def mw Let_def)
  have new: "let_through i (js @ [j]) = let_through i js" if "\<not> compared i j" for j js using that by (simp add: let_through_def)
  show ?thesis
  proof (cases e)
    case (Guess a b)
    then show ?thesis using d mw
      by (auto simp: desk_ok_def Let_def budget_ok_def new compared_def split: option.split)
  next
    case (Ask a b)
    then show ?thesis using d mw
      by (auto simp: desk_ok_def Let_def budget_ok_def new compared_def)
  next
    case (Turn n)
    show ?thesis
    proof (cases "n < length (jobs d)")
      case True
      obtain j' m' w' where st: "job_step srv sha (jobs d ! n) (m, w) = (j', m', w')" using prod_cases3 by blast
      note ok = job_step_ok [OF d(1-3) st, of i]
      have count: "int (let_through i ((jobs d)[n := j'])) = int (let_through i (jobs d)) - of_bool (compared i (jobs d ! n)) + of_bool (compared i j')"
        unfolding let_through_def by (rule length_filter_update [OF True])
      have pos: "of_bool (compared i (jobs d ! n)) \<le> int (let_through i (jobs d))"
        using True by (auto simp: let_through_def of_bool_def filter_empty_conv Suc_le_eq)
      have "budget_ok limit i (view ?t (kvs w')) ((jobs d)[n := j'])" if "?t < limit"
        using d(4) d(5) [OF that] ok count pos
        by (auto simp: budget_ok_def bumped_def of_bool_def split: option.splits if_splits)
      then show ?thesis using True ok st d mw Turn kvConfigured_cong [of w' w] by (simp add: desk_ok_def Let_def)
    qed (use assms Turn in simp)
  next
    case (Elapse ms)
    let ?u = "view (?t + max 0 ms) (kvs w)"
    have lap: "?u k = lapse (?t + max 0 ms) (?v k)" for k using view_lapse [OF d(1)] by simp
    have "otp_ok ?u" using otp_ok_later [OF d(1,3)] by simp
    moreover have "budget_ok limit i ?u (jobs d)" if "?t + max 0 ms < limit"
    proof -
      have "budget_ok limit i ?v (jobs d)" using d(5) that by simp
      moreover have "?u (tryKey i) = ?v (tryKey i)" using calculation that by (auto simp: lap budget_ok_def lapse_def cell_exp_def split: option.splits)
      ultimately show ?thesis by (simp add: budget_ok_def)
    qed
    ultimately show ?thesis using d mw Elapse by (simp add: desk_ok_def Let_def kvConfigured_def)
  next
    case (Lines ns)
    then show ?thesis using d mw by (simp add: desk_ok_def Let_def kvConfigured_def)
  qed
qed

end

text \<open>C25: of all the verifies of one email within the hour after its window opened, however many run at once, their
  round trips interleaved with each other and with requests for fresh codes, answered or lost, at most 12 get as far
  as reading and comparing a code.\<close>

theorem guesses_bounded:
  fixes w :: "kv world"
  assumes "kv_wf (kvs w)" "kvConfigured w" "otp_ok (cell (clock w) (kvs w))" "cell (clock w) (kvs w) (tryKey i) = None"
    and "fold (desk_do runOne sha) es \<lparr>place = (m, w), jobs = []\<rparr> = \<lparr>place = (m', w'), jobs = js\<rparr>"
    and "clock w' < clock w + VERIFY_WINDOW_SEC * 1000"
  shows "let_through i js \<le> 12"
proof -
  let ?limit = "clock w + VERIFY_WINDOW_SEC * 1000"
  have "desk_ok cell kv_wf ?limit i (fold (desk_do runOne sha) es d)" if "desk_ok cell kv_wf ?limit i d" for d
    using that by (induction es arbitrary: d) (simp_all add: fakee.desk_do_ok)
  from this [of "\<lparr>place = (m, w), jobs = []\<rparr>"] have "desk_ok cell kv_wf ?limit i \<lparr>place = (m', w'), jobs = js\<rparr>"
    using assms by (simp add: desk_ok_def budget_ok_def let_through_def Let_def MAX_VERIFY_PER_WINDOW_def cell_exp_def)
  then show ?thesis using assms(6) by (simp add: desk_ok_def budget_ok_def Let_def MAX_VERIFY_PER_WINDOW_def)
qed

lemma job_step_clock: "clock (snd (snd (job_step srv sha j s))) = clock (snd s)"
proof -
  have rest: "clock (snd (restCall srv c w)) = clock w" for c w
    by (auto simp: restCall_def case_prod_unfold split: sum.splits list.splits reply.splits)
  show ?thesis
    by (cases s; cases j)
      (auto simp: job_step_def overVerifyBudget_def overRequestCap_def loadCode_def settleCode_def storeCode_def dropCode_def kvDel_def
        kvGetJson_def kvSetJson_def case_prod_unfold rest Let_def split: sum.splits option.splits rval.splits unit.splits)
qed

lemma desk_turn_clock: "clock (snd (place (desk_do srv sha (Turn n) d))) = clock (snd (place d))"
  using job_step_clock [of srv sha "jobs d ! n" "place d"] by (auto split: prod.splits)

theorem guesses_bounded_witness:
  "let_through demo_id (jobs (fold (desk_do runOne rev) [Guess demo_id ''000000'', Turn 0, Turn 0]
     \<lparr>place = (demo_mem, quiet_world kv_env 0), jobs = []\<rparr>)) \<le> 12"
proof -
  define d where "d = fold (desk_do runOne rev) [Guess demo_id ''000000'', Turn 0, Turn 0] \<lparr>place = (demo_mem, quiet_world kv_env 0), jobs = []\<rparr>"
  obtain m' w' js where e: "d = \<lparr>place = (m', w'), jobs = js\<rparr>" by (cases d) auto
  have "clock (snd (place d)) = 0"
    by (simp add: d_def desk_turn_clock del: desk_do.simps(3) split: option.split)
  then have "clock w' < clock (quiet_world kv_env 0) + VERIFY_WINDOW_SEC * 1000" by (simp add: e VERIFY_WINDOW_SEC_def)
  from guesses_bounded [OF _ _ _ _ e [unfolded d_def] this] show ?thesis
    using e by (simp add: d_def otp_ok_def)
qed

subsection \<open>What the code lets happen\<close>

text \<open>A record once read decides: the code counts as right whatever became of the stored one meanwhile (another
  verify consumed it) and whether or not the delete that should consume it arrives.\<close>

lemma read_code_accepted:
  assumes "hashOf sha i c = codeHash r" "clock w \<le> expAt r" "tries r < MAX_TRIES"
  shows "fst (job_step srv sha (Settling i c r) (m, w)) = Answered i (Inr Ok)"
  using assms by (simp add: job_step_def settleCode_def timingSafeEqualHex_eq case_prod_unfold)

text \<open>A wrong guess that read the record before a right one consumed it puts it back.\<close>

lemma wrong_guess_restores:
  fixes w :: "kv world"
  assumes "kv_wf (kvs w)" "kvConfigured w" "online w" "hashOf sha i c \<noteq> codeHash r" "clock w \<le> expAt r" "tries r < MAX_TRIES"
    and "job_step runOne sha (Settling i c r) (m, w) = (j, m', w')"
  shows "codeOf (cell (clock w) (kvs w') (otpKey i)) = Some (r\<lparr>tries := tries r + 1\<rparr>)"
  using fakee.settle_any [OF assms(1,2), of sha i c r m] assms(3-7)
  by (auto simp: job_step_def settle_spec_def online_def)

text \<open>A budget row that carries an error, inside an answered pipeline, reads as a count of 0: the guess goes through.\<close>

lemma budget_error_opens:
  assumes "kvConfigured w" "pipeline srv (bumpCmds (tryKey i) VERIFY_WINDOW_SEC) w = (Inr (Err e # rs), w1)"
  shows "fst (overVerifyBudget srv i (m, w)) = Inr False"
  using assms by (simp add: overVerifyBudget_def firstOver_def MAX_VERIFY_PER_WINDOW_def)

end
