(* ===== verification/Handles.thy ===== *)
theory Handles
  imports RecoveryOtp
begin

text \<open>
  apps/sponsor/src/lib/handles.ts: the \<open>@name\<close> an account can be paid at.  A name is three keys of the
  shared store (the name, its confusable skeleton, the account's reverse pointer), taken together by a claim and
  left as a tombstone by a release; every write is authorized by a signature that is honoured once.  The key check,
  the Ed25519 verification and SHA-256 are the record \<open>keyring\<close>.  The operations run on the shared store or on the
  isolate's map.  \<open>claim_spec\<close> and \<open>release_spec\<close> say what a claim and a release do to the registry of names.
\<close>

record keyring =
  accountKey :: "string \<Rightarrow> bool"
  signedBy :: "string \<Rightarrow> string \<Rightarrow> string \<Rightarrow> bool"
  digest :: "string \<Rightarrow> string"

subsection \<open>Names\<close>

text \<open>\<open>String.prototype.replace\<close> of every occurrence of a pair, from the left.\<close>

fun replacePair :: "char \<Rightarrow> char \<Rightarrow> char \<Rightarrow> string \<Rightarrow> string" where
  "replacePair a b c (x # y # s) = (if x = a \<and> y = b then c # replacePair a b c s else x # replacePair a b c (y # s))"
| "replacePair a b c s = s"

definition foldChar :: "char \<Rightarrow> char" where
  "foldChar c = (case map_of [(CHR ''1'', CHR ''i''), (CHR ''l'', CHR ''i''), (CHR ''0'', CHR ''o''), (CHR ''2'', CHR ''z''),
     (CHR ''3'', CHR ''e''), (CHR ''4'', CHR ''a''), (CHR ''5'', CHR ''s''), (CHR ''6'', CHR ''b''), (CHR ''8'', CHR ''b''),
     (CHR ''7'', CHR ''t''), (CHR ''9'', CHR ''g'')] c of None \<Rightarrow> c | Some d \<Rightarrow> d)"

definition skeleton :: "string \<Rightarrow> string" where
  "skeleton name = map foldChar (replacePair (CHR ''v'') (CHR ''v'') (CHR ''w'')
     (replacePair (CHR ''r'') (CHR ''n'') (CHR ''m'') (filter (\<lambda>c. c \<noteq> CHR ''_'') name)))"

definition normalizeHandle :: "string \<Rightarrow> string" where
  "normalizeHandle raw = dropWhile (\<lambda>c. c = CHR ''@'') (toLowerCase (trim raw))"

definition RESERVED :: "string list" where
  "RESERVED = [''admin'', ''administrator'', ''root'', ''system'', ''official'', ''team'', ''staff'', ''support'',
     ''help'', ''helpdesk'', ''security'', ''abuse'', ''billing'', ''payments'', ''payment'', ''pay'',
     ''lumenia'', ''lumenio'', ''lumenla'', ''getlumenia'', ''stellar'', ''sdf'', ''circle'', ''usdc'',
     ''wallet'', ''money'', ''bank'', ''api'', ''www'', ''mail'', ''email'', ''app'', ''account'', ''accounts'',
     ''settings'', ''login'', ''signin'', ''signup'', ''register'', ''claim'', ''send'', ''request'', ''split'',
     ''contacts'', ''activity'', ''home'', ''start'', ''about'', ''terms'', ''privacy'', ''legal'', ''status'',
     ''null'', ''undefined'', ''anonymous'', ''me'', ''you'', ''everyone'']"

definition is_lower :: "char \<Rightarrow> bool" where
  "is_lower c \<longleftrightarrow> 97 \<le> code c \<and> code c \<le> 122"

text \<open>\<open>NAME_RE\<close>.\<close>

definition nameShape :: "string \<Rightarrow> bool" where
  "nameShape s \<longleftrightarrow> (case s of [] \<Rightarrow> False
     | c # cs \<Rightarrow> is_lower c \<and> 2 \<le> length cs \<and> length cs \<le> 19 \<and> list_all (\<lambda>d. is_lower d \<or> is_digit d \<or> d = CHR ''_'') cs)"

datatype rejection = BadShape | Reserved | BadAddress | Stale | Malformed | BadSignature | Replayed | CoolingDown | Taken
  | HasAnother string | TooClose | HasName | NobodyHolds | NotYours

definition validateHandleShape :: "string \<Rightarrow> rejection option" where
  "validateHandleShape name = (if \<not> nameShape name then Some BadShape
     else if name \<in> set RESERVED \<or> skeleton name \<in> set RESERVED then Some Reserved else None)"

subsection \<open>Records and keys\<close>

definition RELEASE_COOLDOWN_SEC :: int where "RELEASE_COOLDOWN_SEC = 30 * 24 * 3600"
definition PROOF_SKEW_SEC :: int where "PROOF_SKEW_SEC = 300"
definition PROOF_MEMORY_SEC :: int where "PROOF_MEMORY_SEC = PROOF_SKEW_SEC * 2 + 60"

lemma memory_pos [simp]: "0 < PROOF_MEMORY_SEC" "0 < RELEASE_COOLDOWN_SEC"
  by (simp_all add: PROOF_MEMORY_SEC_def PROOF_SKEW_SEC_def RELEASE_COOLDOWN_SEC_def)

definition nameKey :: "string \<Rightarrow> string" where "nameKey n = ''lumenia:handle:'' @ n"
definition skelKey :: "string \<Rightarrow> string" where "skelKey n = ''lumenia:handle-skel:'' @ n"
definition ofKey :: "string \<Rightarrow> string" where "ofKey pk = ''lumenia:handle-of:'' @ pk"
definition ofKeyLegacy :: "string \<Rightarrow> string \<Rightarrow> string" where "ofKeyLegacy net pk = ''lumenia:handle-of:'' @ net @ '':'' @ pk"
definition proofKey :: "string \<Rightarrow> string" where "proofKey d = ''lumenia:handle-proof:'' @ d"

record handle_rec =
  holder :: string
  onNet :: string
  createdAt :: int
  releasedUntil :: "int option"

definition handleJson :: "handle_rec \<Rightarrow> json" where
  "handleJson r = JObj ([(''pubkey'', JStr (holder r)), (''network'', JStr (onNet r)), (''createdAt'', JInt (createdAt r))] @
     (case releasedUntil r of None \<Rightarrow> [] | Some u \<Rightarrow> [(''releasedUntil'', JInt u)]))"

definition showHandle :: "handle_rec \<Rightarrow> string" where
  "showHandle r = showJson (handleJson r)"

text \<open>A text that is no such record reads as no record: only this module writes the keys.\<close>

definition parseHandle :: "string \<Rightarrow> handle_rec option" where
  "parseHandle s = (case parseJson s of None \<Rightarrow> None
     | Some j \<Rightarrow> (case (field ''pubkey'' j, field ''network'' j, field ''createdAt'' j) of
          (Some (JStr p), Some (JStr n), Some (JInt c)) \<Rightarrow>
             Some \<lparr>holder = p, onNet = n, createdAt = c, releasedUntil = (case field ''releasedUntil'' j of Some (JInt u) \<Rightarrow> Some u | _ \<Rightarrow> None)\<rparr>
        | _ \<Rightarrow> None))"

lemma parseHandle_showHandle [simp]: "parseHandle (showHandle r) = Some r"
  by (cases "releasedUntil r") (simp_all add: parseHandle_def showHandle_def handleJson_def field_def)

lemma showHandle_inj [simp]: "showHandle r = showHandle r' \<longleftrightarrow> r = r'"
  by (metis option.inject parseHandle_showHandle)

definition isReleased :: "handle_rec \<Rightarrow> bool" where
  "isReleased r \<longleftrightarrow> (case releasedUntil r of None \<Rightarrow> False | Some u \<Rightarrow> u \<noteq> 0)"

subsection \<open>The store\<close>

text \<open>The isolate's map: a value and the instant it ends at, if any.\<close>

type_synonym hmem = "(string \<times> string \<times> int option) list"

definition memGet :: "int \<Rightarrow> string \<Rightarrow> hmem \<Rightarrow> string option \<times> hmem" where
  "memGet now k m = (case map_of m k of None \<Rightarrow> (None, m)
     | Some (v, None) \<Rightarrow> (Some v, m)
     | Some (v, Some e) \<Rightarrow> if e \<le> now then (None, AList.delete k m) else (Some v, m))"

definition memSet :: "int \<Rightarrow> string \<Rightarrow> string \<Rightarrow> int option \<Rightarrow> hmem \<Rightarrow> hmem" where
  "memSet now k v ttlSec m = AList.update k (v, map_option (\<lambda>n. now + n * 1000) ttlSec) m"

type_synonym 'k shelf = "hmem \<times> 'k world"

text \<open>A call that may throw, and what is done with its answer.\<close>

definition proceed :: "('e + 'a) \<times> 's \<Rightarrow> ('a \<Rightarrow> 's \<Rightarrow> ('e + 'b) \<times> 's) \<Rightarrow> ('e + 'b) \<times> 's" where
  "proceed x f = (case x of (Inl e, s) \<Rightarrow> (Inl e, s) | (Inr a, s) \<Rightarrow> f a s)"

lemma proceed_simps [simp]: "proceed (Inl e, s) f = (Inl e, s)" "proceed (Inr a, s) f = f a s"
  by (simp_all add: proceed_def)

definition kvGet :: "'k server \<Rightarrow> string \<Rightarrow> 'k shelf \<Rightarrow> (string + string option) \<times> 'k shelf" where
  "kvGet srv k s = (case s of (m, w) \<Rightarrow>
     if \<not> kvConfigured w then (case memGet (clock w) k m of (v, m1) \<Rightarrow> (Inr v, m1, w))
     else (case pipeline srv [[''GET'', k]] w of
         (Inr (Result r # rs), w1) \<Rightarrow> (Inr (case r of RStr v \<Rightarrow> Some v | _ \<Rightarrow> None), m, w1)
       | (_, w1) \<Rightarrow> (Inl ''handle store returned an error'', m, w1)))"

definition kvSetNx :: "'k server \<Rightarrow> string \<Rightarrow> string \<Rightarrow> int option \<Rightarrow> 'k shelf \<Rightarrow> (string + bool) \<times> 'k shelf" where
  "kvSetNx srv k v ttlSec s = (case s of (m, w) \<Rightarrow>
     if \<not> kvConfigured w then (case memGet (clock w) k m of
         (Some x, m1) \<Rightarrow> (Inr False, m1, w)
       | (None, m1) \<Rightarrow> (Inr True, memSet (clock w) k v ttlSec m1, w))
     else (case pipeline srv [[''SET'', k, v, ''NX''] @ (case ttlSec of None \<Rightarrow> [] | Some n \<Rightarrow> [''EX'', show_int n])] w of
         (Inr (Result r # rs), w1) \<Rightarrow> (Inr (r = RStr ''OK''), m, w1)
       | (Inr (Err e # rs), w1) \<Rightarrow> (Inl (''handle store error: '' @ e), m, w1)
       | (Inr [], w1) \<Rightarrow> (Inr False, m, w1)
       | (Inl e, w1) \<Rightarrow> (Inl ''handle store returned an error'', m, w1)))"

definition kvSet :: "'k server \<Rightarrow> string \<Rightarrow> string \<Rightarrow> int option \<Rightarrow> 'k shelf \<Rightarrow> (string + unit) \<times> 'k shelf" where
  "kvSet srv k v ttlSec s = (case s of (m, w) \<Rightarrow>
     if \<not> kvConfigured w then (Inr (), memSet (clock w) k v ttlSec m, w)
     else (case pipeline srv [[''SET'', k, v] @ (case ttlSec of None \<Rightarrow> [] | Some n \<Rightarrow> [''EX'', show_int n])] w of
         (Inr rs, w1) \<Rightarrow> (Inr (), m, w1)
       | (Inl e, w1) \<Rightarrow> (Inl ''handle store returned an error'', m, w1)))"

definition kvRemove :: "'k server \<Rightarrow> string \<Rightarrow> 'k shelf \<Rightarrow> (string + unit) \<times> 'k shelf" where
  "kvRemove srv k s = (case s of (m, w) \<Rightarrow>
     if \<not> kvConfigured w then (Inr (), AList.delete k m, w)
     else (case pipeline srv [[''DEL'', k]] w of
         (Inr rs, w1) \<Rightarrow> (Inr (), m, w1)
       | (Inl e, w1) \<Rightarrow> (Inl ''handle store returned an error'', m, w1)))"

subsection \<open>Proofs\<close>

datatype proof_action = ClaimName | ReleaseName | Links | PilotAsk

definition proofText :: "proof_action \<Rightarrow> string" where
  "proofText a = (case a of ClaimName \<Rightarrow> ''claim'' | ReleaseName \<Rightarrow> ''release'' | Links \<Rightarrow> ''links'' | PilotAsk \<Rightarrow> ''pilot'')"

text \<open>\<open>pts\<close> is \<open>None\<close> when the timestamp is no finite number.\<close>

record proof_input =
  pname :: string
  ppubkey :: string
  pts :: "int option"
  pnonce :: string
  pnet :: string
  psig :: string

definition handleProofMessage :: "proof_action \<Rightarrow> string \<Rightarrow> string \<Rightarrow> int \<Rightarrow> string \<Rightarrow> string \<Rightarrow> string" where
  "handleProofMessage a name pubkey stamp nonce net =
     ''lumenia-handle-'' @ proofText a @ '':v1:'' @ name @ '':'' @ pubkey @ '':'' @ show_int stamp @ '':'' @ nonce @ '':'' @ net"

definition nonceShape :: "string \<Rightarrow> bool" where
  "nonceShape s \<longleftrightarrow> 8 \<le> length s \<and> length s \<le> 32 \<and> lowerHex (length s) s"

definition verifyHandleProof :: "'k server \<Rightarrow> keyring \<Rightarrow> proof_action \<Rightarrow> proof_input \<Rightarrow> 'k shelf \<Rightarrow> (string + rejection option) \<times> 'k shelf" where
  "verifyHandleProof srv ring a inp s =
     (if \<not> accountKey ring (ppubkey inp) then (Inr (Some BadAddress), s)
      else (case pts inp of None \<Rightarrow> (Inr (Some Stale), s)
        | Some stamp \<Rightarrow>
           if PROOF_SKEW_SEC < \<bar>clock (snd s) div 1000 - stamp\<bar> then (Inr (Some Stale), s)
           else if \<not> nonceShape (pnonce inp) then (Inr (Some Malformed), s)
           else (let message = handleProofMessage a (pname inp) (ppubkey inp) stamp (pnonce inp) (pnet inp) in
             if \<not> signedBy ring (ppubkey inp) message (psig inp) then (Inr (Some BadSignature), s)
             else proceed (kvSetNx srv (proofKey (digest ring message)) ''1'' (Some PROOF_MEMORY_SEC) s)
               (\<lambda>fresh s1. (Inr (if fresh then None else Some Replayed), s1)))))"

subsection \<open>Operations\<close>

definition readRecord :: "'k server \<Rightarrow> string \<Rightarrow> 'k shelf \<Rightarrow> (string + handle_rec option) \<times> 'k shelf" where
  "readRecord srv name s = proceed (kvGet srv (nameKey name) s) (\<lambda>raw s1.
     (Inr (case raw of None \<Rightarrow> None | Some t \<Rightarrow> if t = [] then None else parseHandle t), s1))"

definition lookupHandle :: "'k server \<Rightarrow> string \<Rightarrow> 'k shelf \<Rightarrow> (string + (string \<times> string \<times> string) option) \<times> 'k shelf" where
  "lookupHandle srv rawName s = (let name = normalizeHandle rawName in
     if validateHandleShape name \<noteq> None then (Inr None, s)
     else proceed (readRecord srv name s) (\<lambda>r s1. (Inr (case r of None \<Rightarrow> None
         | Some x \<Rightarrow> if isReleased x then None else Some (name, holder x, onNet x)), s1)))"

definition nonEmpty :: "string option \<Rightarrow> string option" where
  "nonEmpty v = (if v = Some [] then None else v)"

text \<open>The legacy keys, one network after the other; the first that answers is written forward.\<close>

fun healLegacy :: "'k server \<Rightarrow> string \<Rightarrow> string list \<Rightarrow> 'k shelf \<Rightarrow> (string + string option) \<times> 'k shelf" where
  "healLegacy srv pk [] s = (Inr None, s)"
| "healLegacy srv pk (net # nets1) s = proceed (kvGet srv (ofKeyLegacy net pk) s) (\<lambda>v s1. case nonEmpty v of
       None \<Rightarrow> healLegacy srv pk nets1 s1
     | Some legacy \<Rightarrow> proceed (kvSet srv (ofKey pk) legacy None s1) (\<lambda>_ s2. (Inr (Some legacy), s2)))"

definition handleOf :: "'k server \<Rightarrow> keyring \<Rightarrow> string \<Rightarrow> 'k shelf \<Rightarrow> (string + string option) \<times> 'k shelf" where
  "handleOf srv ring pk s = (if \<not> accountKey ring pk then (Inr None, s)
     else proceed (kvGet srv (ofKey pk) s) (\<lambda>v s1. case nonEmpty v of
         Some n \<Rightarrow> (Inr (Some n), s1)
       | None \<Rightarrow> healLegacy srv pk [''testnet'', ''mainnet''] s1))"

definition handleAvailability :: "'k server \<Rightarrow> string \<Rightarrow> 'k shelf \<Rightarrow> (string + rejection option) \<times> 'k shelf" where
  "handleAvailability srv rawName s = (let name = normalizeHandle rawName in
     case validateHandleShape name of Some x \<Rightarrow> (Inr (Some x), s)
     | None \<Rightarrow> proceed (readRecord srv name s) (\<lambda>r s1.
         let now = clock (snd s1); blocked = (case r of None \<Rightarrow> None
             | Some x \<Rightarrow> if \<not> isReleased x then Some Taken else if now < the (releasedUntil x) then Some CoolingDown else None)
         in if blocked \<noteq> None then (Inr blocked, s1)
         else proceed (kvGet srv (skelKey (skeleton name)) s1) (\<lambda>h s2.
           (Inr (if nonEmpty h \<noteq> None \<and> h \<noteq> Some name then Some TooClose else None), s2))))"

datatype claimed = Claimed string string string | NotClaimed rejection

text \<open>From the skeleton on: the name, then the reverse pointer, each failure taking back what was taken.\<close>

definition takeName :: "'k server \<Rightarrow> proof_input \<Rightarrow> string \<Rightarrow> handle_rec option \<Rightarrow> bool \<Rightarrow> 'k shelf \<Rightarrow> (string + claimed) \<times> 'k shelf" where
  "takeName srv inp name existing tookSkel s = (let
       r = showHandle \<lparr>holder = ppubkey inp, onNet = pnet inp, createdAt = clock (snd s), releasedUntil = None\<rparr>;
       untake = (\<lambda>rej s1. if tookSkel then proceed (kvRemove srv (skelKey (skeleton name)) s1) (\<lambda>_ s2. (Inr (NotClaimed rej), s2))
           else (Inr (NotClaimed rej), s1))
     in proceed (if existing \<noteq> None then proceed (kvSet srv (nameKey name) r None s) (\<lambda>_ s1. (Inr True, s1))
           else kvSetNx srv (nameKey name) r None s) (\<lambda>tookName s1.
       if \<not> tookName then untake Taken s1
       else proceed (kvSetNx srv (ofKey (ppubkey inp)) name None s1) (\<lambda>tookOf s2.
         if \<not> tookOf then proceed (kvRemove srv (nameKey name) s2) (\<lambda>_ s3. untake HasName s3)
         else (Inr (Claimed name (ppubkey inp) (pnet inp)), s2))))"

definition takeSkeleton :: "'k server \<Rightarrow> proof_input \<Rightarrow> string \<Rightarrow> handle_rec option \<Rightarrow> 'k shelf \<Rightarrow> (string + claimed) \<times> 'k shelf" where
  "takeSkeleton srv inp name existing s = proceed (kvSetNx srv (skelKey (skeleton name)) name None s) (\<lambda>tookSkel s1.
     if tookSkel then takeName srv inp name existing True s1
     else proceed (kvGet srv (skelKey (skeleton name)) s1) (\<lambda>h s2.
       if h \<noteq> Some name then (Inr (NotClaimed TooClose), s2) else takeName srv inp name existing False s2))"

text \<open>The account holds one name; checked before anything is taken, enforced by the reverse pointer.\<close>

definition claimFresh :: "'k server \<Rightarrow> keyring \<Rightarrow> proof_input \<Rightarrow> string \<Rightarrow> handle_rec option \<Rightarrow> 'k shelf \<Rightarrow> (string + claimed) \<times> 'k shelf" where
  "claimFresh srv ring inp name existing s = proceed (handleOf srv ring (ppubkey inp) s) (\<lambda>already s1. case nonEmpty already of
       Some n \<Rightarrow> if n \<noteq> name then (Inr (NotClaimed (HasAnother n)), s1) else takeSkeleton srv inp name existing s1
     | None \<Rightarrow> takeSkeleton srv inp name existing s1)"

definition claimHandle :: "'k server \<Rightarrow> keyring \<Rightarrow> proof_input \<Rightarrow> 'k shelf \<Rightarrow> (string + claimed) \<times> 'k shelf" where
  "claimHandle srv ring inp s = (let name = normalizeHandle (pname inp); pk = ppubkey inp in
     case validateHandleShape name of Some x \<Rightarrow> (Inr (NotClaimed x), s)
     | None \<Rightarrow> proceed (verifyHandleProof srv ring ClaimName (inp\<lparr>pname := name\<rparr>) s) (\<lambda>refused s1.
         case refused of Some x \<Rightarrow> (Inr (NotClaimed x), s1)
         | None \<Rightarrow> proceed (readRecord srv name s1) (\<lambda>existing s2.
              case existing of None \<Rightarrow> claimFresh srv ring inp name existing s2
               | Some x \<Rightarrow>
                   if isReleased x \<and> clock (snd s2) < the (releasedUntil x) then (Inr (NotClaimed CoolingDown), s2)
                   else if isReleased x then claimFresh srv ring inp name existing s2
                   else if holder x \<noteq> pk then (Inr (NotClaimed Taken), s2)
                   else proceed (if onNet x \<noteq> pnet inp then kvSet srv (nameKey name) (showHandle (x\<lparr>onNet := pnet inp\<rparr>)) None s2
                        else (Inr (), s2)) (\<lambda>_ s3.
                     proceed (kvSet srv (ofKey pk) name None s3) (\<lambda>_ s4. (Inr (Claimed name pk (pnet inp)), s4))))))"

definition releaseHandle :: "'k server \<Rightarrow> keyring \<Rightarrow> proof_input \<Rightarrow> 'k shelf \<Rightarrow> (string + (rejection + string)) \<times> 'k shelf" where
  "releaseHandle srv ring inp s = (let name = normalizeHandle (pname inp) in
     case validateHandleShape name of Some x \<Rightarrow> (Inr (Inl x), s)
     | None \<Rightarrow> proceed (readRecord srv name s) (\<lambda>r s1. case r of
         None \<Rightarrow> (Inr (Inl NobodyHolds), s1)
       | Some x \<Rightarrow> if isReleased x then (Inr (Inl NobodyHolds), s1)
           else if holder x \<noteq> ppubkey inp then (Inr (Inl NotYours), s1)
           else proceed (verifyHandleProof srv ring ReleaseName (inp\<lparr>pname := name\<rparr>) s1) (\<lambda>refused s2.
             case refused of Some rej \<Rightarrow> (Inr (Inl rej), s2)
             | None \<Rightarrow> (let until1 = clock (snd s2) + RELEASE_COOLDOWN_SEC * 1000 in
                 proceed (kvSet srv (nameKey name) (showHandle (x\<lparr>releasedUntil := Some until1\<rparr>)) (Some RELEASE_COOLDOWN_SEC) s2) (\<lambda>_ s3.
                 proceed (kvSet srv (skelKey (skeleton name)) name (Some RELEASE_COOLDOWN_SEC) s3) (\<lambda>_ s4.
                 proceed (kvRemove srv (ofKey (holder x)) s4) (\<lambda>_ s5.
                 proceed (kvRemove srv (ofKeyLegacy (onNet x) (holder x)) s5) (\<lambda>_ s6. (Inr (Inr name), s6)))))))))"

subsection \<open>Federation\<close>

definition federationDomain :: "environ \<Rightarrow> string" where
  "federationDomain e = (case e ''FEDERATION_DOMAIN'' of None \<Rightarrow> ''getlumenia.com'' | Some d \<Rightarrow> d)"

datatype fed_refusal = BadFedAddress | UnknownDomain | NotFound | Unsupported

definition federationLookup :: "'k server \<Rightarrow> keyring \<Rightarrow> string \<Rightarrow> string \<Rightarrow> string \<Rightarrow> 'k shelf \<Rightarrow>
    (string + (fed_refusal + string \<times> string)) \<times> 'k shelf" where
  "federationLookup srv ring q kind net s = (let dom = federationDomain (env (snd s)) in
     if kind = ''name'' then (case split_on (CHR ''*'') q of
         name # domain # rest \<Rightarrow>
           if name = [] \<or> domain = [] then (Inr (Inl BadFedAddress), s)
           else if toLowerCase domain \<noteq> toLowerCase dom then (Inr (Inl UnknownDomain), s)
           else proceed (lookupHandle srv name s) (\<lambda>found s1. case found of
               None \<Rightarrow> (Inr (Inl NotFound), s1)
             | Some (n, pk, on) \<Rightarrow> if on \<noteq> net then (Inr (Inl NotFound), s1) else (Inr (Inr (n @ ''*'' @ dom, pk)), s1))
       | _ \<Rightarrow> (Inr (Inl BadFedAddress), s))
     else if kind = ''id'' then proceed (handleOf srv ring q s) (\<lambda>name s1. case nonEmpty name of
         None \<Rightarrow> (Inr (Inl NotFound), s1)
       | Some n \<Rightarrow> proceed (lookupHandle srv n s1) (\<lambda>r s2. case r of
             None \<Rightarrow> (Inr (Inl NotFound), s2)
           | Some (n', pk, on) \<Rightarrow> if on \<noteq> net then (Inr (Inl NotFound), s2) else (Inr (Inr (n @ ''*'' @ dom, q)), s2)))
     else (Inr (Inl Unsupported), s))"

subsection \<open>The store that answers\<close>

definition shelf_ok :: "('k \<Rightarrow> bool) \<Rightarrow> 'k world \<Rightarrow> bool" where
  "shelf_ok ok w \<longleftrightarrow> ok (kvs w) \<and> online w \<and> kvConfigured w"

text \<open>After an answered round trip: the same instant and environment, and the view it left.\<close>

definition became :: "(int \<Rightarrow> 'k \<Rightarrow> kv_view) \<Rightarrow> ('k \<Rightarrow> bool) \<Rightarrow> 'k world \<Rightarrow> kv_view \<Rightarrow> 'k world \<Rightarrow> bool" where
  "became view ok w u w' \<longleftrightarrow> shelf_ok ok w' \<and> env w' = env w \<and> clock w' = clock w \<and> view (clock w) (kvs w') = u"

lemma becameD:
  "became view ok w u w' \<Longrightarrow> shelf_ok ok w'" "became view ok w u w' \<Longrightarrow> clock w' = clock w"
  "became view ok w u w' \<Longrightarrow> env w' = env w" "became view ok w u w' \<Longrightarrow> view (clock w') (kvs w') = u"
  by (simp_all add: became_def)

lemma became_trans: "became view ok w1 u w2 \<Longrightarrow> became view ok w v w1 \<Longrightarrow> became view ok w u w2"
  by (simp add: became_def)

lemma became_refl: "shelf_ok ok w \<Longrightarrow> became view ok w (view (clock w) (kvs w)) w"
  by (simp add: became_def)

definition endAt :: "int \<Rightarrow> int option \<Rightarrow> int option" where
  "endAt now ttlSec = map_option (\<lambda>n. now + n * 1000) ttlSec"

context redis_commands
begin

lemma shelf_cmd:
  assumes "shelf_ok wf w" "fits c (view (clock w) (kvs w))"
  shows "\<exists>w'. pipeline srv [render c] w = (Inr [Result (said c (view (clock w) (kvs w)))], w') \<and>
    became view wf w (left (clock w) c (view (clock w) (kvs w))) w'"
proof -
  have "wf (kvs w)" "online w" "fitAll (clock w) [c] (view (clock w) (kvs w))" using assms by (simp_all add: shelf_ok_def)
  from pipeline_render_online [OF this] show ?thesis
    using assms(1) by (auto simp: became_def shelf_ok_def kvConfigured_def online_def)
qed

lemma kvGet_kv:
  assumes "shelf_ok wf w" "strish (view (clock w) (kvs w) k)"
  shows "\<exists>w'. kvGet srv k (m, w) = (Inr (cell_str (view (clock w) (kvs w) k)), m, w') \<and> became view wf w (view (clock w) (kvs w)) w'"
  using shelf_cmd [OF assms(1), of "Get k"] assms
  by (auto simp: kvGet_def shelf_ok_def str_reply_def split: option.splits)

lemma kvSetNx_kv:
  assumes "shelf_ok wf w" "\<And>n. ttlSec = Some n \<Longrightarrow> 0 < n"
  shows "\<exists>w'. kvSetNx srv k x ttlSec (m, w) = (Inr (view (clock w) (kvs w) k = None), m, w') \<and>
    became view wf w (if view (clock w) (kvs w) k = None then (view (clock w) (kvs w))(k \<mapsto> (VStr x, endAt (clock w) ttlSec)) else view (clock w) (kvs w)) w'"
proof (cases ttlSec)
  case None
  then show ?thesis using shelf_cmd [OF assms(1), of "PutNew k x"] assms(1)
    by (auto simp: kvSetNx_def shelf_ok_def endAt_def split: if_splits)
next
  case (Some n)
  then show ?thesis using shelf_cmd [OF assms(1), of "PutNewFor k x n"] assms
    by (auto simp: kvSetNx_def shelf_ok_def endAt_def split: if_splits)
qed

lemma kvSet_kv:
  assumes "shelf_ok wf w" "\<And>n. ttlSec = Some n \<Longrightarrow> 0 < n"
  shows "\<exists>w'. kvSet srv k x ttlSec (m, w) = (Inr (), m, w') \<and>
    became view wf w ((view (clock w) (kvs w))(k \<mapsto> (VStr x, endAt (clock w) ttlSec))) w'"
proof (cases ttlSec)
  case None
  then show ?thesis using shelf_cmd [OF assms(1), of "Put k x"] assms(1) by (auto simp: kvSet_def shelf_ok_def endAt_def)
next
  case (Some n)
  then show ?thesis using shelf_cmd [OF assms(1), of "PutFor k x n"] assms by (auto simp: kvSet_def shelf_ok_def endAt_def)
qed

lemma kvRemove_kv:
  assumes "shelf_ok wf w"
  shows "\<exists>w'. kvRemove srv k (m, w) = (Inr (), m, w') \<and> became view wf w ((view (clock w) (kvs w))(k := None)) w'"
  using shelf_cmd [OF assms, of "Drop k"] assms by (auto simp: kvRemove_def shelf_ok_def)

end

subsection \<open>The registry\<close>

lemma handle_keys [simp]:
  "nameKey n \<noteq> skelKey x" "skelKey x \<noteq> nameKey n" "nameKey n \<noteq> ofKey x" "ofKey x \<noteq> nameKey n" "nameKey n \<noteq> proofKey x" "proofKey x \<noteq> nameKey n"
  "skelKey n \<noteq> ofKey x" "ofKey x \<noteq> skelKey n" "skelKey n \<noteq> proofKey x" "proofKey x \<noteq> skelKey n" "ofKey n \<noteq> proofKey x" "proofKey x \<noteq> ofKey n"
  "nameKey n = nameKey n' \<longleftrightarrow> n = n'" "skelKey n = skelKey n' \<longleftrightarrow> n = n'" "ofKey n = ofKey n' \<longleftrightarrow> n = n'"
  by (simp_all add: nameKey_def skelKey_def ofKey_def proofKey_def)

lemma ofKeyLegacy_eq: "ofKeyLegacy net pk = ofKey (net @ '':'' @ pk)"
  by (simp add: ofKeyLegacy_def ofKey_def)

lemma legacy_keys [simp]: "ofKeyLegacy net pk \<noteq> nameKey n" "ofKeyLegacy net pk \<noteq> skelKey n" "ofKeyLegacy net pk \<noteq> proofKey n"
  "nameKey n \<noteq> ofKeyLegacy net pk" "skelKey n \<noteq> ofKeyLegacy net pk" "proofKey n \<noteq> ofKeyLegacy net pk"
  by (simp_all add: ofKeyLegacy_def nameKey_def skelKey_def proofKey_def)

text \<open>An account address holds no colon.\<close>

definition plain_keys :: "keyring \<Rightarrow> bool" where
  "plain_keys ring \<longleftrightarrow> (\<forall>pk. accountKey ring pk \<longrightarrow> CHR '':'' \<notin> set pk)"

lemma plain_legacy: "plain_keys ring \<Longrightarrow> accountKey ring q \<Longrightarrow> ofKeyLegacy net pk \<noteq> ofKey q"
  by (auto simp: plain_keys_def ofKeyLegacy_eq)

definition entry_ok :: "keyring \<Rightarrow> kv_view \<Rightarrow> string \<Rightarrow> cell \<Rightarrow> bool" where
  "entry_ok ring v n c \<longleftrightarrow> n \<noteq> [] \<and> (\<exists>r. c = (VStr (showHandle r), releasedUntil r) \<and> releasedUntil r \<noteq> Some 0 \<and> accountKey ring (holder r) \<and>
     v (skelKey (skeleton n)) = Some (VStr n, releasedUntil r) \<and>
     (releasedUntil r = None \<longrightarrow> v (ofKey (holder r)) = Some (VStr n, None)))"

text \<open>Every name has its record, its skeleton for as long and, while held, its owner's pointer; every skeleton and
  every account's pointer leads to such a name; no legacy pointer is left.\<close>

definition skel_ok :: "kv_view \<Rightarrow> string \<Rightarrow> cell \<Rightarrow> bool" where
  "skel_ok v x c \<longleftrightarrow> (\<exists>n. fst c = VStr n \<and> skeleton n = x \<and> v (nameKey n) \<noteq> None)"

definition owner_ok :: "kv_view \<Rightarrow> string \<Rightarrow> cell \<Rightarrow> bool" where
  "owner_ok v pk c \<longleftrightarrow> (\<exists>n r. c = (VStr n, None) \<and> v (nameKey n) = Some (VStr (showHandle r), None) \<and> holder r = pk \<and> releasedUntil r = None)"

definition no_legacy :: "keyring \<Rightarrow> kv_view \<Rightarrow> bool" where
  "no_legacy ring v \<longleftrightarrow> (\<forall>pk. accountKey ring pk \<longrightarrow> v (ofKeyLegacy ''testnet'' pk) = None \<and> v (ofKeyLegacy ''mainnet'' pk) = None)"

definition registry_ok :: "keyring \<Rightarrow> kv_view \<Rightarrow> bool" where
  "registry_ok ring v \<longleftrightarrow> (\<forall>n c. v (nameKey n) = Some c \<longrightarrow> entry_ok ring v n c) \<and> (\<forall>x c. v (skelKey x) = Some c \<longrightarrow> skel_ok v x c) \<and>
     (\<forall>pk c. accountKey ring pk \<longrightarrow> v (ofKey pk) = Some c \<longrightarrow> owner_ok v pk c) \<and> no_legacy ring v"

definition nameAt :: "kv_view \<Rightarrow> string \<Rightarrow> handle_rec option" where
  "nameAt v n = (case cell_str (v (nameKey n)) of None \<Rightarrow> None | Some t \<Rightarrow> parseHandle t)"

text \<open>The account a name pays, none while it cools down.\<close>

definition holds :: "kv_view \<Rightarrow> string \<Rightarrow> string \<Rightarrow> bool" where
  "holds v n pk \<longleftrightarrow> (case nameAt v n of None \<Rightarrow> False | Some r \<Rightarrow> \<not> isReleased r \<and> holder r = pk)"

lemma registryD:
  assumes "registry_ok ring v"
  shows "v (nameKey n) = Some c \<Longrightarrow> entry_ok ring v n c"
    and "v (skelKey x) = Some c \<Longrightarrow> skel_ok v x c"
    and "accountKey ring pk \<Longrightarrow> v (ofKey pk) = Some c \<Longrightarrow> owner_ok v pk c"
    and "no_legacy ring v"
  using assms by (simp_all add: registry_ok_def del: split_paired_All)

lemma registryI:
  assumes "\<And>n c. v (nameKey n) = Some c \<Longrightarrow> entry_ok ring v n c" "\<And>x c. v (skelKey x) = Some c \<Longrightarrow> skel_ok v x c"
    and "\<And>pk c. accountKey ring pk \<Longrightarrow> v (ofKey pk) = Some c \<Longrightarrow> owner_ok v pk c" "no_legacy ring v"
  shows "registry_ok ring v"
  using assms by (simp add: registry_ok_def del: split_paired_All)

lemma registry_entry:
  assumes "registry_ok ring v" "v (nameKey n) = Some c"
  obtains r where "c = (VStr (showHandle r), releasedUntil r)" "nameAt v n = Some r" "isReleased r \<longleftrightarrow> releasedUntil r \<noteq> None"
    "accountKey ring (holder r)" "v (skelKey (skeleton n)) = Some (VStr n, releasedUntil r)" "n \<noteq> []"
    "releasedUntil r = None \<longrightarrow> v (ofKey (holder r)) = Some (VStr n, None)"
proof -
  have "entry_ok ring v n c" by (rule registryD(1) [OF assms])
  then obtain r where r: "n \<noteq> []" "c = (VStr (showHandle r), releasedUntil r)" "releasedUntil r \<noteq> Some 0" "accountKey ring (holder r)"
      "v (skelKey (skeleton n)) = Some (VStr n, releasedUntil r)" "releasedUntil r = None \<longrightarrow> v (ofKey (holder r)) = Some (VStr n, None)"
    unfolding entry_ok_def by (elim conjE exE)
  have "nameAt v n = Some r" using assms(2) r(2) by (simp add: nameAt_def)
  moreover have "isReleased r \<longleftrightarrow> releasedUntil r \<noteq> None" using r(3) by (cases "releasedUntil r") (simp_all add: isReleased_def)
  ultimately show ?thesis using that [OF r(2)] r(1,4-6) by simp
qed

lemma nameAt_None: "registry_ok ring v \<Longrightarrow> nameAt v n = None \<longleftrightarrow> v (nameKey n) = None"
  by (cases "v (nameKey n)") (auto elim!: registry_entry [of ring v n] simp: nameAt_def)

lemma holdsE:
  assumes "registry_ok ring v" "holds v n pk"
  obtains r where "v (nameKey n) = Some (VStr (showHandle r), None)" "releasedUntil r = None" "holder r = pk" "accountKey ring pk"
    "v (skelKey (skeleton n)) = Some (VStr n, None)" "v (ofKey pk) = Some (VStr n, None)" "n \<noteq> []" "nameAt v n = Some r"
proof -
  obtain c where c: "v (nameKey n) = Some c" using assms(2) by (cases "v (nameKey n)") (simp_all add: holds_def nameAt_def)
  from assms(1) c obtain r where r: "c = (VStr (showHandle r), releasedUntil r)" "nameAt v n = Some r" "isReleased r \<longleftrightarrow> releasedUntil r \<noteq> None"
      "accountKey ring (holder r)" "v (skelKey (skeleton n)) = Some (VStr n, releasedUntil r)" "n \<noteq> []"
      "releasedUntil r = None \<longrightarrow> v (ofKey (holder r)) = Some (VStr n, None)"
    by (rule registry_entry)
  have h: "releasedUntil r = None" "holder r = pk" using assms(2) r(2,3) by (simp_all add: holds_def)
  have "v (nameKey n) = Some (VStr (showHandle r), None)" using c by (simp add: r(1) h(1))
  moreover have "v (ofKey pk) = Some (VStr n, None)" using r(7) by (simp only: h simp_thms)
  ultimately show ?thesis by (rule that [OF _ h r(4) [unfolded h] r(5) [unfolded h] _ r(6,2)])
qed

text \<open>In such a registry no two held names share a skeleton, and no account holds two.\<close>

lemma registry_distinct:
  assumes "registry_ok ring v" "holds v n pk" "holds v n' pk'" "skeleton n = skeleton n' \<or> pk = pk'"
  shows "n = n'"
proof -
  have keys: "v (skelKey (skeleton x)) = Some (VStr x, None)" "v (ofKey q) = Some (VStr x, None)" if "holds v x q" for x q
    using holdsE [OF assms(1) that] by metis+
  from assms(4) have "Some (VStr n, None :: int option) = Some (VStr n', None)"
  proof
    assume "skeleton n = skeleton n'"
    then show ?thesis using keys(1) [OF assms(2)] keys(1) [OF assms(3)] by (simp only:)
  next
    assume "pk = pk'"
    then show ?thesis using keys(2) [OF assms(2)] keys(2) [OF assms(3)] by (simp only:)
  qed
  then show ?thesis by simp
qed

lemma lapse_live: "lapse t x = Some c \<Longrightarrow> x = Some c \<and> lapse t (Some (a, snd c)) = Some (a, snd c)"
  by (auto simp: lapse_def split: option.splits if_splits)

lemma registry_lapse:
  assumes "registry_ok ring v"
  shows "registry_ok ring (\<lambda>k. lapse t (v k))"
proof (rule registryI)
  fix n c assume "lapse t (v (nameKey n)) = Some c"
  from lapse_live [OF this] have c: "v (nameKey n) = Some c" "\<And>a. lapse t (Some (a, snd c)) = Some (a, snd c)" by blast+
  from assms c(1) show "entry_ok ring (\<lambda>k. lapse t (v k)) n c"
    by (rule registry_entry) (use c(2) in \<open>auto simp: entry_ok_def isReleased_def split: option.splits\<close>)
next
  fix x c assume "lapse t (v (skelKey x)) = Some c"
  from lapse_live [OF this] have c: "v (skelKey x) = Some c" "\<And>a. lapse t (Some (a, snd c)) = Some (a, snd c)" by blast+
  obtain n d where n: "fst c = VStr n" "skeleton n = x" "v (nameKey n) = Some d"
    using registryD(2) [OF assms c(1)] unfolding skel_ok_def by (auto simp del: split_paired_Ex)
  from assms n(3) obtain r where r: "d = (VStr (showHandle r), releasedUntil r)" "v (skelKey (skeleton n)) = Some (VStr n, releasedUntil r)"
    by (rule registry_entry)
  then have "releasedUntil r = snd c" using n(2) c(1) by simp
  then have "lapse t (v (nameKey n)) = Some d" using c(2) [of "VStr (showHandle r)"] n(3) r(1) by simp
  then show "skel_ok (\<lambda>k. lapse t (v k)) x c" using n(1,2) by (auto simp: skel_ok_def)
next
  fix pk c assume pk: "accountKey ring pk" "lapse t (v (ofKey pk)) = Some c"
  then have "v (ofKey pk) = Some c" using lapse_live by blast
  from registryD(3) [OF assms pk(1) this] show "owner_ok (\<lambda>k. lapse t (v k)) pk c"
    by (auto simp: owner_ok_def)
next
  show "no_legacy ring (\<lambda>k. lapse t (v k))" using registryD(4) [OF assms] by (simp add: no_legacy_def)
qed

definition same_names :: "kv_view \<Rightarrow> kv_view \<Rightarrow> bool" where
  "same_names v u \<longleftrightarrow> (\<forall>k. u (nameKey k) = v (nameKey k) \<and> u (skelKey k) = v (skelKey k) \<and> u (ofKey k) = v (ofKey k))"

lemma registry_same: "same_names v u \<Longrightarrow> registry_ok ring v \<Longrightarrow> registry_ok ring u"
  by (simp add: registry_ok_def same_names_def entry_ok_def skel_ok_def owner_ok_def no_legacy_def ofKeyLegacy_eq)

lemma holds_same: "same_names v u \<Longrightarrow> holds u = holds v"
  by (simp add: same_names_def holds_def nameAt_def fun_eq_iff)

text \<open>What a proof needs, its own memory included.\<close>

definition proof_message :: "proof_action \<Rightarrow> proof_input \<Rightarrow> string" where
  "proof_message a inp = handleProofMessage a (pname inp) (ppubkey inp) (case pts inp of None \<Rightarrow> 0 | Some x \<Rightarrow> x) (pnonce inp) (pnet inp)"

definition proof_ok :: "keyring \<Rightarrow> proof_action \<Rightarrow> proof_input \<Rightarrow> int \<Rightarrow> kv_view \<Rightarrow> bool" where
  "proof_ok ring a inp now v \<longleftrightarrow> accountKey ring (ppubkey inp) \<and>
     (case pts inp of None \<Rightarrow> False | Some x \<Rightarrow> \<bar>now div 1000 - x\<bar> \<le> PROOF_SKEW_SEC) \<and> nonceShape (pnonce inp) \<and>
     signedBy ring (ppubkey inp) (proof_message a inp) (psig inp) \<and> v (proofKey (digest ring (proof_message a inp))) = None"

lemma registry_strish:
  assumes "registry_ok ring v"
  shows "strish (v (nameKey n))" "strish (v (skelKey x))" "accountKey ring pk \<Longrightarrow> strish (v (ofKey pk))"
proof -
  show "strish (v (nameKey n))"
    by (cases "v (nameKey n)") (auto elim!: registry_entry [OF assms])
  show "strish (v (skelKey x))"
    using registryD(2) [OF assms, of x] by (cases "v (skelKey x)") (auto simp: skel_ok_def)
  show "accountKey ring pk \<Longrightarrow> strish (v (ofKey pk))"
    using registryD(3) [OF assms, of pk] by (cases "v (ofKey pk)") (auto simp: owner_ok_def)
qed

lemma showHandle_nonempty [simp]: "showHandle r \<noteq> []"
  by (simp add: showHandle_def)

lemma owner_holds:
  assumes "registry_ok ring v" "accountKey ring pk"
  shows "cell_str (v (ofKey pk)) = Some n \<longleftrightarrow> holds v n pk" "cell_str (v (ofKey pk)) = None \<longleftrightarrow> v (ofKey pk) = None"
proof -
  show none: "cell_str (v (ofKey pk)) = None \<longleftrightarrow> v (ofKey pk) = None"
    using registryD(3) [OF assms] by (cases "v (ofKey pk)") (auto simp: owner_ok_def)
  show "cell_str (v (ofKey pk)) = Some n \<longleftrightarrow> holds v n pk"
  proof
    assume s: "cell_str (v (ofKey pk)) = Some n"
    then obtain c where c: "v (ofKey pk) = Some c" by (cases "v (ofKey pk)") auto
    from registryD(3) [OF assms c] obtain n' r where o: "c = (VStr n', None)" "v (nameKey n') = Some (VStr (showHandle r), None)" "holder r = pk" "releasedUntil r = None"
      unfolding owner_ok_def by (elim exE conjE)
    then have "n' = n" using s c by simp
    then show "holds v n pk" using o by (simp add: holds_def nameAt_def isReleased_def)
  next
    assume "holds v n pk"
    then show "cell_str (v (ofKey pk)) = Some n" by (rule holdsE [OF assms(1)]) simp
  qed
qed

context redis_commands
begin

lemma live_exp: "wf s \<Longrightarrow> view t s k = Some (c, Some e) \<Longrightarrow> t < e"
  using view_lapse [of s t t k] by (auto simp: lapse_def split: if_splits)

lemma verify_proof_kv:
  assumes "shelf_ok wf w"
  shows "\<exists>r w' u. verifyHandleProof srv ring a inp (m, w) = (Inr r, m, w') \<and> became view wf w u w' \<and> same_names (view (clock w) (kvs w)) u \<and>
    (r = None \<longleftrightarrow> proof_ok ring a inp (clock w) (view (clock w) (kvs w))) \<and>
    (r = None \<longrightarrow> u (proofKey (digest ring (proof_message a inp))) = Some (VStr ''1'', endAt (clock w) (Some PROOF_MEMORY_SEC)))"
proof -
  let ?v = "view (clock w) (kvs w)"
  let ?d = "proofKey (digest ring (proof_message a inp))"
  show ?thesis
  proof (cases "accountKey ring (ppubkey inp) \<and> (case pts inp of None \<Rightarrow> False | Some x \<Rightarrow> \<bar>clock w div 1000 - x\<bar> \<le> PROOF_SKEW_SEC) \<and>
      nonceShape (pnonce inp) \<and> signedBy ring (ppubkey inp) (proof_message a inp) (psig inp)")
    case True
    then obtain x where x: "pts inp = Some x" by (cases "pts inp") auto
    obtain w' where w': "kvSetNx srv ?d ''1'' (Some PROOF_MEMORY_SEC) (m, w) = (Inr (?v ?d = None), m, w')"
        "became view wf w (if ?v ?d = None then ?v(?d \<mapsto> (VStr ''1'', endAt (clock w) (Some PROOF_MEMORY_SEC))) else ?v) w'"
      using kvSetNx_kv [OF assms, of "Some PROOF_MEMORY_SEC" ?d "''1''" m] by auto
    have v: "verifyHandleProof srv ring a inp (m, w) = (Inr (if ?v ?d = None then None else Some Replayed), m, w')"
      using True x w'(1) by (simp add: verifyHandleProof_def proof_message_def Let_def)
    have same: "same_names ?v (if ?v ?d = None then ?v(?d \<mapsto> (VStr ''1'', endAt (clock w) (Some PROOF_MEMORY_SEC))) else ?v)"
      by (simp add: same_names_def)
    have pok: "((if ?v ?d = None then None else Some Replayed) = None) = proof_ok ring a inp (clock w) ?v" using True by (simp add: proof_ok_def)
    show ?thesis by (intro exI conjI, rule v, rule w'(2), rule same, rule pok) simp
  next
    case False
    then have "\<exists>r. verifyHandleProof srv ring a inp (m, w) = (Inr (Some r), m, w)"
      by (auto simp: verifyHandleProof_def proof_message_def Let_def split: option.splits)
    moreover have "\<not> proof_ok ring a inp (clock w) ?v" using False by (auto simp: proof_ok_def)
    ultimately show ?thesis using became_refl [OF assms] by (fastforce simp: same_names_def)
  qed
qed

lemma readRecord_kv:
  assumes "shelf_ok wf w" "registry_ok ring (view (clock w) (kvs w))"
  shows "\<exists>w'. readRecord srv n (m, w) = (Inr (nameAt (view (clock w) (kvs w)) n), m, w') \<and> became view wf w (view (clock w) (kvs w)) w'"
proof -
  obtain w' where w': "kvGet srv (nameKey n) (m, w) = (Inr (cell_str (view (clock w) (kvs w) (nameKey n))), m, w')"
      "became view wf w (view (clock w) (kvs w)) w'"
    using kvGet_kv [OF assms(1) registry_strish(1) [OF assms(2)]] by blast
  have "(case cell_str (view (clock w) (kvs w) (nameKey n)) of None \<Rightarrow> None | Some t \<Rightarrow> if t = [] then None else parseHandle t) =
      nameAt (view (clock w) (kvs w)) n"
    by (cases "view (clock w) (kvs w) (nameKey n)") (auto simp: nameAt_def elim!: registry_entry [OF assms(2)])
  then show ?thesis using w' by (simp add: readRecord_def)
qed

lemma handleOf_kv:
  assumes "shelf_ok wf w" "registry_ok ring (view (clock w) (kvs w))" "accountKey ring pk"
  shows "\<exists>w'. handleOf srv ring pk (m, w) = (Inr (cell_str (view (clock w) (kvs w) (ofKey pk))), m, w') \<and>
    became view wf w (view (clock w) (kvs w)) w'"
proof -
  let ?v = "view (clock w) (kvs w)"
  obtain w1 where w1: "kvGet srv (ofKey pk) (m, w) = (Inr (cell_str (?v (ofKey pk))), m, w1)" "became view wf w ?v w1"
    using kvGet_kv [OF assms(1) registry_strish(3) [OF assms(2,3)]] by blast
  show ?thesis
  proof (cases "cell_str (?v (ofKey pk))")
    case (Some n)
    then have "holds ?v n pk" by (simp add: owner_holds(1) [OF assms(2,3)])
    then have "n \<noteq> []" by (rule holdsE [OF assms(2)])
    then show ?thesis using w1 Some assms(3) by (simp add: handleOf_def nonEmpty_def)
  next
    case None
    have no: "?v (ofKeyLegacy ''testnet'' pk) = None" "?v (ofKeyLegacy ''mainnet'' pk) = None"
      using registryD(4) [OF assms(2)] assms(3) by (simp_all add: no_legacy_def)
    note b1 = becameD [OF w1(2)]
    obtain w2 where w2: "kvGet srv (ofKeyLegacy ''testnet'' pk) (m, w1) = (Inr None, m, w2)" "became view wf w1 ?v w2"
      using kvGet_kv [OF b1(1), of "ofKeyLegacy ''testnet'' pk" m] unfolding b1(4) no by auto
    note b2 = becameD [OF w2(2)]
    obtain w3 where w3: "kvGet srv (ofKeyLegacy ''mainnet'' pk) (m, w2) = (Inr None, m, w3)" "became view wf w2 ?v w3"
      using kvGet_kv [OF b2(1), of "ofKeyLegacy ''mainnet'' pk" m] unfolding b2(4) no by auto
    have "became view wf w ?v w3" using became_trans [OF became_trans [OF w3(2) w2(2)] w1(2)] .
    then show ?thesis using w1 w2 w3 None assms(3) by (simp add: handleOf_def nonEmpty_def)
  qed
qed

end

subsection \<open>Claims\<close>

text \<open>The three keys of a new name, the record of a re-homed one, and the tombstone of a released one.\<close>

definition with_name :: "string \<Rightarrow> handle_rec \<Rightarrow> kv_view \<Rightarrow> kv_view" where
  "with_name n r v = v(skelKey (skeleton n) \<mapsto> (VStr n, releasedUntil r), nameKey n \<mapsto> (VStr (showHandle r), releasedUntil r),
     ofKey (holder r) := (if releasedUntil r = None then Some (VStr n, None) else None))"

lemma nameAt_with_name: "nameAt (with_name n r v) = (nameAt v)(n \<mapsto> r)"
  by (auto simp: with_name_def nameAt_def fun_eq_iff)

lemma registry_with_name:
  assumes "registry_ok ring v" "plain_keys ring" "accountKey ring (holder r)" "releasedUntil r \<noteq> Some 0" "n \<noteq> []"
    and "\<And>n'. v (nameKey n') \<noteq> None \<Longrightarrow> skeleton n' = skeleton n \<Longrightarrow> n' = n"
    and "\<And>n'. holds v n' (holder r) \<Longrightarrow> n' = n" "\<And>pk. holds v n pk \<Longrightarrow> pk = holder r"
  shows "registry_ok ring (with_name n r v)"
proof (rule registryI)
  fix n' c assume c: "with_name n r v (nameKey n') = Some c"
  show "entry_ok ring (with_name n r v) n' c"
  proof (cases "n' = n")
    case True
    then show ?thesis using c assms(3-5) by (auto simp: with_name_def entry_ok_def)
  next
    case False
    then have "v (nameKey n') = Some c" using c by (simp add: with_name_def)
    from assms(1) this obtain r' where r': "c = (VStr (showHandle r'), releasedUntil r')" "nameAt v n' = Some r'"
        "isReleased r' \<longleftrightarrow> releasedUntil r' \<noteq> None" "accountKey ring (holder r')"
        "v (skelKey (skeleton n')) = Some (VStr n', releasedUntil r')" "n' \<noteq> []" "releasedUntil r' = None \<longrightarrow> v (ofKey (holder r')) = Some (VStr n', None)"
      by (rule registry_entry)
    have "skeleton n' \<noteq> skeleton n" using assms(6) [of n'] False \<open>v (nameKey n') = Some c\<close> by auto
    moreover have "releasedUntil r' = None \<Longrightarrow> holder r' \<noteq> holder r"
      using assms(7) [of n'] False r'(2,3) by (auto simp: holds_def)
    moreover have "releasedUntil r' \<noteq> Some 0" using r'(3) by (auto simp: isReleased_def)
    ultimately show ?thesis using r' False by (auto simp: entry_ok_def with_name_def)
  qed
next
  fix x c assume c: "with_name n r v (skelKey x) = Some c"
  show "skel_ok (with_name n r v) x c"
  proof (cases "x = skeleton n")
    case True
    then show ?thesis using c by (auto simp: with_name_def skel_ok_def)
  next
    case False
    then have "v (skelKey x) = Some c" using c by (simp add: with_name_def)
    from registryD(2) [OF assms(1) this] obtain n' where "fst c = VStr n'" "skeleton n' = x" "v (nameKey n') \<noteq> None"
      unfolding skel_ok_def by (elim exE conjE)
    then show ?thesis unfolding skel_ok_def with_name_def by (intro exI [of _ n']) simp
  qed
next
  fix pk c assume pk: "accountKey ring pk" "with_name n r v (ofKey pk) = Some c"
  show "owner_ok (with_name n r v) pk c"
  proof (cases "pk = holder r")
    case True
    then show ?thesis using pk(2) by (auto simp: with_name_def owner_ok_def split: if_splits)
  next
    case False
    then have v: "v (ofKey pk) = Some c" using pk(2) by (simp add: with_name_def)
    from registryD(3) [OF assms(1) pk(1) v] obtain n' r' where o: "c = (VStr n', None)" "v (nameKey n') = Some (VStr (showHandle r'), None)" "holder r' = pk" "releasedUntil r' = None"
      unfolding owner_ok_def by (elim exE conjE)
    have "holds v n' pk" using o by (simp add: holds_def nameAt_def isReleased_def)
    then have "n' \<noteq> n" using assms(8) [of pk] False by auto
    then show ?thesis using o by (auto simp: owner_ok_def with_name_def)
  qed
next
  show "no_legacy ring (with_name n r v)"
    using registryD(4) [OF assms(1)] plain_legacy [OF assms(2,3)] by (simp add: no_legacy_def with_name_def)
qed

context redis_commands
begin

lemma takeSkeleton_kv:
  assumes "shelf_ok wf w" "registry_ok ring (view (clock w) (kvs w))" "view (clock w) (kvs w) (nameKey n) = None"
    and "view (clock w) (kvs w) (ofKey (ppubkey inp)) = None"
  defines "r \<equiv> \<lparr>holder = ppubkey inp, onNet = pnet inp, createdAt = clock w, releasedUntil = None\<rparr>"
  shows "\<exists>w'. if view (clock w) (kvs w) (skelKey (skeleton n)) = None
    then takeSkeleton srv inp n None (m, w) = (Inr (Claimed n (ppubkey inp) (pnet inp)), m, w') \<and> became view wf w (with_name n r (view (clock w) (kvs w))) w'
    else takeSkeleton srv inp n None (m, w) = (Inr (NotClaimed TooClose), m, w') \<and> became view wf w (view (clock w) (kvs w)) w'"
proof -
  let ?v = "view (clock w) (kvs w)" and ?s = "skelKey (skeleton n)"
  obtain w1 where w1: "kvSetNx srv ?s n None (m, w) = (Inr (?v ?s = None), m, w1)"
      "became view wf w (if ?v ?s = None then ?v(?s \<mapsto> (VStr n, endAt (clock w) None)) else ?v) w1"
    using kvSetNx_kv [OF assms(1), of None ?s n m] by auto
  note b1 = becameD [OF w1(2)]
  show ?thesis
  proof (cases "?v ?s")
    case None
    let ?v1 = "?v(?s \<mapsto> (VStr n, None))"
    have v1: "view (clock w1) (kvs w1) = ?v1" using b1(4) None by (simp add: endAt_def)
    obtain w2 where w2: "kvSetNx srv (nameKey n) (showHandle r) None (m, w1) = (Inr True, m, w2)"
        "became view wf w1 (?v1(nameKey n \<mapsto> (VStr (showHandle r), None))) w2"
      using kvSetNx_kv [OF b1(1), of None "nameKey n" "showHandle r" m] unfolding v1 by (auto simp: assms(3) endAt_def)
    note b2 = becameD [OF w2(2)]
    obtain w3 where w3: "kvSetNx srv (ofKey (ppubkey inp)) n None (m, w2) = (Inr True, m, w3)"
        "became view wf w2 (?v1(nameKey n \<mapsto> (VStr (showHandle r), None), ofKey (ppubkey inp) \<mapsto> (VStr n, None))) w3"
      using kvSetNx_kv [OF b2(1), of None "ofKey (ppubkey inp)" n m] unfolding b2(4) by (auto simp: assms(4) endAt_def)
    have "became view wf w (with_name n r ?v) w3"
      using became_trans [OF became_trans [OF w3(2) w2(2)] w1(2)] by (simp add: with_name_def r_def)
    moreover have "takeSkeleton srv inp n None (m, w) = (Inr (Claimed n (ppubkey inp) (pnet inp)), m, w3)"
      using w1(1) w2(1) w3(1) None b1(2) by (simp add: takeSkeleton_def takeName_def r_def)
    ultimately show ?thesis using None by auto
  next
    case (Some c)
    have v1: "view (clock w1) (kvs w1) = ?v" using b1(4) Some by simp
    obtain w2 where w2: "kvGet srv ?s (m, w1) = (Inr (cell_str (?v ?s)), m, w2)" "became view wf w1 ?v w2"
      using kvGet_kv [OF b1(1), of ?s m] unfolding v1 using registry_strish(2) [OF assms(2)] by blast
    obtain n' where "fst c = VStr n'" "?v (nameKey n') \<noteq> None" using registryD(2) [OF assms(2) Some] by (auto simp: skel_ok_def)
    then have "cell_str (?v ?s) \<noteq> Some n" using Some assms(3) by (cases c) auto
    then have "takeSkeleton srv inp n None (m, w) = (Inr (NotClaimed TooClose), m, w2)"
      using w1(1) w2(1) Some by (simp add: takeSkeleton_def)
    moreover have "became view wf w ?v w2" using became_trans [OF w2(2) w1(2)] .
    ultimately show ?thesis using Some by auto
  qed
qed

end

lemma nameAt_same: "same_names v u \<Longrightarrow> nameAt u = nameAt v"
  by (simp add: same_names_def nameAt_def fun_eq_iff)

text \<open>A name nobody has, whose skeleton no other name reserves, for an account without one.\<close>

definition free_for :: "kv_view \<Rightarrow> string \<Rightarrow> string \<Rightarrow> bool" where
  "free_for v n pk \<longleftrightarrow> nameAt v n = None \<and> (\<forall>n'. nameAt v n' \<noteq> None \<longrightarrow> skeleton n' \<noteq> skeleton n) \<and> (\<forall>n'. \<not> holds v n' pk)"

lemma free_forD: "free_for v n pk \<Longrightarrow> nameAt v n' \<noteq> None \<Longrightarrow> skeleton n' \<noteq> skeleton n"
  by (simp add: free_for_def)

definition may_claim :: "keyring \<Rightarrow> proof_input \<Rightarrow> int \<Rightarrow> kv_view \<Rightarrow> bool" where
  "may_claim ring inp now v \<longleftrightarrow> (let n = normalizeHandle (pname inp) in
     validateHandleShape n = None \<and> proof_ok ring ClaimName (inp\<lparr>pname := n\<rparr>) now v \<and> (holds v n (ppubkey inp) \<or> free_for v n (ppubkey inp)))"

text \<open>The record a claim leaves: a new one, or the one it had with the network it is claimed on.\<close>

definition claimed_rec :: "proof_input \<Rightarrow> int \<Rightarrow> handle_rec option \<Rightarrow> handle_rec" where
  "claimed_rec inp now x = (case x of None \<Rightarrow> \<lparr>holder = ppubkey inp, onNet = pnet inp, createdAt = now, releasedUntil = None\<rparr>
     | Some r \<Rightarrow> r\<lparr>onNet := pnet inp\<rparr>)"

definition claim_post :: "keyring \<Rightarrow> proof_input \<Rightarrow> int \<Rightarrow> kv_view \<Rightarrow> claimed \<Rightarrow> kv_view \<Rightarrow> bool" where
  "claim_post ring inp now v a u \<longleftrightarrow> (let n = normalizeHandle (pname inp) in
     if may_claim ring inp now v
     then a = Claimed n (ppubkey inp) (pnet inp) \<and> nameAt u = (nameAt v)(n \<mapsto> claimed_rec inp now (nameAt v n))
     else (\<exists>x. a = NotClaimed x) \<and> nameAt u = nameAt v)"

lemma nameAt_some_keys:
  assumes "registry_ok ring v" "nameAt v n = Some r"
  shows "v (nameKey n) = Some (VStr (showHandle r), releasedUntil r)" "isReleased r \<longleftrightarrow> releasedUntil r \<noteq> None"
    "accountKey ring (holder r)" "v (skelKey (skeleton n)) = Some (VStr n, releasedUntil r)" "n \<noteq> []"
    "releasedUntil r \<noteq> Some 0" "releasedUntil r = None \<Longrightarrow> v (ofKey (holder r)) = Some (VStr n, None)"
proof -
  obtain c where c: "v (nameKey n) = Some c" using assms(2) by (cases "v (nameKey n)") (simp_all add: nameAt_def)
  from assms(1) c obtain r' where r: "c = (VStr (showHandle r'), releasedUntil r')" "nameAt v n = Some r'" "isReleased r' \<longleftrightarrow> releasedUntil r' \<noteq> None"
      "accountKey ring (holder r')" "v (skelKey (skeleton n)) = Some (VStr n, releasedUntil r')" "n \<noteq> []"
      "releasedUntil r' = None \<longrightarrow> v (ofKey (holder r')) = Some (VStr n, None)"
    by (rule registry_entry)
  then have "r' = r" using assms(2) by simp
  then show "v (nameKey n) = Some (VStr (showHandle r), releasedUntil r)" "isReleased r \<longleftrightarrow> releasedUntil r \<noteq> None"
    "accountKey ring (holder r)" "v (skelKey (skeleton n)) = Some (VStr n, releasedUntil r)" "n \<noteq> []"
    "releasedUntil r \<noteq> Some 0" "releasedUntil r = None \<Longrightarrow> v (ofKey (holder r)) = Some (VStr n, None)"
    using r c by (auto simp: isReleased_def)
qed

lemma free_with_name:
  assumes "registry_ok ring v" "plain_keys ring" "free_for v n (holder r)" "accountKey ring (holder r)" "releasedUntil r = None" "n \<noteq> []"
  shows "registry_ok ring (with_name n r v)"
proof (rule registry_with_name [OF assms(1,2,4)])
  show "n' = n" if "v (nameKey n') \<noteq> None" "skeleton n' = skeleton n" for n'
  proof -
    have "nameAt v n' \<noteq> None" using that(1) by (simp only: nameAt_None [OF assms(1)] not_False_eq_True)
    from free_forD [OF assms(3) this] that(2) show ?thesis by contradiction
  qed
qed (use assms in \<open>auto simp: free_for_def holds_def split: option.splits\<close>)

lemma held_with_name:
  assumes "registry_ok ring v" "plain_keys ring" "nameAt v n = Some x" "\<not> isReleased x" "holder r = holder x" "releasedUntil r \<noteq> Some 0"
  shows "registry_ok ring (with_name n r v)"
proof -
  note k = nameAt_some_keys [OF assms(1,3)]
  have h: "holds v n (holder x)" using assms(3,4) by (simp add: holds_def)
  show ?thesis
  proof (rule registry_with_name [OF assms(1,2) _ assms(6) k(5)])
    show "accountKey ring (holder r)" using k(3) assms(5) by simp
    show "n' = n" if "v (nameKey n') \<noteq> None" "skeleton n' = skeleton n" for n'
    proof -
      have "nameAt v n' \<noteq> None" using that(1) by (simp only: nameAt_None [OF assms(1)] not_False_eq_True)
      then obtain y where "nameAt v n' = Some y" by blast
      have "v (skelKey (skeleton n)) = Some (VStr n', releasedUntil y)"
        using nameAt_some_keys(4) [OF assms(1) \<open>nameAt v n' = Some y\<close>] by (simp only: that(2))
      then have "Some (VStr n', releasedUntil y) = Some (VStr n, releasedUntil x)" using k(4) by (simp only:)
      then show ?thesis by simp
    qed
    show "n' = n" if "holds v n' (holder r)" for n'
      using registry_distinct [OF assms(1) that h] assms(5) by simp
    show "pk = holder r" if "holds v n pk" for pk
      using that assms(3,5) by (simp add: holds_def)
  qed
qed

context redis_commands
begin

lemma takeSkeleton_free:
  assumes "shelf_ok wf w" "registry_ok ring (view (clock w) (kvs w))" "plain_keys ring" "accountKey ring (ppubkey inp)" "n \<noteq> []"
    and "nameAt (view (clock w) (kvs w)) n = None" "\<And>n'. \<not> holds (view (clock w) (kvs w)) n' (ppubkey inp)"
  shows "\<exists>a w' u. takeSkeleton srv inp n None (m, w) = (Inr a, m, w') \<and> became view wf w u w' \<and> registry_ok ring u \<and>
    (if free_for (view (clock w) (kvs w)) n (ppubkey inp)
     then a = Claimed n (ppubkey inp) (pnet inp) \<and> nameAt u = (nameAt (view (clock w) (kvs w)))(n \<mapsto> claimed_rec inp (clock w) None)
     else (\<exists>x. a = NotClaimed x) \<and> nameAt u = nameAt (view (clock w) (kvs w)))"
proof -
  let ?v = "view (clock w) (kvs w)" and ?r = "claimed_rec inp (clock w) None"
  have n: "?v (nameKey n) = None" using assms(6) by (simp only: nameAt_None [OF assms(2)])
  have "cell_str (?v (ofKey (ppubkey inp))) = None"
  proof (rule ccontr)
    assume "cell_str (?v (ofKey (ppubkey inp))) \<noteq> None"
    then obtain n' where "cell_str (?v (ofKey (ppubkey inp))) = Some n'" by blast
    then have "holds ?v n' (ppubkey inp)" by (simp only: owner_holds(1) [OF assms(2,4)])
    then show False using assms(7) by simp
  qed
  then have o: "?v (ofKey (ppubkey inp)) = None" by (simp only: owner_holds(2) [OF assms(2,4)])
  have free: "?v (skelKey (skeleton n)) = None \<longleftrightarrow> free_for ?v n (ppubkey inp)"
  proof
    assume none: "?v (skelKey (skeleton n)) = None"
    have "skeleton n' \<noteq> skeleton n" if "nameAt ?v n' \<noteq> None" for n'
    proof
      assume sk: "skeleton n' = skeleton n"
      obtain y where "nameAt ?v n' = Some y" using \<open>nameAt ?v n' \<noteq> None\<close> by blast
      from nameAt_some_keys(4) [OF assms(2) this] show False using none sk by simp
    qed
    then show "free_for ?v n (ppubkey inp)" using assms(6,7) by (simp add: free_for_def)
  next
    assume f: "free_for ?v n (ppubkey inp)"
    show "?v (skelKey (skeleton n)) = None"
    proof (rule ccontr)
      assume "?v (skelKey (skeleton n)) \<noteq> None"
      then obtain c where "?v (skelKey (skeleton n)) = Some c" by blast
      from registryD(2) [OF assms(2) this] obtain n' where "skeleton n' = skeleton n" "?v (nameKey n') \<noteq> None"
        unfolding skel_ok_def by (elim exE conjE)
      then have "nameAt ?v n' \<noteq> None" by (simp only: nameAt_None [OF assms(2)] not_False_eq_True)
      from free_forD [OF f this] show False using \<open>skeleton n' = skeleton n\<close> by contradiction
    qed
  qed
  have rec: "?r = \<lparr>holder = ppubkey inp, onNet = pnet inp, createdAt = clock w, releasedUntil = None\<rparr>" by (simp add: claimed_rec_def)
  obtain w' where w': "if ?v (skelKey (skeleton n)) = None
      then takeSkeleton srv inp n None (m, w) = (Inr (Claimed n (ppubkey inp) (pnet inp)), m, w') \<and> became view wf w (with_name n ?r ?v) w'
      else takeSkeleton srv inp n None (m, w) = (Inr (NotClaimed TooClose), m, w') \<and> became view wf w ?v w'"
    using takeSkeleton_kv [OF assms(1,2) n o, of m] unfolding rec [symmetric] by (elim exE)
  show ?thesis
  proof (cases "free_for ?v n (ppubkey inp)")
    case True
    have "registry_ok ring (with_name n ?r ?v)"
      using free_with_name [OF assms(2,3), of n ?r] True assms(4,5) by (simp add: claimed_rec_def)
    then show ?thesis using w' True free nameAt_with_name [of n ?r ?v] by (metis (no_types, lifting))
  next
    case False
    then show ?thesis using w' free assms(2) by (metis (no_types, lifting))
  qed
qed

end

lemma validate_nonempty: "validateHandleShape n = None \<Longrightarrow> n \<noteq> []"
  by (auto simp: validateHandleShape_def nameShape_def split: if_splits)

lemma free_for_same: "same_names v u \<Longrightarrow> free_for u = free_for v"
  by (simp add: free_for_def nameAt_same holds_same fun_eq_iff)

lemma claim_post_same:
  assumes "same_names v v1" "may_claim ring inp now v \<longleftrightarrow> holds v1 n pk \<or> free_for v1 n pk" "n = normalizeHandle (pname inp)" "pk = ppubkey inp"
    and "if holds v1 n pk \<or> free_for v1 n pk then a = Claimed n pk (pnet inp) \<and> nameAt u = (nameAt v1)(n \<mapsto> claimed_rec inp now (nameAt v1 n))
      else (\<exists>x. a = NotClaimed x) \<and> nameAt u = nameAt v1"
  shows "claim_post ring inp now v a u"
  using assms by (simp add: claim_post_def Let_def nameAt_same [OF assms(1)])

context redis_commands
begin

lemma claimFresh_kv:
  assumes "shelf_ok wf w" "registry_ok ring (view (clock w) (kvs w))" "plain_keys ring" "accountKey ring (ppubkey inp)" "n \<noteq> []"
    and "nameAt (view (clock w) (kvs w)) n = None"
  shows "\<exists>a w' u. claimFresh srv ring inp n None (m, w) = (Inr a, m, w') \<and> became view wf w u w' \<and> registry_ok ring u \<and>
    (if free_for (view (clock w) (kvs w)) n (ppubkey inp)
     then a = Claimed n (ppubkey inp) (pnet inp) \<and> nameAt u = (nameAt (view (clock w) (kvs w)))(n \<mapsto> claimed_rec inp (clock w) None)
     else (\<exists>x. a = NotClaimed x) \<and> nameAt u = nameAt (view (clock w) (kvs w)))"
proof -
  let ?v = "view (clock w) (kvs w)" and ?pk = "ppubkey inp"
  obtain w1 where w1: "handleOf srv ring ?pk (m, w) = (Inr (cell_str (?v (ofKey ?pk))), m, w1)" "became view wf w ?v w1"
    using handleOf_kv [OF assms(1,2,4)] by blast
  note b1 = becameD [OF w1(2)]
  show ?thesis
  proof (cases "cell_str (?v (ofKey ?pk))")
    case (Some n')
    then have h: "holds ?v n' ?pk" by (simp only: owner_holds(1) [OF assms(2,4)])
    then have "n' \<noteq> []" by (rule holdsE [OF assms(2)])
    moreover have "n' \<noteq> n" using h assms(6) by (auto simp: holds_def)
    ultimately have "claimFresh srv ring inp n None (m, w) = (Inr (NotClaimed (HasAnother n')), m, w1)"
      using w1(1) Some by (simp add: claimFresh_def nonEmpty_def)
    moreover have "\<not> free_for ?v n ?pk" using h by (auto simp: free_for_def)
    ultimately show ?thesis using w1(2) assms(2) by auto
  next
    case None
    have "\<not> holds ?v n' ?pk" for n' using None owner_holds(1) [OF assms(2,4), of n'] by simp
    then obtain a w2 u where t: "takeSkeleton srv inp n None (m, w1) = (Inr a, m, w2)" "became view wf w1 u w2" "registry_ok ring u"
        "if free_for ?v n ?pk then a = Claimed n ?pk (pnet inp) \<and> nameAt u = (nameAt ?v)(n \<mapsto> claimed_rec inp (clock w) None)
         else (\<exists>x. a = NotClaimed x) \<and> nameAt u = nameAt ?v"
      using takeSkeleton_free [OF b1(1), of ring inp n m] unfolding b1(4) unfolding b1(2) using assms(2-6) by blast
    have "claimFresh srv ring inp n None (m, w) = (Inr a, m, w2)" using w1(1) None t(1) by (simp add: claimFresh_def nonEmpty_def)
    then show ?thesis using became_trans [OF t(2) w1(2)] t(3,4) by blast
  qed
qed

text \<open>Re-homing a name its account holds.\<close>

lemma rehome_kv:
  assumes "shelf_ok wf w" "registry_ok ring (view (clock w) (kvs w))" "plain_keys ring"
    and "nameAt (view (clock w) (kvs w)) n = Some x" "\<not> isReleased x" "holder x = pk"
  shows "\<exists>w'. proceed (if onNet x \<noteq> net then kvSet srv (nameKey n) (showHandle (x\<lparr>onNet := net\<rparr>)) None (m, w) else (Inr (), (m, w)))
      (\<lambda>_ s3. proceed (kvSet srv (ofKey pk) n None s3) (\<lambda>_ s4. (Inr (Claimed n pk net), s4))) = (Inr (Claimed n pk net), m, w') \<and>
    became view wf w (with_name n (x\<lparr>onNet := net\<rparr>) (view (clock w) (kvs w))) w' \<and>
    registry_ok ring (with_name n (x\<lparr>onNet := net\<rparr>) (view (clock w) (kvs w)))"
proof -
  let ?v = "view (clock w) (kvs w)" and ?x = "x\<lparr>onNet := net\<rparr>"
  note k = nameAt_some_keys [OF assms(2,4)]
  have rel: "releasedUntil x = None" using k(2) assms(5) by simp
  let ?v1 = "?v(nameKey n \<mapsto> (VStr (showHandle ?x), None))"
  obtain w1 where w1: "(if onNet x \<noteq> net then kvSet srv (nameKey n) (showHandle ?x) None (m, w) else (Inr (), (m, w))) = (Inr (), m, w1)"
      "became view wf w ?v1 w1"
  proof (cases "onNet x = net")
    case True
    then have "?x = x" by simp
    then have "?v1 = ?v" using k(1) by (simp add: rel fun_upd_idem)
    then show ?thesis using that [of w] True became_refl [OF assms(1)] by simp
  next
    case False
    then show ?thesis using that kvSet_kv [OF assms(1), of None "nameKey n" "showHandle ?x" m] by (auto simp: endAt_def)
  qed
  note b1 = becameD [OF w1(2)]
  obtain w2 where w2: "kvSet srv (ofKey pk) n None (m, w1) = (Inr (), m, w2)" "became view wf w1 (?v1(ofKey pk \<mapsto> (VStr n, None))) w2"
    using kvSet_kv [OF b1(1), of None "ofKey pk" n m] unfolding b1(4) by (auto simp: endAt_def)
  have "with_name n ?x ?v = ?v1(ofKey pk \<mapsto> (VStr n, None))"
    using k(4) rel assms(6) by (simp add: with_name_def fun_upd_idem)
  moreover have "registry_ok ring (with_name n ?x ?v)"
    by (rule held_with_name [OF assms(2,3,4,5)]) (simp_all add: rel)
  ultimately show ?thesis using w1(1) w2(1) became_trans [OF w2(2) w1(2)] by (intro exI [of _ w2]) simp
qed

lemma claim_kv:
  assumes "shelf_ok wf w" "registry_ok ring (view (clock w) (kvs w))" "plain_keys ring"
  shows "\<exists>a w' u. claimHandle srv ring inp (m, w) = (Inr a, m, w') \<and> became view wf w u w' \<and> registry_ok ring u \<and>
    claim_post ring inp (clock w) (view (clock w) (kvs w)) a u"
proof -
  let ?v = "view (clock w) (kvs w)"
  define n where "n = normalizeHandle (pname inp)"
  define pk where "pk = ppubkey inp"
  show ?thesis
  proof (cases "validateHandleShape n")
    case (Some x)
    then have "claimHandle srv ring inp (m, w) = (Inr (NotClaimed x), m, w)" "claim_post ring inp (clock w) ?v (NotClaimed x) ?v"
      by (simp_all add: claimHandle_def claim_post_def may_claim_def n_def [symmetric])
    then show ?thesis using became_refl [OF assms(1)] assms(2) by blast
  next
    case None
    obtain r w1 u1 where p: "verifyHandleProof srv ring ClaimName (inp\<lparr>pname := n\<rparr>) (m, w) = (Inr r, m, w1)" "became view wf w u1 w1"
        "same_names ?v u1" "r = None \<longleftrightarrow> proof_ok ring ClaimName (inp\<lparr>pname := n\<rparr>) (clock w) ?v"
      using verify_proof_kv [OF assms(1)] by blast
    note b1 = becameD [OF p(2)]
    have r1: "registry_ok ring u1" using registry_same [OF p(3) assms(2)] .
    show ?thesis
    proof (cases r)
      case (Some x)
      then have "claimHandle srv ring inp (m, w) = (Inr (NotClaimed x), m, w1)" "claim_post ring inp (clock w) ?v (NotClaimed x) u1"
        using None p(1,4) by (simp_all add: claimHandle_def claim_post_def may_claim_def n_def [symmetric] nameAt_same [OF p(3)])
      then show ?thesis using p(2) r1 by blast
    next
      case (None)
      note proved = None
      have may: "may_claim ring inp (clock w) ?v \<longleftrightarrow> holds u1 n pk \<or> free_for u1 n pk"
        using p(4) proved \<open>validateHandleShape n = None\<close>
        by (simp add: may_claim_def n_def [symmetric] pk_def [symmetric] holds_same [OF p(3)] free_for_same [OF p(3)])
      note post = claim_post_same [OF p(3) may n_def pk_def]
      have key: "accountKey ring pk" using p(4) proved by (simp add: proof_ok_def pk_def)
      obtain w2 where w2: "readRecord srv n (m, w1) = (Inr (nameAt u1 n), m, w2)" "became view wf w1 u1 w2"
        using readRecord_kv [OF b1(1), of ring n m] unfolding b1(4) using r1 by blast
      note b2 = becameD [OF w2(2)]
      have w02: "became view wf w u1 w2" using became_trans [OF w2(2) p(2)] .
      have now: "clock w2 = clock w" using b2(2) b1(2) by simp
      show ?thesis
      proof (cases "nameAt u1 n")
        case (Some x)
        note k = nameAt_some_keys [OF r1 Some]
        have nf: "\<not> free_for u1 n pk" using Some by (simp add: free_for_def)
        show ?thesis
        proof (cases "isReleased x")
          case True
          then obtain e where e: "releasedUntil x = Some e" using k(2) by auto
          have "clock w2 < e" using live_exp [of "kvs w2" "clock w2" "nameKey n"] b2 k(1) e by (auto simp: shelf_ok_def)
          then have "claimHandle srv ring inp (m, w) = (Inr (NotClaimed CoolingDown), m, w2)"
            using None \<open>validateHandleShape n = None\<close> p(1) proved w2(1) Some True e
            by (simp add: claimHandle_def n_def [symmetric] Let_def)
          moreover have "\<not> holds u1 n pk" using Some True by (simp add: holds_def)
          then have "claim_post ring inp (clock w) ?v (NotClaimed CoolingDown) u1" using nf by (intro post) simp
          ultimately show ?thesis using w02 r1 by blast
        next
          case False
          show ?thesis
          proof (cases "holder x = pk")
            case True
            obtain w3 where w3: "proceed (if onNet x \<noteq> pnet inp then kvSet srv (nameKey n) (showHandle (x\<lparr>onNet := pnet inp\<rparr>)) None (m, w2) else (Inr (), (m, w2)))
                (\<lambda>_ s3. proceed (kvSet srv (ofKey pk) n None s3) (\<lambda>_ s4. (Inr (Claimed n pk (pnet inp)), s4))) = (Inr (Claimed n pk (pnet inp)), m, w3)"
                "became view wf w2 (with_name n (x\<lparr>onNet := pnet inp\<rparr>) u1) w3" "registry_ok ring (with_name n (x\<lparr>onNet := pnet inp\<rparr>) u1)"
              using rehome_kv [OF b2(1), of ring n x pk "pnet inp" m] unfolding b2(4) using r1 assms(3) Some False True by blast
            have "claimHandle srv ring inp (m, w) = (Inr (Claimed n pk (pnet inp)), m, w3)"
              using \<open>validateHandleShape n = None\<close> p(1) proved w2(1) Some False True w3(1)
              by (simp add: claimHandle_def n_def [symmetric] pk_def [symmetric] Let_def del: if_split)
            moreover have "claim_post ring inp (clock w) ?v (Claimed n pk (pnet inp)) (with_name n (x\<lparr>onNet := pnet inp\<rparr>) u1)"
              using Some False True by (intro post) (simp add: holds_def nameAt_with_name claimed_rec_def)
            ultimately show ?thesis using became_trans [OF w3(2) w02] w3(3) by blast
          next
            case not_mine: False
            then have "claimHandle srv ring inp (m, w) = (Inr (NotClaimed Taken), m, w2)"
              using \<open>validateHandleShape n = None\<close> p(1) proved w2(1) Some False
              by (simp add: claimHandle_def n_def [symmetric] pk_def [symmetric] Let_def)
            moreover have "claim_post ring inp (clock w) ?v (NotClaimed Taken) u1"
              using Some not_mine nf by (intro post) (simp add: holds_def)
            ultimately show ?thesis using w02 r1 by blast
          qed
        qed
      next
        case absent: None
        obtain a w3 u where f: "claimFresh srv ring inp n None (m, w2) = (Inr a, m, w3)" "became view wf w2 u w3" "registry_ok ring u"
            "if free_for u1 n pk then a = Claimed n pk (pnet inp) \<and> nameAt u = (nameAt u1)(n \<mapsto> claimed_rec inp (clock w) None)
             else (\<exists>x. a = NotClaimed x) \<and> nameAt u = nameAt u1"
          using claimFresh_kv [OF b2(1), of ring inp n m] unfolding b2(4) unfolding pk_def [symmetric] now
          using r1 assms(3) key absent validate_nonempty [OF \<open>validateHandleShape n = None\<close>] by blast
        have "claimHandle srv ring inp (m, w) = (Inr a, m, w3)"
          using \<open>validateHandleShape n = None\<close> p(1) proved w2(1) absent f(1)
          by (simp add: claimHandle_def n_def [symmetric] Let_def)
        moreover have "\<not> holds u1 n pk" using absent by (simp add: holds_def)
        then have "claim_post ring inp (clock w) ?v a u" using f(4) absent by (intro post) simp
        ultimately show ?thesis using became_trans [OF f(2) w02] f(3) by blast
      qed
    qed
  qed
qed

end

subsection \<open>Releases\<close>

definition released_rec :: "int \<Rightarrow> handle_rec \<Rightarrow> handle_rec" where
  "released_rec now x = x\<lparr>releasedUntil := Some (now + RELEASE_COOLDOWN_SEC * 1000)\<rparr>"

lemma registry_drop_legacy:
  assumes "registry_ok ring v" "plain_keys ring"
  shows "registry_ok ring (v(ofKeyLegacy net pk := None))"
proof (rule registryI)
  fix n c assume "(v(ofKeyLegacy net pk := None)) (nameKey n) = Some c"
  then have "v (nameKey n) = Some c" by (simp split: if_splits)
  from registryD(1) [OF assms(1) this] show "entry_ok ring (v(ofKeyLegacy net pk := None)) n c"
    using plain_legacy [OF assms(2), THEN not_sym] unfolding entry_ok_def by (elim conjE exE) (intro conjI exI, assumption+, auto)
next
  fix x c assume "(v(ofKeyLegacy net pk := None)) (skelKey x) = Some c"
  then have "v (skelKey x) = Some c" by (simp split: if_splits)
  from registryD(2) [OF assms(1) this] show "skel_ok (v(ofKeyLegacy net pk := None)) x c" by (simp add: skel_ok_def)
next
  fix q c assume q: "accountKey ring q" "(v(ofKeyLegacy net pk := None)) (ofKey q) = Some c"
  then have "v (ofKey q) = Some c" by (simp split: if_splits)
  from registryD(3) [OF assms(1) q(1) this] show "owner_ok (v(ofKeyLegacy net pk := None)) q c" by (simp add: owner_ok_def)
next
  show "no_legacy ring (v(ofKeyLegacy net pk := None))" using registryD(4) [OF assms(1)] by (simp add: no_legacy_def)
qed

lemma nameAt_drop_legacy: "nameAt (v(ofKeyLegacy net pk := None)) = nameAt v"
  by (simp add: nameAt_def fun_eq_iff)

definition may_release :: "keyring \<Rightarrow> proof_input \<Rightarrow> int \<Rightarrow> kv_view \<Rightarrow> bool" where
  "may_release ring inp now v \<longleftrightarrow> (let n = normalizeHandle (pname inp) in
     validateHandleShape n = None \<and> holds v n (ppubkey inp) \<and> proof_ok ring ReleaseName (inp\<lparr>pname := n\<rparr>) now v)"

definition release_post :: "keyring \<Rightarrow> proof_input \<Rightarrow> int \<Rightarrow> kv_view \<Rightarrow> rejection + string \<Rightarrow> kv_view \<Rightarrow> bool" where
  "release_post ring inp now v a u \<longleftrightarrow> (let n = normalizeHandle (pname inp) in
     if may_release ring inp now v then a = Inr n \<and> nameAt u = (nameAt v)(n := map_option (released_rec now) (nameAt v n))
     else (\<exists>x. a = Inl x) \<and> nameAt u = nameAt v)"

context redis_commands
begin

text \<open>The four writes of a release.\<close>

lemma tombstone_kv:
  assumes "shelf_ok wf w" "registry_ok ring (view (clock w) (kvs w))" "plain_keys ring" "0 \<le> clock w"
    and "nameAt (view (clock w) (kvs w)) n = Some x" "\<not> isReleased x"
  shows "\<exists>w' u. proceed (kvSet srv (nameKey n) (showHandle (released_rec (clock w) x)) (Some RELEASE_COOLDOWN_SEC) (m, w)) (\<lambda>_ s3.
      proceed (kvSet srv (skelKey (skeleton n)) n (Some RELEASE_COOLDOWN_SEC) s3) (\<lambda>_ s4.
      proceed (kvRemove srv (ofKey (holder x)) s4) (\<lambda>_ s5.
      proceed (kvRemove srv (ofKeyLegacy (onNet x) (holder x)) s5) (\<lambda>_ s6. (Inr (Inr n), s6))))) = (Inr (Inr n :: rejection + string), m, w') \<and>
    became view wf w u w' \<and> registry_ok ring u \<and> nameAt u = (nameAt (view (clock w) (kvs w)))(n \<mapsto> released_rec (clock w) x)"
proof -
  let ?v = "view (clock w) (kvs w)" and ?x = "released_rec (clock w) x"
  define e where "e = endAt (clock w) (Some RELEASE_COOLDOWN_SEC)"
  have x: "releasedUntil ?x = e" "holder ?x = holder x" "e \<noteq> None" "e \<noteq> Some 0"
    using assms(4) memory_pos(2) unfolding released_rec_def e_def endAt_def by (simp_all, linarith)
  obtain w1 where w1: "kvSet srv (nameKey n) (showHandle ?x) (Some RELEASE_COOLDOWN_SEC) (m, w) = (Inr (), m, w1)"
      "became view wf w (?v(nameKey n \<mapsto> (VStr (showHandle ?x), e))) w1"
    using kvSet_kv [OF assms(1), of "Some RELEASE_COOLDOWN_SEC" "nameKey n" "showHandle ?x" m] by (auto simp: e_def)
  note b1 = becameD [OF w1(2)]
  have e1: "endAt (clock w1) (Some RELEASE_COOLDOWN_SEC) = e" by (simp add: b1(2) e_def)
  obtain w2 where w2: "kvSet srv (skelKey (skeleton n)) n (Some RELEASE_COOLDOWN_SEC) (m, w1) = (Inr (), m, w2)"
      "became view wf w1 (?v(nameKey n \<mapsto> (VStr (showHandle ?x), e), skelKey (skeleton n) \<mapsto> (VStr n, e))) w2"
    using kvSet_kv [OF b1(1), of "Some RELEASE_COOLDOWN_SEC" "skelKey (skeleton n)" n m] unfolding b1(4) e1 by auto
  note b2 = becameD [OF w2(2)]
  obtain w3 where w3: "kvRemove srv (ofKey (holder x)) (m, w2) = (Inr (), m, w3)" "became view wf w2 (with_name n ?x ?v) w3"
    using kvRemove_kv [OF b2(1), of "ofKey (holder x)" m] unfolding b2(4) by (auto simp: with_name_def x fun_upd_twist)
  note b3 = becameD [OF w3(2)]
  obtain w4 where w4: "kvRemove srv (ofKeyLegacy (onNet x) (holder x)) (m, w3) = (Inr (), m, w4)"
      "became view wf w3 ((with_name n ?x ?v)(ofKeyLegacy (onNet x) (holder x) := None)) w4"
    using kvRemove_kv [OF b3(1), of "ofKeyLegacy (onNet x) (holder x)" m] unfolding b3(4) by auto
  have "registry_ok ring (with_name n ?x ?v)"
    by (rule held_with_name [OF assms(2,3,5,6)]) (simp_all add: x)
  then have "registry_ok ring ((with_name n ?x ?v)(ofKeyLegacy (onNet x) (holder x) := None))" by (rule registry_drop_legacy [OF _ assms(3)])
  moreover have "became view wf w ((with_name n ?x ?v)(ofKeyLegacy (onNet x) (holder x) := None)) w4"
    using became_trans [OF became_trans [OF became_trans [OF w4(2) w3(2)] w2(2)] w1(2)] .
  moreover have "nameAt ((with_name n ?x ?v)(ofKeyLegacy (onNet x) (holder x) := None)) = (nameAt ?v)(n \<mapsto> ?x)"
    by (simp add: nameAt_drop_legacy nameAt_with_name)
  ultimately show ?thesis using w1(1) w2(1) w3(1) w4(1) by auto
qed

lemma release_kv:
  assumes "shelf_ok wf w" "registry_ok ring (view (clock w) (kvs w))" "plain_keys ring" "0 \<le> clock w"
  shows "\<exists>a w' u. releaseHandle srv ring inp (m, w) = (Inr a, m, w') \<and> became view wf w u w' \<and> registry_ok ring u \<and>
    release_post ring inp (clock w) (view (clock w) (kvs w)) a u"
proof -
  let ?v = "view (clock w) (kvs w)"
  define n where "n = normalizeHandle (pname inp)"
  obtain w1 where w1: "readRecord srv n (m, w) = (Inr (nameAt ?v n), m, w1)" "became view wf w ?v w1"
    using readRecord_kv [OF assms(1,2)] by blast
  note b1 = becameD [OF w1(2)]
  show ?thesis
  proof (cases "validateHandleShape n = None \<and> holds ?v n (ppubkey inp)")
    case False
    then have "\<exists>x w'. releaseHandle srv ring inp (m, w) = (Inr (Inl x), m, w') \<and> became view wf w ?v w'"
      using w1 became_refl [OF assms(1)]
      by (cases "validateHandleShape n"; cases "nameAt ?v n") (auto simp: releaseHandle_def n_def [symmetric] Let_def holds_def)
    moreover have "release_post ring inp (clock w) ?v (Inl x) ?v" for x
      using False by (auto simp: release_post_def may_release_def n_def [symmetric] Let_def)
    ultimately show ?thesis using assms(2) by blast
  next
    case True
    then obtain x where x: "nameAt ?v n = Some x" "\<not> isReleased x" "holder x = ppubkey inp" by (auto simp: holds_def split: option.splits)
    obtain r w2 u2 where p: "verifyHandleProof srv ring ReleaseName (inp\<lparr>pname := n\<rparr>) (m, w1) = (Inr r, m, w2)" "became view wf w1 u2 w2"
        "same_names ?v u2" "r = None \<longleftrightarrow> proof_ok ring ReleaseName (inp\<lparr>pname := n\<rparr>) (clock w) ?v"
      using verify_proof_kv [OF b1(1), of ring ReleaseName "inp\<lparr>pname := n\<rparr>" m] unfolding b1(4) unfolding b1(2) by blast
    note b2 = becameD [OF p(2)]
    have r2: "registry_ok ring u2" using registry_same [OF p(3) assms(2)] .
    have w02: "became view wf w u2 w2" using became_trans [OF p(2) w1(2)] .
    have may: "may_release ring inp (clock w) ?v \<longleftrightarrow> r = None"
      using True p(4) by (simp add: may_release_def n_def [symmetric])
    show ?thesis
    proof (cases r)
      case (Some y)
      then have "releaseHandle srv ring inp (m, w) = (Inr (Inl y), m, w2)"
        using True w1(1) x p(1) by (simp add: releaseHandle_def n_def [symmetric])
      moreover have "release_post ring inp (clock w) ?v (Inl y) u2"
        using may Some nameAt_same [OF p(3)] by (simp add: release_post_def)
      ultimately show ?thesis using w02 r2 by blast
    next
      case None
      have now: "clock w2 = clock w" using b2(2) b1(2) by simp
      have n2: "nameAt u2 n = Some x" using x(1) nameAt_same [OF p(3)] by simp
      obtain w3 u where t: "proceed (kvSet srv (nameKey n) (showHandle (released_rec (clock w) x)) (Some RELEASE_COOLDOWN_SEC) (m, w2)) (\<lambda>_ s3.
            proceed (kvSet srv (skelKey (skeleton n)) n (Some RELEASE_COOLDOWN_SEC) s3) (\<lambda>_ s4.
            proceed (kvRemove srv (ofKey (holder x)) s4) (\<lambda>_ s5.
            proceed (kvRemove srv (ofKeyLegacy (onNet x) (holder x)) s5) (\<lambda>_ s6. (Inr (Inr n), s6))))) = (Inr (Inr n :: rejection + string), m, w3)"
          "became view wf w2 u w3" "registry_ok ring u" "nameAt u = (nameAt u2)(n \<mapsto> released_rec (clock w) x)"
        using tombstone_kv [OF b2(1), of ring n x m] unfolding b2(4) unfolding now using r2 assms(3,4) n2 x(2) by blast
      have "releaseHandle srv ring inp (m, w) = (Inr (Inr n), m, w3)"
        using True w1(1) x p(1) None t(1) now by (simp add: releaseHandle_def n_def [symmetric] released_rec_def)
      moreover have "release_post ring inp (clock w) ?v (Inr n) u"
        using may None t(4) nameAt_same [OF p(3)] x(1) by (simp add: release_post_def n_def [symmetric])
      ultimately show ?thesis using became_trans [OF t(2) w02] t(3) by blast
    qed
  qed
qed

end

subsection \<open>Many operations\<close>

datatype handle_op = HClaim proof_input | HRelease proof_input | HWhois string | HLookup string | HCheck string | HFederate string string string | HWait int

fun handle_do :: "'k server \<Rightarrow> keyring \<Rightarrow> handle_op \<Rightarrow> 'k shelf \<Rightarrow> 'k shelf" where
  "handle_do srv ring (HClaim inp) s = snd (claimHandle srv ring inp s)"
| "handle_do srv ring (HRelease inp) s = snd (releaseHandle srv ring inp s)"
| "handle_do srv ring (HWhois pk) s = snd (handleOf srv ring pk s)"
| "handle_do srv ring (HLookup n) s = snd (lookupHandle srv n s)"
| "handle_do srv ring (HCheck n) s = snd (handleAvailability srv n s)"
| "handle_do srv ring (HFederate q kind net) s = snd (federationLookup srv ring q kind net s)"
| "handle_do srv ring (HWait ms) s = (case s of (m, w) \<Rightarrow> (m, w\<lparr>clock := clock w + max 0 ms\<rparr>))"

definition registry_world :: "(int \<Rightarrow> 'k \<Rightarrow> kv_view) \<Rightarrow> ('k \<Rightarrow> bool) \<Rightarrow> keyring \<Rightarrow> 'k world \<Rightarrow> bool" where
  "registry_world view ok ring w \<longleftrightarrow> shelf_ok ok w \<and> 0 \<le> clock w \<and> registry_ok ring (view (clock w) (kvs w))"

lemma registry_world_became:
  "registry_world view ok ring w \<Longrightarrow> became view ok w u w' \<Longrightarrow> registry_ok ring u \<Longrightarrow> registry_world view ok ring w'"
  by (simp add: registry_world_def became_def)

context redis_commands
begin

lemma lookup_kv:
  assumes "shelf_ok wf w" "registry_ok ring (view (clock w) (kvs w))"
  shows "\<exists>r w'. lookupHandle srv n (m, w) = (Inr r, m, w') \<and> became view wf w (view (clock w) (kvs w)) w'"
  using readRecord_kv [OF assms, of "normalizeHandle n" m] became_refl [OF assms(1)]
  by (cases "validateHandleShape (normalizeHandle n)") (auto simp: lookupHandle_def Let_def)

lemma whois_kv:
  assumes "shelf_ok wf w" "registry_ok ring (view (clock w) (kvs w))"
  shows "\<exists>r w'. handleOf srv ring pk (m, w) = (Inr r, m, w') \<and> became view wf w (view (clock w) (kvs w)) w'"
  using handleOf_kv [OF assms, of pk m] became_refl [OF assms(1)]
  by (cases "accountKey ring pk") (auto simp: handleOf_def)

lemma check_kv:
  assumes "shelf_ok wf w" "registry_ok ring (view (clock w) (kvs w))"
  shows "\<exists>r w'. handleAvailability srv n (m, w) = (Inr r, m, w') \<and> became view wf w (view (clock w) (kvs w)) w'"
proof -
  let ?v = "view (clock w) (kvs w)" and ?n = "normalizeHandle n"
  obtain w1 where w1: "readRecord srv ?n (m, w) = (Inr (nameAt ?v ?n), m, w1)" "became view wf w ?v w1"
    using readRecord_kv [OF assms] by blast
  note b1 = becameD [OF w1(2)]
  obtain w2 where w2: "kvGet srv (skelKey (skeleton ?n)) (m, w1) = (Inr (cell_str (?v (skelKey (skeleton ?n)))), m, w2)" "became view wf w1 ?v w2"
    using kvGet_kv [OF b1(1), of "skelKey (skeleton ?n)" m] unfolding b1(4) using registry_strish(2) [OF assms(2)] by blast
  show ?thesis
    using w1 w2(1) became_trans [OF w2(2) w1(2)] became_refl [OF assms(1)]
    by (cases "validateHandleShape ?n") (auto simp: handleAvailability_def Let_def split: option.splits)
qed

lemma federate_kv:
  assumes "shelf_ok wf w" "registry_ok ring (view (clock w) (kvs w))"
  shows "\<exists>r w'. federationLookup srv ring q kind net (m, w) = (Inr r, m, w') \<and> became view wf w (view (clock w) (kvs w)) w'"
proof -
  let ?v = "view (clock w) (kvs w)"
  have look: "\<exists>r w'. lookupHandle srv n (m, w1) = (Inr r, m, w') \<and> became view wf w ?v w'" if "became view wf w ?v w1" for n w1
    using lookup_kv [OF becameD(1) [OF that], of ring n m] unfolding becameD(4) [OF that] using assms(2) became_trans [OF _ that] by blast
  obtain r1 w1 where w1: "handleOf srv ring q (m, w) = (Inr r1, m, w1)" "became view wf w ?v w1" using whois_kv [OF assms] by blast
  consider (byname) x d rest where "kind = ''name''" "split_on (CHR ''*'') q = x # d # rest" | (short) "kind = ''name''" "length (split_on (CHR ''*'') q) < 2"
    | (byid) "kind = ''id''" | (other) "kind \<noteq> ''name''" "kind \<noteq> ''id''"
    by (cases "split_on (CHR ''*'') q"; cases "tl (split_on (CHR ''*'') q)") fastforce+
  then show ?thesis
  proof cases
    case byname
    obtain r2 w2 where "lookupHandle srv x (m, w) = (Inr r2, m, w2)" "became view wf w ?v w2" using look [OF became_refl [OF assms(1)]] by blast
    then show ?thesis using byname became_refl [OF assms(1)] by (cases r2) (auto simp: federationLookup_def Let_def)
  next
    case short
    then have "federationLookup srv ring q kind net (m, w) = (Inr (Inl BadFedAddress), m, w)"
      by (cases "split_on (CHR ''*'') q"; cases "tl (split_on (CHR ''*'') q)") (auto simp: federationLookup_def Let_def)
    then show ?thesis using became_refl [OF assms(1)] by blast
  next
    case byid
    obtain r2 w2 where "lookupHandle srv (the (nonEmpty r1)) (m, w1) = (Inr r2, m, w2)" "became view wf w ?v w2" using look [OF w1(2)] by blast
    then show ?thesis using byid w1 by (cases r2; cases "nonEmpty r1") (auto simp: federationLookup_def Let_def)
  next
    case other
    then show ?thesis using became_refl [OF assms(1)] by (auto simp: federationLookup_def)
  qed
qed

lemma handle_do_ok:
  assumes "registry_world view wf ring w" "plain_keys ring"
  shows "\<exists>w'. handle_do srv ring op (m, w) = (m, w') \<and> registry_world view wf ring w'"
proof -
  have w: "shelf_ok wf w" "0 \<le> clock w" "registry_ok ring (view (clock w) (kvs w))" using assms(1) by (simp_all add: registry_world_def)
  note world = registry_world_became [OF assms(1)]
  show ?thesis
  proof (cases op)
    case (HClaim inp)
    show ?thesis using claim_kv [OF w(1,3) assms(2), of inp m] world by (auto simp: HClaim)
  next
    case (HRelease inp)
    show ?thesis using release_kv [OF w(1,3) assms(2) w(2), of inp m] world by (auto simp: HRelease)
  next
    case (HWait ms)
    have "shelf_ok wf (w\<lparr>clock := clock w + max 0 ms\<rparr>)" using w(1) by (simp add: shelf_ok_def online_def kvConfigured_def)
    moreover have "view (clock w + max 0 ms) (kvs w) = (\<lambda>k. lapse (clock w + max 0 ms) (view (clock w) (kvs w) k))"
      using view_lapse [of "kvs w" "clock w" "clock w + max 0 ms"] w(1) by (auto simp: shelf_ok_def)
    ultimately show ?thesis using registry_lapse [OF w(3)] w(2) by (simp add: HWait registry_world_def)
  next
    case (HWhois pk)
    show ?thesis using whois_kv [OF w(1,3), of pk m] world w(3) by (auto simp: HWhois)
  next
    case (HLookup n)
    show ?thesis using lookup_kv [OF w(1,3), of n m] world w(3) by (auto simp: HLookup)
  next
    case (HCheck n)
    show ?thesis using check_kv [OF w(1,3), of n m] world w(3) by (auto simp: HCheck)
  next
    case (HFederate q kind net)
    show ?thesis using federate_kv [OF w(1,3), of q kind net m] world w(3) by (auto simp: HFederate)
  qed
qed

lemma handle_run_ok:
  assumes "registry_world view wf ring w" "plain_keys ring"
  shows "\<exists>w'. fold (handle_do srv ring) ops (m, w) = (m, w') \<and> registry_world view wf ring w'"
  using assms(1)
proof (induction ops arbitrary: w)
  case (Cons op ops)
  obtain w1 where "handle_do srv ring op (m, w) = (m, w1)" "registry_world view wf ring w1" using handle_do_ok [OF Cons.prems assms(2)] by blast
  then show ?case using Cons.IH [of w1] by simp
qed auto

end

text \<open>C28: a claim succeeds exactly when the name has the right shape and is not reserved, the account's signature over it
  is fresh and unused, and either the account already holds the name or nobody has it (held or cooling down), no other
  name reserves its skeleton and the account holds none; it then changes that one record, and a refused claim none.\<close>

theorem claim_succeeds_iff:
  fixes w :: "kv world"
  assumes "shelf_ok kv_wf w" "registry_ok ring (cell (clock w) (kvs w))" "plain_keys ring" "claimHandle runOne ring inp (m, w) = (Inr a, m', w')"
  shows "claim_post ring inp (clock w) (cell (clock w) (kvs w)) a (cell (clock w) (kvs w'))"
  using fakec.claim_kv [OF assms(1-3), of inp m] assms(4) by (auto simp: became_def)


text \<open>C29: a signed request is honoured once: while nobody else writes its memory, the same proof presented again, at any
  later instant, is refused (the memory outlives the five minutes either way a timestamp is accepted for).\<close>

theorem proof_honoured_once:
  fixes w w2 :: "kv world"
  assumes "shelf_ok kv_wf w" "verifyHandleProof runOne ring a inp (m, w) = (Inr None, m', w')"
    and "shelf_ok kv_wf w2" "clock w \<le> clock w2"
    and "cell (clock w2) (kvs w2) (proofKey (digest ring (proof_message a inp))) =
      lapse (clock w2) (cell (clock w) (kvs w') (proofKey (digest ring (proof_message a inp))))"
  shows "\<exists>rej. fst (verifyHandleProof runOne ring a inp (m2, w2)) = Inr (Some rej)"
proof -
  let ?k = "proofKey (digest ring (proof_message a inp))"
  obtain w1 u where 1: "w' = w1" "became cell kv_wf w u w1" "proof_ok ring a inp (clock w) (cell (clock w) (kvs w))"
      "u ?k = Some (VStr ''1'', endAt (clock w) (Some PROOF_MEMORY_SEC))"
    using fakec.verify_proof_kv [OF assms(1), of ring a inp m] assms(2) by auto
  obtain x where x: "pts inp = Some x" "\<bar>clock w div 1000 - x\<bar> \<le> PROOF_SKEW_SEC"
    using 1(3) by (auto simp: proof_ok_def split: option.splits)
  have mem: "cell (clock w2) (kvs w2) ?k = lapse (clock w2) (Some (VStr ''1'', Some (clock w + PROOF_MEMORY_SEC * 1000)))"
    using assms(5) 1(1,2,4) by (simp add: became_def endAt_def)
  have "\<not> proof_ok ring a inp (clock w2) (cell (clock w2) (kvs w2))"
  proof
    assume p: "proof_ok ring a inp (clock w2) (cell (clock w2) (kvs w2))"
    then have "\<bar>clock w2 div 1000 - x\<bar> \<le> PROOF_SKEW_SEC" using x(1) by (simp add: proof_ok_def)
    then have "clock w2 < clock w + PROOF_MEMORY_SEC * 1000" using x(2) by (simp add: PROOF_SKEW_SEC_def PROOF_MEMORY_SEC_def)
    then have "cell (clock w2) (kvs w2) ?k \<noteq> None" using mem by simp
    then show False using p by (simp add: proof_ok_def)
  qed
  then show ?thesis using fakec.verify_proof_kv [OF assms(3), of ring a inp m2] by auto
qed

subsection \<open>What the code lets happen\<close>

text \<open>Two claims of one name at once: the one that took the skeleton first and lost the name deletes the skeleton
  on its way out, and the winner holds a name whose lookalikes are free.\<close>

lemma lost_race_frees_skeleton:
  fixes w :: "kv world"
  assumes "shelf_ok kv_wf w" "registry_ok ring (cell (clock w) (kvs w))" "nameAt (cell (clock w) (kvs w)) n = Some x"
  shows "\<exists>w'. takeName runOne inp n None True (m, w) = (Inr (NotClaimed Taken), m, w') \<and>
    nameAt (cell (clock w) (kvs w')) n = Some x \<and> cell (clock w) (kvs w') (skelKey (skeleton n)) = None"
proof -
  let ?v = "cell (clock w) (kvs w)"
  define r where "r = showHandle \<lparr>holder = ppubkey inp, onNet = pnet inp, createdAt = clock w, releasedUntil = None\<rparr>"
  obtain w1 where w1: "kvSetNx runOne (nameKey n) r None (m, w) = (Inr False, m, w1)" "became cell kv_wf w ?v w1"
    using fakec.kvSetNx_kv [OF assms(1), of None "nameKey n" r m] nameAt_some_keys(1) [OF assms(2,3)] by auto
  note b1 = becameD [OF w1(2)]
  obtain w2 where w2: "kvRemove runOne (skelKey (skeleton n)) (m, w1) = (Inr (), m, w2)" "became cell kv_wf w1 (?v(skelKey (skeleton n) := None)) w2"
    using fakec.kvRemove_kv [OF b1(1), of "skelKey (skeleton n)" m] unfolding b1(4) by blast
  have "cell (clock w) (kvs w2) = ?v(skelKey (skeleton n) := None)" using becameD(2,4) [OF w2(2)] b1(2) by simp
  moreover have "takeName runOne inp n None True (m, w) = (Inr (NotClaimed Taken), m, w2)"
    using w1(1) w2(1) by (simp add: takeName_def r_def Let_def)
  ultimately show ?thesis using assms(3) by (intro exI [of _ w2]) (simp add: nameAt_def)
qed

subsection \<open>One claim, carried out\<close>

text \<open>Two accounts; a signature is the account before the message.\<close>

definition demo_ring :: keyring where
  "demo_ring = \<lparr>accountKey = (\<lambda>pk. pk \<in> {''GA'', ''GB''}), signedBy = (\<lambda>pk msg sig. sig = pk @ msg), digest = (\<lambda>s. s)\<rparr>"

definition demo_claim :: proof_input where
  "demo_claim = \<lparr>pname = ''meric'', ppubkey = ''GA'', pts = Some 0, pnonce = ''0123456789abcdef'', pnet = ''testnet'',
     psig = ''GA'' @ handleProofMessage ClaimName ''meric'' ''GA'' 0 ''0123456789abcdef'' ''testnet''\<rparr>"

lemma registry_empty [simp]: "registry_ok ring (\<lambda>_. None)"
  by (simp add: registry_ok_def no_legacy_def)

lemma demo_world: "registry_world cell kv_wf ring (quiet_world kv_env 0)" "shelf_ok kv_wf (quiet_world kv_env 0)"
  by (simp_all add: registry_world_def shelf_ok_def)

lemma demo_plain: "plain_keys demo_ring"
  by (auto simp: plain_keys_def demo_ring_def)

lemma demo_name: "normalizeHandle ''meric'' = ''meric''" "validateHandleShape ''meric'' = None" "nonceShape ''0123456789abcdef''"
  "skeleton ''rneric'' = skeleton ''meric''"
  by code_simp+

lemma demo_proof: "proof_ok demo_ring ClaimName demo_claim 0 (\<lambda>_. None)"
  using demo_name(3) by (simp add: proof_ok_def proof_message_def demo_ring_def demo_claim_def PROOF_SKEW_SEC_def)

lemma demo_may_claim: "may_claim demo_ring demo_claim 0 (\<lambda>_. None)"
proof -
  have e: "demo_claim\<lparr>pname := ''meric''\<rparr> = demo_claim" by (simp add: demo_claim_def)
  have n: "pname demo_claim = ''meric''" by (simp add: demo_claim_def)
  have "proof_ok demo_ring ClaimName (demo_claim\<lparr>pname := ''meric''\<rparr>) 0 (\<lambda>_. None)" unfolding e by (rule demo_proof)
  then show ?thesis using demo_name(1,2) by (simp add: may_claim_def Let_def n free_for_def holds_def nameAt_def)
qed

theorem claim_succeeds_iff_witness:
  "fst (claimHandle runOne demo_ring demo_claim ([], quiet_world kv_env 0)) = Inr (Claimed ''meric'' ''GA'' ''testnet'')"
proof -
  obtain a w' where c: "claimHandle runOne demo_ring demo_claim ([], quiet_world kv_env 0) = (Inr a, [], w')"
    using fakec.claim_kv [OF demo_world(2) _ demo_plain, of demo_claim "[]"] by auto
  have "claim_post demo_ring demo_claim 0 (\<lambda>_. None) a (cell 0 (kvs w'))"
    using claim_succeeds_iff [OF demo_world(2) _ demo_plain c] by simp
  then show ?thesis using c demo_may_claim demo_name(1) by (simp add: claim_post_def Let_def) (simp add: demo_claim_def)
qed


theorem proof_honoured_once_witness:
  "let s = ([], quiet_world kv_env 0); r = verifyHandleProof runOne demo_ring ClaimName demo_claim s in
   fst r = Inr None \<and> (\<exists>rej. fst (verifyHandleProof runOne demo_ring ClaimName demo_claim (snd r)) = Inr (Some rej))"
proof -
  obtain w' u where p: "verifyHandleProof runOne demo_ring ClaimName demo_claim ([], quiet_world kv_env 0) = (Inr None, [], w')"
      "became cell kv_wf (quiet_world kv_env 0) u w'"
    using fakec.verify_proof_kv [OF demo_world(2), of demo_ring ClaimName demo_claim "[]"] demo_proof by auto
  note b = becameD [OF p(2)]
  have "cell (clock w') (kvs w') k = lapse (clock w') (cell (clock (quiet_world kv_env 0)) (kvs w') k)" for k
    using b(1,2) fake.view_lapse [of "kvs w'" 0 0 k] by (simp add: shelf_ok_def)
  from proof_honoured_once [OF demo_world(2) p(1) b(1) _ this] show ?thesis using p(1) b(2) by simp
qed

end
