(* ===== verification/CreateAccount.thy ===== *)
theory CreateAccount
  imports SponsorRoutes Channels
begin

text \<open>
  apps/sponsor/src/lib/create-account.ts: the sponsored account of a new recipient.  The service builds the
  sandwich itself, on a leased channel's sequence when the pool lends one and on its own otherwise, and hands it out
  signed.  What Horizon answers to the three account loads, what the signer throws, and the SDK's key check and
  fee are the record \<open>ca_outside\<close>.  The pool is the one over the shared store (\<open>Channels\<close>), so leases, counters
  and charges live in one world.
\<close>

subsection \<open>The sandwich\<close>

text \<open>Horizon's answer to \<open>loadAccount\<close>: the account, or an error with the HTTP status it carries and its message.\<close>

datatype load_answer = AccountLoaded | LoadFailed "int option" string

record 'a ca_outside =
  keyOk :: "string \<Rightarrow> bool"
  sdkFee :: "'a transaction \<Rightarrow> string"
  recipientLoad :: load_answer
  channelLoad :: load_answer
  sponsorLoad :: load_answer
  channelSignThrows :: "string option"
  sponsorSignThrows :: "string option"

record 'a sandwich =
  sandwichTx :: "'a transaction"
  sandwichTimeout :: int

datatype ca_via = ViaChannel | ViaSponsor

datatype ca_error =
    InvalidRecipient string | RecipientIsSponsor | ExistsUnknown string string | LoadError string
  | FeeDaySpent | FeeUnreadable fee_error | SignerFailed string

text \<open>What is handed out: the path, whether the account existed (the mode), and the signed sandwich.\<close>

datatype 'a ca_answer = Handed ca_via bool "'a sandwich" | NotHanded ca_error

datatype 'a ca_act = ChannelSigns string "'a transaction" | SponsorSigns "'a transaction"

definition SPONSOR_TX_TIMEOUT :: int where
  "SPONSOR_TX_TIMEOUT = 180"

definition assembleSandwich :: "string \<Rightarrow> 'a sponsor_config \<Rightarrow> string \<Rightarrow> string \<Rightarrow> int \<Rightarrow> bool \<Rightarrow> 'a sandwich" where
  "assembleSandwich source cfg sponsorPublicKey recipient timeoutSeconds trustlineOnly =
    \<lparr>sandwichTx = \<lparr>txSource = source, operations =
       [(blank ''beginSponsoringFutureReserves'' sponsorPublicKey)\<lparr>opSponsoredId := Some recipient\<rparr>] @
       (if trustlineOnly then []
        else [(blank ''createAccount'' sponsorPublicKey)\<lparr>opDestination := Some recipient, opStartingBalance := Some ''0''\<rparr>]) @
       [(blank ''changeTrust'' recipient)\<lparr>opLine := Some (usdcAsset cfg)\<rparr>,
        blank ''endSponsoringFutureReserves'' recipient]\<rparr>,
     sandwichTimeout = timeoutSeconds\<rparr>"

definition assertValidRecipient :: "'a ca_outside \<Rightarrow> string \<Rightarrow> ca_error option" where
  "assertValidRecipient out pub = (if keyOk out pub then None else Some (InvalidRecipient pub))"

definition accountExists :: "'a ca_outside \<Rightarrow> string \<Rightarrow> ca_error + bool" where
  "accountExists out pub = (case recipientLoad out of
       AccountLoaded \<Rightarrow> Inr True
     | LoadFailed status msg \<Rightarrow> if status = Some 404 then Inr False else Inl (ExistsUnknown (take 6 pub) msg))"

definition buildCreateAccountSandwich :: "'a ca_outside \<Rightarrow> 'a sponsor_config \<Rightarrow> string \<Rightarrow> string \<Rightarrow> bool \<Rightarrow> ca_error + 'a sandwich" where
  "buildCreateAccountSandwich out cfg sponsorPublicKey recipient trustlineOnly =
    (case assertValidRecipient out recipient of
       Some e \<Rightarrow> Inl e
     | None \<Rightarrow> if recipient = sponsorPublicKey then Inl RecipientIsSponsor
         else (case sponsorLoad out of
             LoadFailed status msg \<Rightarrow> Inl (LoadError msg)
           | AccountLoaded \<Rightarrow> Inr (assembleSandwich sponsorPublicKey cfg sponsorPublicKey recipient SPONSOR_TX_TIMEOUT trustlineOnly)))"

subsection \<open>The two paths\<close>

definition bidOf :: "'a ca_outside \<Rightarrow> 'a sandwich \<Rightarrow> fee_bid" where
  "bidOf out sw = TextBid (sdkFee out (sandwichTx sw))"

text \<open>The sponsor's own path: charge, sign, and the bid back only when the signer gave nothing.\<close>

definition sponsorPath :: "'k server \<Rightarrow> 'a ca_outside \<Rightarrow> 'a sponsor_config \<Rightarrow> int \<Rightarrow> string \<Rightarrow> bool \<Rightarrow> fee_local \<times> 'k world \<Rightarrow>
    ('a ca_answer \<times> 'a ca_act list) \<times> fee_local \<times> 'k world" where
  "sponsorPath srv out cfg now recipient existing st =
    (case buildCreateAccountSandwich out cfg (sponsorAccountId cfg) recipient existing of
       Inl e \<Rightarrow> ((NotHanded e, []), st)
     | Inr sw \<Rightarrow> (case chargeSponsorFee srv (bidOf out sw) (maxDayFee cfg) now st of
           (BadBid e, st1) \<Rightarrow> ((NotHanded (FeeUnreadable e), []), st1)
         | (BudgetSpent, st1) \<Rightarrow> ((NotHanded FeeDaySpent, []), st1)
         | (Charged c, st1) \<Rightarrow> (case signCharged srv c (sponsorSignThrows out) st1 of
               (Some e, c1, st2) \<Rightarrow> ((NotHanded (SignerFailed e), []), st2)
             | (None, c1, st2) \<Rightarrow> ((Handed ViaSponsor existing sw, [SponsorSigns (sandwichTx sw)]), st2))))"

text \<open>
  The channel's path up to its \<open>catch\<close>: the sandwich it hands out, a public refusal it rethrows, or any other
  failure, which falls back.  On both failures the bid is given back first and the lease after it.
\<close>

datatype 'a channel_end = ChannelHanded "'a sandwich" | ChannelRefused | ChannelFailed string

definition channelPath :: "'k server \<Rightarrow> 'k world manager \<Rightarrow> 'a ca_outside \<Rightarrow> 'a sponsor_config \<Rightarrow> int \<Rightarrow> string \<Rightarrow> bool \<Rightarrow>
    string \<Rightarrow> lease_result \<Rightarrow> fee_local \<times> 'k world \<Rightarrow> ('a channel_end \<times> 'a ca_act list) \<times> fee_local \<times> 'k world" where
  "channelPath srv m out cfg now recipient existing pub held st = (let back = onWorld (releaseLease m held) in
    case channelLoad out of
      LoadFailed status msg \<Rightarrow> ((ChannelFailed msg, []), back st)
    | AccountLoaded \<Rightarrow> (let sw = assembleSandwich pub cfg (sponsorAccountId cfg) recipient CHANNEL_TX_TIMEOUT_SECONDS existing in
        case chargeSponsorFee srv (bidOf out sw) (maxDayFee cfg) now st of
          (BadBid e, st1) \<Rightarrow> ((ChannelFailed (fee_error_text e), []), back st1)
        | (BudgetSpent, st1) \<Rightarrow> ((ChannelRefused, []), back st1)
        | (Charged c, st1) \<Rightarrow> (case channelSignThrows out of
              Some e \<Rightarrow> ((ChannelFailed e, [ChannelSigns pub (sandwichTx sw)]), back (snd (notIncluded srv c st1)))
            | None \<Rightarrow> ((ChannelHanded sw, [ChannelSigns pub (sandwichTx sw), SponsorSigns (sandwichTx sw)]), st1))))"

definition handOut :: "'k server \<Rightarrow> 'k world manager \<Rightarrow> 'a ca_outside \<Rightarrow> 'a sponsor_config \<Rightarrow> int \<Rightarrow> string \<Rightarrow> bool \<Rightarrow>
    lease_result \<Rightarrow> fee_local \<times> 'k world \<Rightarrow> ('a ca_answer \<times> 'a ca_act list) \<times> fee_local \<times> 'k world" where
  "handOut srv m out cfg now recipient existing held st = (case held of
      NoLease \<Rightarrow> sponsorPath srv out cfg now recipient existing st
    | Leased pub key t \<Rightarrow> (case channelPath srv m out cfg now recipient existing pub held st of
          ((ChannelHanded sw, acts), st1) \<Rightarrow> ((Handed ViaChannel existing sw, acts), st1)
        | ((ChannelRefused, acts), st1) \<Rightarrow> ((NotHanded FeeDaySpent, acts), st1)
        | ((ChannelFailed e, acts), st1) \<Rightarrow> (case sponsorPath srv out cfg now recipient existing st1 of
              ((ans, more_acts), st2) \<Rightarrow> ((ans, acts @ more_acts), st2))))"

definition LEASE_ATTEMPTS :: nat where
  "LEASE_ATTEMPTS = 6"

definition createAccountHandler :: "'k server \<Rightarrow> 'k world manager option \<Rightarrow> (nat \<Rightarrow> string) \<Rightarrow> (nat \<Rightarrow> nat list) \<Rightarrow>
    ('k world \<Rightarrow> 'k world) \<Rightarrow> 'a ca_outside \<Rightarrow> 'a sponsor_config \<Rightarrow> int \<Rightarrow> string \<Rightarrow> fee_local \<times> 'k world \<Rightarrow>
    ('a ca_answer \<times> 'a ca_act list) \<times> fee_local \<times> 'k world" where
  "createAccountHandler srv channels tok orders wait out cfg now recipient st =
    (case assertValidRecipient out recipient of
       Some e \<Rightarrow> ((NotHanded e, []), st)
     | None \<Rightarrow> if recipient = sponsorAccountId cfg \<or> recipient = signerKey cfg then ((NotHanded RecipientIsSponsor, []), st)
         else (case accountExists out recipient of
             Inl e \<Rightarrow> ((NotHanded e, []), st)
           | Inr existing \<Rightarrow> (case channels of
               None \<Rightarrow> sponsorPath srv out cfg now recipient existing st
             | Some m \<Rightarrow> if \<not> enabled m then sponsorPath srv out cfg now recipient existing st
                 else (case lease m tok orders wait LEASE_ATTEMPTS MAX_LEASE_PROBES (snd st) of
                     ((held, probes), w1) \<Rightarrow> handOut srv m out cfg now recipient existing held (fst st, w1)))))"

subsection \<open>What a sandwich can take\<close>

text \<open>The sandwich of one recipient: the sponsor opens that account at zero, unless it exists, and nobody else's money moves.\<close>

lemma assembled [simp]:
  "txSource (sandwichTx (assembleSandwich source cfg spons recipient t existing)) = source"
  "sandwichTimeout (assembleSandwich source cfg spons recipient t existing) = t"
  "length (operations (sandwichTx (assembleSandwich source cfg spons recipient t existing))) = (if existing then 3 else 4)"
  by (simp_all add: assembleSandwich_def)

lemma sandwich_outflows:
  assumes "recipient \<noteq> sponsorAccountId cfg"
  shows "outflows (sandwichTx (assembleSandwich source cfg (sponsorAccountId cfg) recipient t existing)) a =
    (if a = sponsorAccountId cfg \<and> \<not> existing then [OpensAccount (Some recipient) (Some ''0'')] else [])"
  using assms by (auto simp: assembleSandwich_def outflows_def sourceOf_def blank_def takesOut_def)

fun signedTx :: "'a ca_act \<Rightarrow> 'a transaction" where
  "signedTx (ChannelSigns pub tx) = tx"
| "signedTx (SponsorSigns tx) = tx"

text \<open>A sandwich of this recipient, in the mode that was decided for it.\<close>

definition sandwich_for :: "'a sponsor_config \<Rightarrow> string \<Rightarrow> bool \<Rightarrow> 'a transaction \<Rightarrow> bool" where
  "sandwich_for cfg recipient existing tx \<longleftrightarrow>
     (\<exists>source t. tx = sandwichTx (assembleSandwich source cfg (sponsorAccountId cfg) recipient t existing))"

lemma sandwich_forI [simp]:
  "sandwich_for cfg recipient existing (sandwichTx (assembleSandwich source cfg (sponsorAccountId cfg) recipient t existing))"
  by (auto simp: sandwich_for_def)

lemma sponsorPath_acts:
  assumes "sponsorPath srv out cfg now recipient existing st = ((ans, acts), st')"
  shows "\<forall>x\<in>set acts. sandwich_for cfg recipient existing (signedTx x)"
    and "ans = Handed via e sw \<Longrightarrow> via = ViaSponsor \<and> e = existing \<and> sandwichTimeout sw = SPONSOR_TX_TIMEOUT \<and>
      SponsorSigns (sandwichTx sw) \<in> set acts \<and> txSource (sandwichTx sw) = sponsorAccountId cfg"
  using assms
  by (auto simp: sponsorPath_def buildCreateAccountSandwich_def signCharged_def
      split: sum.splits prod.splits charge_result.splits option.splits if_splits load_answer.splits)

lemma channelPath_acts:
  assumes "channelPath srv m out cfg now recipient existing pub held st = ((fin, acts), st')"
  shows "\<forall>x\<in>set acts. sandwich_for cfg recipient existing (signedTx x)"
    and "fin = ChannelHanded sw \<Longrightarrow> SponsorSigns (sandwichTx sw) \<in> set acts \<and> sandwichTimeout sw < CHANNEL_LEASE_TTL_SECONDS"
  using assms channel_invariant
  by (auto simp: channelPath_def Let_def split: load_answer.splits charge_result.splits option.splits prod.splits)

lemma handOut_acts:
  assumes "handOut srv m out cfg now recipient existing held st = ((ans, acts), st')"
  shows "(\<forall>x\<in>set acts. sandwich_for cfg recipient existing (signedTx x)) \<and> (\<forall>via e sw. ans = Handed via e sw \<longrightarrow>
      e = existing \<and> SponsorSigns (sandwichTx sw) \<in> set acts \<and> (via = ViaChannel \<longrightarrow> sandwichTimeout sw < CHANNEL_LEASE_TTL_SECONDS))"
proof (cases held)
  case NoLease
  then have s: "sponsorPath srv out cfg now recipient existing st = ((ans, acts), st')" using assms by (simp add: handOut_def)
  show ?thesis using sponsorPath_acts(1) [OF s] sponsorPath_acts(2) [OF s] by auto
next
  case (Leased pub key t)
  obtain fin acts1 st1 where c: "channelPath srv m out cfg now recipient existing pub held st = ((fin, acts1), st1)" by (metis surj_pair)
  obtain ans2 acts2 st2 where s: "sponsorPath srv out cfg now recipient existing st1 = ((ans2, acts2), st2)" by (metis surj_pair)
  show ?thesis
    using assms Leased c s channelPath_acts(1) [OF c] channelPath_acts(2) [OF c] sponsorPath_acts(1) [OF s] sponsorPath_acts(2) [OF s]
    by (cases fin) (auto simp: handOut_def)
qed

subsection \<open>Charges and leases in one world\<close>

text \<open>The day's two fee counters; a store that answers, whose counters and channel keys are what they should be; and a
  step that moves the net counter by \<open>d\<close> and touches no key but the counters and those of \<open>S\<close>.\<close>

definition day_keys :: "int \<Rightarrow> environ \<Rightarrow> string list" where
  "day_keys now e = [feeDayKey now (network_of e), feeGrossDayKey now (network_of e)]"

definition ready :: "(int \<Rightarrow> 'k \<Rightarrow> string \<Rightarrow> cell option) \<Rightarrow> ('k \<Rightarrow> bool) \<Rightarrow> int \<Rightarrow> 'k world \<Rightarrow> bool" where
  "ready view ok now w \<longleftrightarrow> redisOk view ok w \<and> online w \<and> kvConfigured w \<and> all_counters view w (day_keys now (env w))"

definition moves :: "(int \<Rightarrow> 'k \<Rightarrow> string \<Rightarrow> cell option) \<Rightarrow> ('k \<Rightarrow> bool) \<Rightarrow> int \<Rightarrow> string set \<Rightarrow> int \<Rightarrow> 'k world \<Rightarrow> 'k world \<Rightarrow> bool" where
  "moves view ok now S d w w' \<longleftrightarrow> ready view ok now w' \<and> env w' = env w \<and> clock w' = clock w \<and>
     cnt view w' (feeDayKey now (network_of (env w))) = cnt view w (feeDayKey now (network_of (env w))) + d \<and>
     (\<forall>k. k \<notin> S \<longrightarrow> k \<notin> set (day_keys now (env w)) \<longrightarrow> view (clock w) (kvs w') k = view (clock w) (kvs w) k)"

lemma moves_refl: "ready view ok now w \<Longrightarrow> moves view ok now {} 0 w w"
  by (simp add: moves_def)

lemma moves_trans: "moves view ok now S d w w1 \<Longrightarrow> moves view ok now T e w1 w2 \<Longrightarrow> moves view ok now (S \<union> T) (d + e) w w2"
  by (auto simp: moves_def)

lemma moves_ready: "moves view ok now S d w w' \<Longrightarrow> ready view ok now w' \<and> env w' = env w \<and> clock w' = clock w"
  by (simp add: moves_def)

lemma day_keys_not_chan: "k \<in> set (day_keys now e) \<Longrightarrow> \<not> is_chan k"
  by (auto simp: day_keys_def is_chan_def feeDayKey_def feeGrossDayKey_def)

lemma distinct_day_keys: "distinct (day_keys now e)"
  using fee_keys_distinct(3) by (simp add: day_keys_def)

lemma moves_holds: "moves view ok now S d w w' \<Longrightarrow> k \<notin> S \<Longrightarrow> redisHolds view w' k = redisHolds view w k"
  using day_keys_not_chan [of k now "env w"] by (auto simp: moves_def redisHolds_def)

definition handed :: "'a ca_answer \<Rightarrow> bool" where
  "handed a = (case a of Handed via e sw \<Rightarrow> True | NotHanded e \<Rightarrow> False)"

text \<open>The client holds a channel's sequence: the lease must stay.\<close>

definition lent :: "'a ca_answer \<Rightarrow> bool" where
  "lent a = (case a of Handed via e sw \<Rightarrow> via = ViaChannel | NotHanded e \<Rightarrow> False)"

context redis
begin

lemma add_moves:
  assumes "ready view wf now w" "distinct keys" "set keys \<subseteq> set (day_keys now (env w))"
  shows "\<exists>w'. addToDays srv keys d w = (Inr (map (\<lambda>k. cnt view w k + d) keys), w') \<and>
    moves view wf now {} (if feeDayKey now (network_of (env w)) \<in> set keys then d else 0) w w'"
proof -
  have "all_counters view w keys" using assms(1,3) by (auto simp: ready_def all_counters_def)
  then obtain w' where w': "addToDays srv keys d w = (Inr (map (\<lambda>k. cnt view w k + d) keys), w')"
      "wf (kvs w')" "online w'" "env w' = env w" "clock w' = clock w" "all_counters view w' keys"
      "\<forall>k. cnt view w' k = cnt view w k + (if k \<in> set keys then d else 0)"
      "\<forall>k. k \<notin> set keys \<longrightarrow> view (clock w') (kvs w') k = view (clock w) (kvs w) k"
    using addToDays_counters [of w keys d] assms(1,2) by (auto simp: ready_def redisOk_def)
  have "all_counters view w' (day_keys now (env w))"
    using assms(1) w'(6,8) unfolding ready_def all_counters_def by metis
  moreover have "lease_cell (view (clock w) (kvs w') k)" if "is_chan k" for k
  proof -
    have "k \<notin> set keys" using that assms(3) day_keys_not_chan by blast
    then show ?thesis using w'(5,8) that assms(1) by (simp add: ready_def redisOk_def)
  qed
  moreover have "kvConfigured w'" using assms(1) w'(4) by (simp add: ready_def kvConfigured_def)
  ultimately have "ready view wf now w'" using w' by (simp add: ready_def redisOk_def)
  moreover have "view (clock w) (kvs w') k = view (clock w) (kvs w) k" if "k \<notin> set (day_keys now (env w))" for k
    using w'(5,8) assms(3) that by auto
  ultimately show ?thesis using w' by (auto simp: moves_def)
qed

lemma all_moves:
  assumes "ready view wf now w"
  shows "\<exists>w'. addToDays srv (day_keys now (env w)) d w = (Inr (map (\<lambda>k. cnt view w k + d) (day_keys now (env w))), w') \<and>
    moves view wf now {} d w w'"
proof -
  have "feeDayKey now (network_of (env w)) \<in> set (day_keys now (env w))" by (simp add: day_keys_def)
  then show ?thesis using add_moves [OF assms distinct_day_keys subset_refl, of d] by simp
qed

lemma charge_moves:
  fixes now :: int
  assumes "ready view wf now w" "toStroops b = Inr fee"
  defines "key \<equiv> feeDayKey now (network_of (env w))"
  shows "\<exists>w'. chargeSponsorFee srv b mx now (l, w) =
      (if mx < cnt view w key + fee then BudgetSpent
       else Charged \<lparr>totalStroops = cnt view w key + fee, sharedStore = True, bidStroops = fee, chargeKey = key, stillOpen = True\<rparr>,
       l, w') \<and> moves view wf now {} (if mx < cnt view w key + fee then 0 else fee) w w'"
proof -
  let ?ks = "day_keys now (env w)"
  obtain w1 where w1: "addToDays srv ?ks fee w = (Inr (map (\<lambda>k. cnt view w k + fee) ?ks), w1)" "moves view wf now {} fee w w1"
    using all_moves [OF assms(1)] by blast
  note r1 = moves_ready [OF w1(2)]
  obtain w2 where w2: "addToDays srv ?ks (- fee) w1 = (Inr (map (\<lambda>k. cnt view w1 k + - fee) ?ks), w2)" "moves view wf now {} (- fee) w1 w2"
    using all_moves [of now w1 "- fee"] r1 by metis
  have "moves view wf now {} 0 w w2" using moves_trans [OF w1(2) w2(2)] by simp
  then show ?thesis using w1 w2 assms(1,2)
    by (cases "mx < cnt view w key + fee") (simp_all add: chargeSponsorFee_def countBid_def ready_def day_keys_def key_def Let_def)
qed

lemma notIncluded_moves:
  assumes "ready view wf now w" "stillOpen c" "sharedStore c" "chargeKey c = feeDayKey now (network_of (env w))" "0 \<le> bidStroops c"
  shows "\<exists>c' w'. notIncluded srv c (l, w) = (c', l, w') \<and> moves view wf now {} (- bidStroops c) w w'"
proof (cases "bidStroops c = 0")
  case True
  then show ?thesis using assms(2) moves_refl [OF assms(1)] by (simp add: notIncluded_def feeGiveBack_def)
next
  case False
  obtain w' where "addToDays srv [chargeKey c] (- bidStroops c) w = (Inr (map (\<lambda>k. cnt view w k + - bidStroops c) [chargeKey c]), w')"
      "moves view wf now {} (- bidStroops c) w w'"
    using add_moves [OF assms(1), of "[chargeKey c]" "- bidStroops c"] assms(4) by (auto simp: day_keys_def)
  then show ?thesis using assms(2,3,5) False by (simp add: notIncluded_def feeGiveBack_def addToDay_def)
qed

lemma release_moves:
  assumes "leaseStore m = redisLeaseStore srv" "ready view wf now w" "redisHolds view w (chanKey pub) = Some (t, u)"
  defines "w' \<equiv> releaseLease m (Leased pub (chanKey pub) t) w"
  shows "moves view wf now {chanKey pub} 0 w w'" and "redisHolds view w' (chanKey pub) = None"
proof -
  let ?k = "chanKey pub"
  let ?s = "snd (srv (clock w) [''EVAL'', FENCED_DEL, ''1'', ?k, t] (kvs w))"
  have wfw: "wf (kvs w)" and lc: "lease_cell (view (clock w) (kvs w) ?k)" using assms(2) by (simp_all add: ready_def redisOk_def)
  have hit: "cell_str (view (clock w) (kvs w) ?k) = Some t" using assms(3) lease_of_str [OF lc] by (simp add: redisHolds_def)
  have s: "wf ?s" "view (clock w) ?s = (view (clock w) (kvs w))(?k := None)"
    using fenced_del_view [OF wfw lease_cell_strish [OF lc]] srv_wf [OF wfw] hit by simp_all
  have w': "w' = w\<lparr>kvs := ?s\<rparr>"
    using assms(1,2) by (simp add: w'_def releaseLease_def redisLeaseStore_def redisRelease_def oneCmd_def pipeline_online ready_def
        case_prod_unfold split: reply.splits)
  have nk: "?k \<notin> set (day_keys now (env w))" using day_keys_not_chan is_chan_chanKey by blast
  have "ready view wf now w'"
    using assms(2) s nk unfolding w' ready_def redisOk_def all_counters_def by (auto simp: lease_cell_def)
  then show "moves view wf now {?k} 0 w w'" using s nk by (auto simp: moves_def w' cnt_def day_keys_def)
  show "redisHolds view w' ?k = None" using s by (simp add: redisHolds_def w' lease_of_def)
qed

text \<open>Neither path counts a bid it does not hand out, and neither keeps a lease the client was not given.\<close>

lemma sponsorPath_moves:
  fixes existing :: bool
  assumes "ready view wf now w" and per: "\<And>tx. toStroops (TextBid (sdkFee out tx)) = Inr (per * int (length (operations tx)))"
  defines "bid \<equiv> per * (if existing then 3 else 4)"
  shows "\<exists>ans acts w'. sponsorPath srv out cfg now recipient existing (l, w) = ((ans, acts), l, w') \<and>
    moves view wf now {} (if handed ans then bid else 0) w w' \<and> \<not> lent ans \<and>
    (handed ans \<longrightarrow> cnt view w (feeDayKey now (network_of (env w))) + bid \<le> maxDayFee cfg)"
proof (cases "buildCreateAccountSandwich out cfg (sponsorAccountId cfg) recipient existing")
  case (Inl e)
  then show ?thesis using moves_refl [OF assms(1)] by (simp add: sponsorPath_def handed_def lent_def)
next
  case (Inr sw)
  let ?key = "feeDayKey now (network_of (env w))"
  have "length (operations (sandwichTx sw)) = (if existing then 3 else 4)"
    using Inr by (auto simp: buildCreateAccountSandwich_def assembleSandwich_def split: option.splits if_splits load_answer.splits)
  then have fee: "toStroops (bidOf out sw) = Inr bid" using per by (simp add: bidOf_def bid_def)
  then have "0 \<le> bid" by (rule toStroops_nonneg)
  define c where "c = \<lparr>totalStroops = cnt view w ?key + bid, sharedStore = True, bidStroops = bid, chargeKey = ?key, stillOpen = True\<rparr>"
  obtain w1 where w1: "chargeSponsorFee srv (bidOf out sw) (maxDayFee cfg) now (l, w) =
      (if maxDayFee cfg < cnt view w ?key + bid then BudgetSpent else Charged c, l, w1)"
      "moves view wf now {} (if maxDayFee cfg < cnt view w ?key + bid then 0 else bid) w w1"
    using charge_moves [OF assms(1) fee, of "maxDayFee cfg" l] by (auto simp: c_def)
  show ?thesis
  proof (cases "maxDayFee cfg < cnt view w ?key + bid")
    case True
    then show ?thesis using Inr w1 by (simp add: sponsorPath_def handed_def lent_def)
  next
    case False
    note r1 = moves_ready [OF w1(2)]
    obtain c' w2 where w2: "notIncluded srv c (l, w1) = (c', l, w2)" "moves view wf now {} (- bid) w1 w2"
      using notIncluded_moves [of now w1 c l] r1 \<open>0 \<le> bid\<close> by (auto simp: c_def)
    have "moves view wf now {} 0 w w2" using moves_trans [OF w1(2) w2(2)] False by simp
    then show ?thesis using Inr w1 w2 False
      by (cases "sponsorSignThrows out") (simp_all add: sponsorPath_def signCharged_def handed_def lent_def)
  qed
qed

lemma handOut_moves:
  fixes existing :: bool
  assumes "ready view wf now w" and per: "\<And>tx. toStroops (TextBid (sdkFee out tx)) = Inr (per * int (length (operations tx)))"
    and m: "leaseStore m = redisLeaseStore srv" and held: "redisHolds view w (chanKey pub) = Some (t, u)"
  defines "bid \<equiv> per * (if existing then 3 else 4)"
  shows "\<exists>ans acts w'. handOut srv m out cfg now recipient existing (Leased pub (chanKey pub) t) (l, w) = ((ans, acts), l, w') \<and>
    moves view wf now {chanKey pub} (if handed ans then bid else 0) w w' \<and>
    redisHolds view w' (chanKey pub) = (if lent ans then Some (t, u) else None) \<and>
    (handed ans \<longrightarrow> cnt view w (feeDayKey now (network_of (env w))) + bid \<le> maxDayFee cfg)"
proof -
  let ?key = "feeDayKey now (network_of (env w))" and ?lease = "Leased pub (chanKey pub) t"
  have freed: "moves view wf now {chanKey pub} 0 w (releaseLease m ?lease w1) \<and> redisHolds view (releaseLease m ?lease w1) (chanKey pub) = None"
    if "moves view wf now {} 0 w w1" for w1
    using release_moves [OF m, of now w1 pub t u] moves_ready [OF that] moves_holds [OF that, of "chanKey pub"] held moves_trans [OF that] by auto
  have fall: "\<exists>ans acts' w'. sponsorPath srv out cfg now recipient existing (l, releaseLease m ?lease w1) = ((ans, acts'), l, w') \<and>
      moves view wf now {chanKey pub} (if handed ans then bid else 0) w w' \<and> \<not> lent ans \<and> redisHolds view w' (chanKey pub) = None \<and>
      (handed ans \<longrightarrow> cnt view w ?key + bid \<le> maxDayFee cfg)" if "moves view wf now {} 0 w w1" for w1
  proof -
    note b = freed [OF that]
    define w2 where "w2 = releaseLease m ?lease w1"
    have b2: "moves view wf now {chanKey pub} 0 w w2" "redisHolds view w2 (chanKey pub) = None" using b by (simp_all add: w2_def)
    note r2 = moves_ready [OF b2(1)]
    have net: "cnt view w2 ?key = cnt view w ?key" using b2(1) by (simp add: moves_def)
    obtain ans acts w' where s: "sponsorPath srv out cfg now recipient existing (l, w2) = ((ans, acts), l, w')"
      "moves view wf now {} (if handed ans then bid else 0) w2 w'" "\<not> lent ans"
      "handed ans \<longrightarrow> cnt view w2 ?key + bid \<le> maxDayFee cfg"
      using sponsorPath_moves [of now w2 out per cfg recipient existing l] r2 per unfolding bid_def by metis
    then show ?thesis
      using moves_trans [OF b2(1) s(2)] moves_holds [OF s(2), of "chanKey pub"] b2(2) net by (auto simp: w2_def)
  qed
  show ?thesis
  proof (cases "channelLoad out")
    case (LoadFailed status msg)
    then show ?thesis using fall [OF moves_refl [OF assms(1)]]
      by (auto simp: handOut_def channelPath_def onWorld_def)
  next
    case AccountLoaded
    define sw where "sw = assembleSandwich pub cfg (sponsorAccountId cfg) recipient CHANNEL_TX_TIMEOUT_SECONDS existing"
    have fee: "toStroops (bidOf out sw) = Inr bid" using per by (simp add: bidOf_def bid_def sw_def assembleSandwich_def)
    then have "0 \<le> bid" by (rule toStroops_nonneg)
    define c where "c = \<lparr>totalStroops = cnt view w ?key + bid, sharedStore = True, bidStroops = bid, chargeKey = ?key, stillOpen = True\<rparr>"
    obtain w1 where w1: "chargeSponsorFee srv (bidOf out sw) (maxDayFee cfg) now (l, w) =
        (if maxDayFee cfg < cnt view w ?key + bid then BudgetSpent else Charged c, l, w1)"
        "moves view wf now {} (if maxDayFee cfg < cnt view w ?key + bid then 0 else bid) w w1"
      using charge_moves [OF assms(1) fee, of "maxDayFee cfg" l] by (auto simp: c_def)
    show ?thesis
    proof (cases "maxDayFee cfg < cnt view w ?key + bid")
      case True
      then show ?thesis using AccountLoaded w1 freed [of w1]
        by (simp add: handOut_def channelPath_def sw_def [symmetric] handed_def lent_def onWorld_def)
    next
      case False
      note r1 = moves_ready [OF w1(2)]
      obtain c' w2 where w2: "notIncluded srv c (l, w1) = (c', l, w2)" "moves view wf now {} (- bid) w1 w2"
        using notIncluded_moves [of now w1 c l] r1 \<open>0 \<le> bid\<close> by (auto simp: c_def)
      have z: "moves view wf now {} 0 w w2" using moves_trans [OF w1(2) w2(2)] False by simp
      have kept: "moves view wf now {chanKey pub} bid w w1" "redisHolds view w1 (chanKey pub) = Some (t, u)"
        using w1(2) False moves_holds [OF w1(2), of "chanKey pub"] held by (auto simp: moves_def)
      show ?thesis
      proof (cases "channelSignThrows out")
        case None
        then show ?thesis using AccountLoaded w1(1) False kept
          by (simp add: handOut_def channelPath_def sw_def [symmetric] handed_def lent_def)
      next
        case (Some e)
        then show ?thesis using AccountLoaded w1(1) w2(1) False fall [OF z]
          by (auto simp: handOut_def channelPath_def sw_def [symmetric] onWorld_def)
      qed
    qed
  qed
qed

end


subsection \<open>What the route promises\<close>

text \<open>C31: everything \<open>createAccountHandler\<close> signs, with a channel's key or its own, handed out or not, is the one sandwich
  of that recipient in the mode the ledger read decided: the recipient is a valid key and neither of the sponsor's
  addresses, nothing leaves any account but a starting balance of zero from the sponsor, and that only when the
  account does not exist; and what it hands out carries the sponsor's signature and, on a channel, dies before the
  channel's lease does.\<close>

theorem only_sandwiches_are_signed:
  assumes "createAccountHandler srv channels tok orders wait out cfg now recipient st = ((ans, acts), st')"
  shows "(\<forall>x\<in>set acts. \<exists>existing. accountExists out recipient = Inr existing \<and> sandwich_for cfg recipient existing (signedTx x) \<and>
        keyOk out recipient \<and> recipient \<noteq> sponsorAccountId cfg \<and> recipient \<noteq> signerKey cfg \<and>
        (\<forall>a. outflows (signedTx x) a =
          (if a = sponsorAccountId cfg \<and> \<not> existing then [OpensAccount (Some recipient) (Some ''0'')] else []))) \<and>
    (\<forall>via e sw. ans = Handed via e sw \<longrightarrow> SponsorSigns (sandwichTx sw) \<in> set acts \<and> accountExists out recipient = Inr e \<and>
        (via = ViaChannel \<longrightarrow> sandwichTimeout sw < CHANNEL_LEASE_TTL_SECONDS))"
proof (cases "assertValidRecipient out recipient = None \<and> recipient \<noteq> sponsorAccountId cfg \<and> recipient \<noteq> signerKey cfg \<and>
    (\<exists>e. accountExists out recipient = Inr e)")
  case False
  then have "acts = []" "\<not> handed ans" using assms
    by (auto simp: createAccountHandler_def handed_def split: option.splits if_splits sum.splits)
  then show ?thesis by (auto simp: handed_def)
next
  case True
  then obtain e where e: "accountExists out recipient = Inr e" by blast
  have good: "keyOk out recipient" using True by (simp add: assertValidRecipient_def split: if_splits)
  obtain m held w1 where "sponsorPath srv out cfg now recipient e st = ((ans, acts), st') \<or>
      handOut srv m out cfg now recipient e held (fst st, w1) = ((ans, acts), st')"
    using assms True e by (auto simp: createAccountHandler_def split: option.splits if_splits prod.splits)
  then have "(\<forall>x\<in>set acts. sandwich_for cfg recipient e (signedTx x)) \<and> (\<forall>via e' sw. ans = Handed via e' sw \<longrightarrow>
      SponsorSigns (sandwichTx sw) \<in> set acts \<and> e' = e \<and> (via = ViaChannel \<longrightarrow> sandwichTimeout sw < CHANNEL_LEASE_TTL_SECONDS))"
    (is ?signed)
  proof
    assume s: "sponsorPath srv out cfg now recipient e st = ((ans, acts), st')"
    show ?signed using sponsorPath_acts(1) [OF s] sponsorPath_acts(2) [OF s] by auto
  next
    assume h: "handOut srv m out cfg now recipient e held (fst st, w1) = ((ans, acts), st')"
    show ?signed using handOut_acts [OF h] by blast
  qed
  moreover have "outflows tx a = (if a = sponsorAccountId cfg \<and> \<not> e then [OpensAccount (Some recipient) (Some ''0'')] else [])"
    if "sandwich_for cfg recipient e tx" for tx a
    using that True sandwich_outflows [of recipient cfg] by (auto simp: sandwich_for_def)
  ultimately show ?thesis using e good True by blast
qed

definition busy_signer :: "string ca_outside" where
  "busy_signer = \<lparr>keyOk = (\<lambda>_. True), sdkFee = (\<lambda>tx. show_int (100 * int (length (operations tx)))),
     recipientLoad = LoadFailed (Some 404) ''Not Found'', channelLoad = AccountLoaded, sponsorLoad = AccountLoaded,
     channelSignThrows = Some ''KMS timeout'', sponsorSignThrows = None\<rparr>"

theorem only_sandwiches_are_signed_witness:
  "list_all (\<lambda>x. outflows (signedTx x) ''GS'' = [OpensAccount (Some ''GR'') (Some ''0'')] \<and> outflows (signedTx x) ''GK'' = [])
     (snd (fst (createAccountHandler runOne (Some two_channels) (call_token 7) (\<lambda>_. [1, 0]) id busy_signer pilot_config
      1791460800000 ''GR'' (cold_fees, pilot_world))))"
proof -
  obtain ans acts st' where r: "createAccountHandler runOne (Some two_channels) (call_token 7) (\<lambda>_. [1, 0]) id busy_signer pilot_config
      1791460800000 ''GR'' (cold_fees, pilot_world) = ((ans, acts), st')" by (metis surj_pair)
  have "accountExists busy_signer ''GR'' = Inr False" by (simp add: accountExists_def busy_signer_def)
  then show ?thesis using only_sandwiches_are_signed [OF r] unfolding r by (auto simp: pilot_config_def list_all_iff)
qed

text \<open>C30: with the store answering, from the lease of a channel on: the day's net fee count moves by exactly the bid of the
  sandwich that was handed out, and by nothing when none was, however many attempts were charged and given back on the way,
  and it never passes the day's budget; and the channel's lease is still held exactly when the client was given a
  sandwich on that channel's sequence.\<close>

theorem handout_settles:
  fixes w :: "kv world"
  assumes "ready cell kv_wf now w" and "leaseStore m = redisLeaseStore runOne"
    and "redisHolds cell w (chanKey pub) = Some (t, u)"
    and "\<And>tx. toStroops (TextBid (sdkFee out tx)) = Inr (per * int (length (operations tx)))"
    and "handOut runOne m out cfg now recipient existing (Leased pub (chanKey pub) t) (l, w) = ((ans, acts), l', w')"
  defines "key \<equiv> feeDayKey now (network_of (env w))" and "bid \<equiv> per * (if existing then 3 else 4)"
  shows "l' = l \<and> cnt cell w' key = cnt cell w key + (if handed ans then bid else 0) \<and>
    (handed ans \<longrightarrow> cnt cell w' key \<le> maxDayFee cfg) \<and>
    redisHolds cell w' (chanKey pub) = (if lent ans then Some (t, u) else None) \<and>
    (\<forall>ch. ch \<noteq> pub \<longrightarrow> redisHolds cell w' (chanKey ch) = redisHolds cell w (chanKey ch))"
proof -
  obtain w1 where w1: "l' = l" "w' = w1" "moves cell kv_wf now {chanKey pub} (if handed ans then bid else 0) w w1"
      "redisHolds cell w1 (chanKey pub) = (if lent ans then Some (t, u) else None)"
      "handed ans \<longrightarrow> cnt cell w key + bid \<le> maxDayFee cfg"
    using fake.handOut_moves [OF assms(1,4,2,3), of cfg recipient existing l] assms(5) unfolding key_def bid_def by auto
  have "redisHolds cell w1 (chanKey ch) = redisHolds cell w (chanKey ch)" if "ch \<noteq> pub" for ch
    using moves_holds [OF w1(3), of "chanKey ch"] that by (simp add: chanKey_def)
  then show ?thesis using w1 by (auto simp: moves_def key_def)
qed

definition leased_world :: "kv world" where
  "leased_world = pilot_world\<lparr>kvs := setUntil (chanKey ''GA'') (Some (Some (1791460800000 + 150000)))
     (setString (chanKey ''GA'') ''7'' (touch 1791460800000 (chanKey ''GA'') empty_kv))\<rparr>"

lemma leased_world_wf: "kv_wf (kvs leased_world)"
  by (simp add: leased_world_def wf_setUntil wf_setString entries_setString)

lemma leased_world_cells:
  "cell 1791460800000 (kvs leased_world) = [chanKey ''GA'' \<mapsto> (VStr ''7'', Some (1791460800000 + 150000))]"
proof -
  have "kv_wf empty_kv" "(0::int) < 150000" by simp_all
  from cell_write_expiring [OF this, of 1791460800000 "chanKey ''GA''" "''7''"] show ?thesis
    by (simp add: leased_world_def fun_eq_iff)
qed

theorem handout_settles_witness:
  "case handOut runOne two_channels busy_signer pilot_config 1791460800000 ''GR'' False (Leased ''GA'' (chanKey ''GA'') ''7'') (cold_fees, leased_world) of
     ((ans, acts), l', w') \<Rightarrow> cnt cell w' (feeDayKey 1791460800000 ''mainnet'') = (if handed ans then 400 else 0)"
proof -
  obtain ans acts l' w' where r: "handOut runOne two_channels busy_signer pilot_config 1791460800000 ''GR'' False
      (Leased ''GA'' (chanKey ''GA'') ''7'') (cold_fees, leased_world) = ((ans, acts), l', w')" by (metis surj_pair)
  have e: "env leased_world = pilot_env" "clock leased_world = 1791460800000" by (simp_all add: leased_world_def)
  have nk: "chanKey ''GA'' \<notin> set (day_keys 1791460800000 pilot_env)" using day_keys_not_chan is_chan_chanKey by blast
  have rdy: "ready cell kv_wf 1791460800000 leased_world"
    using nk leased_world_cells leased_world_wf e by (auto simp: ready_def redisOk_def lease_cell_def all_counters_def leased_world_def)
  have held: "redisHolds cell leased_world (chanKey ''GA'') = Some (''7'', 1791460950000)"
    using e leased_world_cells by (simp add: redisHolds_def lease_of_def)
  have fee: "toStroops (TextBid (sdkFee busy_signer tx)) = Inr (100 * int (length (operations tx)))" for tx
    using toStroops_text [of "100 * int (length (operations tx))"] by (simp add: busy_signer_def)
  have zero: "cnt cell leased_world (feeDayKey 1791460800000 ''mainnet'') = 0"
    using nk leased_world_cells e by (auto simp: cnt_def day_keys_def)
  have store: "leaseStore two_channels = redisLeaseStore runOne" by (simp add: two_channels_def)
  have net: "network_of (env leased_world) = ''mainnet''" by (simp add: e)
  have "cnt cell w' (feeDayKey 1791460800000 ''mainnet'') = (if handed ans then 400 else 0)"
    using handout_settles [OF rdy store held fee r] unfolding net zero by simp
  then show ?thesis unfolding r by simp
qed

end
