(* ===== verification/RecoveryStore.thy ===== *)
theory RecoveryStore
  imports Handles "HOL-Library.Multiset"
begin

text \<open>
  apps/sponsor/src/lib/recovery-store.ts: the store of recovery boxes.  A box holds ciphertext and key
  derivation parameters only; \<open>validateBox\<close> enforces it field by field.  Rows live under two prefixes, one keyed by
  an email's hash and one by a passkey's alias, each with the hash of what may replace it: the account that signed,
  or the alias proof.  A request's untyped values are JSON values or undefined (\<open>None\<close>); an owner proof's members are
  taken after their coercion to strings and numbers.  The state is the isolate's two maps beside those of \<open>Handles\<close> and
  the shared store.
\<close>

subsection \<open>Boxes\<close>

definition b64Char :: "char \<Rightarrow> bool" where
  "b64Char c \<longleftrightarrow> is_digit c \<or> is_lower c \<or> (65 \<le> code c \<and> code c \<le> 90) \<or> c \<in> {CHR ''+'', CHR ''/'', CHR ''=''}"

definition b64Text :: "string \<Rightarrow> bool" where
  "b64Text s \<longleftrightarrow> 0 < length s \<and> length s \<le> 1024 \<and> list_all b64Char s"

definition isB64 :: "json option \<Rightarrow> bool" where
  "isB64 v \<longleftrightarrow> (case v of Some (JStr s) \<Rightarrow> b64Text s | _ \<Rightarrow> False)"

definition numberIn :: "int \<Rightarrow> int \<Rightarrow> json option \<Rightarrow> bool" where
  "numberIn lo hi v \<longleftrightarrow> (case v of Some (JInt n) \<Rightarrow> lo \<le> n \<and> n \<le> hi | _ \<Rightarrow> False)"

text \<open>\<open>parallelism > 0\<close> is at least one for a whole number.\<close>

definition isArgon :: "json option \<Rightarrow> bool" where
  "isArgon a \<longleftrightarrow> (case a of Some (JObj p) \<Rightarrow> length p = 3 \<and> numberIn 19 1024 (map_of p ''memMiB'') \<and>
       numberIn 2 16 (map_of p ''time'') \<and> numberIn 1 8 (map_of p ''parallelism'')
     | _ \<Rightarrow> False)"

definition isCopy :: "json \<Rightarrow> bool" where
  "isCopy c \<longleftrightarrow> (case c of JObj p \<Rightarrow>
       if map_of p ''kind'' = Some (JStr ''password'')
       then length p = 5 \<and> isB64 (map_of p ''iv'') \<and> isB64 (map_of p ''ct'') \<and> isB64 (map_of p ''salt'') \<and> isArgon (map_of p ''argon'')
       else if map_of p ''kind'' = Some (JStr ''prf'')
       then length p = 4 \<and> isB64 (map_of p ''iv'') \<and> isB64 (map_of p ''ct'') \<and> isB64 (map_of p ''hkdfSalt'')
       else False
     | _ \<Rightarrow> False)"

datatype box_error = NotAnObject | UnexpectedFields | UnsupportedVersion | CopyCount | CopyShape | DuplicateKind

text \<open>The loop over the copies, with the kinds met so far.\<close>

fun copiesError :: "json option list \<Rightarrow> json list \<Rightarrow> box_error option" where
  "copiesError kinds [] = None"
| "copiesError kinds (c # cs) = (if \<not> isCopy c then Some CopyShape
     else if field ''kind'' c \<in> set kinds then Some DuplicateKind
     else copiesError (field ''kind'' c # kinds) cs)"

definition boxError :: "json option \<Rightarrow> box_error option" where
  "boxError raw = (case raw of
       Some (JObj b) \<Rightarrow>
         if length b \<noteq> 2 then Some UnexpectedFields
         else if map_of b ''formatVersion'' \<noteq> Some (JInt 1) then Some UnsupportedVersion
         else (case map_of b ''copies'' of
             Some (JArr cs) \<Rightarrow> if length cs < 1 \<or> 3 < length cs then Some CopyCount else copiesError [] cs
           | _ \<Rightarrow> Some CopyCount)
     | Some (JArr xs) \<Rightarrow> Some (if length xs \<noteq> 2 then UnexpectedFields else UnsupportedVersion)
     | _ \<Rightarrow> Some NotAnObject)"

datatype vault_error =
    StoreError string | BadId | BadBox box_error | BoxTooLarge | OwnerRefused rejection | OwnerRequired | NeedsSignature
  | BackupConflict bool json | BadAliasProof | DifferentPasskey

definition validateBox :: "json option \<Rightarrow> vault_error + json" where
  "validateBox raw = (case boxError raw of Some e \<Rightarrow> Inl (BadBox e) | None \<Rightarrow> Inr (the raw))"

definition validateId :: "json option \<Rightarrow> vault_error + string" where
  "validateId raw = (case raw of Some (JStr s) \<Rightarrow> if lowerHex 64 s then Inr s else Inl BadId | _ \<Rightarrow> Inl BadId)"

subsection \<open>Rows\<close>

definition KEY_EMAIL :: string where "KEY_EMAIL = ''lumenia:recovery:''"
definition KEY_ALIAS :: string where "KEY_ALIAS = ''lumenia:recovery-pk:''"
definition KEY_TICKET :: string where "KEY_TICKET = ''lumenia:recovery-ticket:''"
definition MAX_BOX_BYTES :: nat where "MAX_BOX_BYTES = 4096"
definition RECOVERY_TICKET_TTL_SEC :: int where "RECOVERY_TICKET_TTL_SEC = 600"

text \<open>A row as it was read: the hashes are whatever JSON stands there, \<open>None\<close> for undefined.\<close>

record stored_row =
  rowBox :: json
  rowProof :: "json option"
  rowOwner :: "json option"

text \<open>\<open>JSON.stringify\<close> of the rows this module writes.\<close>

definition rowJson :: "stored_row \<Rightarrow> json" where
  "rowJson r = JObj ((''box'', rowBox r) # (case rowProof r of None \<Rightarrow> [] | Some h \<Rightarrow> [(''proofHash'', h)]) @
     (case rowOwner r of None \<Rightarrow> [] | Some h \<Rightarrow> [(''ownerHash'', h)]))"

definition showRow :: "stored_row \<Rightarrow> string" where
  "showRow r = showJson (rowJson r)"

definition parseRow :: "string \<Rightarrow> vault_error + stored_row" where
  "parseRow raw = (case parseJson raw of
       None \<Rightarrow> Inl (StoreError ''invalid JSON'')
     | Some j \<Rightarrow> Inr (case field ''box'' j of
           Some b \<Rightarrow> \<lparr>rowBox = b, rowProof = field ''proofHash'' j, rowOwner = field ''ownerHash'' j\<rparr>
         | None \<Rightarrow> \<lparr>rowBox = j, rowProof = None, rowOwner = None\<rparr>))"

text \<open>A value that counts as true.\<close>

definition jsTruthy :: "json option \<Rightarrow> bool" where
  "jsTruthy v \<longleftrightarrow> v \<notin> {None, Some JNull, Some (JBool False), Some (JInt 0), Some (JStr [])}"

record rec_mem =
  boxMem :: "(string \<times> string) list"
  ticketMem :: "(string \<times> string \<times> int) list"

type_synonym 'k vault = "rec_mem \<times> 'k shelf"

text \<open>One command over REST: anything but an answer throws.\<close>

definition vaultCmd :: "'k server \<Rightarrow> string list \<Rightarrow> 'k vault \<Rightarrow> (vault_error + rval) \<times> 'k vault" where
  "vaultCmd srv cmd st = (case st of (m, h, w) \<Rightarrow> (case pipeline srv [cmd] w of
       (Inr (Result r # rs), w1) \<Rightarrow> (Inr r, m, h, w1)
     | (_, w1) \<Rightarrow> (Inl (StoreError ''recovery store returned an error''), m, h, w1)))"

definition worldOf :: "'k vault \<Rightarrow> 'k world" where
  "worldOf st = snd (snd st)"

definition readRow :: "'k server \<Rightarrow> string \<Rightarrow> string \<Rightarrow> 'k vault \<Rightarrow> (vault_error + stored_row option) \<times> 'k vault" where
  "readRow srv prefix rid st = (let parsed = (\<lambda>v. case v of None \<Rightarrow> Inr None
         | Some s \<Rightarrow> if s = [] then Inr None else (case parseRow s of Inl e \<Rightarrow> Inl e | Inr r \<Rightarrow> Inr (Some r)))
     in if \<not> kvConfigured (worldOf st) then (parsed (map_of (boxMem (fst st)) (prefix @ rid)), st)
     else proceed (vaultCmd srv [''GET'', prefix @ rid] st) (\<lambda>r st1. (parsed (case r of RStr s \<Rightarrow> Some s | _ \<Rightarrow> None), st1)))"

definition writeRow :: "'k server \<Rightarrow> string \<Rightarrow> string \<Rightarrow> stored_row \<Rightarrow> 'k vault \<Rightarrow> (vault_error + unit) \<times> 'k vault" where
  "writeRow srv prefix rid row st = (let json = showRow row in
     if MAX_BOX_BYTES < length json then (Inl BoxTooLarge, st)
     else if \<not> kvConfigured (worldOf st) then
       (Inr (), (fst st)\<lparr>boxMem := AList.update (prefix @ rid) json (boxMem (fst st))\<rparr>, snd st)
     else proceed (vaultCmd srv [''SET'', prefix @ rid, json] st) (\<lambda>_ st1. (Inr (), st1)))"

definition deleteRow :: "'k server \<Rightarrow> string \<Rightarrow> string \<Rightarrow> 'k vault \<Rightarrow> (vault_error + unit) \<times> 'k vault" where
  "deleteRow srv prefix rid st =
     (if \<not> kvConfigured (worldOf st) then (Inr (), (fst st)\<lparr>boxMem := AList.delete (prefix @ rid) (boxMem (fst st))\<rparr>, snd st)
      else proceed (vaultCmd srv [''DEL'', prefix @ rid] st) (\<lambda>_ st1. (Inr (), st1)))"

definition checked :: "vault_error + 'a \<Rightarrow> 'k vault \<Rightarrow> (vault_error + 'a) \<times> 'k vault" where
  "checked r st = (r, st)"

definition getBoxAt :: "'k server \<Rightarrow> string \<Rightarrow> json option \<Rightarrow> 'k vault \<Rightarrow> (vault_error + json option) \<times> 'k vault" where
  "getBoxAt srv prefix rawId st = proceed (checked (validateId rawId) st) (\<lambda>rid st1.
     proceed (readRow srv prefix rid st1) (\<lambda>row st2. (Inr (map_option rowBox row), st2)))"

subsection \<open>Who signed\<close>

record owner_proof =
  oPubkey :: string
  oTs :: "int option"
  oNonce :: string
  oProof :: string

definition networkFromEnv :: "environ \<Rightarrow> string" where
  "networkFromEnv e = (if e ''STELLAR_NETWORK'' = Some ''mainnet'' then ''mainnet'' else ''testnet'')"

text \<open>SHA-256 of the account's address, as a row records it.\<close>

definition ownerHashOf :: "keyring \<Rightarrow> string \<Rightarrow> string" where
  "ownerHashOf ring pubkey = digest ring pubkey"

definition ownerInput :: "environ \<Rightarrow> string \<Rightarrow> owner_proof \<Rightarrow> proof_input" where
  "ownerInput e name owner = \<lparr>pname = name, ppubkey = oPubkey owner, pts = oTs owner, pnonce = oNonce owner,
     pnet = networkFromEnv e, psig = oProof owner\<rparr>"

text \<open>The hash of the key a verified \<open>links\<close> proof speaks for, or why it does not verify.\<close>

definition verifyOwner :: "'k server \<Rightarrow> keyring \<Rightarrow> string \<Rightarrow> owner_proof \<Rightarrow> 'k vault \<Rightarrow> (vault_error + (rejection + string)) \<times> 'k vault" where
  "verifyOwner srv ring name owner st = (case st of (m, s) \<Rightarrow>
     (case verifyHandleProof srv ring Links (ownerInput (env (snd s)) name owner) s of
         (Inl e, s1) \<Rightarrow> (Inl (StoreError e), m, s1)
       | (Inr (Some rej), s1) \<Rightarrow> (Inr (Inl rej), m, s1)
       | (Inr None, s1) \<Rightarrow> (Inr (Inr (ownerHashOf ring (oPubkey owner))), m, s1)))"

definition ownerHashFrom :: "'k server \<Rightarrow> keyring \<Rightarrow> string \<Rightarrow> owner_proof option \<Rightarrow> 'k vault \<Rightarrow> (vault_error + string option) \<times> 'k vault" where
  "ownerHashFrom srv ring rid owner st = (case owner of None \<Rightarrow> (Inr None, st)
     | Some o' \<Rightarrow> proceed (verifyOwner srv ring rid o' st) (\<lambda>v st1. (case v of Inl rej \<Rightarrow> Inl (OwnerRefused rej) | Inr h \<Rightarrow> Inr (Some h), st1)))"

subsection \<open>The email row\<close>

text \<open>A row of the email namespace as \<open>putBox\<close> writes it.\<close>

definition ownedRow :: "json \<Rightarrow> string option \<Rightarrow> stored_row" where
  "ownedRow b owner = \<lparr>rowBox = b, rowProof = None, rowOwner = map_option JStr owner\<rparr>"

text \<open>From the read on: a fresh row, one bound to an account, or an unbound one.\<close>

definition putRefusal :: "stored_row option \<Rightarrow> string option \<Rightarrow> bool \<Rightarrow> environ \<Rightarrow> vault_error option" where
  "putRefusal existing ownerHash agreed e = (case existing of
       None \<Rightarrow> if ownerHash = None \<and> e ''RECOVERY_REQUIRE_OWNER'' = Some ''1'' then Some OwnerRequired else None
     | Some row \<Rightarrow>
         if jsTruthy (rowOwner row) then
           (if ownerHash = None then Some NeedsSignature
            else if map_option JStr ownerHash \<noteq> rowOwner row then Some (BackupConflict False (rowBox row))
            else None)
         else if ownerHash \<noteq> None \<and> agreed then None
         else Some (BackupConflict True (rowBox row)))"

definition storeBox :: "'k server \<Rightarrow> string \<Rightarrow> json \<Rightarrow> string option \<Rightarrow> bool \<Rightarrow> stored_row option \<Rightarrow> 'k vault \<Rightarrow> (vault_error + bool) \<times> 'k vault" where
  "storeBox srv rid b ownerHash agreed existing st = (case putRefusal existing ownerHash agreed (env (worldOf st)) of
       Some e \<Rightarrow> (Inl e, st)
     | None \<Rightarrow> proceed (writeRow srv KEY_EMAIL rid (ownedRow b ownerHash) st) (\<lambda>_ st1. (Inr (ownerHash \<noteq> None), st1)))"

definition putBox :: "'k server \<Rightarrow> keyring \<Rightarrow> json option \<Rightarrow> json option \<Rightarrow> owner_proof option \<Rightarrow> bool \<Rightarrow> 'k vault \<Rightarrow> (vault_error + bool) \<times> 'k vault" where
  "putBox srv ring rawId rawBox owner agreed st =
    proceed (checked (validateId rawId) st) (\<lambda>rid st1.
    proceed (checked (validateBox rawBox) st1) (\<lambda>b st2.
    proceed (ownerHashFrom srv ring rid owner st2) (\<lambda>ownerHash st3.
    proceed (readRow srv KEY_EMAIL rid st3) (storeBox srv rid b ownerHash agreed))))"

definition rowState :: "'k server \<Rightarrow> json option \<Rightarrow> 'k vault \<Rightarrow> (vault_error + (bool \<times> json option)) \<times> 'k vault" where
  "rowState srv rawId st = proceed (checked (validateId rawId) st) (\<lambda>rid st1.
     proceed (readRow srv KEY_EMAIL rid st1) (\<lambda>row st2. (Inr (case row of None \<Rightarrow> (False, None)
       | Some r \<Rightarrow> (True, if jsTruthy (rowOwner r) then rowOwner r else None)), st2)))"

definition isBoundTo :: "'k server \<Rightarrow> keyring \<Rightarrow> json option \<Rightarrow> string \<Rightarrow> 'k vault \<Rightarrow> (vault_error + bool) \<times> 'k vault" where
  "isBoundTo srv ring rawId pubkey st = proceed (rowState srv rawId st) (\<lambda>(found, owner) st1.
     (Inr (owner = Some (JStr (ownerHashOf ring pubkey))), st1))"

text \<open>\<open>Inl\<close> is the reason a proof does not verify.\<close>

definition checkMine :: "'k server \<Rightarrow> keyring \<Rightarrow> json option \<Rightarrow> owner_proof \<Rightarrow> 'k vault \<Rightarrow> (vault_error + (rejection + bool)) \<times> 'k vault" where
  "checkMine srv ring rawId owner st = proceed (checked (validateId rawId) st) (\<lambda>rid st1.
     proceed (verifyOwner srv ring (''check:'' @ rid) owner st1) (\<lambda>v st2. case v of
         Inl rej \<Rightarrow> (Inr (Inl rej), st2)
       | Inr h \<Rightarrow> proceed (readRow srv KEY_EMAIL rid st2) (\<lambda>row st3.
           (Inr (Inr (case row of None \<Rightarrow> False | Some r \<Rightarrow> rowOwner r = Some (JStr h))), st3))))"

definition releaseBox :: "'k server \<Rightarrow> keyring \<Rightarrow> json option \<Rightarrow> owner_proof \<Rightarrow> 'k vault \<Rightarrow> (vault_error + (rejection + bool)) \<times> 'k vault" where
  "releaseBox srv ring rawId owner st = proceed (checked (validateId rawId) st) (\<lambda>rid st1.
     proceed (verifyOwner srv ring (''release:'' @ rid) owner st1) (\<lambda>v st2. case v of
         Inl rej \<Rightarrow> (Inr (Inl rej), st2)
       | Inr h \<Rightarrow> proceed (readRow srv KEY_EMAIL rid st2) (\<lambda>row st3.
           if (case row of None \<Rightarrow> True | Some r \<Rightarrow> rowOwner r \<noteq> Some (JStr h)) then (Inr (Inr False), st3)
           else proceed (deleteRow srv KEY_EMAIL rid st3) (\<lambda>_ st4. (Inr (Inr True), st4)))))"

definition getBox :: "'k server \<Rightarrow> json option \<Rightarrow> 'k vault \<Rightarrow> (vault_error + json option) \<times> 'k vault" where
  "getBox srv rawId st = getBoxAt srv KEY_EMAIL rawId st"

definition getBoxState :: "'k server \<Rightarrow> json option \<Rightarrow> 'k vault \<Rightarrow> (vault_error + (json \<times> bool) option) \<times> 'k vault" where
  "getBoxState srv rawId st = proceed (checked (validateId rawId) st) (\<lambda>rid st1.
     proceed (readRow srv KEY_EMAIL rid st1) (\<lambda>row st2. (Inr (map_option (\<lambda>r. (rowBox r, rowOwner r \<noteq> None)) row), st2)))"

subsection \<open>Tickets\<close>

text \<open>The random 64 hex characters are an argument.\<close>

definition mintRecoveryTicket :: "'k server \<Rightarrow> string \<Rightarrow> json option \<Rightarrow> 'k vault \<Rightarrow> (vault_error + string) \<times> 'k vault" where
  "mintRecoveryTicket srv random rawId st = proceed (checked (validateId rawId) st) (\<lambda>rid st1.
     if \<not> kvConfigured (worldOf st1) then
       (Inr random, (fst st1)\<lparr>ticketMem := AList.update random (rid, clock (worldOf st1) + RECOVERY_TICKET_TTL_SEC * 1000) (ticketMem (fst st1))\<rparr>, snd st1)
     else proceed (vaultCmd srv [''SET'', KEY_TICKET @ random, rid, ''EX'', show_int RECOVERY_TICKET_TTL_SEC] st1) (\<lambda>_ st2. (Inr random, st2)))"

definition hexText :: "json option \<Rightarrow> string option" where
  "hexText raw = (case raw of Some (JStr s) \<Rightarrow> if lowerHex 64 s then Some s else None | _ \<Rightarrow> None)"

definition consumeRecoveryTicket :: "'k server \<Rightarrow> json option \<Rightarrow> json option \<Rightarrow> 'k vault \<Rightarrow> (vault_error + bool) \<times> 'k vault" where
  "consumeRecoveryTicket srv rawTicket rawId st = (case (hexText rawTicket, hexText rawId) of
       (Some ticket, Some rid) \<Rightarrow>
         if \<not> kvConfigured (worldOf st) then
           (Inr (case map_of (ticketMem (fst st)) ticket of None \<Rightarrow> False | Some (i, expiry) \<Rightarrow> clock (worldOf st) < expiry \<and> i = rid),
            (fst st)\<lparr>ticketMem := AList.delete ticket (ticketMem (fst st))\<rparr>, snd st)
         else (case st of (m, h, w) \<Rightarrow> (case pipeline srv [[''GETDEL'', KEY_TICKET @ ticket]] w of
             (Inr [], w1) \<Rightarrow> (Inr False, m, h, w1)
           | (Inr (Err e # rs), w1) \<Rightarrow> (Inl (StoreError (''recovery store error: '' @ e)), m, h, w1)
           | (Inr (Result r # rs), w1) \<Rightarrow> (Inr (r = RStr rid), m, h, w1)
           | (Inl e, w1) \<Rightarrow> (Inl (StoreError ''recovery store returned an error''), m, h, w1)))
     | _ \<Rightarrow> (Inr False, st))"

subsection \<open>The alias row\<close>

definition aliasWriteCheck :: "'k server \<Rightarrow> keyring \<Rightarrow> json option \<Rightarrow> json option \<Rightarrow> 'k vault \<Rightarrow> (vault_error + (string \<times> string)) \<times> 'k vault" where
  "aliasWriteCheck srv ring rawId rawProof st = proceed (checked (validateId rawId) st) (\<lambda>rid st1.
     case hexText rawProof of None \<Rightarrow> (Inl BadAliasProof, st1)
     | Some aliasProof \<Rightarrow> (let proofHash = digest ring aliasProof in
         proceed (readRow srv KEY_ALIAS rid st1) (\<lambda>existing st2.
           if (case existing of None \<Rightarrow> False | Some r \<Rightarrow> jsTruthy (rowProof r) \<and> rowProof r \<noteq> Some (JStr proofHash))
           then (Inl DifferentPasskey, st2) else (Inr (rid, proofHash), st2))))"

definition aliasRow :: "json \<Rightarrow> string \<Rightarrow> stored_row" where
  "aliasRow b h = \<lparr>rowBox = b, rowProof = Some (JStr h), rowOwner = None\<rparr>"

definition putAliasBox :: "'k server \<Rightarrow> keyring \<Rightarrow> json option \<Rightarrow> json option \<Rightarrow> json option \<Rightarrow> 'k vault \<Rightarrow> (vault_error + unit) \<times> 'k vault" where
  "putAliasBox srv ring rawId rawBox rawProof st = proceed (checked (validateBox rawBox) st) (\<lambda>b st1.
     proceed (aliasWriteCheck srv ring rawId rawProof st1) (\<lambda>(rid, proofHash) st2.
       writeRow srv KEY_ALIAS rid (aliasRow b proofHash) st2))"

definition assertAliasWritable :: "'k server \<Rightarrow> keyring \<Rightarrow> json option \<Rightarrow> json option \<Rightarrow> 'k vault \<Rightarrow> (vault_error + unit) \<times> 'k vault" where
  "assertAliasWritable srv ring rawId rawProof st = proceed (aliasWriteCheck srv ring rawId rawProof st) (\<lambda>_ st1. (Inr (), st1))"

definition getAliasBox :: "'k server \<Rightarrow> json option \<Rightarrow> 'k vault \<Rightarrow> (vault_error + json option) \<times> 'k vault" where
  "getAliasBox srv rawId st = getBoxAt srv KEY_ALIAS rawId st"

subsection \<open>What a box can hold\<close>

text \<open>The copies a box may hold, and their members; a JSON object lists them in some order.\<close>

datatype box_copy = Password string string string int int int | Prf string string string

fun copyKind :: "box_copy \<Rightarrow> string" where
  "copyKind (Password iv ct salt m t p) = ''password''"
| "copyKind (Prf iv ct salt) = ''prf''"

definition inOrder :: "(string \<times> json) list \<Rightarrow> json \<Rightarrow> bool" where
  "inOrder members j \<longleftrightarrow> (\<exists>p. j = JObj p \<and> mset p = mset members)"

fun is_copy :: "box_copy \<Rightarrow> json \<Rightarrow> bool" where
  "is_copy (Password iv ct salt m t p) j \<longleftrightarrow> list_all b64Text [iv, ct, salt] \<and> 19 \<le> m \<and> m \<le> 1024 \<and> 2 \<le> t \<and> t \<le> 16 \<and> 1 \<le> p \<and> p \<le> 8 \<and>
     (\<exists>argon. inOrder [(''memMiB'', JInt m), (''time'', JInt t), (''parallelism'', JInt p)] argon \<and>
       inOrder [(''kind'', JStr ''password''), (''iv'', JStr iv), (''ct'', JStr ct), (''salt'', JStr salt), (''argon'', argon)] j)"
| "is_copy (Prf iv ct salt) j \<longleftrightarrow> list_all b64Text [iv, ct, salt] \<and>
     inOrder [(''kind'', JStr ''prf''), (''iv'', JStr iv), (''ct'', JStr ct), (''hkdfSalt'', JStr salt)] j"

definition ciphertext_box :: "json \<Rightarrow> bool" where
  "ciphertext_box j \<longleftrightarrow> (\<exists>copies js. inOrder [(''formatVersion'', JInt 1), (''copies'', JArr js)] j \<and>
     list_all2 is_copy copies js \<and> copies \<noteq> [] \<and> distinct (map copyKind copies))"

lemma members_exact:
  assumes "distinct (map fst ms)" "length p = length ms" "\<And>n x. (n, x) \<in> set ms \<Longrightarrow> map_of p n = Some x"
  shows "mset p = mset ms"
proof -
  have sub: "set ms \<subseteq> set p" using assms(3) map_of_SomeD by fast
  have d: "distinct ms" using assms(1) by (simp add: distinct_map)
  then have "card (set ms) = length p" using assms(2) distinct_card by metis
  moreover have "card (set p) \<le> length p" by (rule card_length)
  ultimately have "set ms = set p" using sub card_seteq [of "set p" "set ms"] by simp
  then have "distinct p" using \<open>card (set ms) = length p\<close> card_distinct by metis
  then show ?thesis using d \<open>set ms = set p\<close> set_eq_iff_mset_eq_distinct by metis
qed

lemma in_order_distinct:
  assumes "mset p = mset ms" "distinct (map fst ms)"
  shows "distinct (map fst p)" "length p = length ms" "map_of p = map_of ms"
proof -
  have "mset (map fst p) = mset (map fst ms)" using assms(1) by simp
  then show d: "distinct (map fst p)" using assms(2) mset_eq_imp_distinct_iff by blast
  show "length p = length ms" using assms(1) by (metis size_mset)
  show "map_of p = map_of ms" using map_of_inject_set [OF d assms(2)] assms(1) mset_eq_setD by metis
qed

lemma numberIn_iff: "numberIn lo hi v \<longleftrightarrow> (\<exists>n. v = Some (JInt n) \<and> lo \<le> n \<and> n \<le> hi)"
  by (auto simp: numberIn_def split: option.splits json.splits)

lemma isArgon_iff:
  "isArgon (Some a) \<longleftrightarrow> (\<exists>m t p. 19 \<le> m \<and> m \<le> 1024 \<and> 2 \<le> t \<and> t \<le> 16 \<and> 1 \<le> p \<and> p \<le> 8 \<and>
     inOrder [(''memMiB'', JInt m), (''time'', JInt t), (''parallelism'', JInt p)] a)"
proof
  assume "isArgon (Some a)"
  then obtain q m t p where "a = JObj q" "length q = 3" "map_of q ''memMiB'' = Some (JInt m)" "19 \<le> m" "m \<le> 1024"
      "map_of q ''time'' = Some (JInt t)" "2 \<le> t" "t \<le> 16" "map_of q ''parallelism'' = Some (JInt p)" "1 \<le> p" "p \<le> 8"
    by (auto simp: isArgon_def numberIn_iff split: json.splits)
  moreover from this have "mset q = mset [(''memMiB'', JInt m), (''time'', JInt t), (''parallelism'', JInt p)]"
    by (intro members_exact) auto
  ultimately show "\<exists>m t p. 19 \<le> m \<and> m \<le> 1024 \<and> 2 \<le> t \<and> t \<le> 16 \<and> 1 \<le> p \<and> p \<le> 8 \<and>
     inOrder [(''memMiB'', JInt m), (''time'', JInt t), (''parallelism'', JInt p)] a"
    by (auto simp: inOrder_def)
next
  assume "\<exists>m t p. 19 \<le> m \<and> m \<le> 1024 \<and> 2 \<le> t \<and> t \<le> 16 \<and> 1 \<le> p \<and> p \<le> 8 \<and>
     inOrder [(''memMiB'', JInt m), (''time'', JInt t), (''parallelism'', JInt p)] a"
  then obtain m t p q where q: "19 \<le> m" "m \<le> 1024" "2 \<le> t" "t \<le> 16" "1 \<le> p" "p \<le> 8" "a = JObj q"
      "mset q = mset [(''memMiB'', JInt m), (''time'', JInt t), (''parallelism'', JInt p)]"
    by (auto simp: inOrder_def)
  note d = in_order_distinct [OF q(8)]
  have "map_of q = map_of [(''memMiB'', JInt m), (''time'', JInt t), (''parallelism'', JInt p)]" "length q = 3" using d(2,3) by simp_all
  then show "isArgon (Some a)" using q(1-7) by (simp add: isArgon_def numberIn_def)
qed

lemma isB64_iff: "isB64 v \<longleftrightarrow> (\<exists>s. v = Some (JStr s) \<and> b64Text s)"
  by (auto simp: isB64_def split: option.splits json.splits)

lemma isCopy_iff: "isCopy j \<longleftrightarrow> (\<exists>c. is_copy c j)"
proof
  assume j: "isCopy j"
  then obtain p where p: "j = JObj p" by (auto simp: isCopy_def split: json.splits)
  show "\<exists>c. is_copy c j"
  proof (cases "map_of p ''kind'' = Some (JStr ''password'')")
    case True
    then have "length p = 5" "isB64 (map_of p ''iv'')" "isB64 (map_of p ''ct'')" "isB64 (map_of p ''salt'')" "isArgon (map_of p ''argon'')"
      using j by (simp_all add: isCopy_def p)
    moreover from this(5) obtain argon where "map_of p ''argon'' = Some argon" by (auto simp: isArgon_def split: option.splits)
    moreover from calculation obtain iv ct salt where "map_of p ''iv'' = Some (JStr iv)" "b64Text iv"
      "map_of p ''ct'' = Some (JStr ct)" "b64Text ct" "map_of p ''salt'' = Some (JStr salt)" "b64Text salt" by (auto simp: isB64_iff)
    moreover from calculation obtain m t q where "19 \<le> m" "m \<le> 1024" "2 \<le> t" "t \<le> 16" "1 \<le> q" "q \<le> 8"
      "inOrder [(''memMiB'', JInt m), (''time'', JInt t), (''parallelism'', JInt q)] argon" by (auto simp: isArgon_iff)
    moreover from calculation True have "mset p = mset [(''kind'', JStr ''password''), (''iv'', JStr iv), (''ct'', JStr ct), (''salt'', JStr salt), (''argon'', argon)]"
      by (intro members_exact) auto
    ultimately have "is_copy (Password iv ct salt m t q) j" using p by (auto simp: inOrder_def)
    then show ?thesis ..
  next
    case False
    then have k: "map_of p ''kind'' = Some (JStr ''prf'')" "length p = 4" "isB64 (map_of p ''iv'')" "isB64 (map_of p ''ct'')" "isB64 (map_of p ''hkdfSalt'')"
      using j by (simp_all add: isCopy_def p split: if_splits)
    then obtain iv ct salt where b: "map_of p ''iv'' = Some (JStr iv)" "b64Text iv"
      "map_of p ''ct'' = Some (JStr ct)" "b64Text ct" "map_of p ''hkdfSalt'' = Some (JStr salt)" "b64Text salt" by (auto simp: isB64_iff)
    have "mset p = mset [(''kind'', JStr ''prf''), (''iv'', JStr iv), (''ct'', JStr ct), (''hkdfSalt'', JStr salt)]"
      using k(1,2) b by (intro members_exact) auto
    then have "is_copy (Prf iv ct salt) j" using b p by (auto simp: inOrder_def)
    then show ?thesis ..
  qed
next
  assume "\<exists>c. is_copy c j"
  then obtain c where c: "is_copy c j" ..
  show "isCopy j"
  proof (cases c)
    case (Password iv ct salt m t q)
    then obtain argon where a: "list_all b64Text [iv, ct, salt]" "19 \<le> m \<and> m \<le> 1024 \<and> 2 \<le> t \<and> t \<le> 16 \<and> 1 \<le> q \<and> q \<le> 8"
        "inOrder [(''memMiB'', JInt m), (''time'', JInt t), (''parallelism'', JInt q)] argon"
        "inOrder [(''kind'', JStr ''password''), (''iv'', JStr iv), (''ct'', JStr ct), (''salt'', JStr salt), (''argon'', argon)] j"
      using c by auto
    then have "isArgon (Some argon)" unfolding isArgon_iff by blast
    then obtain p where b: "list_all b64Text [iv, ct, salt]" "j = JObj p"
        "mset p = mset [(''kind'', JStr ''password''), (''iv'', JStr iv), (''ct'', JStr ct), (''salt'', JStr salt), (''argon'', argon)]"
        "isArgon (Some argon)"
      using a unfolding inOrder_def by blast
    note d = in_order_distinct [OF b(3)]
    have "map_of p = map_of [(''kind'', JStr ''password''), (''iv'', JStr iv), (''ct'', JStr ct), (''salt'', JStr salt), (''argon'', argon)]"
      "length p = 5" using d(2,3) by simp_all
    then show ?thesis using b(1,2,4) by (simp add: isCopy_def isB64_iff)
  next
    case (Prf iv ct salt)
    then obtain p where b: "list_all b64Text [iv, ct, salt]" "j = JObj p"
        "mset p = mset [(''kind'', JStr ''prf''), (''iv'', JStr iv), (''ct'', JStr ct), (''hkdfSalt'', JStr salt)]"
      using c by (auto simp: inOrder_def)
    note d = in_order_distinct [OF b(3)]
    have "map_of p = map_of [(''kind'', JStr ''prf''), (''iv'', JStr iv), (''ct'', JStr ct), (''hkdfSalt'', JStr salt)]" "length p = 4"
      using d(2,3) by simp_all
    then show ?thesis using b(1,2) by (simp add: isCopy_def isB64_iff)
  qed
qed

lemma is_copy_kind:
  assumes "is_copy c j"
  shows "field ''kind'' j = Some (JStr (copyKind c))"
proof (cases c)
  case (Password iv ct salt m t q)
  then obtain argon p where p: "j = JObj p"
      "mset p = mset [(''kind'', JStr ''password''), (''iv'', JStr iv), (''ct'', JStr ct), (''salt'', JStr salt), (''argon'', argon)]"
    using assms [unfolded Password is_copy.simps inOrder_def] by blast
  have "map_of p = map_of [(''kind'', JStr ''password''), (''iv'', JStr iv), (''ct'', JStr ct), (''salt'', JStr salt), (''argon'', argon)]"
    by (rule in_order_distinct(3) [OF p(2)]) simp
  then show ?thesis using Password by (simp add: field_def p(1))
next
  case (Prf iv ct salt)
  then obtain p where p: "j = JObj p"
      "mset p = mset [(''kind'', JStr ''prf''), (''iv'', JStr iv), (''ct'', JStr ct), (''hkdfSalt'', JStr salt)]"
    using assms [unfolded Prf is_copy.simps inOrder_def] by blast
  have "map_of p = map_of [(''kind'', JStr ''prf''), (''iv'', JStr iv), (''ct'', JStr ct), (''hkdfSalt'', JStr salt)]"
    by (rule in_order_distinct(3) [OF p(2)]) simp
  then show ?thesis using Prf by (simp add: field_def p(1))
qed

lemma inOrder_wf: "inOrder ms j \<Longrightarrow> distinct (map fst ms) \<Longrightarrow> \<forall>(n, x)\<in>set ms. json_wf x \<Longrightarrow> json_wf j"
proof -
  assume o: "inOrder ms j" and d: "distinct (map fst ms)" and w: "\<forall>(n, x)\<in>set ms. json_wf x"
  obtain p where p: "j = JObj p" "mset p = mset ms" using o by (auto simp: inOrder_def)
  then have "set p = set ms" by (metis mset_eq_setD)
  then show "json_wf j" using p in_order_distinct(1) [OF p(2) d] w by (simp add: list_all_iff)
qed

lemma is_copy_wf:
  assumes "is_copy c j"
  shows "json_wf j"
proof (cases c)
  case (Password iv ct salt m t q)
  obtain argon where a: "inOrder [(''memMiB'', JInt m), (''time'', JInt t), (''parallelism'', JInt q)] argon"
      "inOrder [(''kind'', JStr ''password''), (''iv'', JStr iv), (''ct'', JStr ct), (''salt'', JStr salt), (''argon'', argon)] j"
    using assms [unfolded Password is_copy.simps] by blast
  have "json_wf argon" by (rule inOrder_wf [OF a(1)]) simp_all
  then show ?thesis by (intro inOrder_wf [OF a(2)]) simp_all
next
  case (Prf iv ct salt)
  have "inOrder [(''kind'', JStr ''prf''), (''iv'', JStr iv), (''ct'', JStr ct), (''hkdfSalt'', JStr salt)] j"
    using assms [unfolded Prf is_copy.simps] by blast
  then show ?thesis by (rule inOrder_wf) simp_all
qed

lemma ciphertext_wf: "ciphertext_box j \<Longrightarrow> json_wf j"
proof -
  assume "ciphertext_box j"
  then obtain copies js where c: "inOrder [(''formatVersion'', JInt 1), (''copies'', JArr js)] j" "list_all2 is_copy copies js"
    by (auto simp: ciphertext_box_def)
  have "list_all json_wf js" using c(2) is_copy_wf by (auto simp: list_all_length list_all2_conv_all_nth)
  then show "json_wf j" by (intro inOrder_wf [OF c(1)]) simp_all
qed

lemma copiesError_None:
  "copiesError kinds cs = None \<longleftrightarrow> list_all isCopy cs \<and> distinct (map (field ''kind'') cs) \<and> set (map (field ''kind'') cs) \<inter> set kinds = {}"
  by (induction kinds cs rule: copiesError.induct) auto

lemma boxError_None: "boxError (Some j) = None \<longleftrightarrow> ciphertext_box j"
proof
  assume "boxError (Some j) = None"
  then obtain b js where b: "j = JObj b" "length b = 2" "map_of b ''formatVersion'' = Some (JInt 1)" "map_of b ''copies'' = Some (JArr js)"
      "js \<noteq> []" "copiesError [] js = None"
    by (auto simp: boxError_def split: json.splits if_splits option.splits)
  have "\<forall>x\<in>set js. \<exists>c. is_copy c x" using b(6) isCopy_iff by (simp add: copiesError_None list_all_iff)
  then obtain f where f: "\<forall>x\<in>set js. is_copy (f x) x" by metis
  have all: "list_all2 is_copy (map f js) js" using f by (simp add: list_all2_conv_all_nth)
  have "map (field ''kind'') js = map (\<lambda>k. Some (JStr k)) (map copyKind (map f js))"
    using f is_copy_kind by simp
  then have "distinct (map copyKind (map f js))" using b(6) by (simp only: copiesError_None distinct_map)
  moreover have "mset b = mset [(''formatVersion'', JInt 1), (''copies'', JArr js)]" using b(2-4) by (intro members_exact) auto
  ultimately show "ciphertext_box j" using all b(1,5) unfolding ciphertext_box_def inOrder_def
    by (intro exI [of _ "map f js"] exI [of _ js]) simp
next
  assume "ciphertext_box j"
  then obtain copies js b where c: "j = JObj b" "mset b = mset [(''formatVersion'', JInt 1), (''copies'', JArr js)]"
      "list_all2 is_copy copies js" "copies \<noteq> []" "distinct (map copyKind copies)"
    by (auto simp: ciphertext_box_def inOrder_def)
  have k: "copyKind x \<in> {''password'', ''prf''}" for x by (cases x) simp_all
  have len: "length js = length copies" using c(3) by (simp add: list_all2_lengthD)
  have "length (map copyKind copies) \<le> card {''password'', ''prf''}"
    using c(5) k by (metis (no_types, lifting) card_mono distinct_card finite.emptyI finite.insertI image_subsetI list.set_map)
  then have few: "length js \<le> 2" "js \<noteq> []" using len c(4) by (auto simp: card_insert_if)
  have "map (field ''kind'') js = map (\<lambda>k. Some (JStr k)) (map copyKind copies)"
    using c(3) is_copy_kind by (auto simp: list_all2_conv_all_nth intro!: nth_equalityI)
  then have "distinct (map (field ''kind'') js)" using c(5) by (simp add: distinct_map inj_on_def)
  moreover have "list_all isCopy js" using c(3) isCopy_iff by (auto simp: list_all2_conv_all_nth list_all_length)
  ultimately have "copiesError [] js = None" by (simp add: copiesError_None)
  moreover have "map_of b = map_of [(''formatVersion'', JInt 1), (''copies'', JArr js)]" "length b = 2"
    using in_order_distinct(2,3) [OF c(2)] by simp_all
  ultimately show "boxError (Some j) = None" using c(1) few by (cases js) (simp_all add: boxError_def)
qed

text \<open>C34: the server accepts a box exactly when it is ciphertext and parameters and nothing else: two members, the version
  and at least one copy, every copy one of the two kinds with exactly that kind's members, none of them longer or weaker
  than allowed, and no kind twice; so no other member, and no secret in one, is ever stored.\<close>

theorem accepted_box_is_ciphertext:
  "validateBox (Some j) = Inr j \<longleftrightarrow> ciphertext_box j"
  by (auto simp: validateBox_def boxError_None [symmetric] split: option.splits)

subsection \<open>Rows of a store that answers\<close>

definition prefixes :: "string set" where
  "prefixes = {KEY_EMAIL, KEY_ALIAS}"

lemma vault_keys [simp]:
  "KEY_EMAIL @ a \<noteq> KEY_ALIAS @ b" "KEY_ALIAS @ b \<noteq> KEY_EMAIL @ a" "KEY_EMAIL @ a \<noteq> KEY_TICKET @ b" "KEY_TICKET @ b \<noteq> KEY_EMAIL @ a"
  "KEY_ALIAS @ a \<noteq> KEY_TICKET @ b" "KEY_TICKET @ b \<noteq> KEY_ALIAS @ a" "KEY_EMAIL @ a \<noteq> proofKey d" "KEY_ALIAS @ a \<noteq> proofKey d" "KEY_TICKET @ a \<noteq> proofKey d"
  by (simp_all add: KEY_EMAIL_def KEY_ALIAS_def KEY_TICKET_def proofKey_def)

text \<open>A hash is text, and there is one of the two at most.\<close>

definition hash_typed :: "json option \<Rightarrow> bool" where
  "hash_typed v \<longleftrightarrow> (case v of None \<Rightarrow> True | Some (JStr x) \<Rightarrow> x \<noteq> [] | _ \<Rightarrow> False)"

definition row_typed :: "stored_row \<Rightarrow> bool" where
  "row_typed r \<longleftrightarrow> ciphertext_box (rowBox r) \<and> hash_typed (rowProof r) \<and> hash_typed (rowOwner r)"

lemma hash_typed_simps [simp]: "hash_typed None" "hash_typed (Some (JStr x)) \<longleftrightarrow> x \<noteq> []"
  by (simp_all add: hash_typed_def)

lemma hash_typedE: "hash_typed v \<Longrightarrow> v = None \<or> (\<exists>x. v = Some (JStr x) \<and> x \<noteq> [])"
  by (auto simp: hash_typed_def split: option.splits json.splits)

lemma hash_typed_truthy: "hash_typed v \<Longrightarrow> jsTruthy v \<longleftrightarrow> v \<noteq> None"
  by (drule hash_typedE) (auto simp: jsTruthy_def)

lemma showRow_nonempty [simp]: "showRow r \<noteq> []"
  by (simp add: showRow_def)

lemma parse_showRow: "row_typed r \<Longrightarrow> parseRow (showRow r) = Inr r"
proof -
  assume t: "row_typed r"
  have w: "hash_typed v \<Longrightarrow> v = Some x \<Longrightarrow> json_wf x" for v x by (drule hash_typedE) auto
  have "json_wf (rowJson r)"
    using t w by (auto simp: rowJson_def row_typed_def ciphertext_wf split: option.splits)
  moreover have "field ''box'' (rowJson r) = Some (rowBox r)" "field ''proofHash'' (rowJson r) = rowProof r" "field ''ownerHash'' (rowJson r) = rowOwner r"
    by (simp_all add: field_def rowJson_def split: option.splits)
  ultimately show ?thesis by (simp add: parseRow_def showRow_def)
qed

definition row_cell :: "cell option \<Rightarrow> bool" where
  "row_cell c \<longleftrightarrow> (case c of None \<Rightarrow> True | Some (VStr t, e) \<Rightarrow> e = None \<and> t \<noteq> [] \<and> (\<exists>r. parseRow t = Inr r \<and> row_typed r) | _ \<Rightarrow> False)"

definition rowAt :: "kv_view \<Rightarrow> string \<Rightarrow> stored_row option" where
  "rowAt v k = (case cell_str (v k) of None \<Rightarrow> None | Some t \<Rightarrow> if t = [] then None else (case parseRow t of Inl e \<Rightarrow> None | Inr r \<Rightarrow> Some r))"

definition vault_ok :: "kv_view \<Rightarrow> bool" where
  "vault_ok v \<longleftrightarrow> (\<forall>p\<in>prefixes. \<forall>rid. lowerHex 64 rid \<longrightarrow> row_cell (v (p @ rid))) \<and> (\<forall>t. strish (v (KEY_TICKET @ t)))"

lemma row_cell_simps [simp]:
  "row_cell None" "row_typed r \<Longrightarrow> row_cell (Some (VStr (showRow r), None))"
  by (simp_all add: row_cell_def parse_showRow)

lemma row_cellE:
  assumes "row_cell c"
  obtains "c = None" | t r where "c = Some (VStr t, None)" "t \<noteq> []" "parseRow t = Inr r" "row_typed r"
  using assms by (auto simp: row_cell_def split: option.splits prod.splits kval.splits)

lemma row_cell_strish: "row_cell c \<Longrightarrow> strish c"
  by (elim row_cellE) simp_all

lemma row_cell_lapse: "row_cell c \<Longrightarrow> lapse t c = c"
  by (elim row_cellE) simp_all

lemma vault_okD: "vault_ok v \<Longrightarrow> p \<in> prefixes \<Longrightarrow> lowerHex 64 rid \<Longrightarrow> row_cell (v (p @ rid))" "vault_ok v \<Longrightarrow> strish (v (KEY_TICKET @ t))"
  by (simp_all add: vault_ok_def)

lemma rowAt_typed: "vault_ok v \<Longrightarrow> p \<in> prefixes \<Longrightarrow> lowerHex 64 rid \<Longrightarrow> rowAt v (p @ rid) = Some r \<Longrightarrow> row_typed r"
  by (drule (2) vault_okD) (auto simp: rowAt_def elim!: row_cellE)

lemma rowAt_write [simp]: "row_typed r \<Longrightarrow> rowAt (v(k \<mapsto> (VStr (showRow r), None))) k = Some r"
  by (simp add: rowAt_def parse_showRow)

lemma rowAt_same: "u k = v k \<Longrightarrow> rowAt u k = rowAt v k"
  by (simp add: rowAt_def)

text \<open>Only the memory of proofs differs.\<close>

definition calm :: "kv_view \<Rightarrow> kv_view \<Rightarrow> bool" where
  "calm v u \<longleftrightarrow> (\<forall>k. (\<forall>d. k \<noteq> proofKey d) \<longrightarrow> u k = v k)"

lemma calm_refl [simp]: "calm v v"
  by (simp add: calm_def)

lemma calmD: "calm v u \<Longrightarrow> u (KEY_EMAIL @ a) = v (KEY_EMAIL @ a)" "calm v u \<Longrightarrow> u (KEY_ALIAS @ a) = v (KEY_ALIAS @ a)"
  "calm v u \<Longrightarrow> u (KEY_TICKET @ a) = v (KEY_TICKET @ a)"
  by (simp_all add: calm_def)

lemma calm_ok: "calm v u \<Longrightarrow> vault_ok v \<Longrightarrow> vault_ok u"
  by (auto simp: vault_ok_def prefixes_def calmD)

lemma ok_row: "vault_ok v \<Longrightarrow> p \<in> prefixes \<Longrightarrow> row_cell c \<Longrightarrow> vault_ok (v(p @ rid := c))"
  by (auto simp: vault_ok_def prefixes_def)

lemma ok_ticket: "vault_ok v \<Longrightarrow> strish c \<Longrightarrow> vault_ok (v(KEY_TICKET @ t := c))"
  by (auto simp: vault_ok_def prefixes_def)

definition vault_world :: "(int \<Rightarrow> 'k \<Rightarrow> kv_view) \<Rightarrow> ('k \<Rightarrow> bool) \<Rightarrow> 'k world \<Rightarrow> bool" where
  "vault_world view ok w \<longleftrightarrow> shelf_ok ok w \<and> vault_ok (view (clock w) (kvs w))"

lemma vault_worldI: "became view ok w u w' \<Longrightarrow> vault_ok u \<Longrightarrow> vault_world view ok w'"
  by (simp add: vault_world_def became_def)

text \<open>The signature an owner proof carries, over a name.\<close>

definition signs :: "keyring \<Rightarrow> string \<Rightarrow> owner_proof \<Rightarrow> environ \<Rightarrow> bool" where
  "signs ring name owner e \<longleftrightarrow> signedBy ring (oPubkey owner) (proof_message Links (ownerInput e name owner)) (oProof owner)"

lemma proof_signs: "proof_ok ring Links (ownerInput e name owner) now v \<Longrightarrow> signs ring name owner e"
  by (simp add: proof_ok_def signs_def ownerInput_def)

context redis_commands
begin

lemma vaultCmd_kv:
  assumes "shelf_ok wf w" "fits c (view (clock w) (kvs w))"
  shows "\<exists>w'. vaultCmd srv (render c) (m, h, w) = (Inr (said c (view (clock w) (kvs w))), m, h, w') \<and>
    became view wf w (left (clock w) c (view (clock w) (kvs w))) w'"
  using shelf_cmd [OF assms] by (auto simp: vaultCmd_def)

lemma readRow_kv:
  assumes "shelf_ok wf w" "row_cell (view (clock w) (kvs w) (p @ rid))"
  shows "\<exists>w'. readRow srv p rid (m, h, w) = (Inr (rowAt (view (clock w) (kvs w)) (p @ rid)), m, h, w') \<and>
    became view wf w (view (clock w) (kvs w)) w'"
proof -
  obtain w' where "vaultCmd srv [''GET'', p @ rid] (m, h, w) = (Inr (str_reply (cell_str (view (clock w) (kvs w) (p @ rid)))), m, h, w')"
      "became view wf w (view (clock w) (kvs w)) w'"
    using vaultCmd_kv [OF assms(1), of "Get (p @ rid)" m h] row_cell_strish [OF assms(2)] by auto
  then show ?thesis using assms
    by (elim row_cellE) (auto simp: readRow_def worldOf_def shelf_ok_def rowAt_def str_reply_def Let_def)
qed

lemma writeRow_kv:
  assumes "shelf_ok wf w"
  shows "\<exists>w'. writeRow srv p rid r (m, h, w) = (if MAX_BOX_BYTES < length (showRow r) then Inl BoxTooLarge else Inr (), m, h, w') \<and>
    became view wf w (if MAX_BOX_BYTES < length (showRow r) then view (clock w) (kvs w)
      else (view (clock w) (kvs w))(p @ rid \<mapsto> (VStr (showRow r), None))) w'"
  using vaultCmd_kv [OF assms, of "Put (p @ rid) (showRow r)" m h] became_refl [OF assms] assms
  by (auto simp: writeRow_def worldOf_def shelf_ok_def Let_def)

lemma deleteRow_kv:
  assumes "shelf_ok wf w"
  shows "\<exists>w'. deleteRow srv p rid (m, h, w) = (Inr (), m, h, w') \<and> became view wf w ((view (clock w) (kvs w))(p @ rid := None)) w'"
  using vaultCmd_kv [OF assms, of "Drop (p @ rid)" m h] assms by (auto simp: deleteRow_def worldOf_def shelf_ok_def)

lemma verify_calm:
  assumes "shelf_ok wf w"
  shows "\<exists>r w' u. verifyHandleProof srv ring a inp (h, w) = (Inr r, h, w') \<and> became view wf w u w' \<and> calm (view (clock w) (kvs w)) u \<and>
    (r = None \<longleftrightarrow> proof_ok ring a inp (clock w) (view (clock w) (kvs w)))"
proof -
  obtain r w' u where v: "verifyHandleProof srv ring a inp (h, w) = (Inr r, h, w')" "became view wf w u w'"
      "r = None \<longleftrightarrow> proof_ok ring a inp (clock w) (view (clock w) (kvs w))"
    using verify_proof_kv [OF assms, of ring a inp h] by blast
  have "calm (view (clock w) (kvs w)) u"
  proof (cases "w' = w")
    case True
    then show ?thesis using v(2) by (simp add: became_def)
  next
    case False
    obtain msg where k: "kvSetNx srv (proofKey (digest ring msg)) ''1'' (Some PROOF_MEMORY_SEC) (h, w) = (Inr True, h, w') \<or>
        kvSetNx srv (proofKey (digest ring msg)) ''1'' (Some PROOF_MEMORY_SEC) (h, w) = (Inr False, h, w')"
      using v(1) False by (fastforce simp: verifyHandleProof_def proceed_def Let_def split: option.splits if_splits sum.splits prod.splits)
    obtain w1 where "kvSetNx srv (proofKey (digest ring msg)) ''1'' (Some PROOF_MEMORY_SEC) (h, w) = (Inr (view (clock w) (kvs w) (proofKey (digest ring msg)) = None), h, w1)"
        "became view wf w (if view (clock w) (kvs w) (proofKey (digest ring msg)) = None
           then (view (clock w) (kvs w))(proofKey (digest ring msg) \<mapsto> (VStr ''1'', endAt (clock w) (Some PROOF_MEMORY_SEC))) else view (clock w) (kvs w)) w1"
      using kvSetNx_kv [OF assms, of "Some PROOF_MEMORY_SEC" "proofKey (digest ring msg)" "''1''" h] by auto
    then show ?thesis using k v(2) by (auto simp: became_def calm_def)
  qed
  then show ?thesis using v by blast
qed

text \<open>An owner proof verifies only with the account's signature over the name.\<close>

lemma owner_kv:
  assumes "shelf_ok wf w"
  shows "\<exists>r w' u. verifyOwner srv ring name owner (m, h, w) = (Inr r, m, h, w') \<and> became view wf w u w' \<and> calm (view (clock w) (kvs w)) u \<and>
    (\<forall>x. r = Inr x \<longrightarrow> x = ownerHashOf ring (oPubkey owner)) \<and>
    ((\<exists>x. r = Inr x) \<longleftrightarrow> proof_ok ring Links (ownerInput (env w) name owner) (clock w) (view (clock w) (kvs w)))"
proof -
  obtain r w' u where "verifyHandleProof srv ring Links (ownerInput (env w) name owner) (h, w) = (Inr r, h, w')" "became view wf w u w'"
      "calm (view (clock w) (kvs w)) u" "r = None \<longleftrightarrow> proof_ok ring Links (ownerInput (env w) name owner) (clock w) (view (clock w) (kvs w))"
    using verify_calm [OF assms] by blast
  then show ?thesis by (cases r) (auto simp: verifyOwner_def)
qed

text \<open>What the email row of a write becomes: the identifier, the box and the hash it is bound to; \<open>None\<close> when it is refused.\<close>

end

definition signed_hash :: "keyring \<Rightarrow> environ \<Rightarrow> int \<Rightarrow> string \<Rightarrow> owner_proof option \<Rightarrow> kv_view \<Rightarrow> string option option" where
  "signed_hash ring e now name owner v = (case owner of None \<Rightarrow> Some None
     | Some o' \<Rightarrow> if proof_ok ring Links (ownerInput e name o') now v then Some (Some (ownerHashOf ring (oPubkey o'))) else None)"

definition may_put :: "keyring \<Rightarrow> environ \<Rightarrow> int \<Rightarrow> json option \<Rightarrow> json option \<Rightarrow> owner_proof option \<Rightarrow> bool \<Rightarrow> kv_view \<Rightarrow> (string \<times> stored_row) option" where
  "may_put ring e now rawId rawBox owner agreed v = (case (validateId rawId, validateBox rawBox) of
       (Inr rid, Inr b) \<Rightarrow> (case signed_hash ring e now rid owner v of None \<Rightarrow> None
         | Some oh \<Rightarrow> if putRefusal (rowAt v (KEY_EMAIL @ rid)) oh agreed e = None \<and> length (showRow (ownedRow b oh)) \<le> MAX_BOX_BYTES
             then Some (rid, ownedRow b oh) else None)
     | _ \<Rightarrow> None)"

text \<open>A write's answer and what it leaves: the granted row and nothing else, or nothing at all.\<close>

definition put_post :: "(string \<times> stored_row) option \<Rightarrow> kv_view \<Rightarrow> vault_error + bool \<Rightarrow> kv_view \<Rightarrow> bool" where
  "put_post granted v r u \<longleftrightarrow> (\<exists>c. calm v c \<and> (case granted of
       None \<Rightarrow> u = c \<and> (\<exists>x. r = Inl x)
     | Some (rid, row) \<Rightarrow> u = c(KEY_EMAIL @ rid \<mapsto> (VStr (showRow row), None)) \<and> r = Inr (rowOwner row \<noteq> None)))"

definition real_digest :: "keyring \<Rightarrow> bool" where
  "real_digest ring \<longleftrightarrow> (\<forall>x. digest ring x \<noteq> [])"

lemma ownedRow_typed: "real_digest ring \<Longrightarrow> ciphertext_box b \<Longrightarrow> oh = None \<or> oh = Some (ownerHashOf ring k) \<Longrightarrow> row_typed (ownedRow b oh)"
  by (auto simp: row_typed_def ownedRow_def ownerHashOf_def real_digest_def)

lemma validateId_Inr: "validateId raw = Inr rid \<longleftrightarrow> raw = Some (JStr rid) \<and> lowerHex 64 rid"
  by (auto simp: validateId_def split: option.splits json.splits)

lemma validateBox_Inr: "validateBox raw = Inr b \<longleftrightarrow> raw = Some b \<and> ciphertext_box b"
  by (cases raw) (auto simp: validateBox_def boxError_None [symmetric] boxError_def split: option.splits)

lemma may_put_typed:
  "may_put ring e now rawId rawBox owner agreed v = Some (rid, row) \<Longrightarrow> real_digest ring \<Longrightarrow> row_typed row \<and> lowerHex 64 rid"
  by (auto simp: may_put_def validateId_Inr validateBox_Inr signed_hash_def split: sum.splits option.splits if_splits intro: ownedRow_typed)

lemma ownedRow_owner [simp]: "rowOwner (ownedRow b oh) = map_option JStr oh" "rowBox (ownedRow b oh) = b"
  by (simp_all add: ownedRow_def)

context redis_commands
begin

lemma storeBox_kv:
  assumes "shelf_ok wf w"
  shows "\<exists>r w' u. storeBox srv rid b oh agreed existing (m, h, w) = (r, m, h, w') \<and> became view wf w u w' \<and>
    (if putRefusal existing oh agreed (env w) = None \<and> length (showRow (ownedRow b oh)) \<le> MAX_BOX_BYTES
     then r = Inr (oh \<noteq> None) \<and> u = (view (clock w) (kvs w))(KEY_EMAIL @ rid \<mapsto> (VStr (showRow (ownedRow b oh)), None))
     else u = view (clock w) (kvs w) \<and> (\<exists>x. r = Inl x))"
proof (cases "putRefusal existing oh agreed (env w)")
  case None
  then show ?thesis using writeRow_kv [OF assms, of KEY_EMAIL rid "ownedRow b oh" m h]
    by (cases "MAX_BOX_BYTES < length (showRow (ownedRow b oh))") (auto simp: storeBox_def worldOf_def)
next
  case (Some x)
  then show ?thesis using became_refl [OF assms] by (auto simp: storeBox_def worldOf_def)
qed

lemma ownerHashFrom_kv:
  assumes "shelf_ok wf w"
  shows "\<exists>r w' u. ownerHashFrom srv ring rid owner (m, h, w) = (r, m, h, w') \<and> became view wf w u w' \<and> calm (view (clock w) (kvs w)) u \<and>
    (case signed_hash ring (env w) (clock w) rid owner (view (clock w) (kvs w)) of None \<Rightarrow> (\<exists>x. r = Inl x) | Some oh \<Rightarrow> r = Inr oh)"
proof (cases owner)
  case None
  then show ?thesis using became_refl [OF assms] calm_refl by (fastforce simp: ownerHashFrom_def signed_hash_def)
next
  case (Some o')
  obtain r w' u where r: "verifyOwner srv ring rid o' (m, h, w) = (Inr r, m, h, w')" "became view wf w u w'" "calm (view (clock w) (kvs w)) u"
      "\<forall>x. r = Inr x \<longrightarrow> x = ownerHashOf ring (oPubkey o')"
      "(\<exists>x. r = Inr x) \<longleftrightarrow> proof_ok ring Links (ownerInput (env w) rid o') (clock w) (view (clock w) (kvs w))"
    using owner_kv [OF assms] by blast
  then show ?thesis using Some by (cases r) (auto simp: ownerHashFrom_def signed_hash_def)
qed

lemma putBox_kv:
  assumes "shelf_ok wf w" "vault_ok (view (clock w) (kvs w))"
  shows "\<exists>r w' u. putBox srv ring rawId rawBox owner agreed (m, h, w) = (r, m, h, w') \<and> became view wf w u w' \<and>
    put_post (may_put ring (env w) (clock w) rawId rawBox owner agreed (view (clock w) (kvs w))) (view (clock w) (kvs w)) r u"
proof (cases "validateId rawId")
  case (Inl x)
  then show ?thesis using became_refl [OF assms(1)] by (fastforce simp: putBox_def checked_def put_post_def may_put_def)
next
  case i: (Inr rid)
  then have hex: "lowerHex 64 rid" by (simp add: validateId_Inr)
  show ?thesis
  proof (cases "validateBox rawBox")
    case (Inl x)
    then show ?thesis using i became_refl [OF assms(1)] by (fastforce simp: putBox_def checked_def put_post_def may_put_def)
  next
    case b: (Inr b)
    let ?v = "view (clock w) (kvs w)"
    obtain r1 w1 u1 where o: "ownerHashFrom srv ring rid owner (m, h, w) = (r1, m, h, w1)" "became view wf w u1 w1" "calm ?v u1"
        "case signed_hash ring (env w) (clock w) rid owner ?v of None \<Rightarrow> (\<exists>x. r1 = Inl x) | Some oh \<Rightarrow> r1 = Inr oh"
      using ownerHashFrom_kv [OF assms(1)] by blast
    note b1 = becameD [OF o(2)]
    show ?thesis
    proof (cases "signed_hash ring (env w) (clock w) rid owner ?v")
      case None
      then show ?thesis using o i b by (fastforce simp: putBox_def checked_def put_post_def may_put_def)
    next
      case (Some oh)
      then have r1: "r1 = Inr oh" using o(4) by simp
      have "row_cell (view (clock w1) (kvs w1) (KEY_EMAIL @ rid))"
        using vault_okD(1) [OF assms(2) _ hex, of KEY_EMAIL] by (simp add: b1(4) calmD [OF o(3)] prefixes_def)
      then obtain w2 where w2: "readRow srv KEY_EMAIL rid (m, h, w1) = (Inr (rowAt u1 (KEY_EMAIL @ rid)), m, h, w2)" "became view wf w1 u1 w2"
        using readRow_kv [OF b1(1), of KEY_EMAIL rid m h] by (auto simp: b1(4))
      note b2 = becameD [OF w2(2)]
      have row: "rowAt u1 (KEY_EMAIL @ rid) = rowAt ?v (KEY_EMAIL @ rid)" by (rule rowAt_same) (rule calmD(1) [OF o(3)])
      obtain r3 w3 u3 where w3: "storeBox srv rid b oh agreed (rowAt ?v (KEY_EMAIL @ rid)) (m, h, w2) = (r3, m, h, w3)" "became view wf w2 u3 w3"
          "if putRefusal (rowAt ?v (KEY_EMAIL @ rid)) oh agreed (env w2) = None \<and> length (showRow (ownedRow b oh)) \<le> MAX_BOX_BYTES
           then r3 = Inr (oh \<noteq> None) \<and> u3 = (view (clock w2) (kvs w2))(KEY_EMAIL @ rid \<mapsto> (VStr (showRow (ownedRow b oh)), None))
           else u3 = view (clock w2) (kvs w2) \<and> (\<exists>x. r3 = Inl x)"
        using storeBox_kv [OF b2(1)] by blast
      have "became view wf w u3 w3" using became_trans [OF became_trans [OF w3(2) w2(2)] o(2)] .
      moreover have "putBox srv ring rawId rawBox owner agreed (m, h, w) = (r3, m, h, w3)"
        using i b o(1) r1 w2(1) w3(1) row by (simp add: putBox_def checked_def)
      moreover have "put_post (may_put ring (env w) (clock w) rawId rawBox owner agreed ?v) ?v r3 u3"
        using w3(3) [unfolded b2(4) b2(3) b1(3)] o(3) Some i b by (auto simp: put_post_def may_put_def)
      ultimately show ?thesis by blast
    qed
  qed
qed

lemma readKnown:
  assumes "shelf_ok wf w" "vault_ok (view (clock w) (kvs w))" "p \<in> prefixes" "lowerHex 64 rid"
  shows "\<exists>w'. readRow srv p rid (m, h, w) = (Inr (rowAt (view (clock w) (kvs w)) (p @ rid)), m, h, w') \<and>
    became view wf w (view (clock w) (kvs w)) w'"
  using readRow_kv [OF assms(1) vault_okD(1) [OF assms(2-4)]] .

text \<open>A release deletes the row only for the account it is bound to; a check only reads.\<close>

lemma releaseBox_kv:
  assumes "shelf_ok wf w" "vault_ok (view (clock w) (kvs w))"
  shows "\<exists>r w' u. releaseBox srv ring rawId owner (m, h, w) = (r, m, h, w') \<and> became view wf w u w' \<and>
    (\<exists>c. calm (view (clock w) (kvs w)) c \<and> (u = c \<and> r \<noteq> Inr (Inr True) \<or>
       (\<exists>rid row. rawId = Some (JStr rid) \<and> lowerHex 64 rid \<and> rowAt (view (clock w) (kvs w)) (KEY_EMAIL @ rid) = Some row \<and>
          rowOwner row = Some (JStr (ownerHashOf ring (oPubkey owner))) \<and> signs ring (''release:'' @ rid) owner (env w) \<and>
          u = c(KEY_EMAIL @ rid := None) \<and> r = Inr (Inr True))))"
proof (cases "validateId rawId")
  case (Inl x)
  then show ?thesis using became_refl [OF assms(1)] calm_refl by (fastforce simp: releaseBox_def checked_def)
next
  case i: (Inr rid)
  then have hex: "lowerHex 64 rid" "rawId = Some (JStr rid)" by (simp_all add: validateId_Inr)
  let ?v = "view (clock w) (kvs w)"
  obtain r1 w1 u1 where o: "verifyOwner srv ring (''release:'' @ rid) owner (m, h, w) = (Inr r1, m, h, w1)" "became view wf w u1 w1" "calm ?v u1"
      "\<forall>x. r1 = Inr x \<longrightarrow> x = ownerHashOf ring (oPubkey owner)"
      "(\<exists>x. r1 = Inr x) \<longleftrightarrow> proof_ok ring Links (ownerInput (env w) (''release:'' @ rid) owner) (clock w) ?v"
    using owner_kv [OF assms(1)] by blast
  note b1 = becameD [OF o(2)]
  show ?thesis
  proof (cases r1)
    case (Inl x)
    then show ?thesis using i o by (fastforce simp: releaseBox_def checked_def)
  next
    case (Inr x)
    then have x: "x = ownerHashOf ring (oPubkey owner)" and sg: "signs ring (''release:'' @ rid) owner (env w)"
      using o(4,5) proof_signs by blast+
    have v1: "vault_ok (view (clock w1) (kvs w1))" unfolding b1(4) by (rule calm_ok [OF o(3) assms(2)])
    obtain w2 where w2: "readRow srv KEY_EMAIL rid (m, h, w1) = (Inr (rowAt u1 (KEY_EMAIL @ rid)), m, h, w2)" "became view wf w1 u1 w2"
      using readKnown [OF b1(1) v1 _ hex(1), of KEY_EMAIL m h] unfolding b1(4) by (auto simp: prefixes_def)
    note b2 = becameD [OF w2(2)]
    have row: "rowAt u1 (KEY_EMAIL @ rid) = rowAt ?v (KEY_EMAIL @ rid)" by (rule rowAt_same) (rule calmD(1) [OF o(3)])
    have b12: "became view wf w u1 w2" using became_trans [OF w2(2) o(2)] .
    show ?thesis
    proof (cases "\<exists>r. rowAt ?v (KEY_EMAIL @ rid) = Some r \<and> rowOwner r = Some (JStr x)")
      case True
      obtain w3 where w3: "deleteRow srv KEY_EMAIL rid (m, h, w2) = (Inr (), m, h, w3)" "became view wf w2 (u1(KEY_EMAIL @ rid := None)) w3"
        using deleteRow_kv [OF b2(1), of KEY_EMAIL rid m h] unfolding b2(4) by blast
      have "releaseBox srv ring rawId owner (m, h, w) = (Inr (Inr True), m, h, w3)"
        using True i o(1) Inr w2(1) w3(1) row by (auto simp: releaseBox_def checked_def)
      then show ?thesis using became_trans [OF w3(2) b12] o(3) True hex x sg by blast
    next
      case False
      have "releaseBox srv ring rawId owner (m, h, w) = (Inr (Inr False), m, h, w2)"
        using False i o(1) Inr w2(1) row by (auto simp: releaseBox_def checked_def split: option.splits)
      then show ?thesis using b12 o(3) by blast
    qed
  qed
qed

lemma checkMine_kv:
  assumes "shelf_ok wf w" "vault_ok (view (clock w) (kvs w))"
  shows "\<exists>r w' u. checkMine srv ring rawId owner (m, h, w) = (r, m, h, w') \<and> became view wf w u w' \<and> calm (view (clock w) (kvs w)) u"
proof (cases "validateId rawId")
  case (Inl x)
  then show ?thesis using became_refl [OF assms(1)] calm_refl by (fastforce simp: checkMine_def checked_def)
next
  case i: (Inr rid)
  then have hex: "lowerHex 64 rid" by (simp add: validateId_Inr)
  obtain r1 w1 u1 where o: "verifyOwner srv ring (''check:'' @ rid) owner (m, h, w) = (Inr r1, m, h, w1)" "became view wf w u1 w1"
      "calm (view (clock w) (kvs w)) u1"
    using owner_kv [OF assms(1)] by blast
  note b1 = becameD [OF o(2)]
  have v1: "vault_ok (view (clock w1) (kvs w1))" unfolding b1(4) by (rule calm_ok [OF o(3) assms(2)])
  obtain w2 where w2: "readRow srv KEY_EMAIL rid (m, h, w1) = (Inr (rowAt u1 (KEY_EMAIL @ rid)), m, h, w2)" "became view wf w1 u1 w2"
    using readKnown [OF b1(1) v1 _ hex, of KEY_EMAIL m h] unfolding b1(4) by (auto simp: prefixes_def)
  have "became view wf w u1 w2" using became_trans [OF w2(2) o(2)] .
  then show ?thesis using i o w2(1) by (cases r1) (auto simp: checkMine_def checked_def)
qed

text \<open>The reads change nothing, and answer the row.\<close>

lemma getBoxAt_kv:
  assumes "shelf_ok wf w" "vault_ok (view (clock w) (kvs w))" "p \<in> prefixes"
  shows "\<exists>w'. getBoxAt srv p rawId (m, h, w) = ((case validateId rawId of Inl x \<Rightarrow> Inl x
      | Inr rid \<Rightarrow> Inr (map_option rowBox (rowAt (view (clock w) (kvs w)) (p @ rid)))), m, h, w') \<and> became view wf w (view (clock w) (kvs w)) w'"
proof (cases "validateId rawId")
  case (Inr rid)
  then have "lowerHex 64 rid" by (simp add: validateId_Inr)
  then show ?thesis using Inr readKnown [OF assms, of rid m h] by (auto simp: getBoxAt_def checked_def)
qed (use became_refl [OF assms(1)] in \<open>auto simp: getBoxAt_def checked_def\<close>)

lemma getBoxState_kv:
  assumes "shelf_ok wf w" "vault_ok (view (clock w) (kvs w))"
  shows "\<exists>r w'. getBoxState srv rawId (m, h, w) = (r, m, h, w') \<and> became view wf w (view (clock w) (kvs w)) w'"
proof (cases "validateId rawId")
  case (Inr rid)
  then have "lowerHex 64 rid" by (simp add: validateId_Inr)
  then show ?thesis using Inr readKnown [OF assms, of KEY_EMAIL rid m h] by (auto simp: getBoxState_def checked_def prefixes_def)
qed (use became_refl [OF assms(1)] in \<open>auto simp: getBoxState_def checked_def\<close>)

lemma isBoundTo_kv:
  assumes "shelf_ok wf w" "vault_ok (view (clock w) (kvs w))"
  shows "\<exists>r w'. isBoundTo srv ring rawId pk (m, h, w) = (r, m, h, w') \<and> became view wf w (view (clock w) (kvs w)) w'"
proof (cases "validateId rawId")
  case (Inr rid)
  then have "lowerHex 64 rid" by (simp add: validateId_Inr)
  then show ?thesis using Inr readKnown [OF assms, of KEY_EMAIL rid m h]
    by (auto simp: isBoundTo_def rowState_def checked_def prefixes_def split: option.splits)
qed (use became_refl [OF assms(1)] in \<open>auto simp: isBoundTo_def rowState_def checked_def\<close>)

text \<open>An alias write needs the proof the row already records, when it records one.\<close>

lemma aliasWriteCheck_kv:
  assumes "shelf_ok wf w" "vault_ok (view (clock w) (kvs w))"
  shows "\<exists>r w'. aliasWriteCheck srv ring rawId rawProof (m, h, w) = (r, m, h, w') \<and> became view wf w (view (clock w) (kvs w)) w' \<and>
    (\<forall>rid x. r = Inr (rid, x) \<longrightarrow> rawId = Some (JStr rid) \<and> lowerHex 64 rid \<and>
       (\<exists>t. rawProof = Some (JStr t) \<and> x = digest ring t) \<and>
       (\<forall>row y. rowAt (view (clock w) (kvs w)) (KEY_ALIAS @ rid) = Some row \<longrightarrow> rowProof row = Some y \<longrightarrow> y = JStr x))"
proof (cases "validateId rawId")
  case (Inl x)
  then show ?thesis using became_refl [OF assms(1)] by (auto simp: aliasWriteCheck_def checked_def)
next
  case i: (Inr rid)
  then have hex: "lowerHex 64 rid" "rawId = Some (JStr rid)" by (simp_all add: validateId_Inr)
  show ?thesis
  proof (cases "hexText rawProof")
    case None
    then show ?thesis using i became_refl [OF assms(1)] by (auto simp: aliasWriteCheck_def checked_def)
  next
    case (Some t)
    then have t: "rawProof = Some (JStr t)" by (auto simp: hexText_def split: option.splits json.splits if_splits)
    let ?row = "rowAt (view (clock w) (kvs w)) (KEY_ALIAS @ rid)"
    obtain w' where w': "readRow srv KEY_ALIAS rid (m, h, w) = (Inr ?row, m, h, w')" "became view wf w (view (clock w) (kvs w)) w'"
      using readKnown [OF assms _ hex(1), of KEY_ALIAS m h] by (auto simp: prefixes_def)
    have "jsTruthy (rowProof row)" if "?row = Some row" "rowProof row = Some y" for row y
      using rowAt_typed [OF assms(2) _ hex(1) that(1)] that(2) hash_typed_truthy by (auto simp: prefixes_def row_typed_def)
    then show ?thesis using i w' hex t Some
      by (auto simp: aliasWriteCheck_def checked_def Let_def split: option.splits)
  qed
qed

lemma putAliasBox_kv:
  assumes "shelf_ok wf w" "vault_ok (view (clock w) (kvs w))"
  shows "\<exists>r w' u. putAliasBox srv ring rawId rawBox rawProof (m, h, w) = (r, m, h, w') \<and> became view wf w u w' \<and>
    (u = view (clock w) (kvs w) \<or> (\<exists>rid t b. rawId = Some (JStr rid) \<and> lowerHex 64 rid \<and> rawProof = Some (JStr t) \<and> ciphertext_box b \<and>
       (\<forall>row y. rowAt (view (clock w) (kvs w)) (KEY_ALIAS @ rid) = Some row \<longrightarrow> rowProof row = Some y \<longrightarrow> y = JStr (digest ring t)) \<and>
       u = (view (clock w) (kvs w))(KEY_ALIAS @ rid \<mapsto> (VStr (showRow (aliasRow b (digest ring t))), None))))"
proof (cases "validateBox rawBox")
  case (Inl x)
  then show ?thesis using became_refl [OF assms(1)] by (auto simp: putAliasBox_def checked_def)
next
  case b: (Inr b)
  obtain r1 w1 where c: "aliasWriteCheck srv ring rawId rawProof (m, h, w) = (r1, m, h, w1)" "became view wf w (view (clock w) (kvs w)) w1"
      "\<forall>rid x. r1 = Inr (rid, x) \<longrightarrow> rawId = Some (JStr rid) \<and> lowerHex 64 rid \<and> (\<exists>t. rawProof = Some (JStr t) \<and> x = digest ring t) \<and>
       (\<forall>row y. rowAt (view (clock w) (kvs w)) (KEY_ALIAS @ rid) = Some row \<longrightarrow> rowProof row = Some y \<longrightarrow> y = JStr x)"
    using aliasWriteCheck_kv [OF assms] by blast
  show ?thesis
  proof (cases r1)
    case (Inl x)
    then show ?thesis using b c by (auto simp: putAliasBox_def checked_def)
  next
    case (Inr y)
    obtain rid x where y: "y = (rid, x)" by (cases y)
    note b1 = becameD [OF c(2)]
    obtain w2 where w2: "writeRow srv KEY_ALIAS rid (aliasRow b x) (m, h, w1) =
          (if MAX_BOX_BYTES < length (showRow (aliasRow b x)) then Inl BoxTooLarge else Inr (), m, h, w2)"
        "became view wf w1 (if MAX_BOX_BYTES < length (showRow (aliasRow b x)) then view (clock w) (kvs w)
          else (view (clock w) (kvs w))(KEY_ALIAS @ rid \<mapsto> (VStr (showRow (aliasRow b x)), None))) w2"
      using writeRow_kv [OF b1(1), of KEY_ALIAS rid "aliasRow b x" m h] unfolding b1(4) by blast
    have p: "putAliasBox srv ring rawId rawBox rawProof (m, h, w) =
        (if MAX_BOX_BYTES < length (showRow (aliasRow b x)) then Inl BoxTooLarge else Inr (), m, h, w2)"
      using b c(1) Inr y w2(1) by (simp add: putAliasBox_def checked_def)
    have "ciphertext_box b" using b by (simp add: validateBox_Inr)
    moreover obtain t where "rawId = Some (JStr rid)" "lowerHex 64 rid" "rawProof = Some (JStr t)" "x = digest ring t"
        "\<forall>row y. rowAt (view (clock w) (kvs w)) (KEY_ALIAS @ rid) = Some row \<longrightarrow> rowProof row = Some y \<longrightarrow> y = JStr x"
      using c(3) Inr y by blast
    ultimately show ?thesis using p became_trans [OF w2(2) c(2)]
      by (cases "MAX_BOX_BYTES < length (showRow (aliasRow b x))") auto
  qed
qed

lemma assertAlias_kv:
  assumes "shelf_ok wf w" "vault_ok (view (clock w) (kvs w))"
  shows "\<exists>r w'. assertAliasWritable srv ring rawId rawProof (m, h, w) = (r, m, h, w') \<and> became view wf w (view (clock w) (kvs w)) w'"
proof -
  obtain r1 w1 where "aliasWriteCheck srv ring rawId rawProof (m, h, w) = (r1, m, h, w1)" "became view wf w (view (clock w) (kvs w)) w1"
    using aliasWriteCheck_kv [OF assms] by blast
  then show ?thesis by (cases r1) (auto simp: assertAliasWritable_def)
qed

text \<open>A ticket is one string cell: minting sets it for ten minutes, presenting it takes it away.\<close>

lemma mintTicket_kv:
  assumes "shelf_ok wf w"
  shows "\<exists>w'. mintRecoveryTicket srv random rawId (m, h, w) = ((case validateId rawId of Inl x \<Rightarrow> Inl x | Inr rid \<Rightarrow> Inr random), m, h, w') \<and>
    became view wf w (case validateId rawId of Inl x \<Rightarrow> view (clock w) (kvs w)
      | Inr rid \<Rightarrow> (view (clock w) (kvs w))(KEY_TICKET @ random \<mapsto> (VStr rid, Some (clock w + RECOVERY_TICKET_TTL_SEC * 1000)))) w'"
proof (cases "validateId rawId")
  case (Inr rid)
  have "0 < RECOVERY_TICKET_TTL_SEC" by (simp add: RECOVERY_TICKET_TTL_SEC_def)
  then show ?thesis using Inr vaultCmd_kv [OF assms, of "PutFor (KEY_TICKET @ random) rid RECOVERY_TICKET_TTL_SEC" m h] assms
    by (auto simp: mintRecoveryTicket_def checked_def worldOf_def shelf_ok_def)
qed (use became_refl [OF assms] in \<open>auto simp: mintRecoveryTicket_def checked_def\<close>)

lemma consumeTicket_kv:
  assumes "shelf_ok wf w" "strish (view (clock w) (kvs w) (KEY_TICKET @ t))" "lowerHex 64 t" "lowerHex 64 rid"
  shows "\<exists>w'. consumeRecoveryTicket srv (Some (JStr t)) (Some (JStr rid)) (m, h, w) =
      (Inr (cell_str (view (clock w) (kvs w) (KEY_TICKET @ t)) = Some rid), m, h, w') \<and>
    became view wf w ((view (clock w) (kvs w))(KEY_TICKET @ t := None)) w'"
  using shelf_cmd [OF assms(1), of "Take (KEY_TICKET @ t)"] assms
  by (auto simp: consumeRecoveryTicket_def hexText_def worldOf_def shelf_ok_def str_reply_def split: option.splits)

lemma consumeTicket_any:
  assumes "shelf_ok wf w" "vault_ok (view (clock w) (kvs w))"
  shows "\<exists>r w' u. consumeRecoveryTicket srv rawTicket rawId (m, h, w) = (r, m, h, w') \<and> became view wf w u w' \<and>
    (u = view (clock w) (kvs w) \<or> (\<exists>t. u = (view (clock w) (kvs w))(KEY_TICKET @ t := None)))"
proof (cases "hexText rawTicket = None \<or> hexText rawId = None")
  case True
  then show ?thesis using became_refl [OF assms(1)] by (auto simp: consumeRecoveryTicket_def split: option.splits)
next
  case False
  then obtain t rid where x: "rawTicket = Some (JStr t)" "lowerHex 64 t" "rawId = Some (JStr rid)" "lowerHex 64 rid"
    by (auto simp: hexText_def split: option.splits json.splits if_splits)
  show ?thesis using consumeTicket_kv [OF assms(1) vault_okD(2) [OF assms(2)] x(2,4), of m h] unfolding x(1,3) by blast
qed

end

subsection \<open>Histories\<close>

datatype vault_op =
    VPut "json option" "json option" "owner_proof option" bool | VRelease "json option" owner_proof | VCheck "json option" owner_proof
  | VGet "json option" | VState "json option" | VBound "json option" string
  | VAlias "json option" "json option" "json option" | VAliasCheck "json option" "json option" | VGetAlias "json option"
  | VMint string "json option" | VSpend "json option" "json option" | VWait int

fun vault_do :: "'k server \<Rightarrow> keyring \<Rightarrow> vault_op \<Rightarrow> 'k vault \<Rightarrow> 'k vault" where
  "vault_do srv ring (VPut i b owner agreed) st = snd (putBox srv ring i b owner agreed st)"
| "vault_do srv ring (VRelease i owner) st = snd (releaseBox srv ring i owner st)"
| "vault_do srv ring (VCheck i owner) st = snd (checkMine srv ring i owner st)"
| "vault_do srv ring (VGet i) st = snd (getBox srv i st)"
| "vault_do srv ring (VState i) st = snd (getBoxState srv i st)"
| "vault_do srv ring (VBound i pk) st = snd (isBoundTo srv ring i pk st)"
| "vault_do srv ring (VAlias i b t) st = snd (putAliasBox srv ring i b t st)"
| "vault_do srv ring (VAliasCheck i t) st = snd (assertAliasWritable srv ring i t st)"
| "vault_do srv ring (VGetAlias i) st = snd (getAliasBox srv i st)"
| "vault_do srv ring (VMint random i) st = snd (mintRecoveryTicket srv random i st)"
| "vault_do srv ring (VSpend t i) st = snd (consumeRecoveryTicket srv t i st)"
| "vault_do srv ring (VWait ms) st = (case st of (m, h, w) \<Rightarrow> (m, h, w\<lparr>clock := clock w + max 0 ms\<rparr>))"

text \<open>The operations that may change a row: those signed for it by the account behind the hash \<open>x\<close>, and those that present
  the alias proof behind it.\<close>

fun acts_for :: "keyring \<Rightarrow> environ \<Rightarrow> string \<Rightarrow> string \<Rightarrow> vault_op \<Rightarrow> bool" where
  "acts_for ring e rid x (VPut i b owner agreed) \<longleftrightarrow> i = Some (JStr rid) \<and>
     (case owner of None \<Rightarrow> False | Some o' \<Rightarrow> ownerHashOf ring (oPubkey o') = x \<and> signs ring rid o' e)"
| "acts_for ring e rid x (VRelease i owner) \<longleftrightarrow> i = Some (JStr rid) \<and> ownerHashOf ring (oPubkey owner) = x \<and> signs ring (''release:'' @ rid) owner e"
| "acts_for ring e rid x op \<longleftrightarrow> False"

fun presents :: "keyring \<Rightarrow> string \<Rightarrow> string \<Rightarrow> vault_op \<Rightarrow> bool" where
  "presents ring rid x (VAlias i b t) \<longleftrightarrow> i = Some (JStr rid) \<and> (\<exists>s. t = Some (JStr s) \<and> digest ring s = x)"
| "presents ring rid x op \<longleftrightarrow> False"

text \<open>What one operation may do to the rows.\<close>

definition rows_kept :: "keyring \<Rightarrow> environ \<Rightarrow> vault_op \<Rightarrow> kv_view \<Rightarrow> kv_view \<Rightarrow> bool" where
  "rows_kept ring e op v u \<longleftrightarrow> (\<forall>rid r x. lowerHex 64 rid \<longrightarrow> rowAt v (KEY_EMAIL @ rid) = Some r \<longrightarrow> rowOwner r = Some (JStr x) \<longrightarrow> x \<noteq> [] \<longrightarrow>
       \<not> acts_for ring e rid x op \<longrightarrow> rowAt u (KEY_EMAIL @ rid) = Some r) \<and>
     (\<forall>rid r x. lowerHex 64 rid \<longrightarrow> rowAt v (KEY_ALIAS @ rid) = Some r \<longrightarrow> rowProof r = Some (JStr x) \<longrightarrow>
       \<not> presents ring rid x op \<longrightarrow> rowAt u (KEY_ALIAS @ rid) = Some r)"

lemma kept_same: "(\<And>a. u (KEY_EMAIL @ a) = v (KEY_EMAIL @ a)) \<Longrightarrow> (\<And>a. u (KEY_ALIAS @ a) = v (KEY_ALIAS @ a)) \<Longrightarrow> rows_kept ring e op v u"
  by (simp add: rows_kept_def rowAt_def)

lemma kept_calm: "calm v u \<Longrightarrow> rows_kept ring e op v u"
  by (rule kept_same) (simp_all add: calmD)

lemma granted_acts:
  assumes "may_put ring e now i b owner agreed v = Some (rid, row)" "rowAt v (KEY_EMAIL @ rid) = Some r" "rowOwner r = Some (JStr x)" "x \<noteq> []"
  shows "acts_for ring e rid x (VPut i b owner agreed)"
proof -
  have t: "jsTruthy (rowOwner r)" using assms(3,4) by (simp add: jsTruthy_def)
  obtain bx oh where "validateId i = Inr rid" "validateBox b = Inr bx" "signed_hash ring e now rid owner v = Some oh" "putRefusal (Some r) oh agreed e = None"
    using assms(1,2) by (auto simp: may_put_def split: sum.splits option.splits if_splits)
  moreover from this(4) t assms(3) have "oh = Some x" by (auto simp: putRefusal_def split: if_splits)
  ultimately show ?thesis using proof_signs
    by (auto simp: validateId_Inr signed_hash_def split: option.splits if_splits)
qed

context redis_commands
begin

lemma put_kept:
  assumes "vault_world view wf w" "real_digest ring"
  shows "\<exists>w' u. vault_do srv ring (VPut i b owner agreed) (m, h, w) = (m, h, w') \<and> became view wf w u w' \<and> vault_ok u \<and>
    rows_kept ring (env w) (VPut i b owner agreed) (view (clock w) (kvs w)) u"
proof -
  let ?v = "view (clock w) (kvs w)" and ?op = "VPut i b owner agreed"
  have ok: "shelf_ok wf w" "vault_ok ?v" using assms(1) by (simp_all add: vault_world_def)
  obtain r w' u where p: "putBox srv ring i b owner agreed (m, h, w) = (r, m, h, w')" "became view wf w u w'"
      "put_post (may_put ring (env w) (clock w) i b owner agreed ?v) ?v r u"
    using putBox_kv [OF ok] by blast
  have "vault_ok u \<and> rows_kept ring (env w) ?op ?v u"
  proof (cases "may_put ring (env w) (clock w) i b owner agreed ?v")
    case None
    then show ?thesis using p(3) calm_ok [OF _ ok(2)] kept_calm by (auto simp: put_post_def)
  next
    case (Some g)
    obtain rid row where g: "g = (rid, row)" by (cases g)
    then have typed: "row_typed row" using may_put_typed Some assms(2) by blast
    obtain c where c: "calm ?v c" "u = c(KEY_EMAIL @ rid \<mapsto> (VStr (showRow row), None))" using p(3) Some g by (auto simp: put_post_def)
    have "vault_ok u" unfolding c(2) by (rule ok_row [OF calm_ok [OF c(1) ok(2)]]) (simp_all add: prefixes_def typed)
    moreover have "rowAt u (KEY_EMAIL @ a) = rowAt ?v (KEY_EMAIL @ a)" if "a \<noteq> rid" for a
      by (rule rowAt_same) (simp add: c(2) that calmD [OF c(1)])
    moreover have "rowAt u (KEY_ALIAS @ a) = rowAt ?v (KEY_ALIAS @ a)" for a
      by (rule rowAt_same) (simp add: c(2) calmD [OF c(1)])
    ultimately show ?thesis using granted_acts [OF Some [unfolded g]] unfolding rows_kept_def by metis
  qed
  then show ?thesis using p(1,2) by auto
qed

lemma release_kept:
  assumes "vault_world view wf w"
  shows "\<exists>w' u. vault_do srv ring (VRelease i owner) (m, h, w) = (m, h, w') \<and> became view wf w u w' \<and> vault_ok u \<and>
    rows_kept ring (env w) (VRelease i owner) (view (clock w) (kvs w)) u"
proof -
  let ?v = "view (clock w) (kvs w)" and ?op = "VRelease i owner"
  have ok: "shelf_ok wf w" "vault_ok ?v" using assms(1) by (simp_all add: vault_world_def)
  obtain r w' u c where p: "releaseBox srv ring i owner (m, h, w) = (r, m, h, w')" "became view wf w u w'" "calm ?v c"
      "u = c \<and> r \<noteq> Inr (Inr True) \<or> (\<exists>rid row. i = Some (JStr rid) \<and> lowerHex 64 rid \<and> rowAt ?v (KEY_EMAIL @ rid) = Some row \<and>
         rowOwner row = Some (JStr (ownerHashOf ring (oPubkey owner))) \<and> signs ring (''release:'' @ rid) owner (env w) \<and>
         u = c(KEY_EMAIL @ rid := None) \<and> r = Inr (Inr True))"
    using releaseBox_kv [OF ok] by blast
  have "vault_ok u \<and> rows_kept ring (env w) ?op ?v u"
  proof (cases "u = c")
    case True
    then show ?thesis using p(3) calm_ok [OF _ ok(2)] kept_calm by blast
  next
    case False
    then obtain rid row where g: "i = Some (JStr rid)" "rowAt ?v (KEY_EMAIL @ rid) = Some row" "rowOwner row = Some (JStr (ownerHashOf ring (oPubkey owner)))"
        "signs ring (''release:'' @ rid) owner (env w)" "u = c(KEY_EMAIL @ rid := None)" using p(4) by blast
    have "vault_ok u" unfolding g(5) by (rule ok_row [OF calm_ok [OF p(3) ok(2)]]) (simp_all add: prefixes_def)
    moreover have "rowAt u (KEY_EMAIL @ a) = rowAt ?v (KEY_EMAIL @ a)" if "a \<noteq> rid" for a
      by (rule rowAt_same) (simp add: g(5) that calmD [OF p(3)])
    moreover have "rowAt u (KEY_ALIAS @ a) = rowAt ?v (KEY_ALIAS @ a)" for a
      by (rule rowAt_same) (simp add: g(5) calmD [OF p(3)])
    moreover have "acts_for ring (env w) rid x ?op" if "rowOwner row = Some (JStr x)" for x using that g by simp
    ultimately show ?thesis using g(2) unfolding rows_kept_def by (metis option.inject)
  qed
  then show ?thesis using p(1,2) by auto
qed

lemma alias_kept:
  assumes "vault_world view wf w" "real_digest ring"
  shows "\<exists>w' u. vault_do srv ring (VAlias i b t) (m, h, w) = (m, h, w') \<and> became view wf w u w' \<and> vault_ok u \<and>
    rows_kept ring (env w) (VAlias i b t) (view (clock w) (kvs w)) u"
proof -
  let ?v = "view (clock w) (kvs w)" and ?op = "VAlias i b t"
  have ok: "shelf_ok wf w" "vault_ok ?v" using assms(1) by (simp_all add: vault_world_def)
  obtain r w' u where p: "putAliasBox srv ring i b t (m, h, w) = (r, m, h, w')" "became view wf w u w'"
      "u = ?v \<or> (\<exists>rid s bx. i = Some (JStr rid) \<and> lowerHex 64 rid \<and> t = Some (JStr s) \<and> ciphertext_box bx \<and>
       (\<forall>row y. rowAt ?v (KEY_ALIAS @ rid) = Some row \<longrightarrow> rowProof row = Some y \<longrightarrow> y = JStr (digest ring s)) \<and>
       u = ?v(KEY_ALIAS @ rid \<mapsto> (VStr (showRow (aliasRow bx (digest ring s))), None)))"
    using putAliasBox_kv [OF ok] by blast
  have "vault_ok u \<and> rows_kept ring (env w) ?op ?v u"
  proof (cases "u = ?v")
    case True
    then show ?thesis using ok(2) kept_same by simp
  next
    case False
    then obtain rid s bx where g: "i = Some (JStr rid)" "t = Some (JStr s)" "ciphertext_box bx"
        "\<And>row y. rowAt ?v (KEY_ALIAS @ rid) = Some row \<Longrightarrow> rowProof row = Some y \<Longrightarrow> y = JStr (digest ring s)"
        "u = ?v(KEY_ALIAS @ rid \<mapsto> (VStr (showRow (aliasRow bx (digest ring s))), None))" using p(3) by blast
    have "row_typed (aliasRow bx (digest ring s))" using g(3) assms(2) by (simp add: row_typed_def aliasRow_def real_digest_def)
    then have "vault_ok u" unfolding g(5) by (intro ok_row [OF ok(2)]) (simp_all add: prefixes_def)
    moreover have "rowAt u (KEY_ALIAS @ a) = rowAt ?v (KEY_ALIAS @ a)" if "a \<noteq> rid" for a by (rule rowAt_same) (simp add: g(5) that)
    moreover have "rowAt u (KEY_EMAIL @ a) = rowAt ?v (KEY_EMAIL @ a)" for a by (rule rowAt_same) (simp add: g(5))
    moreover have "presents ring rid x ?op" if "rowAt ?v (KEY_ALIAS @ rid) = Some row" "rowProof row = Some (JStr x)" for row x
      using g(1,2) g(4) [OF that] by simp
    ultimately show ?thesis unfolding rows_kept_def by metis
  qed
  then show ?thesis using p(1,2) by auto
qed

text \<open>The operations that write no row.\<close>

lemma quiet_op:
  assumes "vault_world view wf w" and "case op of VPut i b owner agreed \<Rightarrow> False | VRelease i owner \<Rightarrow> False | VAlias i b t \<Rightarrow> False | VWait ms \<Rightarrow> False | _ \<Rightarrow> True"
  shows "\<exists>w' u. vault_do srv ring op (m, h, w) = (m, h, w') \<and> became view wf w u w' \<and> vault_ok u \<and>
    (\<forall>a. u (KEY_EMAIL @ a) = view (clock w) (kvs w) (KEY_EMAIL @ a)) \<and> (\<forall>a. u (KEY_ALIAS @ a) = view (clock w) (kvs w) (KEY_ALIAS @ a))"
proof -
  let ?v = "view (clock w) (kvs w)"
  have ok: "shelf_ok wf w" "vault_ok ?v" using assms(1) by (simp_all add: vault_world_def)
  show ?thesis
  proof (cases op)
    case (VCheck i owner)
    then show ?thesis using checkMine_kv [OF ok, of ring i owner m h] calm_ok [OF _ ok(2)] calmD by fastforce
  next
    case (VGet i)
    then show ?thesis using getBoxAt_kv [OF ok, of KEY_EMAIL i m h] ok(2) by (auto simp: getBox_def prefixes_def)
  next
    case (VState i)
    then show ?thesis using getBoxState_kv [OF ok, of i m h] ok(2) by auto
  next
    case (VBound i pk)
    then show ?thesis using isBoundTo_kv [OF ok, of ring i pk m h] ok(2) by auto
  next
    case (VAliasCheck i t)
    then show ?thesis using assertAlias_kv [OF ok, of ring i t m h] ok(2) by auto
  next
    case (VGetAlias i)
    then show ?thesis using getBoxAt_kv [OF ok, of KEY_ALIAS i m h] ok(2) by (auto simp: getAliasBox_def prefixes_def)
  next
    case (VMint random i)
    have "vault_ok (?v(KEY_TICKET @ random \<mapsto> (VStr rid, e)))" for rid e using ok_ticket [OF ok(2)] by simp
    then have "vault_ok (case validateId i of Inl x \<Rightarrow> ?v | Inr rid \<Rightarrow> ?v(KEY_TICKET @ random \<mapsto> (VStr rid, Some (clock w + RECOVERY_TICKET_TTL_SEC * 1000))))"
        (is "vault_ok ?u") using ok(2) by (cases "validateId i") auto
    moreover have "?u (KEY_EMAIL @ a) = ?v (KEY_EMAIL @ a)" "?u (KEY_ALIAS @ a) = ?v (KEY_ALIAS @ a)" for a
      by (cases "validateId i"; simp)+
    moreover obtain w' where "vault_do srv ring op (m, h, w) = (m, h, w')" "became view wf w ?u w'"
      using VMint mintTicket_kv [OF ok(1), of random i m h] by auto
    ultimately show ?thesis by blast
  next
    case (VSpend t i)
    have "vault_ok (?v(KEY_TICKET @ s := None))" for s using ok_ticket [OF ok(2)] by simp
    then show ?thesis using VSpend consumeTicket_any [OF ok, of t i m h] ok(2) by fastforce
  qed (use assms(2) in simp_all)
qed

lemma wait_kept:
  assumes "vault_world view wf w" "t = clock w + max 0 ms"
  shows "vault_world view wf (w\<lparr>clock := t\<rparr>)" "rows_kept ring e op (view (clock w) (kvs w)) (view t (kvs w))"
proof -
  have ok: "shelf_ok wf w" "vault_ok (view (clock w) (kvs w))" using assms(1) by (simp_all add: vault_world_def)
  have l: "view t (kvs w) k = lapse t (view (clock w) (kvs w) k)" for k
    using view_lapse [of "kvs w" "clock w" t k] ok(1) assms(2) by (simp add: shelf_ok_def)
  have rows: "view t (kvs w) (p @ rid) = view (clock w) (kvs w) (p @ rid)" if "p \<in> prefixes" "lowerHex 64 rid" for p rid
    using row_cell_lapse [OF vault_okD(1) [OF ok(2) that]] l by simp
  have st: "strish (lapse t c)" if "strish c" for c using that by (auto simp: strish_def lapse_def split: option.splits prod.splits kval.splits)
  have "vault_ok (view t (kvs w))" using ok(2) rows st unfolding vault_ok_def l by (metis l)
  then show "vault_world view wf (w\<lparr>clock := t\<rparr>)" using ok(1) by (simp add: vault_world_def shelf_ok_def online_def kvConfigured_def)
  show "rows_kept ring e op (view (clock w) (kvs w)) (view t (kvs w))"
    using rows rowAt_same [of "view t (kvs w)" _ "view (clock w) (kvs w)"] by (simp add: rows_kept_def prefixes_def)
qed

lemma vault_do_ok:
  assumes "vault_world view wf w" "real_digest ring"
  shows "\<exists>w'. vault_do srv ring op (m, h, w) = (m, h, w') \<and> vault_world view wf w' \<and> env w' = env w \<and>
    rows_kept ring (env w) op (view (clock w) (kvs w)) (view (clock w') (kvs w'))"
proof -
  have done_by: ?thesis if "vault_do srv ring op (m, h, w) = (m, h, w')" "became view wf w u w'" "vault_ok u"
      "rows_kept ring (env w) op (view (clock w) (kvs w)) u" for w' u
    using that becameD [OF that(2)] vault_worldI [OF that(2,3)] by auto
  have quiet: ?thesis if "case op of VPut i b owner agreed \<Rightarrow> False | VRelease i owner \<Rightarrow> False | VAlias i b t \<Rightarrow> False | VWait ms \<Rightarrow> False | _ \<Rightarrow> True"
    using quiet_op [OF assms(1) that, where ring = ring and m = m and h = h] done_by kept_same by blast
  show ?thesis
  proof (cases op)
    case (VPut i b owner agreed)
    show ?thesis using put_kept [OF assms, where m = m and h = h and i = i and b = b and owner = owner and agreed = agreed] done_by unfolding VPut by blast
  next
    case (VRelease i owner)
    show ?thesis using release_kept [OF assms(1), where ring = ring and m = m and h = h and i = i and owner = owner] done_by unfolding VRelease by blast
  next
    case (VAlias i b t)
    show ?thesis using alias_kept [OF assms, where m = m and h = h and i = i and b = b and t = t] done_by unfolding VAlias by blast
  next
    case (VWait ms)
    then show ?thesis using wait_kept(1) [OF assms(1) refl, of ms] wait_kept(2) [OF assms(1) refl, where ms = ms and ring = ring and e = "env w" and op = op] by auto
  qed (use quiet in simp_all)
qed

lemma vault_run_ok:
  assumes "vault_world view wf w" "real_digest ring"
  shows "\<exists>w'. fold (vault_do srv ring) ops (m, h, w) = (m, h, w') \<and> vault_world view wf w' \<and> env w' = env w \<and>
    (\<forall>rid r x. lowerHex 64 rid \<longrightarrow> rowAt (view (clock w) (kvs w)) (KEY_EMAIL @ rid) = Some r \<longrightarrow> rowOwner r = Some (JStr x) \<longrightarrow> x \<noteq> [] \<longrightarrow>
       (\<forall>op\<in>set ops. \<not> acts_for ring (env w) rid x op) \<longrightarrow> rowAt (view (clock w') (kvs w')) (KEY_EMAIL @ rid) = Some r) \<and>
    (\<forall>rid r x. lowerHex 64 rid \<longrightarrow> rowAt (view (clock w) (kvs w)) (KEY_ALIAS @ rid) = Some r \<longrightarrow> rowProof r = Some (JStr x) \<longrightarrow>
       (\<forall>op\<in>set ops. \<not> presents ring rid x op) \<longrightarrow> rowAt (view (clock w') (kvs w')) (KEY_ALIAS @ rid) = Some r)"
  using assms(1)
proof (induction ops arbitrary: w)
  case (Cons op ops)
  obtain w1 where w1: "vault_do srv ring op (m, h, w) = (m, h, w1)" "vault_world view wf w1" "env w1 = env w"
      "rows_kept ring (env w) op (view (clock w) (kvs w)) (view (clock w1) (kvs w1))"
    using vault_do_ok [OF Cons.prems assms(2), of op m h] by blast
  obtain w' where w': "fold (vault_do srv ring) ops (m, h, w1) = (m, h, w')" "vault_world view wf w'" "env w' = env w1"
      "\<And>rid r x. lowerHex 64 rid \<Longrightarrow> rowAt (view (clock w1) (kvs w1)) (KEY_EMAIL @ rid) = Some r \<Longrightarrow> rowOwner r = Some (JStr x) \<Longrightarrow> x \<noteq> [] \<Longrightarrow>
         \<forall>op\<in>set ops. \<not> acts_for ring (env w1) rid x op \<Longrightarrow> rowAt (view (clock w') (kvs w')) (KEY_EMAIL @ rid) = Some r"
      "\<And>rid r x. lowerHex 64 rid \<Longrightarrow> rowAt (view (clock w1) (kvs w1)) (KEY_ALIAS @ rid) = Some r \<Longrightarrow> rowProof r = Some (JStr x) \<Longrightarrow>
         \<forall>op\<in>set ops. \<not> presents ring rid x op \<Longrightarrow> rowAt (view (clock w') (kvs w')) (KEY_ALIAS @ rid) = Some r"
    using Cons.IH [OF w1(2)] by blast
  have k: "\<And>rid r x. lowerHex 64 rid \<Longrightarrow> rowAt (view (clock w) (kvs w)) (KEY_EMAIL @ rid) = Some r \<Longrightarrow> rowOwner r = Some (JStr x) \<Longrightarrow> x \<noteq> [] \<Longrightarrow>
       \<not> acts_for ring (env w) rid x op \<Longrightarrow> rowAt (view (clock w1) (kvs w1)) (KEY_EMAIL @ rid) = Some r"
     "\<And>rid r x. lowerHex 64 rid \<Longrightarrow> rowAt (view (clock w) (kvs w)) (KEY_ALIAS @ rid) = Some r \<Longrightarrow> rowProof r = Some (JStr x) \<Longrightarrow>
       \<not> presents ring rid x op \<Longrightarrow> rowAt (view (clock w1) (kvs w1)) (KEY_ALIAS @ rid) = Some r"
    using w1(4) unfolding rows_kept_def by blast+
  have "fold (vault_do srv ring) (op # ops) (m, h, w) = (m, h, w')" using w1(1) w'(1) by simp
  moreover have "env w' = env w" using w1(3) w'(3) by simp
  moreover have "rowAt (view (clock w') (kvs w')) (KEY_EMAIL @ rid) = Some r"
    if "lowerHex 64 rid" "rowAt (view (clock w) (kvs w)) (KEY_EMAIL @ rid) = Some r" "rowOwner r = Some (JStr x)" "x \<noteq> []"
      "\<forall>a\<in>set (op # ops). \<not> acts_for ring (env w) rid x a" for rid r x
    by (rule w'(4) [OF that(1) k(1) [OF that(1-4)] that(3,4)]) (use that(5) w1(3) in auto)
  moreover have "rowAt (view (clock w') (kvs w')) (KEY_ALIAS @ rid) = Some r"
    if "lowerHex 64 rid" "rowAt (view (clock w) (kvs w)) (KEY_ALIAS @ rid) = Some r" "rowProof r = Some (JStr x)"
      "\<forall>a\<in>set (op # ops). \<not> presents ring rid x a" for rid r x
    by (rule w'(5) [OF that(1) k(2) [OF that(1-3)] that(3)]) (use that(4) in auto)
  ultimately show ?case using w'(2) by blast
qed simp

end

subsection \<open>What the store promises\<close>

text \<open>C32: a row bound to an account stays exactly as it is through any history of requests in which no write and no release of
  that row carries a signature of that account, whoever proved the inbox and whatever else is asked.\<close>

theorem rows_stay_with_owner:
  fixes w :: "kv world"
  assumes "vault_world cell kv_wf w" "real_digest ring" "lowerHex 64 rid"
    and "rowAt (cell (clock w) (kvs w)) (KEY_EMAIL @ rid) = Some row" "rowOwner row = Some (JStr x)"
    and "\<forall>op\<in>set ops. \<not> acts_for ring (env w) rid x op"
  shows "\<exists>w'. fold (vault_do runOne ring) ops (m, h, w) = (m, h, w') \<and> rowAt (cell (clock w') (kvs w')) (KEY_EMAIL @ rid) = Some row"
proof -
  have "row_typed row" using rowAt_typed [OF _ _ assms(3,4)] assms(1) by (simp add: vault_world_def prefixes_def)
  then have "x \<noteq> []" using assms(5) by (simp add: row_typed_def)
  then show ?thesis using fakec.vault_run_ok [OF assms(1,2), of ops m h] assms(3-6) by blast
qed

text \<open>The same for an alias row: only the passkey's own proof replaces it.\<close>

lemma alias_rows_stay:
  fixes w :: "kv world"
  assumes "vault_world cell kv_wf w" "real_digest ring" "lowerHex 64 rid"
    and "rowAt (cell (clock w) (kvs w)) (KEY_ALIAS @ rid) = Some row" "rowProof row = Some (JStr x)"
    and "\<forall>op\<in>set ops. \<not> presents ring rid x op"
  shows "\<exists>w'. fold (vault_do runOne ring) ops (m, h, w) = (m, h, w') \<and> rowAt (cell (clock w') (kvs w')) (KEY_ALIAS @ rid) = Some row"
  using fakec.vault_run_ok [OF assms(1,2), of ops m h] assms(3-6) by blast

text \<open>C33: after any history, every row of either namespace holds a ciphertext box and, of who may replace it, a hash at
  most; the rows of the shape older deployments wrote included.\<close>

theorem vault_holds_ciphertext:
  fixes w :: "kv world"
  assumes "vault_world cell kv_wf w" "real_digest ring"
  shows "\<exists>w'. fold (vault_do runOne ring) ops (m, h, w) = (m, h, w') \<and>
    (\<forall>p\<in>{KEY_EMAIL, KEY_ALIAS}. \<forall>rid. lowerHex 64 rid \<longrightarrow> (case cell (clock w') (kvs w') (p @ rid) of
        None \<Rightarrow> True
      | Some (VStr t, e) \<Rightarrow> e = None \<and> (\<exists>r. parseRow t = Inr r \<and> ciphertext_box (rowBox r) \<and> hash_typed (rowOwner r) \<and> hash_typed (rowProof r))
      | _ \<Rightarrow> False))"
proof -
  obtain w' where w': "fold (vault_do runOne ring) ops (m, h, w) = (m, h, w')" "vault_world cell kv_wf w'"
    using fakec.vault_run_ok [OF assms, of ops m h] by blast
  have "case cell (clock w') (kvs w') (p @ rid) of None \<Rightarrow> True
      | Some (VStr t, e) \<Rightarrow> e = None \<and> (\<exists>r. parseRow t = Inr r \<and> ciphertext_box (rowBox r) \<and> hash_typed (rowOwner r) \<and> hash_typed (rowProof r))
      | _ \<Rightarrow> False" if "p \<in> prefixes" "lowerHex 64 rid" for p rid
    using w'(2) vault_okD(1) [OF _ that, of "cell (clock w') (kvs w')"]
    by (auto simp: vault_world_def row_cell_def row_typed_def split: option.splits prod.splits kval.splits)
  then show ?thesis using w'(1) unfolding prefixes_def by blast
qed

text \<open>
  When a write of \<open>row\<close> at \<open>rid\<close> is granted, in terms of what the store holds: a well-formed identifier and a ciphertext box;
  an owner proof, if there is one, that verifies; and then no row (signed, unless the deployment does not ask for it), a row
  bound to the signer, or an unbound row with a signature and the explicit agreement to replace it.
\<close>

definition may_store :: "keyring \<Rightarrow> environ \<Rightarrow> int \<Rightarrow> json option \<Rightarrow> json option \<Rightarrow> owner_proof option \<Rightarrow> bool \<Rightarrow> kv_view \<Rightarrow> string \<Rightarrow> stored_row \<Rightarrow> bool" where
  "may_store ring e now i b owner agreed v rid row \<longleftrightarrow> (\<exists>bx oh. i = Some (JStr rid) \<and> lowerHex 64 rid \<and> b = Some bx \<and> ciphertext_box bx \<and>
      signed_hash ring e now rid owner v = Some oh \<and> row = ownedRow bx oh \<and> length (showRow row) \<le> MAX_BOX_BYTES \<and>
      (case rowAt v (KEY_EMAIL @ rid) of
         None \<Rightarrow> oh \<noteq> None \<or> e ''RECOVERY_REQUIRE_OWNER'' \<noteq> Some ''1''
       | Some old \<Rightarrow> (case rowOwner old of None \<Rightarrow> oh \<noteq> None \<and> agreed | Some x \<Rightarrow> map_option JStr oh = Some x)))"

lemma may_put_iff:
  assumes "vault_ok v"
  shows "may_put ring e now i b owner agreed v = Some (rid, row) \<longleftrightarrow> may_store ring e now i b owner agreed v rid row"
proof -
  have truthy: "jsTruthy (rowOwner old) \<longleftrightarrow> rowOwner old \<noteq> None" if "lowerHex 64 rid" "rowAt v (KEY_EMAIL @ rid) = Some old" for old
    using rowAt_typed [OF assms _ that] hash_typed_truthy by (simp add: prefixes_def row_typed_def)
  have "putRefusal (rowAt v (KEY_EMAIL @ rid)) oh agreed e = None \<longleftrightarrow> (case rowAt v (KEY_EMAIL @ rid) of
         None \<Rightarrow> oh \<noteq> None \<or> e ''RECOVERY_REQUIRE_OWNER'' \<noteq> Some ''1''
       | Some old \<Rightarrow> (case rowOwner old of None \<Rightarrow> oh \<noteq> None \<and> agreed | Some x \<Rightarrow> map_option JStr oh = Some x))" if "lowerHex 64 rid" for oh
    using truthy [OF that] by (cases "rowAt v (KEY_EMAIL @ rid)") (auto simp: putRefusal_def split: option.splits)
  moreover have "may_put ring e now i b owner agreed v = Some (rid, row) \<longleftrightarrow> (\<exists>bx oh. validateId i = Inr rid \<and> validateBox b = Inr bx \<and>
      signed_hash ring e now rid owner v = Some oh \<and> putRefusal (rowAt v (KEY_EMAIL @ rid)) oh agreed e = None \<and>
      length (showRow (ownedRow bx oh)) \<le> MAX_BOX_BYTES \<and> row = ownedRow bx oh)"
    by (auto simp: may_put_def split: sum.splits option.splits)
  ultimately show ?thesis unfolding may_store_def validateId_Inr validateBox_Inr by (auto simp del: option.simps)
qed

text \<open>C35: with the store answering, a write succeeds exactly when it is granted, and then the row reads back as the granted
  box bound to the account that signed, if one did; whatever it answers, no other row changes, and refused it changes none.\<close>

theorem put_box_decides:
  fixes w :: "kv world"
  assumes "vault_world cell kv_wf w" "real_digest ring" and "putBox runOne ring i b owner agreed (m, h, w) = (r, m', h', w')"
  defines "grants \<equiv> may_store ring (env w) (clock w) i b owner agreed (cell (clock w) (kvs w))"
  shows "((\<exists>bound. r = Inr bound) \<longleftrightarrow> (\<exists>rid row. grants rid row)) \<and>
    (\<forall>rid row. grants rid row \<longrightarrow> r = Inr (rowOwner row \<noteq> None) \<and> rowAt (cell (clock w') (kvs w')) (KEY_EMAIL @ rid) = Some row) \<and>
    (\<forall>rid. (\<nexists>row. grants rid row) \<longrightarrow> rowAt (cell (clock w') (kvs w')) (KEY_EMAIL @ rid) = rowAt (cell (clock w) (kvs w)) (KEY_EMAIL @ rid)) \<and>
    (\<forall>rid. rowAt (cell (clock w') (kvs w')) (KEY_ALIAS @ rid) = rowAt (cell (clock w) (kvs w)) (KEY_ALIAS @ rid))"
proof -
  let ?v = "cell (clock w) (kvs w)"
  have ok: "shelf_ok kv_wf w" "vault_ok ?v" using assms(1) by (simp_all add: vault_world_def)
  obtain u where u: "became cell kv_wf w u w'" "put_post (may_put ring (env w) (clock w) i b owner agreed ?v) ?v r u"
    using fakec.putBox_kv [OF ok, of ring i b owner agreed m h] assms(3) by auto
  have v': "cell (clock w') (kvs w') = u" using becameD(4) [OF u(1)] .
  have g: "grants rid row \<longleftrightarrow> may_put ring (env w) (clock w) i b owner agreed ?v = Some (rid, row)" for rid row
    using may_put_iff [OF ok(2)] by (simp add: grants_def)
  show ?thesis
  proof (cases "may_put ring (env w) (clock w) i b owner agreed ?v")
    case None
    then have c: "calm ?v u" and r: "\<nexists>bound. r = Inr bound" using u(2) by (auto simp: put_post_def)
    have "rowAt u (KEY_EMAIL @ a) = rowAt ?v (KEY_EMAIL @ a)" "rowAt u (KEY_ALIAS @ a) = rowAt ?v (KEY_ALIAS @ a)" for a
      by (rule rowAt_same, rule calmD [OF c])+
    moreover have "\<not> grants a x" for a x using g None by simp
    ultimately show ?thesis unfolding v' using r by blast
  next
    case (Some y)
    obtain rid row where y: "y = (rid, row)" by (cases y)
    have typed: "row_typed row" using may_put_typed [OF Some [unfolded y] assms(2)] by simp
    obtain c where c: "calm ?v c" "u = c(KEY_EMAIL @ rid \<mapsto> (VStr (showRow row), None))" "r = Inr (rowOwner row \<noteq> None)"
      using u(2) Some y by (auto simp: put_post_def)
    have gi: "grants a x \<longleftrightarrow> a = rid \<and> x = row" for a x using g [of a x] Some y by auto
    have other: "rowAt u (KEY_EMAIL @ a) = rowAt ?v (KEY_EMAIL @ a)" if "a \<noteq> rid" for a
      by (rule rowAt_same) (simp add: c(2) that calmD [OF c(1)])
    have al: "\<forall>a. rowAt u (KEY_ALIAS @ a) = rowAt ?v (KEY_ALIAS @ a)"
      by (intro allI rowAt_same) (simp add: c(2) calmD [OF c(1)])
    have "rowAt u (KEY_EMAIL @ rid) = Some row" by (simp add: c(2) typed)
    then have put: "\<forall>a x. grants a x \<longrightarrow> r = Inr (rowOwner x \<noteq> None) \<and> rowAt u (KEY_EMAIL @ a) = Some x"
      unfolding gi using c(3) by simp
    have kept: "\<forall>a. (\<nexists>x. grants a x) \<longrightarrow> rowAt u (KEY_EMAIL @ a) = rowAt ?v (KEY_EMAIL @ a)" unfolding gi using other by simp
    have "(\<exists>bound. r = Inr bound) \<longleftrightarrow> (\<exists>a x. grants a x)" unfolding gi using c(3) by simp
    then show ?thesis unfolding v' using put kept al by (intro conjI)
  qed
qed

subsection \<open>Tickets, once\<close>

text \<open>A state seen at a later instant.\<close>

definition atTime :: "int \<Rightarrow> 'k vault \<Rightarrow> 'k vault" where
  "atTime t st = (case st of (m, h, w) \<Rightarrow> (m, h, w\<lparr>clock := t\<rparr>))"

text \<open>C36: a ticket opens the identifier it was minted for, within its ten minutes and once: presented first it is accepted
  exactly under those two conditions, and presented again it is refused, also when the first time was for another identifier.\<close>

theorem ticket_opens_once:
  fixes w :: "kv world"
  assumes "vault_world cell kv_wf w" "lowerHex 64 random" "lowerHex 64 rid" "lowerHex 64 i1" "lowerHex 64 i2"
    and "clock w \<le> t1" "t1 \<le> t2"
    and "mintRecoveryTicket runOne random (Some (JStr rid)) (m, h, w) = (r0, st0)"
    and "consumeRecoveryTicket runOne (Some (JStr random)) (Some (JStr i1)) (atTime t1 st0) = (r1, st1)"
    and "consumeRecoveryTicket runOne (Some (JStr random)) (Some (JStr i2)) (atTime t2 st1) = (r2, st2)"
  shows "r0 = Inr random \<and> r1 = Inr (i1 = rid \<and> t1 < clock w + 600000) \<and> r2 = Inr False"
proof -
  let ?k = "KEY_TICKET @ random"
  have ok: "shelf_ok kv_wf w" using assms(1) by (simp add: vault_world_def)
  obtain w0 where w0: "r0 = Inr random" "st0 = (m, h, w0)"
      "became cell kv_wf w ((cell (clock w) (kvs w))(?k \<mapsto> (VStr rid, Some (clock w + 600000)))) w0"
    using fakec.mintTicket_kv [OF ok, of random "Some (JStr rid)" m h] assms(3,8) by (auto simp: validateId_def RECOVERY_TICKET_TTL_SEC_def)
  note b0 = becameD [OF w0(3)]
  define v1 where "v1 = w0\<lparr>clock := t1\<rparr>"
  have s1: "shelf_ok kv_wf v1" using b0(1) by (simp add: shelf_ok_def v1_def online_def kvConfigured_def)
  have c1: "cell (clock v1) (kvs v1) ?k = (if t1 < clock w + 600000 then Some (VStr rid, Some (clock w + 600000)) else None)"
    using fake.view_lapse [of "kvs w0" "clock w0" t1 ?k] b0 assms(6) by (auto simp: shelf_ok_def v1_def)
  have q1: "strish (cell (clock v1) (kvs v1) ?k)" by (simp add: c1)
  obtain w1 where w1: "r1 = Inr (cell_str (cell (clock v1) (kvs v1) ?k) = Some i1)" "st1 = (m, h, w1)"
      "became cell kv_wf v1 ((cell (clock v1) (kvs v1))(?k := None)) w1"
    using fakec.consumeTicket_kv [OF s1 q1 assms(2,4), of m h] assms(9) by (auto simp: atTime_def w0(2) v1_def [symmetric])
  note b1 = becameD [OF w1(3)]
  define v2 where "v2 = w1\<lparr>clock := t2\<rparr>"
  have s2: "shelf_ok kv_wf v2" using b1(1) by (simp add: shelf_ok_def v2_def online_def kvConfigured_def)
  have "clock w1 = t1" using b1(2) by (simp add: v1_def)
  then have c2: "cell (clock v2) (kvs v2) ?k = None"
    using fake.view_lapse [of "kvs w1" t1 t2 ?k] b1(1,4) assms(7) by (simp add: shelf_ok_def v2_def)
  then have "r2 = Inr False"
    using fakec.consumeTicket_kv [OF s2 _ assms(2,5), of m h] assms(10) by (auto simp: atTime_def w1(2) v2_def [symmetric])
  then show ?thesis using w0(1) w1(1) c1 by auto
qed

subsection \<open>A write that read before another one landed\<close>

text \<open>The read and the write of \<open>putBox\<close> are two round trips: a signed write that read no row replaces, without asking, the row
  another account was bound to in between.\<close>

lemma stale_read_replaces_bound_row:
  fixes w :: "kv world"
  assumes "vault_world cell kv_wf w" "row_typed (ownedRow b (Some hsh))" "length (showRow (ownedRow b (Some hsh))) \<le> MAX_BOX_BYTES"
  shows "\<exists>w'. storeBox runOne rid b (Some hsh) agreed None (m, h, w) = (Inr True, m, h, w') \<and>
    rowAt (cell (clock w') (kvs w')) (KEY_EMAIL @ rid) = Some (ownedRow b (Some hsh))"
proof -
  have "shelf_ok kv_wf w" using assms(1) by (simp add: vault_world_def)
  from fakec.storeBox_kv [OF this, of rid b "Some hsh" agreed None m h] obtain r w' u where
    "storeBox runOne rid b (Some hsh) agreed None (m, h, w) = (r, m, h, w')" "became cell kv_wf w u w'" "r = Inr True"
    "u = (cell (clock w) (kvs w))(KEY_EMAIL @ rid \<mapsto> (VStr (showRow (ownedRow b (Some hsh))), None))"
    using assms(3) by (auto simp: putRefusal_def)
  then show ?thesis using becameD(4) [of cell kv_wf w u w'] assms(2) by auto
qed

subsection \<open>A bound row\<close>

definition vault_ring :: keyring where
  "vault_ring = \<lparr>accountKey = (\<lambda>k. k \<noteq> []), signedBy = (\<lambda>k msg sig. sig = k), digest = (\<lambda>x. CHR ''h'' # x)\<rparr>"

definition demo_copy :: json where
  "demo_copy = JObj [(''kind'', JStr ''prf''), (''iv'', JStr ''AA''), (''ct'', JStr ''AA''), (''hkdfSalt'', JStr ''AA'')]"

definition demo_box :: json where
  "demo_box = JObj [(''formatVersion'', JInt 1), (''copies'', JArr [demo_copy])]"

definition demo_row :: stored_row where
  "demo_row = ownedRow demo_box (Some ''hGA'')"

definition bound_world :: "kv world" where
  "bound_world = (quiet_world kv_env 0)\<lparr>kvs := setUntil (KEY_EMAIL @ demo_id) None
     (setString (KEY_EMAIL @ demo_id) (showRow demo_row) (touch 0 (KEY_EMAIL @ demo_id) empty_kv))\<rparr>"

definition no_mem :: rec_mem where
  "no_mem = \<lparr>boxMem = [], ticketMem = []\<rparr>"

lemma real_digest_demo: "real_digest vault_ring"
  by (simp add: real_digest_def vault_ring_def)

lemma demo_id_hex: "lowerHex 64 demo_id"
  by (simp add: lowerHex_def demo_id_def list_all_iff code_def)

lemma demo_box_ok: "ciphertext_box demo_box"
proof -
  have "b64Text ''AA''" by (simp add: b64Text_def b64Char_def code_def)
  then have "is_copy (Prf ''AA'' ''AA'' ''AA'') demo_copy" by (simp add: demo_copy_def inOrder_def)
  then show ?thesis unfolding ciphertext_box_def demo_box_def inOrder_def
    by (intro exI [of _ "[Prf ''AA'' ''AA'' ''AA'']"] exI [of _ "[demo_copy]"]) simp
qed

lemma demo_row_ok: "row_typed demo_row"
  by (simp add: row_typed_def demo_row_def ownedRow_def demo_box_ok)

lemma vault_empty: "vault_world cell kv_wf (quiet_world kv_env t)"
  by (simp add: vault_world_def shelf_ok_def quiet_world_def vault_ok_def online_def kvConfigured_def kv_env_def kvConfigFromEnv_def)

lemma bound_world_cells: "cell 0 (kvs bound_world) = [KEY_EMAIL @ demo_id \<mapsto> (VStr (showRow demo_row), None)]"
  using cell_write_plain [of empty_kv 0 "KEY_EMAIL @ demo_id" "showRow demo_row"] by (simp add: bound_world_def)

lemma bound_world_ok: "vault_world cell kv_wf bound_world" "clock bound_world = 0"
proof -
  have "kv_wf (kvs bound_world)" by (simp add: bound_world_def entries_setString)
  moreover show "clock bound_world = 0" by (simp add: bound_world_def quiet_world_def)
  moreover have "vault_ok (cell 0 (kvs bound_world))"
    unfolding bound_world_cells by (rule ok_row) (simp_all add: demo_row_ok prefixes_def vault_ok_def)
  moreover have "online bound_world" "kvConfigured bound_world"
    by (simp_all add: bound_world_def quiet_world_def online_def kvConfigured_def kv_env_def kvConfigFromEnv_def)
  ultimately show "vault_world cell kv_wf bound_world" by (simp add: vault_world_def shelf_ok_def)
qed

lemma bound_row: "rowAt (cell (clock bound_world) (kvs bound_world)) (KEY_EMAIL @ demo_id) = Some demo_row"
  unfolding bound_world_ok(2) bound_world_cells by (rule rowAt_write) (rule demo_row_ok)

definition inbox_only :: "vault_op list" where
  "inbox_only = [VPut (Some (JStr demo_id)) (Some demo_box) None True, VWait 1000, VGet (Some (JStr demo_id))]"

theorem rows_stay_with_owner_witness:
  "\<exists>w'. fold (vault_do runOne vault_ring) inbox_only (no_mem, [], bound_world) = (no_mem, [], w') \<and>
     rowAt (cell (clock w') (kvs w')) (KEY_EMAIL @ demo_id) = Some demo_row"
  by (rule rows_stay_with_owner [OF bound_world_ok(1) real_digest_demo demo_id_hex bound_row, where x = "''hGA''"])
    (simp_all add: demo_row_def inbox_only_def)

theorem vault_holds_ciphertext_witness:
  "\<exists>w'. fold (vault_do runOne vault_ring) inbox_only (no_mem, [], bound_world) = (no_mem, [], w') \<and>
    (case cell (clock w') (kvs w') (KEY_EMAIL @ demo_id) of Some (VStr t, e) \<Rightarrow> e = None | c \<Rightarrow> c = None)"
proof -
  obtain w' where w': "fold (vault_do runOne vault_ring) inbox_only (no_mem, [], bound_world) = (no_mem, [], w')"
      "case cell (clock w') (kvs w') (KEY_EMAIL @ demo_id) of None \<Rightarrow> True
      | Some (VStr t, e) \<Rightarrow> e = None \<and> (\<exists>r. parseRow t = Inr r \<and> ciphertext_box (rowBox r) \<and> hash_typed (rowOwner r) \<and> hash_typed (rowProof r))
      | _ \<Rightarrow> False"
    using vault_holds_ciphertext [OF bound_world_ok(1) real_digest_demo, of inbox_only no_mem "[]"] demo_id_hex by blast
  then show ?thesis by (intro exI [of _ w']) (auto split: option.splits kval.splits)
qed

theorem put_box_decides_witness:
  "case putBox runOne vault_ring (Some (JStr demo_id)) (Some demo_box) None False (no_mem, [], bound_world) of
     (r, m', h', w') \<Rightarrow> (\<nexists>bound. r = Inr bound) \<and> rowAt (cell (clock w') (kvs w')) (KEY_EMAIL @ demo_id) = Some demo_row"
proof -
  obtain r m' h' w' where r: "putBox runOne vault_ring (Some (JStr demo_id)) (Some demo_box) None False (no_mem, [], bound_world) = (r, m', h', w')"
    by (metis surj_pair)
  have no: "\<not> may_store vault_ring (env bound_world) (clock bound_world) (Some (JStr demo_id)) (Some demo_box) None False
      (cell (clock bound_world) (kvs bound_world)) rid row" for rid row
  proof
    assume "may_store vault_ring (env bound_world) (clock bound_world) (Some (JStr demo_id)) (Some demo_box) None False
      (cell (clock bound_world) (kvs bound_world)) rid row"
    then have "rid = demo_id" "case rowAt (cell (clock bound_world) (kvs bound_world)) (KEY_EMAIL @ rid) of
        None \<Rightarrow> True | Some old \<Rightarrow> rowOwner old = None"
      by (auto simp: may_store_def signed_hash_def split: option.splits)
    then show False using bound_row by (simp add: demo_row_def)
  qed
  show ?thesis using put_box_decides [OF bound_world_ok(1) real_digest_demo r] no bound_row unfolding r by simp
qed

theorem ticket_opens_once_witness:
  "case mintRecoveryTicket runOne demo_id (Some (JStr demo_id)) (no_mem, [], quiet_world kv_env 0) of (r0, st0) \<Rightarrow>
     (case consumeRecoveryTicket runOne (Some (JStr demo_id)) (Some (JStr demo_id)) (atTime 1000 st0) of (r1, st1) \<Rightarrow>
        r1 = Inr True \<and> fst (consumeRecoveryTicket runOne (Some (JStr demo_id)) (Some (JStr demo_id)) (atTime 2000 st1)) = Inr False)"
proof -
  obtain r0 st0 where a: "mintRecoveryTicket runOne demo_id (Some (JStr demo_id)) (no_mem, [], quiet_world kv_env 0) = (r0, st0)" by (metis surj_pair)
  obtain r1 st1 where b: "consumeRecoveryTicket runOne (Some (JStr demo_id)) (Some (JStr demo_id)) (atTime 1000 st0) = (r1, st1)" by (metis surj_pair)
  obtain r2 st2 where c: "consumeRecoveryTicket runOne (Some (JStr demo_id)) (Some (JStr demo_id)) (atTime 2000 st1) = (r2, st2)" by (metis surj_pair)
  have t: "clock (quiet_world kv_env 0) = 0" by (simp add: quiet_world_def)
  show ?thesis using ticket_opens_once [OF vault_empty demo_id_hex demo_id_hex demo_id_hex demo_id_hex _ _ a b c] by (simp add: a b c t)
qed

end
