(* ===== verification/IdentityLinks.thy ===== *)
theory IdentityLinks
  imports RecoveryStore
begin

text \<open>
  apps/sponsor/src/lib/identity-links.ts: the ways back in.  An identity somebody proved control of (a passkey, an
  email, an account of an OAuth provider) is filed as a row that leads to one Stellar account, with the account's encrypted
  box; an account's listing names the identities that lead to it.  The emailed code is the dependency the source injects, an
  argument here; what the providers answer, the random values and the PKCE hash are arguments too.  The state is the maps of
  the codes and of the boxes, this module's own, the one of \<open>Handles\<close>, and the shared store; the worker's routes run on it.
\<close>

subsection \<open>Providers and identifiers\<close>

datatype provider = Passkey | Email | Google | Github | Xcom

definition PROVIDERS :: "provider list" where "PROVIDERS = [Passkey, Email, Google, Github, Xcom]"
definition OAUTH_PROVIDERS :: "provider list" where "OAUTH_PROVIDERS = [Google, Github, Xcom]"

primrec providerText :: "provider \<Rightarrow> string" where
  "providerText Passkey = ''passkey''"
| "providerText Email = ''email''"
| "providerText Google = ''google''"
| "providerText Github = ''github''"
| "providerText Xcom = ''x''"

definition providerOf :: "string \<Rightarrow> provider option" where
  "providerOf s = find (\<lambda>p. providerText p = s) PROVIDERS"

lemma providerOf_text [simp]: "providerOf (providerText p) = Some p"
  by (cases p) (simp_all add: providerOf_def PROVIDERS_def)

definition IDENTITY_ROW :: string where "IDENTITY_ROW = ''lumenia:identity:''"
definition IDENTITY_OF :: string where "IDENTITY_OF = ''lumenia:identity-of:''"
definition OAUTH_STATE :: string where "OAUTH_STATE = ''lumenia:oauth-state:''"
definition OAUTH_TICKET :: string where "OAUTH_TICKET = ''lumenia:oauth-ticket:''"
definition STATE_TTL_SEC :: int where "STATE_TTL_SEC = 600"
definition TICKET_TTL_SEC :: int where "TICKET_TTL_SEC = 300"
definition MAX_ROW_BYTES :: nat where "MAX_ROW_BYTES = 8192"
definition MAX_LINKS_PER_ACCOUNT :: nat where "MAX_LINKS_PER_ACCOUNT = 12"

datatype ident_error = IdStore string | BadPasskeyId | EmptySubject | RowTooLarge | VaultThrew vault_error | CodeCheck otp_error
  | BadOauthState | ProviderCall string

text \<open>A passkey's identifier is the client's own; every other one is a hash over the provider and the subject.\<close>

definition identityId :: "keyring \<Rightarrow> provider \<Rightarrow> string \<Rightarrow> ident_error + string" where
  "identityId ring p subject = (if p = Passkey then
       (let i = toLowerCase subject in if lowerHex 64 i then Inr i else Inl BadPasskeyId)
     else (let normalized = (if p = Email then toLowerCase (trim subject) else trim subject) in
       if normalized = [] then Inl EmptySubject
       else Inr (digest ring (''lumenia-id:v1:'' @ providerText p @ '':'' @ normalized))))"

subsection \<open>The store\<close>

type_synonym 'k ident = "otp_mem \<times> rec_mem \<times> hmem \<times> 'k shelf"

text \<open>A call on this module's own map and the store, on the names' map and the store, on the codes' maps and the store, or on the
  boxes' maps, the names' map and the store.\<close>

definition onOwn :: "(hmem \<times> 'k world \<Rightarrow> (string + 'a) \<times> hmem \<times> 'k world) \<Rightarrow> 'k ident \<Rightarrow> (ident_error + 'a) \<times> 'k ident" where
  "onOwn f st = (case st of (q, m, i, h, w) \<Rightarrow> (case f (i, w) of
       (Inl e, i1, w1) \<Rightarrow> (Inl (IdStore ''identity store returned an error''), q, m, i1, h, w1)
     | (Inr x, i1, w1) \<Rightarrow> (Inr x, q, m, i1, h, w1)))"

definition onNames :: "('k shelf \<Rightarrow> (string + 'a) \<times> 'k shelf) \<Rightarrow> 'k ident \<Rightarrow> (ident_error + 'a) \<times> 'k ident" where
  "onNames f st = (case st of (q, m, i, s) \<Rightarrow> (case f s of
       (Inl e, s1) \<Rightarrow> (Inl (IdStore e), q, m, i, s1)
     | (Inr x, s1) \<Rightarrow> (Inr x, q, m, i, s1)))"

definition onCodes :: "(otp_mem \<times> 'k world \<Rightarrow> (otp_error + 'a) \<times> otp_mem \<times> 'k world) \<Rightarrow> 'k ident \<Rightarrow> (ident_error + 'a) \<times> 'k ident" where
  "onCodes f st = (case st of (q, m, i, h, w) \<Rightarrow> (case f (q, w) of
       (Inl e, q1, w1) \<Rightarrow> (Inl (CodeCheck e), q1, m, i, h, w1)
     | (Inr x, q1, w1) \<Rightarrow> (Inr x, q1, m, i, h, w1)))"

definition onVault :: "('k vault \<Rightarrow> (vault_error + 'a) \<times> 'k vault) \<Rightarrow> 'k ident \<Rightarrow> (ident_error + 'a) \<times> 'k ident" where
  "onVault f st = (case st of (q, m, i, h, w) \<Rightarrow> (case f (m, h, w) of
       (Inl e, m1, s1) \<Rightarrow> (Inl (VaultThrew e), q, m1, i, s1)
     | (Inr x, m1, s1) \<Rightarrow> (Inr x, q, m1, i, s1)))"

definition idNow :: "'k ident \<Rightarrow> int" where
  "idNow st = (case st of (q, m, i, h, w) \<Rightarrow> clock w)"

definition idGet :: "'k server \<Rightarrow> string \<Rightarrow> 'k ident \<Rightarrow> (ident_error + string option) \<times> 'k ident" where
  "idGet srv k st = onOwn (kvGet srv k) st"

definition idSet :: "'k server \<Rightarrow> string \<Rightarrow> string \<Rightarrow> int option \<Rightarrow> 'k ident \<Rightarrow> (ident_error + unit) \<times> 'k ident" where
  "idSet srv k v ttlSec st = (if MAX_ROW_BYTES < length v then (Inl RowTooLarge, st) else onOwn (kvSet srv k v ttlSec) st)"

definition idDel :: "'k server \<Rightarrow> string \<Rightarrow> 'k ident \<Rightarrow> (ident_error + unit) \<times> 'k ident" where
  "idDel srv k st = onOwn (kvRemove srv k) st"

definition answer :: "'a \<Rightarrow> 'k ident \<Rightarrow> (ident_error + 'a) \<times> 'k ident" where
  "answer x st = (Inr x, st)"

subsection \<open>Rows and listings\<close>

record identity_row =
  rowVia :: provider
  leadsTo :: string
  rowNet :: string
  rowSince :: int
  rowFiled :: "json option"
  rowHash :: "string option"

definition identityJson :: "identity_row \<Rightarrow> json" where
  "identityJson r = JObj ([(''provider'', JStr (providerText (rowVia r))), (''address'', JStr (leadsTo r)), (''network'', JStr (rowNet r)),
     (''createdAt'', JInt (rowSince r))] @ (case rowFiled r of None \<Rightarrow> [] | Some b \<Rightarrow> [(''box'', b)]) @
     (case rowHash r of None \<Rightarrow> [] | Some x \<Rightarrow> [(''proofHash'', JStr x)]))"

definition showIdentity :: "identity_row \<Rightarrow> string" where
  "showIdentity r = showJson (identityJson r)"

definition textField :: "string \<Rightarrow> json \<Rightarrow> string option" where
  "textField k j = (case field k j of Some (JStr s) \<Rightarrow> Some s | _ \<Rightarrow> None)"

text \<open>A text that is no such row reads as no row: only this module writes the keys.\<close>

definition parseIdentity :: "string \<Rightarrow> identity_row option" where
  "parseIdentity s = (case parseJson s of None \<Rightarrow> None
     | Some j \<Rightarrow> (case (Option.bind (textField ''provider'' j) providerOf, textField ''address'' j, textField ''network'' j, field ''createdAt'' j) of
          (Some p, Some a, Some n, Some (JInt c)) \<Rightarrow> Some \<lparr>rowVia = p, leadsTo = a, rowNet = n, rowSince = c,
             rowFiled = field ''box'' j, rowHash = textField ''proofHash'' j\<rparr>
        | _ \<Rightarrow> None))"

record link_summary =
  linkVia :: provider
  linkId :: string
  linkedAt :: int

definition linkJson :: "link_summary \<Rightarrow> json" where
  "linkJson l = JObj [(''provider'', JStr (providerText (linkVia l))), (''id'', JStr (linkId l)), (''createdAt'', JInt (linkedAt l))]"

definition linkOf :: "json \<Rightarrow> link_summary option" where
  "linkOf j = (case (Option.bind (textField ''provider'' j) providerOf, textField ''id'' j, field ''createdAt'' j) of
       (Some p, Some i, Some (JInt c)) \<Rightarrow> Some \<lparr>linkVia = p, linkId = i, linkedAt = c\<rparr>
     | _ \<Rightarrow> None)"

definition showLinks :: "link_summary list \<Rightarrow> string" where
  "showLinks ls = showJson (JArr (map linkJson ls))"

definition parseLinks :: "string \<Rightarrow> link_summary list" where
  "parseLinks s = (case parseJson s of
       Some (JArr js) \<Rightarrow> (case those (map linkOf js) of None \<Rightarrow> [] | Some ls \<Rightarrow> ls)
     | _ \<Rightarrow> [])"

definition listKey :: "string \<Rightarrow> string \<Rightarrow> string" where
  "listKey net account = IDENTITY_OF @ net @ '':'' @ account"

definition readIdentity :: "'k server \<Rightarrow> string \<Rightarrow> 'k ident \<Rightarrow> (ident_error + identity_row option) \<times> 'k ident" where
  "readIdentity srv i st = proceed (idGet srv (IDENTITY_ROW @ i) st) (\<lambda>raw st1.
     (Inr (case nonEmpty raw of None \<Rightarrow> None | Some s \<Rightarrow> parseIdentity s), st1))"

definition readLinks :: "'k server \<Rightarrow> string \<Rightarrow> string \<Rightarrow> 'k ident \<Rightarrow> (ident_error + link_summary list) \<times> 'k ident" where
  "readLinks srv net account st = proceed (idGet srv (listKey net account) st) (\<lambda>raw st1.
     (Inr (case nonEmpty raw of None \<Rightarrow> [] | Some s \<Rightarrow> parseLinks s), st1))"

definition writeLinks :: "'k server \<Rightarrow> string \<Rightarrow> string \<Rightarrow> link_summary list \<Rightarrow> 'k ident \<Rightarrow> (ident_error + unit) \<times> 'k ident" where
  "writeLinks srv net account ls st = (if ls = [] then idDel srv (listKey net account) st
     else idSet srv (listKey net account) (showLinks ls) None st)"

subsection \<open>Proof of control\<close>

record oauth_ticket =
  ticketVia :: provider
  ticketSubject :: string
  ticketLabel :: "string option"
  ticketAddress :: "string option"
  ticketNet :: string

definition maybe :: "string \<Rightarrow> string option \<Rightarrow> (string \<times> json) list" where
  "maybe k v = (case v of None \<Rightarrow> [] | Some s \<Rightarrow> [(k, JStr s)])"

definition ticketJson :: "oauth_ticket \<Rightarrow> json" where
  "ticketJson t = JObj ([(''provider'', JStr (providerText (ticketVia t))), (''subject'', JStr (ticketSubject t))] @
     maybe ''label'' (ticketLabel t) @ maybe ''address'' (ticketAddress t) @ [(''network'', JStr (ticketNet t))])"

definition parseTicket :: "string \<Rightarrow> oauth_ticket option" where
  "parseTicket s = (case parseJson s of None \<Rightarrow> None
     | Some j \<Rightarrow> (case (Option.bind (textField ''provider'' j) providerOf, textField ''subject'' j, textField ''network'' j) of
          (Some p, Some x, Some n) \<Rightarrow> Some \<lparr>ticketVia = p, ticketSubject = x, ticketLabel = textField ''label'' j,
             ticketAddress = textField ''address'' j, ticketNet = n\<rparr>
        | _ \<Rightarrow> None))"

definition ticketShape :: "string \<Rightarrow> bool" where
  "ticketShape t \<longleftrightarrow> 32 \<le> length t \<and> length t \<le> 64 \<and> lowerHex (length t) t"

definition consumeTicket :: "'k server \<Rightarrow> string \<Rightarrow> 'k ident \<Rightarrow> (ident_error + oauth_ticket option) \<times> 'k ident" where
  "consumeTicket srv t st = (if \<not> ticketShape t then answer None st
     else proceed (idGet srv (OAUTH_TICKET @ t) st) (\<lambda>raw st1. case nonEmpty raw of None \<Rightarrow> answer None st1
       | Some s \<Rightarrow> proceed (idDel srv (OAUTH_TICKET @ t) st1) (\<lambda>_ st2. answer (parseTicket s) st2)))"

datatype identity_proof = ByPasskey string string | ByEmail string string | ByTicket string

record resolved =
  idVia :: provider
  idKey :: string
  idLabel :: "string option"

definition resolveProof :: "'k server \<Rightarrow> keyring \<Rightarrow> (string \<Rightarrow> string \<Rightarrow> otp_mem \<times> 'k world \<Rightarrow> (otp_error + bool) \<times> otp_mem \<times> 'k world) \<Rightarrow>
    identity_proof \<Rightarrow> 'k ident \<Rightarrow> (ident_error + resolved option) \<times> 'k ident" where
  "resolveProof srv ring verifyEmailOtp how st = (case how of
       ByPasskey i p \<Rightarrow> if \<not> lowerHex 64 i \<or> \<not> lowerHex 64 p then answer None st
         else proceed (readIdentity srv i st) (\<lambda>row st1.
           answer (case Option.bind row (\<lambda>r. nonEmpty (rowHash r)) of
               Some x \<Rightarrow> if digest ring p \<noteq> x then None else Some \<lparr>idVia = Passkey, idKey = i, idLabel = None\<rparr>
             | None \<Rightarrow> Some \<lparr>idVia = Passkey, idKey = i, idLabel = None\<rparr>) st1)
     | ByEmail raw c \<Rightarrow> (let email = toLowerCase (trim raw) in
         if \<not> emailShape email then answer None st
         else proceed (onCodes (verifyEmailOtp email c) st) (\<lambda>right st1.
           if \<not> right then answer None st1
           else (case identityId ring Email email of Inl e \<Rightarrow> (Inl e, st1)
             | Inr i \<Rightarrow> answer (Some \<lparr>idVia = Email, idKey = i, idLabel = Some email\<rparr>) st1)))
     | ByTicket t \<Rightarrow> proceed (consumeTicket srv t st) (\<lambda>found st1. case found of None \<Rightarrow> answer None st1
         | Some x \<Rightarrow> (case identityId ring (ticketVia x) (ticketSubject x) of Inl e \<Rightarrow> (Inl e, st1)
             | Inr i \<Rightarrow> answer (Some \<lparr>idVia = ticketVia x, idKey = i, idLabel = ticketLabel x\<rparr>) st1)))"

text \<open>The dependency as the worker injects it.\<close>

definition emailCode :: "'k server \<Rightarrow> keyring \<Rightarrow> string \<Rightarrow> string \<Rightarrow> otp_mem \<times> 'k world \<Rightarrow> (otp_error + bool) \<times> otp_mem \<times> 'k world" where
  "emailCode srv ring email c s = verifyOtp srv (digest ring) (Some (idForEmail (digest ring) email)) (Some c) s"

subsection \<open>Operations\<close>

record check_result =
  ckTaken :: bool
  ckAddress :: "string option"
  ckHandle :: "string option"
  ckVia :: provider
  ckLabel :: "string option"

definition checkIdentity :: "'k server \<Rightarrow> keyring \<Rightarrow> resolved \<Rightarrow> 'k ident \<Rightarrow> (ident_error + check_result) \<times> 'k ident" where
  "checkIdentity srv ring who st = proceed (readIdentity srv (idKey who) st) (\<lambda>row st1. case row of
       None \<Rightarrow> answer \<lparr>ckTaken = False, ckAddress = None, ckHandle = None, ckVia = idVia who, ckLabel = idLabel who\<rparr> st1
     | Some r \<Rightarrow> proceed (onNames (handleOf srv ring (leadsTo r)) st1) (\<lambda>name st2.
         answer \<lparr>ckTaken = True, ckAddress = Some (leadsTo r), ckHandle = name, ckVia = idVia who, ckLabel = idLabel who\<rparr> st2))"

record account_proof =
  apTs :: "int option"
  apNonce :: string
  apSig :: string

definition ATTACH_PROOF_NAME :: string where "ATTACH_PROOF_NAME = ''attach''"
definition DETACH_PROOF_PREFIX :: string where "DETACH_PROOF_PREFIX = ''detach:''"

definition accountInput :: "string \<Rightarrow> string \<Rightarrow> string \<Rightarrow> account_proof \<Rightarrow> proof_input" where
  "accountInput name account net ap = \<lparr>pname = name, ppubkey = account, pts = apTs ap, pnonce = apNonce ap, pnet = net, psig = apSig ap\<rparr>"

datatype attach_refusal = BadAccount | NeedsAccount | AccountRefused rejection | OtherAccount string "string option" | TooManyLinks

text \<open>The row an attach writes: the box given, or the one filed before; the passkey it is bound to, from its first write on.\<close>

definition attachRow :: "keyring \<Rightarrow> resolved \<Rightarrow> string \<Rightarrow> string \<Rightarrow> json option \<Rightarrow> string option \<Rightarrow> identity_row option \<Rightarrow> int \<Rightarrow> ident_error + identity_row" where
  "attachRow ring who account net raw passkeyProof existing now = (case (case raw of
         None \<Rightarrow> Inr (Option.bind existing (\<lambda>r. if jsTruthy (rowFiled r) then rowFiled r else None))
       | Some JNull \<Rightarrow> Inr (Option.bind existing (\<lambda>r. if jsTruthy (rowFiled r) then rowFiled r else None))
       | Some b \<Rightarrow> map_sum VaultThrew Some (validateBox (Some b))) of
     Inl e \<Rightarrow> Inl e
   | Inr filed \<Rightarrow> Inr \<lparr>rowVia = idVia who, leadsTo = account, rowNet = net,
       rowSince = (case existing of None \<Rightarrow> now | Some r \<Rightarrow> rowSince r), rowFiled = filed,
       rowHash = (case Option.bind existing (\<lambda>r. nonEmpty (rowHash r)) of
           Some x \<Rightarrow> Some x
         | None \<Rightarrow> (case passkeyProof of None \<Rightarrow> None
             | Some p \<Rightarrow> if idVia who = Passkey \<and> lowerHex 64 p then Some (digest ring p) else None))\<rparr>)"

definition fileLink :: "'k server \<Rightarrow> keyring \<Rightarrow> resolved \<Rightarrow> string \<Rightarrow> string \<Rightarrow> json option \<Rightarrow> string option \<Rightarrow> identity_row option \<Rightarrow> link_summary list \<Rightarrow>
    'k ident \<Rightarrow> (ident_error + (attach_refusal + link_summary list)) \<times> 'k ident" where
  "fileLink srv ring who account net raw passkeyProof existing links st =
    (case attachRow ring who account net raw passkeyProof existing (idNow st) of
       Inl e \<Rightarrow> (Inl e, st)
     | Inr row \<Rightarrow> proceed (idSet srv (IDENTITY_ROW @ idKey who) (showIdentity row) None st) (\<lambda>_ st1.
         (let listed = (if idKey who \<in> linkId ` set links then links
              else links @ [\<lparr>linkVia = idVia who, linkId = idKey who, linkedAt = rowSince row\<rparr>])
          in proceed (writeLinks srv net account listed st1) (\<lambda>_ st2. answer (Inr listed) st2))))"

definition attachIdentity :: "'k server \<Rightarrow> keyring \<Rightarrow> resolved \<Rightarrow> string \<Rightarrow> string \<Rightarrow> json option \<Rightarrow> string option \<Rightarrow> account_proof option \<Rightarrow>
    'k ident \<Rightarrow> (ident_error + (attach_refusal + link_summary list)) \<times> 'k ident" where
  "attachIdentity srv ring who account net raw passkeyProof ap st =
    (if \<not> accountKey ring account then answer (Inl BadAccount) st
     else (case ap of None \<Rightarrow> answer (Inl NeedsAccount) st
       | Some p \<Rightarrow> proceed (onNames (verifyHandleProof srv ring Links (accountInput ATTACH_PROOF_NAME account net p)) st) (\<lambda>refused st1.
          case refused of Some x \<Rightarrow> answer (Inl (AccountRefused x)) st1
          | None \<Rightarrow> proceed (readIdentity srv (idKey who) st1) (\<lambda>existing st2.
              if (case existing of None \<Rightarrow> False | Some r \<Rightarrow> leadsTo r \<noteq> account) then
                (let other = leadsTo (the existing) in
                 proceed (onNames (handleOf srv ring other) st2) (\<lambda>name st3. answer (Inl (OtherAccount other name)) st3))
              else proceed (readLinks srv net account st2) (\<lambda>links st3.
                if idKey who \<notin> linkId ` set links \<and> MAX_LINKS_PER_ACCOUNT \<le> length links then answer (Inl TooManyLinks) st3
                else fileLink srv ring who account net raw passkeyProof existing links st3)))))"

definition fetchByIdentity :: "'k server \<Rightarrow> keyring \<Rightarrow> resolved \<Rightarrow> 'k ident \<Rightarrow> (ident_error + (string \<times> string option \<times> json option) option) \<times> 'k ident" where
  "fetchByIdentity srv ring who st = proceed (readIdentity srv (idKey who) st) (\<lambda>row st1. case row of
       None \<Rightarrow> answer None st1
     | Some r \<Rightarrow> proceed (onNames (handleOf srv ring (leadsTo r)) st1) (\<lambda>name st2. answer (Some (leadsTo r, name, rowFiled r)) st2))"

datatype detached = Detached | NotConnected | Unauthorized

definition detachIdentity :: "'k server \<Rightarrow> keyring \<Rightarrow> resolved \<Rightarrow> string \<Rightarrow> account_proof option \<Rightarrow> 'k ident \<Rightarrow> (ident_error + detached) \<times> 'k ident" where
  "detachIdentity srv ring who net ap st = proceed (readIdentity srv (idKey who) st) (\<lambda>row st1. case row of
       None \<Rightarrow> answer NotConnected st1
     | Some r \<Rightarrow> (case ap of None \<Rightarrow> answer Unauthorized st1
       | Some p \<Rightarrow> proceed (onNames (verifyHandleProof srv ring Links (accountInput (DETACH_PROOF_PREFIX @ idKey who) (leadsTo r) net p)) st1) (\<lambda>refused st2.
           if refused \<noteq> None then answer Unauthorized st2
           else proceed (idDel srv (IDENTITY_ROW @ idKey who) st2) (\<lambda>_ st3.
             proceed (readLinks srv (rowNet r) (leadsTo r) st3) (\<lambda>links st4.
             proceed (writeLinks srv (rowNet r) (leadsTo r) (filter (\<lambda>l. linkId l \<noteq> idKey who) links) st4) (\<lambda>_ st5. answer Detached st5))))))"

text \<open>The rows of a provider's links, those that still lead to the account.\<close>

fun dropRows :: "'k server \<Rightarrow> string \<Rightarrow> link_summary list \<Rightarrow> 'k ident \<Rightarrow> (ident_error + unit) \<times> 'k ident" where
  "dropRows srv account [] st = answer () st"
| "dropRows srv account (l # ls) st = proceed (readIdentity srv (linkId l) st) (\<lambda>row st1.
     proceed (if (case row of None \<Rightarrow> False | Some r \<Rightarrow> leadsTo r = account) then idDel srv (IDENTITY_ROW @ linkId l) st1 else answer () st1)
       (\<lambda>_ st2. dropRows srv account ls st2))"

definition detachProviderByAccount :: "'k server \<Rightarrow> string \<Rightarrow> string \<Rightarrow> provider \<Rightarrow> 'k ident \<Rightarrow> (ident_error + nat) \<times> 'k ident" where
  "detachProviderByAccount srv account net p st = proceed (readLinks srv net account st) (\<lambda>links st1.
     let doomed = filter (\<lambda>l. linkVia l = p) links in
     proceed (dropRows srv account doomed st1) (\<lambda>_ st2.
     proceed (writeLinks srv net account (filter (\<lambda>l. linkVia l \<noteq> p) links) st2) (\<lambda>_ st3. answer (length doomed) st3)))"

definition listLinks :: "'k server \<Rightarrow> keyring \<Rightarrow> string \<Rightarrow> string \<Rightarrow> 'k ident \<Rightarrow> (ident_error + (provider \<times> int) list) \<times> 'k ident" where
  "listLinks srv ring account net st = (if \<not> accountKey ring account then answer [] st
     else proceed (readLinks srv net account st) (\<lambda>links st1. answer (map (\<lambda>l. (linkVia l, linkedAt l)) links) st1))"

subsection \<open>OAuth\<close>

text \<open>\<open>String(v)\<close> of a JSON value; inside an array null prints as nothing.\<close>

fun jsString :: "json \<Rightarrow> string" where
  "jsString JNull = ''null''"
| "jsString (JBool b) = (if b then ''true'' else ''false'')"
| "jsString (JInt i) = show_int i"
| "jsString (JStr s) = s"
| "jsString (JArr xs) = join '','' (map (\<lambda>x. if x = JNull then [] else jsString x) xs)"
| "jsString (JObj ms) = ''[object Object]''"

record oauth_config =
  clientId :: string
  clientSecret :: string
  authorizeUrl :: string
  tokenUrl :: string
  scope :: string
  pkce :: bool
  userUrl :: string
  readUser :: "json \<Rightarrow> (string \<times> string option) option"
  basicAuth :: bool

definition envPair :: "environ \<Rightarrow> provider \<Rightarrow> string option \<times> string option" where
  "envPair e p = (let upper = toUpperCase (providerText p) in
     (e (''OAUTH_'' @ upper @ ''_CLIENT_ID''), e (''OAUTH_'' @ upper @ ''_CLIENT_SECRET'')))"

definition googleUser :: "json \<Rightarrow> (string \<times> string option) option" where
  "googleUser j = map_option (\<lambda>s. (s, textField ''email'' j)) (textField ''sub'' j)"

definition githubUser :: "json \<Rightarrow> (string \<times> string option) option" where
  "githubUser j = (case field ''id'' j of None \<Rightarrow> None | Some JNull \<Rightarrow> None
     | Some v \<Rightarrow> Some (jsString v, map_option (\<lambda>l. CHR ''@'' # l) (textField ''login'' j)))"

definition xUser :: "json \<Rightarrow> (string \<times> string option) option" where
  "xUser j = (case field ''data'' j of None \<Rightarrow> None
     | Some d \<Rightarrow> map_option (\<lambda>i. (i, map_option (\<lambda>l. CHR ''@'' # l) (textField ''username'' d))) (textField ''id'' d))"

definition oauthConfig :: "environ \<Rightarrow> provider \<Rightarrow> oauth_config option" where
  "oauthConfig e p = (case envPair e p of
       (Some i, Some s) \<Rightarrow> if i = [] \<or> s = [] then None
         else if p = Google then Some \<lparr>clientId = i, clientSecret = s, authorizeUrl = ''https://accounts.google.com/o/oauth2/v2/auth'',
           tokenUrl = ''https://oauth2.googleapis.com/token'', scope = ''openid email'', pkce = True,
           userUrl = ''https://openidconnect.googleapis.com/v1/userinfo'', readUser = googleUser, basicAuth = False\<rparr>
         else if p = Github then Some \<lparr>clientId = i, clientSecret = s, authorizeUrl = ''https://github.com/login/oauth/authorize'',
           tokenUrl = ''https://github.com/login/oauth/access_token'', scope = ''read:user'', pkce = False,
           userUrl = ''https://api.github.com/user'', readUser = githubUser, basicAuth = False\<rparr>
         else Some \<lparr>clientId = i, clientSecret = s, authorizeUrl = ''https://x.com/i/oauth2/authorize'',
           tokenUrl = ''https://api.x.com/2/oauth2/token'', scope = ''users.read'', pkce = True,
           userUrl = ''https://api.x.com/2/users/me'', readUser = xUser, basicAuth = True\<rparr>
     | _ \<Rightarrow> None)"

definition availableOAuthProviders :: "environ \<Rightarrow> provider list" where
  "availableOAuthProviders e = filter (\<lambda>p. oauthConfig e p \<noteq> None) OAUTH_PROVIDERS"

text \<open>One slash at the end goes.\<close>

definition unslash :: "string \<Rightarrow> string" where
  "unslash s = (if s \<noteq> [] \<and> last s = CHR ''/'' then butlast s else s)"

definition oauthRedirectUri :: "environ \<Rightarrow> provider \<Rightarrow> string" where
  "oauthRedirectUri e p = unslash (case e ''OAUTH_REDIRECT_BASE'' of Some b \<Rightarrow> b
     | None \<Rightarrow> (case e ''SPONSOR_PUBLIC_URL'' of Some b \<Rightarrow> b | None \<Rightarrow> [])) @ ''/oauth/'' @ providerText p @ ''/callback''"

definition webReturnUrl :: "environ \<Rightarrow> string" where
  "webReturnUrl e = unslash (case e ''WEB_URL'' of Some b \<Rightarrow> b | None \<Rightarrow> ''https://getlumenia.com'')"

definition idEnv :: "'k ident \<Rightarrow> environ" where
  "idEnv st = (case st of (q, m, i, h, w) \<Rightarrow> env w)"

text \<open>What waits under a state for its callback.\<close>

record oauth_state =
  stVia :: provider
  stVerifier :: string
  stAddress :: "string option"
  stNet :: string

definition stateJson :: "oauth_state \<Rightarrow> json" where
  "stateJson x = JObj ([(''provider'', JStr (providerText (stVia x))), (''verifier'', JStr (stVerifier x))] @ maybe ''address'' (stAddress x) @
     [(''network'', JStr (stNet x))])"

definition parseState :: "string \<Rightarrow> oauth_state option" where
  "parseState s = (case parseJson s of None \<Rightarrow> None
     | Some j \<Rightarrow> (case (Option.bind (textField ''provider'' j) providerOf, textField ''verifier'' j, textField ''network'' j) of
          (Some p, Some v, Some n) \<Rightarrow> Some \<lparr>stVia = p, stVerifier = v, stAddress = textField ''address'' j, stNet = n\<rparr>
        | _ \<Rightarrow> None))"

datatype start_refusal = NotAvailable provider | NoPublicUrl

text \<open>The URL is its base and its parameters before they are encoded; the random state and verifier and the S256 hash are arguments.\<close>

definition startOAuth :: "'k server \<Rightarrow> (string \<Rightarrow> string) \<Rightarrow> string \<Rightarrow> string \<Rightarrow> provider \<Rightarrow> string option \<Rightarrow> string \<Rightarrow> 'k ident \<Rightarrow>
    (ident_error + (start_refusal + string \<times> (string \<times> string) list)) \<times> 'k ident" where
  "startOAuth srv s256 nonce random p account net st = (case oauthConfig (idEnv st) p of
       None \<Rightarrow> answer (Inl (NotAvailable p)) st
     | Some cfg \<Rightarrow>
         if take 4 (oauthRedirectUri (idEnv st) p) \<noteq> ''http'' then answer (Inl NoPublicUrl) st
         else (let verifier = (if pkce cfg then random else []);
                   kept = \<lparr>stVia = p, stVerifier = verifier, stAddress = account, stNet = net\<rparr>
           in proceed (idSet srv (OAUTH_STATE @ nonce) (showJson (stateJson kept)) (Some STATE_TTL_SEC) st) (\<lambda>_ st1.
             answer (Inr (authorizeUrl cfg,
               [(''client_id'', clientId cfg), (''redirect_uri'', oauthRedirectUri (idEnv st) p), (''response_type'', ''code''),
                (''scope'', scope cfg), (''state'', nonce)] @
               (if pkce cfg then [(''code_challenge'', s256 verifier), (''code_challenge_method'', ''S256'')] else []))) st1)))"

text \<open>What the provider answers: to the exchange of a code, the access token, none, or a call that throws; and to a token, the
  profile, none when it refuses.  A body that is null, whose fields the source cannot read, is a call that throws.\<close>

record oauth_outside =
  exchange :: "oauth_config \<Rightarrow> (string \<times> string) list \<Rightarrow> string + string option"
  profile :: "oauth_config \<Rightarrow> string \<Rightarrow> string + json option"

definition exchangeBody :: "environ \<Rightarrow> provider \<Rightarrow> oauth_config \<Rightarrow> string \<Rightarrow> string \<Rightarrow> (string \<times> string) list" where
  "exchangeBody e p cfg given verifier = [(''grant_type'', ''authorization_code''), (''code'', given), (''redirect_uri'', oauthRedirectUri e p)] @
     (if pkce cfg then [(''code_verifier'', verifier)] else []) @
     (if basicAuth cfg then [] else [(''client_id'', clientId cfg), (''client_secret'', clientSecret cfg)])"

datatype finish_refusal = UnknownProvider | Unavailable provider | DidNotComplete | Expired | DidNotMatch | ProviderRefused | CouldNotRead

text \<open>From the consumed state on.\<close>

definition mintTicket :: "'k server \<Rightarrow> string \<Rightarrow> provider \<Rightarrow> oauth_state \<Rightarrow> string \<times> string option \<Rightarrow> 'k ident \<Rightarrow>
    (ident_error + (finish_refusal + string)) \<times> 'k ident" where
  "mintTicket srv ticket p kept user st = proceed (idSet srv (OAUTH_TICKET @ ticket) (showJson (ticketJson
       \<lparr>ticketVia = p, ticketSubject = fst user, ticketLabel = snd user, ticketAddress = stAddress kept, ticketNet = stNet kept\<rparr>))
       (Some TICKET_TTL_SEC) st) (\<lambda>_ st1.
     answer (Inr (webReturnUrl (idEnv st1) @ ''/settings?connected='' @ ticket @ ''&provider='' @ providerText p)) st1)"

definition exchangeCode :: "'k server \<Rightarrow> oauth_outside \<Rightarrow> string \<Rightarrow> provider \<Rightarrow> oauth_config \<Rightarrow> string \<Rightarrow> oauth_state \<Rightarrow> 'k ident \<Rightarrow>
    (ident_error + (finish_refusal + string)) \<times> 'k ident" where
  "exchangeCode srv out ticket p cfg given kept st = (case exchange out cfg (exchangeBody (idEnv st) p cfg given (stVerifier kept)) of
       Inl e \<Rightarrow> (Inl (ProviderCall e), st)
     | Inr granted \<Rightarrow> (case nonEmpty granted of
           None \<Rightarrow> answer (Inl ProviderRefused) st
         | Some token \<Rightarrow> (case profile out cfg token of
               Inl e \<Rightarrow> (Inl (ProviderCall e), st)
             | Inr shown \<Rightarrow> (case Option.bind shown (readUser cfg) of
                   None \<Rightarrow> answer (Inl CouldNotRead) st
                 | Some user \<Rightarrow> mintTicket srv ticket p kept user st))))"

definition finishOAuth :: "'k server \<Rightarrow> oauth_outside \<Rightarrow> string \<Rightarrow> string \<Rightarrow> string option \<Rightarrow> string option \<Rightarrow> 'k ident \<Rightarrow>
    (ident_error + (finish_refusal + string)) \<times> 'k ident" where
  "finishOAuth srv out ticket rawProvider given cookie st = (case Option.bind (providerOf rawProvider) (\<lambda>p. if p \<in> set OAUTH_PROVIDERS then Some p else None) of
       None \<Rightarrow> answer (Inl UnknownProvider) st
     | Some p \<Rightarrow> (case oauthConfig (idEnv st) p of
         None \<Rightarrow> answer (Inl (Unavailable p)) st
       | Some cfg \<Rightarrow> (case (nonEmpty given, nonEmpty cookie) of
           (Some c, Some x) \<Rightarrow> proceed (idGet srv (OAUTH_STATE @ x) st) (\<lambda>raw st1. case nonEmpty raw of
               None \<Rightarrow> answer (Inl Expired) st1
             | Some s \<Rightarrow> proceed (idDel srv (OAUTH_STATE @ x) st1) (\<lambda>_ st2. case parseState s of
                   None \<Rightarrow> (Inl BadOauthState, st2)
                 | Some kept \<Rightarrow> if stVia kept \<noteq> p then answer (Inl DidNotMatch) st2
                     else exchangeCode srv out ticket p cfg c kept st2))
         | _ \<Rightarrow> answer (Inl DidNotComplete) st)))"

end
