(* ===== verification/IdentityLaws.thy ===== *)
theory IdentityLaws
  imports IdentityLinks
begin

text \<open>
  What the operations of identity-links.ts do on a store that answers, and what holds after any history of them: the
  account a row leads to is the only one that can take it away, and every listing is exactly the identities that lead to its
  account, at most twelve.  \<open>service_ok\<close> is the invariant of the store all the registries of the service share.
\<close>

subsection \<open>Keys\<close>

lemma service_keys [simp]:
  "IDENTITY_ROW @ a \<noteq> nameKey b" "nameKey b \<noteq> IDENTITY_ROW @ a" "IDENTITY_ROW @ a \<noteq> skelKey b"
  "skelKey b \<noteq> IDENTITY_ROW @ a" "IDENTITY_ROW @ a \<noteq> ofKey b" "ofKey b \<noteq> IDENTITY_ROW @ a"
  "IDENTITY_ROW @ a \<noteq> proofKey b" "proofKey b \<noteq> IDENTITY_ROW @ a" "IDENTITY_ROW @ a \<noteq> otpKey b"
  "otpKey b \<noteq> IDENTITY_ROW @ a" "IDENTITY_ROW @ a \<noteq> tryKey b" "tryKey b \<noteq> IDENTITY_ROW @ a" "IDENTITY_ROW @ a \<noteq> reqKey b"
  "reqKey b \<noteq> IDENTITY_ROW @ a" "IDENTITY_ROW @ a \<noteq> KEY_EMAIL @ b" "KEY_EMAIL @ b \<noteq> IDENTITY_ROW @ a"
  "IDENTITY_ROW @ a \<noteq> KEY_ALIAS @ b" "KEY_ALIAS @ b \<noteq> IDENTITY_ROW @ a" "IDENTITY_ROW @ a \<noteq> KEY_TICKET @ b"
  "KEY_TICKET @ b \<noteq> IDENTITY_ROW @ a" "IDENTITY_ROW @ a \<noteq> listKey x b" "listKey x b \<noteq> IDENTITY_ROW @ a"
  "IDENTITY_ROW @ a \<noteq> OAUTH_STATE @ b" "OAUTH_STATE @ b \<noteq> IDENTITY_ROW @ a" "IDENTITY_ROW @ a \<noteq> OAUTH_TICKET @ b"
  "OAUTH_TICKET @ b \<noteq> IDENTITY_ROW @ a" "listKey n a \<noteq> nameKey b" "nameKey b \<noteq> listKey n a" "listKey n a \<noteq> skelKey b"
  "skelKey b \<noteq> listKey n a" "listKey n a \<noteq> ofKey b" "ofKey b \<noteq> listKey n a" "listKey n a \<noteq> proofKey b"
  "proofKey b \<noteq> listKey n a" "listKey n a \<noteq> otpKey b" "otpKey b \<noteq> listKey n a" "listKey n a \<noteq> tryKey b"
  "tryKey b \<noteq> listKey n a" "listKey n a \<noteq> reqKey b" "reqKey b \<noteq> listKey n a" "listKey n a \<noteq> KEY_EMAIL @ b"
  "KEY_EMAIL @ b \<noteq> listKey n a" "listKey n a \<noteq> KEY_ALIAS @ b" "KEY_ALIAS @ b \<noteq> listKey n a"
  "listKey n a \<noteq> KEY_TICKET @ b" "KEY_TICKET @ b \<noteq> listKey n a" "listKey n a \<noteq> OAUTH_STATE @ b"
  "OAUTH_STATE @ b \<noteq> listKey n a" "listKey n a \<noteq> OAUTH_TICKET @ b" "OAUTH_TICKET @ b \<noteq> listKey n a"
  "OAUTH_STATE @ a \<noteq> nameKey b" "nameKey b \<noteq> OAUTH_STATE @ a" "OAUTH_STATE @ a \<noteq> skelKey b" "skelKey b \<noteq> OAUTH_STATE @ a"
  "OAUTH_STATE @ a \<noteq> ofKey b" "ofKey b \<noteq> OAUTH_STATE @ a" "OAUTH_STATE @ a \<noteq> proofKey b" "proofKey b \<noteq> OAUTH_STATE @ a"
  "OAUTH_STATE @ a \<noteq> otpKey b" "otpKey b \<noteq> OAUTH_STATE @ a" "OAUTH_STATE @ a \<noteq> tryKey b" "tryKey b \<noteq> OAUTH_STATE @ a"
  "OAUTH_STATE @ a \<noteq> reqKey b" "reqKey b \<noteq> OAUTH_STATE @ a" "OAUTH_STATE @ a \<noteq> KEY_EMAIL @ b"
  "KEY_EMAIL @ b \<noteq> OAUTH_STATE @ a" "OAUTH_STATE @ a \<noteq> KEY_ALIAS @ b" "KEY_ALIAS @ b \<noteq> OAUTH_STATE @ a"
  "OAUTH_STATE @ a \<noteq> KEY_TICKET @ b" "KEY_TICKET @ b \<noteq> OAUTH_STATE @ a" "OAUTH_STATE @ a \<noteq> OAUTH_TICKET @ b"
  "OAUTH_TICKET @ b \<noteq> OAUTH_STATE @ a" "OAUTH_TICKET @ a \<noteq> nameKey b" "nameKey b \<noteq> OAUTH_TICKET @ a"
  "OAUTH_TICKET @ a \<noteq> skelKey b" "skelKey b \<noteq> OAUTH_TICKET @ a" "OAUTH_TICKET @ a \<noteq> ofKey b" "ofKey b \<noteq> OAUTH_TICKET @ a"
  "OAUTH_TICKET @ a \<noteq> proofKey b" "proofKey b \<noteq> OAUTH_TICKET @ a" "OAUTH_TICKET @ a \<noteq> otpKey b"
  "otpKey b \<noteq> OAUTH_TICKET @ a" "OAUTH_TICKET @ a \<noteq> tryKey b" "tryKey b \<noteq> OAUTH_TICKET @ a" "OAUTH_TICKET @ a \<noteq> reqKey b"
  "reqKey b \<noteq> OAUTH_TICKET @ a" "OAUTH_TICKET @ a \<noteq> KEY_EMAIL @ b" "KEY_EMAIL @ b \<noteq> OAUTH_TICKET @ a"
  "OAUTH_TICKET @ a \<noteq> KEY_ALIAS @ b" "KEY_ALIAS @ b \<noteq> OAUTH_TICKET @ a" "OAUTH_TICKET @ a \<noteq> KEY_TICKET @ b"
  "KEY_TICKET @ b \<noteq> OAUTH_TICKET @ a" "otpKey a \<noteq> nameKey b" "nameKey b \<noteq> otpKey a" "otpKey a \<noteq> skelKey b"
  "skelKey b \<noteq> otpKey a" "otpKey a \<noteq> ofKey b" "ofKey b \<noteq> otpKey a" "otpKey a \<noteq> proofKey b" "proofKey b \<noteq> otpKey a"
  "otpKey a \<noteq> KEY_EMAIL @ b" "KEY_EMAIL @ b \<noteq> otpKey a" "otpKey a \<noteq> KEY_ALIAS @ b" "KEY_ALIAS @ b \<noteq> otpKey a"
  "otpKey a \<noteq> KEY_TICKET @ b" "KEY_TICKET @ b \<noteq> otpKey a" "tryKey a \<noteq> nameKey b" "nameKey b \<noteq> tryKey a"
  "tryKey a \<noteq> skelKey b" "skelKey b \<noteq> tryKey a" "tryKey a \<noteq> ofKey b" "ofKey b \<noteq> tryKey a" "tryKey a \<noteq> proofKey b"
  "proofKey b \<noteq> tryKey a" "tryKey a \<noteq> KEY_EMAIL @ b" "KEY_EMAIL @ b \<noteq> tryKey a" "tryKey a \<noteq> KEY_ALIAS @ b"
  "KEY_ALIAS @ b \<noteq> tryKey a" "tryKey a \<noteq> KEY_TICKET @ b" "KEY_TICKET @ b \<noteq> tryKey a" "reqKey a \<noteq> nameKey b"
  "nameKey b \<noteq> reqKey a" "reqKey a \<noteq> skelKey b" "skelKey b \<noteq> reqKey a" "reqKey a \<noteq> ofKey b" "ofKey b \<noteq> reqKey a"
  "reqKey a \<noteq> proofKey b" "proofKey b \<noteq> reqKey a" "reqKey a \<noteq> KEY_EMAIL @ b" "KEY_EMAIL @ b \<noteq> reqKey a"
  "reqKey a \<noteq> KEY_ALIAS @ b" "KEY_ALIAS @ b \<noteq> reqKey a" "reqKey a \<noteq> KEY_TICKET @ b" "KEY_TICKET @ b \<noteq> reqKey a"
  "nameKey a \<noteq> KEY_EMAIL @ b" "KEY_EMAIL @ b \<noteq> nameKey a" "nameKey a \<noteq> KEY_ALIAS @ b" "KEY_ALIAS @ b \<noteq> nameKey a"
  "nameKey a \<noteq> KEY_TICKET @ b" "KEY_TICKET @ b \<noteq> nameKey a" "skelKey a \<noteq> KEY_EMAIL @ b" "KEY_EMAIL @ b \<noteq> skelKey a"
  "skelKey a \<noteq> KEY_ALIAS @ b" "KEY_ALIAS @ b \<noteq> skelKey a" "skelKey a \<noteq> KEY_TICKET @ b" "KEY_TICKET @ b \<noteq> skelKey a"
  "ofKey a \<noteq> KEY_EMAIL @ b" "KEY_EMAIL @ b \<noteq> ofKey a" "ofKey a \<noteq> KEY_ALIAS @ b" "KEY_ALIAS @ b \<noteq> ofKey a"
  "ofKey a \<noteq> KEY_TICKET @ b" "KEY_TICKET @ b \<noteq> ofKey a" "proofKey a \<noteq> KEY_EMAIL @ b" "proofKey a \<noteq> KEY_ALIAS @ b"
  "proofKey a \<noteq> KEY_TICKET @ b"
  by (simp_all add: IDENTITY_ROW_def listKey_def IDENTITY_OF_def OAUTH_STATE_def OAUTH_TICKET_def nameKey_def skelKey_def ofKey_def proofKey_def otpKey_def
      tryKey_def reqKey_def KEY_EMAIL_def KEY_ALIAS_def KEY_TICKET_def)

lemma ident_key_inj [simp]: "listKey n a = listKey n b \<longleftrightarrow> a = b"
  by (simp add: listKey_def)

subsection \<open>Texts\<close>

lemma rdigits_length: "n < 10 ^ Suc k \<Longrightarrow> length (rdigits n) \<le> Suc k"
proof (induction k arbitrary: n)
  case (Suc k)
  show ?case
  proof (cases "n < 10")
    case False
    have "n div 10 < 10 ^ Suc k" using Suc.prems by (simp add: less_mult_imp_div_less)
    then show ?thesis using Suc.IH [of "n div 10"] False by (subst rdigits.simps) simp
  qed (subst rdigits.simps, simp)
qed (subst rdigits.simps, simp)

text \<open>The instants a JavaScript date holds.\<close>

definition in_time :: "int \<Rightarrow> bool" where
  "in_time t \<longleftrightarrow> 0 \<le> t \<and> t \<le> 8640000000000000"

lemma time_length: "in_time t \<Longrightarrow> length (show_int t) \<le> 16"
proof -
  assume "in_time t"
  then have "0 \<le> t" "nat t < 10 ^ Suc 15" by (auto simp: in_time_def)
  then show ?thesis using rdigits_length [of "nat t" 15] by (simp add: show_int_def show_nat_def)
qed

lemma quoted_plain: "list_all (\<lambda>c. is_digit c \<or> (97 \<le> code c \<and> code c \<le> 122)) s \<Longrightarrow> length (quoted s) = length s + 2"
proof -
  assume a: "list_all (\<lambda>c. is_digit c \<or> (97 \<le> code c \<and> code c \<le> 122)) s"
  have "escapeChar c = [c]" if "c \<in> set s" for c
    using a that by (auto simp: list_all_iff escapeChar_def shortEscapes_def is_digit_def)
  then have "concat (map escapeChar s) = s" by (induction s) simp_all
  then show ?thesis by (simp add: quoted_def)
qed

lemma provider_plain: "list_all (\<lambda>c. is_digit c \<or> (97 \<le> code c \<and> code c \<le> 122)) (providerText p)" "length (providerText p) \<le> 7"
  by (cases p; simp add: code_def)+

lemma hex_plain: "lowerHex n s \<Longrightarrow> list_all (\<lambda>c. is_digit c \<or> (97 \<le> code c \<and> code c \<le> 122)) s"
  by (auto simp: lowerHex_def list_all_iff)

definition link_ok :: "link_summary \<Rightarrow> bool" where
  "link_ok l \<longleftrightarrow> lowerHex 64 (linkId l) \<and> in_time (linkedAt l)"

lemma link_length: "link_ok l \<Longrightarrow> length (showJson (linkJson l)) \<le> 150"
proof -
  assume a: "link_ok l"
  then have "length (linkId l) = 64" by (simp add: link_ok_def lowerHex_def)
  moreover have "length (quoted (linkId l)) = length (linkId l) + 2" "length (show_int (linkedAt l)) \<le> 16"
    using a hex_plain [THEN quoted_plain] time_length by (auto simp: link_ok_def)
  moreover have "length (quoted (providerText (linkVia l))) \<le> 9" using quoted_plain [OF provider_plain(1)] provider_plain(2) [of "linkVia l"] by simp
  moreover have "length (quoted ''provider'') = 10" "length (quoted ''id'') = 4" "length (quoted ''createdAt'') = 11"
    by (simp_all add: quoted_def escapeChar_def shortEscapes_def code_def)
  ultimately show ?thesis by (simp add: linkJson_def showJson.simps join_Cons)
qed

lemma join_length: "(\<And>x. x \<in> set xs \<Longrightarrow> length x \<le> n) \<Longrightarrow> length (join [c] xs) \<le> length xs * Suc n"
  by (induction xs) (fastforce simp: join_Cons)+

lemma those_links: "those (map linkOf (map linkJson ls)) = Some ls"
  by (induction ls) (simp_all add: linkOf_def linkJson_def textField_def field_def)

lemma parse_showLinks [simp]: "parseLinks (showLinks ls) = ls"
proof -
  have "json_wf (JArr (map linkJson ls))" by (auto simp: list_all_iff linkJson_def)
  then show ?thesis unfolding parseLinks_def showLinks_def parse_showJson [OF \<open>json_wf _\<close>] by (simp add: those_links del: map_map)
qed

lemma showLinks_nonempty [simp]: "showLinks ls \<noteq> []"
  by (simp add: showLinks_def)

text \<open>A row this deployment wrote, on the network it answers for.\<close>

definition row_ok :: "keyring \<Rightarrow> string \<Rightarrow> identity_row \<Rightarrow> bool" where
  "row_ok ring net r \<longleftrightarrow> accountKey ring (leadsTo r) \<and> rowNet r = net \<and> in_time (rowSince r) \<and> rowHash r \<noteq> Some [] \<and>
     (case rowFiled r of None \<Rightarrow> True | Some b \<Rightarrow> ciphertext_box b)"

lemma parse_showIdentity: "row_ok ring net r \<Longrightarrow> parseIdentity (showIdentity r) = Some r"
proof -
  assume "row_ok ring net r"
  then have "json_wf (identityJson r)" by (auto simp: row_ok_def identityJson_def ciphertext_wf split: option.splits)
  then show ?thesis unfolding parseIdentity_def showIdentity_def parse_showJson [OF \<open>json_wf _\<close>]
    by (simp add: identityJson_def textField_def field_def split: option.splits)
qed

lemma showIdentity_nonempty [simp]: "showIdentity r \<noteq> []"
  by (simp add: showIdentity_def)

lemma parse_showTicket [simp]: "parseTicket (showJson (ticketJson t)) = Some t"
  by (simp add: parseTicket_def ticketJson_def textField_def field_def maybe_def split: option.splits)

lemma parse_showState [simp]: "parseState (showJson (stateJson t)) = Some t"
  by (simp add: parseState_def stateJson_def textField_def field_def maybe_def split: option.splits)

subsection \<open>What the store holds\<close>

definition identityAt :: "kv_view \<Rightarrow> string \<Rightarrow> identity_row option" where
  "identityAt v i = (case nonEmpty (cell_str (v (IDENTITY_ROW @ i))) of None \<Rightarrow> None | Some s \<Rightarrow> parseIdentity s)"

definition linksAt :: "string \<Rightarrow> kv_view \<Rightarrow> string \<Rightarrow> link_summary list" where
  "linksAt net v a = (case nonEmpty (cell_str (v (listKey net a))) of None \<Rightarrow> [] | Some s \<Rightarrow> parseLinks s)"

definition row_at :: "keyring \<Rightarrow> string \<Rightarrow> cell option \<Rightarrow> bool" where
  "row_at ring net c \<longleftrightarrow> c = None \<or> (\<exists>r. c = Some (VStr (showIdentity r), None) \<and> row_ok ring net r)"

definition links_ok :: "link_summary list \<Rightarrow> bool" where
  "links_ok ls \<longleftrightarrow> length ls \<le> MAX_LINKS_PER_ACCOUNT \<and> distinct (map linkId ls) \<and> list_all link_ok ls"

definition listing :: "link_summary list \<Rightarrow> cell option" where
  "listing ls = (if ls = [] then None else Some (VStr (showLinks ls), None))"

definition list_at :: "cell option \<Rightarrow> bool" where
  "list_at c \<longleftrightarrow> (\<exists>ls. c = listing ls \<and> links_ok ls)"

text \<open>Every row and listing is one this module wrote, and an account's listing is exactly the identities that lead to it.\<close>

definition ident_ok :: "keyring \<Rightarrow> string \<Rightarrow> kv_view \<Rightarrow> bool" where
  "ident_ok ring net v \<longleftrightarrow> (\<forall>i. row_at ring net (v (IDENTITY_ROW @ i))) \<and> (\<forall>a. list_at (v (listKey net a))) \<and>
     (\<forall>t. strish (v (OAUTH_TICKET @ t))) \<and> (\<forall>t. strish (v (OAUTH_STATE @ t))) \<and>
     (\<forall>i a. map_option leadsTo (identityAt v i) = Some a \<longleftrightarrow> i \<in> linkId ` set (linksAt net v a))"

definition service_ok :: "keyring \<Rightarrow> string \<Rightarrow> kv_view \<Rightarrow> bool" where
  "service_ok ring net v \<longleftrightarrow> registry_ok ring v \<and> otp_ok v \<and> vault_ok v \<and> ident_ok ring net v"

definition service_world :: "(int \<Rightarrow> 'k \<Rightarrow> kv_view) \<Rightarrow> ('k \<Rightarrow> bool) \<Rightarrow> keyring \<Rightarrow> string \<Rightarrow> 'k world \<Rightarrow> bool" where
  "service_world view ok ring net w \<longleftrightarrow> shelf_ok ok w \<and> in_time (clock w) \<and> service_ok ring net (view (clock w) (kvs w))"

lemma listing_simps [simp]: "listing [] = None" "strish (listing ls)" "lapse t (listing ls) = listing ls"
  by (simp_all add: listing_def)

lemma row_atE:
  assumes "row_at ring net c"
  obtains "c = None" | r where "c = Some (VStr (showIdentity r), None)" "row_ok ring net r"
  using assms by (auto simp: row_at_def)

lemma row_at_simps [simp]: "row_at ring net None" "row_ok ring net r \<Longrightarrow> row_at ring net (Some (VStr (showIdentity r), None))"
  by (auto simp: row_at_def)

lemma list_at_listing [simp]: "links_ok ls \<Longrightarrow> list_at (listing ls)"
  by (auto simp: list_at_def)

lemma row_at_strish: "row_at ring net c \<Longrightarrow> strish c" "list_at c' \<Longrightarrow> strish c'"
  by (auto simp: row_at_def list_at_def)

lemma row_at_lapse: "row_at ring net c \<Longrightarrow> lapse t c = c" "list_at c' \<Longrightarrow> lapse t c' = c'"
  by (auto simp: row_at_def list_at_def)

lemma identityAt_cell: "v (IDENTITY_ROW @ i) = None \<Longrightarrow> identityAt v i = None"
  "v (IDENTITY_ROW @ i) = Some (VStr (showIdentity r), None) \<Longrightarrow> row_ok ring net r \<Longrightarrow> identityAt v i = Some r"
  by (simp_all add: identityAt_def nonEmpty_def parse_showIdentity)

lemma linksAt_cell: "v (listKey net a) = listing ls \<Longrightarrow> linksAt net v a = ls"
  by (simp add: linksAt_def listing_def nonEmpty_def split: if_splits)

lemma ident_okD:
  assumes "ident_ok ring net v"
  shows "row_at ring net (v (IDENTITY_ROW @ i))" "list_at (v (listKey net a))" "strish (v (OAUTH_TICKET @ t))" "strish (v (OAUTH_STATE @ t))"
    "map_option leadsTo (identityAt v i) = Some a \<longleftrightarrow> i \<in> linkId ` set (linksAt net v a)"
  using assms by (simp_all add: ident_ok_def)

lemma identityAt_ok: "ident_ok ring net v \<Longrightarrow> identityAt v i = Some r \<Longrightarrow> row_ok ring net r"
  using row_atE [OF ident_okD(1), of ring net v i] identityAt_cell by (metis option.distinct(1) option.inject)

lemma linksAt_ok: "ident_ok ring net v \<Longrightarrow> links_ok (linksAt net v a)"
  using ident_okD(2) [of ring net v a] linksAt_cell by (auto simp: list_at_def)

lemma links_size: "links_ok ls \<Longrightarrow> length (showLinks ls) \<le> MAX_ROW_BYTES"
proof -
  assume a: "links_ok ls"
  then have "length x \<le> 150" if "x \<in> set (map showJson (map linkJson ls))" for x
    using that link_length by (auto simp: links_ok_def list_all_iff)
  then have "length (join '','' (map showJson (map linkJson ls))) \<le> length (map showJson (map linkJson ls)) * Suc 150"
    by (rule join_length)
  moreover have "length ls \<le> 12" using a by (simp add: links_ok_def MAX_LINKS_PER_ACCOUNT_def)
  ultimately show ?thesis by (simp add: showLinks_def showJson.simps MAX_ROW_BYTES_def)
qed

text \<open>Nothing opens or rewrites an inbox: its row stands, no ticket is minted and no code is sent.\<close>

definition inbox_kept :: "kv_view \<Rightarrow> kv_view \<Rightarrow> bool" where
  "inbox_kept v u \<longleftrightarrow> (\<forall>a. lowerHex 64 a \<longrightarrow> u (KEY_EMAIL @ a) = v (KEY_EMAIL @ a)) \<and>
     (\<forall>t. u (KEY_TICKET @ t) = v (KEY_TICKET @ t) \<or> u (KEY_TICKET @ t) = None) \<and> (\<forall>j. v (otpKey j) = None \<longrightarrow> u (otpKey j) = None)"

lemma inbox_kept_refl [simp]: "inbox_kept v v"
  by (simp add: inbox_kept_def)

lemma inbox_kept_trans: "inbox_kept v u \<Longrightarrow> inbox_kept u x \<Longrightarrow> inbox_kept v x"
  unfolding inbox_kept_def by (metis (no_types))

text \<open>The rows and listings of this module, and every inbox, are as they were; the rest of the invariant reads none of its keys.\<close>

definition same_ident :: "string \<Rightarrow> kv_view \<Rightarrow> kv_view \<Rightarrow> bool" where
  "same_ident net v u \<longleftrightarrow> (\<forall>i. u (IDENTITY_ROW @ i) = v (IDENTITY_ROW @ i)) \<and> (\<forall>a. u (listKey net a) = v (listKey net a)) \<and> inbox_kept v u"

lemma same_ident_refl [simp]: "same_ident net v v"
  by (simp add: same_ident_def)

lemma same_ident_trans: "same_ident net v u \<Longrightarrow> same_ident net u x \<Longrightarrow> same_ident net v x"
  using inbox_kept_trans by (auto simp: same_ident_def)

definition other_ok :: "kv_view \<Rightarrow> kv_view \<Rightarrow> bool" where
  "other_ok v u \<longleftrightarrow> same_names v u \<and> (\<forall>i. u (otpKey i) = v (otpKey i) \<and> u (tryKey i) = v (tryKey i) \<and> u (reqKey i) = v (reqKey i)) \<and>
     (\<forall>x. u (KEY_EMAIL @ x) = v (KEY_EMAIL @ x) \<and> u (KEY_ALIAS @ x) = v (KEY_ALIAS @ x) \<and> u (KEY_TICKET @ x) = v (KEY_TICKET @ x))"

lemma same_identD: "same_ident net v u \<Longrightarrow> identityAt u i = identityAt v i" "same_ident net v u \<Longrightarrow> linksAt net u a = linksAt net v a"
  by (simp_all add: same_ident_def identityAt_def linksAt_def)

lemma ident_same: "same_ident net v u \<Longrightarrow> (\<And>t. strish (u (OAUTH_TICKET @ t))) \<Longrightarrow> (\<And>t. strish (u (OAUTH_STATE @ t))) \<Longrightarrow>
    ident_ok ring net v \<Longrightarrow> ident_ok ring net u"
  using same_identD [of net v u] by (simp add: ident_ok_def same_ident_def)

lemma other_desk:
  assumes "other_ok v u" "service_ok ring net v" "ident_ok ring net u"
  shows "service_ok ring net u"
proof -
  have "registry_ok ring u" using assms registry_same by (auto simp: other_ok_def service_ok_def)
  moreover have "otp_ok u" "vault_ok u" using assms by (auto simp: other_ok_def service_ok_def otp_ok_def vault_ok_def prefixes_def)
  ultimately show ?thesis using assms(3) by (simp add: service_ok_def)
qed

lemma calm_desk: "calm v u \<Longrightarrow> service_ok ring net v \<Longrightarrow> service_ok ring net u" "calm v u \<Longrightarrow> same_ident net v u"
proof -
  assume c: "calm v u"
  show i: "same_ident net v u" using c by (simp add: calm_def same_ident_def inbox_kept_def)
  assume d: "service_ok ring net v"
  have "other_ok v u" using c by (simp add: calm_def other_ok_def same_names_def)
  moreover have "u (OAUTH_TICKET @ t) = v (OAUTH_TICKET @ t)" "u (OAUTH_STATE @ t) = v (OAUTH_STATE @ t)" for t
    using c by (simp_all add: calm_def)
  then have "ident_ok ring net u" using ident_same [OF i _ _, of ring] ident_okD(3,4) [of ring net v] d by (simp add: service_ok_def)
  ultimately show "service_ok ring net u" using other_desk d by blast
qed

text \<open>An identity filed under an account, and one taken away.\<close>

definition refiled :: "string \<Rightarrow> string \<Rightarrow> identity_row option \<Rightarrow> string \<Rightarrow> link_summary list \<Rightarrow> kv_view \<Rightarrow> kv_view" where
  "refiled net i row a ls v = v(IDENTITY_ROW @ i := map_option (\<lambda>r. (VStr (showIdentity r), None)) row, listKey net a := listing ls)"

lemma refiled_at:
  assumes "case row of None \<Rightarrow> True | Some r \<Rightarrow> row_ok ring net r"
  shows "identityAt (refiled net i row a ls v) = (identityAt v)(i := row)" "linksAt net (refiled net i row a ls v) = (linksAt net v)(a := ls)"
proof -
  show "identityAt (refiled net i row a ls v) = (identityAt v)(i := row)"
    using assms by (intro ext) (auto simp: identityAt_def refiled_def nonEmpty_def parse_showIdentity split: option.splits)
  show "linksAt net (refiled net i row a ls v) = (linksAt net v)(a := ls)"
    by (intro ext) (simp add: linksAt_def refiled_def listing_def nonEmpty_def)
qed

lemma refiled_desk:
  assumes "service_ok ring net v" "case row of None \<Rightarrow> True | Some r \<Rightarrow> row_ok ring net r \<and> leadsTo r = a" "links_ok ls"
    and "case row of None \<Rightarrow> linkId ` set ls = linkId ` set (linksAt net v a) - {i} | Some r \<Rightarrow> linkId ` set ls = insert i (linkId ` set (linksAt net v a))"
    and "case identityAt v i of None \<Rightarrow> True | Some r \<Rightarrow> leadsTo r = a"
  shows "service_ok ring net (refiled net i row a ls v)"
proof -
  let ?u = "refiled net i row a ls v"
  have ok: "ident_ok ring net v" using assms(1) by (simp add: service_ok_def)
  have r: "case row of None \<Rightarrow> True | Some r \<Rightarrow> row_ok ring net r" using assms(2) by (auto split: option.splits)
  have other: "other_ok v ?u" by (simp add: other_ok_def refiled_def same_names_def)
  have "row_at ring net (?u (IDENTITY_ROW @ j))" for j
    using ident_okD(1) [OF ok, of j] r by (auto simp: refiled_def split: option.splits)
  moreover have "list_at (?u (listKey net b))" for b using ident_okD(2) [OF ok, of b] assms(3) by (simp add: refiled_def)
  moreover have "map_option leadsTo (identityAt ?u j) = Some b \<longleftrightarrow> j \<in> linkId ` set (linksAt net ?u b)" for j b
  proof -
    have old: "map_option leadsTo (identityAt v i) = Some b \<longleftrightarrow> i \<in> linkId ` set (linksAt net v b)" by (rule ident_okD(5) [OF ok])
    have "i \<notin> linkId ` set (linksAt net v b)" if "b \<noteq> a" using old assms(5) that by (auto split: option.splits)
    moreover have "j \<in> linkId ` set ls \<longleftrightarrow> j \<in> linkId ` set (linksAt net v a)" if "j \<noteq> i"
      using assms(4) that by (cases row) simp_all
    moreover have "i \<in> linkId ` set ls \<longleftrightarrow> map_option leadsTo row = Some a"
      using assms(2,4) by (cases row) simp_all
    moreover have "map_option leadsTo row \<noteq> Some b" if "b \<noteq> a" using assms(2) that by (cases row) auto
    ultimately show ?thesis using ident_okD(5) [OF ok, of j b] unfolding refiled_at [OF r]
      by (cases "j = i"; cases "b = a"; simp)
  qed
  moreover have "strish (?u (OAUTH_TICKET @ t))" "strish (?u (OAUTH_STATE @ t))" for t
    using ident_okD(3,4) [OF ok] by (simp_all add: refiled_def)
  ultimately have "ident_ok ring net ?u" by (simp add: ident_ok_def)
  then show ?thesis using other_desk [OF other assms(1)] by blast
qed

subsection \<open>One call\<close>

lemma answer_simps [simp]: "answer x st = (Inr x, st)"
  by (simp add: answer_def)

lemma idNow_simps [simp]: "idNow (q, m, i, h, w) = clock w" "idEnv (q, m, i, h, w) = env w"
  by (simp_all add: idNow_def idEnv_def)

lemma became_id: "became view ok w u w' \<Longrightarrow> became view ok w' x w2 \<Longrightarrow> became view ok w x w2"
  by (simp add: became_def)

context redis_commands
begin

lemma idGet_kv:
  assumes "shelf_ok wf w" "strish (view (clock w) (kvs w) k)"
  shows "\<exists>w'. idGet srv k (q, m, i, h, w) = (Inr (cell_str (view (clock w) (kvs w) k)), q, m, i, h, w') \<and> became view wf w (view (clock w) (kvs w)) w'"
  using kvGet_kv [OF assms, of i] by (auto simp: idGet_def onOwn_def)

lemma idSet_kv:
  assumes "shelf_ok wf w" "\<And>n. ttlSec = Some n \<Longrightarrow> 0 < n" "length x \<le> MAX_ROW_BYTES"
  shows "\<exists>w'. idSet srv k x ttlSec (q, m, i, h, w) = (Inr (), q, m, i, h, w') \<and>
    became view wf w ((view (clock w) (kvs w))(k \<mapsto> (VStr x, endAt (clock w) ttlSec))) w'"
  using kvSet_kv [where ttlSec = ttlSec, OF assms(1,2), where m = i and x = x and k = k] assms(3) by (auto simp: idSet_def onOwn_def)

lemma idDel_kv:
  assumes "shelf_ok wf w"
  shows "\<exists>w'. idDel srv k (q, m, i, h, w) = (Inr (), q, m, i, h, w') \<and> became view wf w ((view (clock w) (kvs w))(k := None)) w'"
  using kvRemove_kv [OF assms, where m = i and k = k] by (auto simp: idDel_def onOwn_def)

lemma readIdentity_kv:
  assumes "shelf_ok wf w" "row_at ring net (view (clock w) (kvs w) (IDENTITY_ROW @ x))"
  shows "\<exists>w'. readIdentity srv x (q, m, i, h, w) = (Inr (identityAt (view (clock w) (kvs w)) x), q, m, i, h, w') \<and>
    became view wf w (view (clock w) (kvs w)) w'"
  using idGet_kv [OF assms(1) row_at_strish(1) [OF assms(2)], of q m i h] by (auto simp: readIdentity_def identityAt_def)

lemma readLinks_kv:
  assumes "shelf_ok wf w" "list_at (view (clock w) (kvs w) (listKey net a))"
  shows "\<exists>w'. readLinks srv net a (q, m, i, h, w) = (Inr (linksAt net (view (clock w) (kvs w)) a), q, m, i, h, w') \<and>
    became view wf w (view (clock w) (kvs w)) w'"
  using idGet_kv [OF assms(1) row_at_strish(2) [OF assms(2)], of q m i h] by (auto simp: readLinks_def linksAt_def)

lemma writeLinks_kv:
  assumes "shelf_ok wf w" "links_ok ls"
  shows "\<exists>w'. writeLinks srv net a ls (q, m, i, h, w) = (Inr (), q, m, i, h, w') \<and>
    became view wf w ((view (clock w) (kvs w))(listKey net a := listing ls)) w'"
  using idSet_kv [OF assms(1), of None "showLinks ls" "listKey net a" q m i h] links_size [OF assms(2)] idDel_kv [OF assms(1), of "listKey net a" q m i h]
  by (auto simp: writeLinks_def listing_def endAt_def)

lemma names_handle_kv:
  assumes "shelf_ok wf w" "registry_ok ring (view (clock w) (kvs w))"
  shows "\<exists>r w'. onNames (handleOf srv ring pk) (q, m, i, h, w) = (Inr r, q, m, i, h, w') \<and> became view wf w (view (clock w) (kvs w)) w'"
  using whois_kv [OF assms, of pk h] by (auto simp: onNames_def)

lemma names_verify_kv:
  assumes "shelf_ok wf w"
  shows "\<exists>r w' u. onNames (verifyHandleProof srv ring a inp) (q, m, i, h, w) = (Inr r, q, m, i, h, w') \<and> became view wf w u w' \<and>
    calm (view (clock w) (kvs w)) u \<and> (r = None \<longleftrightarrow> proof_ok ring a inp (clock w) (view (clock w) (kvs w)))"
  using verify_calm [OF assms, of ring a inp h] by (auto simp: onNames_def)

end

subsection \<open>Filing an identity\<close>

definition hex_digest :: "keyring \<Rightarrow> bool" where
  "hex_digest ring \<longleftrightarrow> (\<forall>x. lowerHex 64 (digest ring x))"

lemma hex_digest_nonempty: "hex_digest ring \<Longrightarrow> digest ring x \<noteq> []"
  by (metis hex_digest_def length_0_conv lowerHex_def zero_neq_numeral)

lemma attachRow_ok:
  assumes "attachRow ring who account net raw passkeyProof existing now = Inr row" "accountKey ring account" "in_time now" "hex_digest ring"
    and "case existing of None \<Rightarrow> True | Some r \<Rightarrow> row_ok ring net r"
  shows "row_ok ring net row" "leadsTo row = account"
proof -
  have f: "case rowFiled row of None \<Rightarrow> True | Some b \<Rightarrow> ciphertext_box b"
    using assms(1,5) by (auto simp: attachRow_def row_ok_def validateBox_Inr map_sum_def
        split: option.splits json.splits sum.splits if_splits elim!: Option.bind_eq_Some_conv [THEN iffD1, elim_format])
  then show "row_ok ring net row" "leadsTo row = account"
    using assms hex_digest_nonempty
    by (auto simp: attachRow_def row_ok_def nonEmpty_def split: option.splits sum.splits if_splits)
qed

text \<open>An identity the account may not have: one that leads elsewhere, or one more than twelve.\<close>

definition room_for :: "string \<Rightarrow> resolved \<Rightarrow> string \<Rightarrow> kv_view \<Rightarrow> bool" where
  "room_for net who a v \<longleftrightarrow> (case identityAt v (idKey who) of None \<Rightarrow> True | Some r \<Rightarrow> leadsTo r = a) \<and>
     (idKey who \<in> linkId ` set (linksAt net v a) \<or> length (linksAt net v a) < MAX_LINKS_PER_ACCOUNT)"

definition added :: "resolved \<Rightarrow> identity_row \<Rightarrow> link_summary list \<Rightarrow> link_summary list" where
  "added who row ls = (if idKey who \<in> linkId ` set ls then ls else ls @ [\<lparr>linkVia = idVia who, linkId = idKey who, linkedAt = rowSince row\<rparr>])"

text \<open>What an attach files: nothing, or the row and the account's new listing.\<close>

definition files :: "keyring \<Rightarrow> string \<Rightarrow> int \<Rightarrow> resolved \<Rightarrow> string \<Rightarrow> json option \<Rightarrow> string option \<Rightarrow> account_proof option \<Rightarrow> kv_view \<Rightarrow> (identity_row \<times> link_summary list) option" where
  "files ring net now who a raw pp ap v =
    (if accountKey ring a \<and> (case ap of None \<Rightarrow> False | Some p \<Rightarrow> proof_ok ring Links (accountInput ATTACH_PROOF_NAME a net p) now v) \<and> room_for net who a v
     then (case attachRow ring who a net raw pp (identityAt v (idKey who)) now of Inl e \<Rightarrow> None
       | Inr row \<Rightarrow> if length (showIdentity row) \<le> MAX_ROW_BYTES then Some (row, added who row (linksAt net v a)) else None)
     else None)"

definition attach_post :: "string \<Rightarrow> resolved \<Rightarrow> string \<Rightarrow> (identity_row \<times> link_summary list) option \<Rightarrow> kv_view \<Rightarrow>
    ident_error + (attach_refusal + link_summary list) \<Rightarrow> kv_view \<Rightarrow> bool" where
  "attach_post net who a filing v r u \<longleftrightarrow> (\<exists>c. calm v c \<and> (case filing of
       None \<Rightarrow> u = c \<and> (\<nexists>ls. r = Inr (Inr ls))
     | Some (row, ls) \<Rightarrow> r = Inr (Inr ls) \<and> u = refiled net (idKey who) (Some row) a ls c))"

lemma added_ok:
  assumes "links_ok ls" "lowerHex 64 (idKey who)" "in_time (rowSince row)" "idKey who \<in> linkId ` set ls \<or> length ls < MAX_LINKS_PER_ACCOUNT"
  shows "links_ok (added who row ls)" "linkId ` set (added who row ls) = insert (idKey who) (linkId ` set ls)"
  using assms by (auto simp: added_def links_ok_def link_ok_def)

lemma files_ok:
  assumes "files ring net now who a raw pp ap v = Some (row, ls)" "ident_ok ring net v" "in_time now" "hex_digest ring" "lowerHex 64 (idKey who)"
  shows "row_ok ring net row" "leadsTo row = a" "links_ok ls" "linkId ` set ls = insert (idKey who) (linkId ` set (linksAt net v a))"
    "length (showIdentity row) \<le> MAX_ROW_BYTES" "case identityAt v (idKey who) of None \<Rightarrow> True | Some r \<Rightarrow> leadsTo r = a"
proof -
  have f: "accountKey ring a" "room_for net who a v" "attachRow ring who a net raw pp (identityAt v (idKey who)) now = Inr row"
      "length (showIdentity row) \<le> MAX_ROW_BYTES" "ls = added who row (linksAt net v a)"
    using assms(1) by (auto simp: files_def split: if_splits sum.splits)
  have "case identityAt v (idKey who) of None \<Rightarrow> True | Some r \<Rightarrow> row_ok ring net r"
    using identityAt_ok [OF assms(2), of "idKey who"] by (auto split: option.splits)
  note row = attachRow_ok [OF f(3,1) assms(3,4) this]
  show "row_ok ring net row" "leadsTo row = a" by (rule row)+
  have "in_time (rowSince row)" using row(1) by (simp add: row_ok_def)
  then show "links_ok ls" "linkId ` set ls = insert (idKey who) (linkId ` set (linksAt net v a))"
    using added_ok [OF linksAt_ok [OF assms(2)] assms(5)] f(2) unfolding f(5) room_for_def by blast+
  show "length (showIdentity row) \<le> MAX_ROW_BYTES" by (rule f(4))
  show "case identityAt v (idKey who) of None \<Rightarrow> True | Some r \<Rightarrow> leadsTo r = a" using f(2) by (simp add: room_for_def)
qed

lemma calm_at: "calm v u \<Longrightarrow> identityAt u = identityAt v" "calm v u \<Longrightarrow> linksAt net u = linksAt net v"
  using same_identD [OF calm_desk(2)] by blast+

context redis_commands
begin

lemma fileLink_kv:
  assumes "service_world view wf ring net w" "hex_digest ring" "lowerHex 64 (idKey who)" "accountKey ring a" "room_for net who a (view (clock w) (kvs w))"
  defines "v \<equiv> view (clock w) (kvs w)"
  shows "\<exists>r w' u. fileLink srv ring who a net raw pp (identityAt v (idKey who)) (linksAt net v a) (q, m, i, h, w) = (r, q, m, i, h, w') \<and>
    became view wf w u w' \<and> (case attachRow ring who a net raw pp (identityAt v (idKey who)) (clock w) of
      Inl e \<Rightarrow> u = v \<and> (\<exists>e. r = Inl e)
    | Inr row \<Rightarrow> if length (showIdentity row) \<le> MAX_ROW_BYTES
        then r = Inr (Inr (added who row (linksAt net v a))) \<and> u = refiled net (idKey who) (Some row) a (added who row (linksAt net v a)) v
        else u = v \<and> (\<exists>e. r = Inl e))"
proof -
  have ok: "shelf_ok wf w" "ident_ok ring net v" "in_time (clock w)" using assms(1) by (simp_all add: service_world_def service_ok_def v_def)
  note refl = became_refl [OF ok(1), where view = view, folded v_def]
  show ?thesis
  proof (cases "attachRow ring who a net raw pp (identityAt v (idKey who)) (clock w)")
    case (Inl e)
    then show ?thesis using refl by (intro exI [of _ "Inl e"] exI [of _ w] exI [of _ v]) (simp add: fileLink_def)
  next
    case (Inr row)
    let ?ls = "added who row (linksAt net v a)"
    show ?thesis
    proof (cases "length (showIdentity row) \<le> MAX_ROW_BYTES")
      case False
      then show ?thesis using Inr refl by (intro exI [of _ "Inl RowTooLarge"] exI [of _ w] exI [of _ v]) (simp add: fileLink_def idSet_def)
    next
      case True
      have "case identityAt v (idKey who) of None \<Rightarrow> True | Some r \<Rightarrow> row_ok ring net r"
        using identityAt_ok [OF ok(2), of "idKey who"] by (auto split: option.splits)
      then have "in_time (rowSince row)" using attachRow_ok(1) [OF Inr assms(4) ok(3) assms(2)] by (simp add: row_ok_def)
      then have ls: "links_ok ?ls" using added_ok(1) [OF linksAt_ok [OF ok(2)] assms(3)] assms(5) by (simp add: room_for_def v_def)
      obtain w1 where w1: "idSet srv (IDENTITY_ROW @ idKey who) (showIdentity row) None (q, m, i, h, w) = (Inr (), q, m, i, h, w1)"
          "became view wf w (v(IDENTITY_ROW @ idKey who \<mapsto> (VStr (showIdentity row), None))) w1"
        using idSet_kv [OF ok(1) _ True, of None "IDENTITY_ROW @ idKey who" q m i h] by (auto simp: endAt_def v_def)
      note b1 = becameD [OF w1(2)]
      obtain w2 where w2: "writeLinks srv net a ?ls (q, m, i, h, w1) = (Inr (), q, m, i, h, w2)"
          "became view wf w1 ((v(IDENTITY_ROW @ idKey who \<mapsto> (VStr (showIdentity row), None)))(listKey net a := listing ?ls)) w2"
        using writeLinks_kv [OF b1(1) ls, of net a q m i h] unfolding b1(4) by blast
      have "fileLink srv ring who a net raw pp (identityAt v (idKey who)) (linksAt net v a) (q, m, i, h, w) = (Inr (Inr ?ls), q, m, i, h, w2)"
        using Inr w1(1) w2(1) by (simp add: fileLink_def added_def [symmetric] Let_def)
      then show ?thesis using True Inr became_trans [OF w2(2) w1(2)] by (auto simp: refiled_def)
    qed
  qed
qed

lemma attach_kv:
  assumes "service_world view wf ring net w" "hex_digest ring" "lowerHex 64 (idKey who)"
  defines "v \<equiv> view (clock w) (kvs w)"
  shows "\<exists>r w' u. attachIdentity srv ring who a net raw pp ap (q, m, i, h, w) = (r, q, m, i, h, w') \<and> became view wf w u w' \<and>
    attach_post net who a (files ring net (clock w) who a raw pp ap v) v r u"
proof -
  have ok: "shelf_ok wf w" "service_ok ring net v" using assms(1) by (simp_all add: service_world_def v_def)
  note refl = became_refl [OF ok(1), where view = view, folded v_def]
  have none: ?thesis if "attachIdentity srv ring who a net raw pp ap (q, m, i, h, w) = (r, q, m, i, h, w')" "became view wf w u w'" "calm v u"
      "\<nexists>ls. r = Inr (Inr ls)" "files ring net (clock w) who a raw pp ap v = None" for r w' u
    using that by (intro exI [of _ r] exI [of _ w'] exI [of _ u]) (auto simp: attach_post_def)
  show ?thesis
  proof (cases "accountKey ring a \<and> ap \<noteq> None")
    case False
    then show ?thesis by (intro none [OF _ refl calm_refl, of "Inr (Inl (if accountKey ring a then NeedsAccount else BadAccount))"])
        (auto simp: attachIdentity_def files_def split: option.splits)
  next
    case True
    then obtain p where ap: "ap = Some p" and key: "accountKey ring a" by blast
    let ?inp = "accountInput ATTACH_PROOF_NAME a net p"
    obtain r0 w1 c where w1: "onNames (verifyHandleProof srv ring Links ?inp) (q, m, i, h, w) = (Inr r0, q, m, i, h, w1)" "became view wf w c w1" "calm v c"
        "r0 = None \<longleftrightarrow> proof_ok ring Links ?inp (clock w) v"
      using names_verify_kv [OF ok(1), of ring Links ?inp q m i h] unfolding v_def by blast
    note b1 = becameD [OF w1(2)]
    show ?thesis
    proof (cases r0)
      case (Some x)
      show ?thesis by (rule none [OF _ w1(2,3), of "Inr (Inl (AccountRefused x))"]) (use Some key w1(1,4) in \<open>auto simp: attachIdentity_def files_def ap\<close>)
    next
      case None
      have okc: "service_ok ring net c" using calm_desk(1) [OF w1(3) ok(2)] .
      then have ic: "ident_ok ring net c" "registry_ok ring c" by (simp_all add: service_ok_def)
      obtain w2 where w2: "readIdentity srv (idKey who) (q, m, i, h, w1) = (Inr (identityAt v (idKey who)), q, m, i, h, w2)" "became view wf w1 c w2"
        using readIdentity_kv [OF b1(1), where x = "idKey who" and ring = ring and net = net and q = q and m = m and i = i and h = h]
        unfolding b1(4) calm_at [OF w1(3)] using ident_okD(1) [OF ic(1)] by blast
      note b2 = becameD [OF w2(2)]
      have w02: "became view wf w c w2" by (rule became_trans [OF w2(2) w1(2)])
      show ?thesis
      proof (cases "\<exists>r. identityAt v (idKey who) = Some r \<and> leadsTo r \<noteq> a")
        case True
        then obtain row where row: "identityAt v (idKey who) = Some row" "leadsTo row \<noteq> a" by blast
        obtain nm w3 where w3: "onNames (handleOf srv ring (leadsTo row)) (q, m, i, h, w2) = (Inr nm, q, m, i, h, w3)" "became view wf w2 c w3"
          using names_handle_kv [OF b2(1), of ring "leadsTo row" q m i h] unfolding b2(4) using ic(2) by blast
        show ?thesis by (rule none [OF _ became_trans [OF w3(2) w02] w1(3), of "Inr (Inl (OtherAccount (leadsTo row) nm))"])
            (use None key w1(1) w2(1) w3(1) row in \<open>simp_all add: attachIdentity_def ap files_def room_for_def Let_def\<close>)
      next
        case False
        obtain w3 where w3: "readLinks srv net a (q, m, i, h, w2) = (Inr (linksAt net v a), q, m, i, h, w3)" "became view wf w2 c w3"
          using readLinks_kv [OF b2(1), where net = net and a = a and q = q and m = m and i = i and h = h]
          unfolding b2(4) calm_at [OF w1(3)] using ident_okD(2) [OF ic(1)] by blast
        note b3 = becameD [OF w3(2)]
        have w03: "became view wf w c w3" by (rule became_trans [OF w3(2) w02])
        note b03 = becameD [OF w03]
        have mine: "case identityAt v (idKey who) of None \<Rightarrow> True | Some r \<Rightarrow> leadsTo r = a" using False by (auto split: option.splits)
        then have go: "\<not> (case identityAt v (idKey who) of None \<Rightarrow> False | Some r \<Rightarrow> leadsTo r \<noteq> a)" by (auto split: option.splits)
        show ?thesis
        proof (cases "idKey who \<notin> linkId ` set (linksAt net v a) \<and> MAX_LINKS_PER_ACCOUNT \<le> length (linksAt net v a)")
          case True
          show ?thesis by (rule none [OF _ w03 w1(3), of "Inr (Inl TooManyLinks)"])
              (use True None key w1(1) w2(1) w3(1) go in \<open>auto simp: attachIdentity_def ap files_def room_for_def\<close>)
        next
          case room: False
          have rv: "room_for net who a v" using mine room by (auto simp: room_for_def)
          have rf: "room_for net who a (view (clock w3) (kvs w3))" using rv unfolding b03(4) by (simp add: room_for_def calm_at [OF w1(3)])
          have dw: "service_world view wf ring net w3" using b03 okc assms(1) by (simp add: service_world_def)
          obtain r w4 u where f: "fileLink srv ring who a net raw pp (identityAt v (idKey who)) (linksAt net v a) (q, m, i, h, w3) = (r, q, m, i, h, w4)"
              "became view wf w3 u w4" "case attachRow ring who a net raw pp (identityAt v (idKey who)) (clock w) of
                Inl e \<Rightarrow> u = c \<and> (\<exists>e. r = Inl e)
              | Inr row \<Rightarrow> if length (showIdentity row) \<le> MAX_ROW_BYTES
                  then r = Inr (Inr (added who row (linksAt net v a))) \<and> u = refiled net (idKey who) (Some row) a (added who row (linksAt net v a)) c
                  else u = c \<and> (\<exists>e. r = Inl e)"
            using fileLink_kv [OF dw assms(2,3) key rf, of raw pp q m i h] unfolding b03(4) calm_at [OF w1(3)] unfolding b03(2) by blast
          have run: "attachIdentity srv ring who a net raw pp ap (q, m, i, h, w) = (r, q, m, i, h, w4)"
            using None key w1(1) w2(1) w3(1) go room f(1) by (auto simp: attachIdentity_def ap)
          have "files ring net (clock w) who a raw pp ap v = (case attachRow ring who a net raw pp (identityAt v (idKey who)) (clock w) of Inl e \<Rightarrow> None
              | Inr row \<Rightarrow> if length (showIdentity row) \<le> MAX_ROW_BYTES then Some (row, added who row (linksAt net v a)) else None)"
            using key None w1(4) rv by (simp add: files_def ap)
          then have "attach_post net who a (files ring net (clock w) who a raw pp ap v) v r u"
            using f(3) w1(3) by (auto simp: attach_post_def split: sum.splits if_splits)
          then show ?thesis using run became_trans [OF f(2) w03] by blast
        qed
      qed
    qed
  qed
qed

end

subsection \<open>Taking one away\<close>

text \<open>What a detach takes away: nothing, or the row and its entry in the account's listing.\<close>

definition unfiles :: "keyring \<Rightarrow> string \<Rightarrow> int \<Rightarrow> resolved \<Rightarrow> account_proof option \<Rightarrow> kv_view \<Rightarrow> identity_row option" where
  "unfiles ring net now who ap v = Option.bind (identityAt v (idKey who)) (\<lambda>r. case ap of None \<Rightarrow> None
     | Some p \<Rightarrow> if proof_ok ring Links (accountInput (DETACH_PROOF_PREFIX @ idKey who) (leadsTo r) net p) now v then Some r else None)"

definition detach_post :: "string \<Rightarrow> resolved \<Rightarrow> identity_row option \<Rightarrow> kv_view \<Rightarrow> ident_error + detached \<Rightarrow> kv_view \<Rightarrow> bool" where
  "detach_post net who taken v r u \<longleftrightarrow> (\<exists>c. calm v c \<and> (case taken of
       None \<Rightarrow> u = c \<and> r = Inr (if identityAt v (idKey who) = None then NotConnected else Unauthorized)
     | Some row \<Rightarrow> r = Inr Detached \<and>
         u = refiled net (idKey who) None (leadsTo row) (filter (\<lambda>l. linkId l \<noteq> idKey who) (linksAt net v (leadsTo row))) c))"

lemma links_filter: "links_ok ls \<Longrightarrow> links_ok (filter P ls)"
  by (auto simp: links_ok_def list_all_iff distinct_map_filter intro: le_trans [OF length_filter_le])

definition cleared :: "string \<Rightarrow> link_summary list \<Rightarrow> kv_view \<Rightarrow> kv_view" where
  "cleared a ls v = (\<lambda>k. if \<exists>l\<in>set ls. k = IDENTITY_ROW @ linkId l \<and> map_option leadsTo (identityAt v (linkId l)) = Some a then None else v k)"

lemma two_ifs: "(if B then n else if A then n else x) = (if A \<or> B then n else x)"
  by simp

lemma cleared_Nil [simp]: "cleared a [] v = v"
  by (simp add: cleared_def)

context redis_commands
begin

lemma detach_kv:
  assumes "service_world view wf ring net w"
  defines "v \<equiv> view (clock w) (kvs w)"
  shows "\<exists>r w' u. detachIdentity srv ring who net ap (q, m, i, h, w) = (r, q, m, i, h, w') \<and> became view wf w u w' \<and>
    detach_post net who (unfiles ring net (clock w) who ap v) v r u"
proof -
  have ok: "shelf_ok wf w" "service_ok ring net v" "ident_ok ring net v" using assms(1) by (simp_all add: service_world_def service_ok_def v_def)
  obtain w1 where w1: "readIdentity srv (idKey who) (q, m, i, h, w) = (Inr (identityAt v (idKey who)), q, m, i, h, w1)" "became view wf w v w1"
    using readIdentity_kv [OF ok(1), where x = "idKey who" and ring = ring and net = net] ident_okD(1) [OF ok(3)] unfolding v_def by blast
  note b1 = becameD [OF w1(2)]
  have none: ?thesis if "detachIdentity srv ring who net ap (q, m, i, h, w) = (r, q, m, i, h, w')" "became view wf w u w'" "calm v u"
      "r = Inr (if identityAt v (idKey who) = None then NotConnected else Unauthorized)" "unfiles ring net (clock w) who ap v = None" for r w' u
    using that by (intro exI [of _ r] exI [of _ w'] exI [of _ u]) (auto simp: detach_post_def)
  show ?thesis
  proof (cases "identityAt v (idKey who)")
    case None
    then show ?thesis by (intro none [OF _ w1(2) calm_refl, of "Inr NotConnected"]) (use w1(1) in \<open>simp_all add: detachIdentity_def unfiles_def\<close>)
  next
    case (Some row)
    have row: "row_ok ring net row" by (rule identityAt_ok [OF ok(3) Some])
    then have rn: "rowNet row = net" by (simp add: row_ok_def)
    show ?thesis
    proof (cases ap)
      case None
      then show ?thesis by (intro none [OF _ w1(2) calm_refl, of "Inr Unauthorized"]) (use w1(1) Some in \<open>simp_all add: detachIdentity_def unfiles_def\<close>)
    next
      case ap: (Some p)
      let ?inp = "accountInput (DETACH_PROOF_PREFIX @ idKey who) (leadsTo row) net p"
      obtain r0 w2 c where w2: "onNames (verifyHandleProof srv ring Links ?inp) (q, m, i, h, w1) = (Inr r0, q, m, i, h, w2)" "became view wf w1 c w2" "calm v c"
          "r0 = None \<longleftrightarrow> proof_ok ring Links ?inp (clock w1) v"
        using names_verify_kv [OF b1(1), of ring Links ?inp q m i h] unfolding b1(4) by blast
      note b2 = becameD [OF w2(2)]
      have w02: "became view wf w c w2" by (rule became_trans [OF w2(2) w1(2)])
      show ?thesis
      proof (cases "r0 = None")
        case False
        show ?thesis by (rule none [OF _ w02 w2(3), of "Inr Unauthorized"])
            (use False Some w1(1) w2(1,4) b1(2) in \<open>simp_all add: detachIdentity_def unfiles_def ap\<close>)
      next
        case True
        let ?a = "leadsTo row" and ?k = "IDENTITY_ROW @ idKey who"
        let ?ls = "filter (\<lambda>l. linkId l \<noteq> idKey who) (linksAt net v ?a)"
        have ic: "ident_ok ring net c" using calm_desk(1) [OF w2(3) ok(2)] by (simp add: service_ok_def)
        obtain w3 where w3: "idDel srv ?k (q, m, i, h, w2) = (Inr (), q, m, i, h, w3)" "became view wf w2 (c(?k := None)) w3"
          using idDel_kv [OF b2(1), of ?k q m i h] unfolding b2(4) by blast
        note b3 = becameD [OF w3(2)]
        have lk: "list_at ((c(?k := None)) (listKey net ?a))" using ident_okD(2) [OF ic] by simp
        have ll: "linksAt net (c(?k := None)) ?a = linksAt net v ?a" using fun_cong [OF calm_at(2) [OF w2(3), of net], of ?a] by (simp add: linksAt_def)
        obtain w4 where w4: "readLinks srv net ?a (q, m, i, h, w3) = (Inr (linksAt net v ?a), q, m, i, h, w4)" "became view wf w3 (c(?k := None)) w4"
          using readLinks_kv [OF b3(1), where net = net and a = ?a and q = q and m = m and i = i and h = h] lk ll unfolding b3(4) by simp blast
        note b4 = becameD [OF w4(2)]
        obtain w5 where w5: "writeLinks srv net ?a ?ls (q, m, i, h, w4) = (Inr (), q, m, i, h, w5)" "became view wf w4 ((c(?k := None))(listKey net ?a := listing ?ls)) w5"
          using writeLinks_kv [where ls = ?ls, OF b4(1) links_filter [OF linksAt_ok [OF ok(3)]], of net ?a q m i h] unfolding b4(4) by blast
        have "detachIdentity srv ring who net ap (q, m, i, h, w) = (Inr Detached, q, m, i, h, w5)"
          using True Some w1(1) w2(1) w3(1) w4(1) w5(1) by (simp add: detachIdentity_def ap rn)
        moreover have "became view wf w (refiled net (idKey who) None ?a ?ls c) w5"
          using became_trans [OF became_trans [OF became_trans [OF w5(2) w4(2)] w3(2)] w02] by (simp add: refiled_def)
        moreover have "unfiles ring net (clock w) who ap v = Some row" using True Some w2(4) b1(2) by (simp add: unfiles_def ap)
        ultimately show ?thesis using w2(3) by (auto simp: detach_post_def)
      qed
    qed
  qed
qed

lemma dropRows_kv:
  assumes "shelf_ok wf w" "ident_ok ring net (view (clock w) (kvs w))" "distinct (map linkId ls)"
  shows "\<exists>w'. dropRows srv a ls (q, m, i, h, w) = (Inr (), q, m, i, h, w') \<and> became view wf w (cleared a ls (view (clock w) (kvs w))) w'"
proof -
  have "\<exists>w'. dropRows srv a ls (q, m, i, h, w) = (Inr (), q, m, i, h, w') \<and> became view wf w (cleared a ls (view (clock w) (kvs w))) w'"
    if "shelf_ok wf w" "\<forall>l\<in>set ls. row_at ring net (view (clock w) (kvs w) (IDENTITY_ROW @ linkId l))" for w
    using that assms(3)
  proof (induction ls arbitrary: w)
    case Nil
    then show ?case using became_refl [OF Nil(1)] by auto
  next
    case (Cons l ls)
    let ?v = "view (clock w) (kvs w)" and ?k = "IDENTITY_ROW @ linkId l"
    obtain w1 where w1: "readIdentity srv (linkId l) (q, m, i, h, w) = (Inr (identityAt ?v (linkId l)), q, m, i, h, w1)" "became view wf w ?v w1"
      using readIdentity_kv [OF Cons.prems(1), where x = "linkId l" and ring = ring and net = net and q = q and m = m and i = i and h = h] Cons.prems(2) by auto
    note b1 = becameD [OF w1(2)]
    let ?mine = "map_option leadsTo (identityAt ?v (linkId l)) = Some a"
    let ?x = "if ?mine then ?v(?k := None) else ?v"
    obtain w2 where w2: "(if ?mine then idDel srv ?k (q, m, i, h, w1) else answer () (q, m, i, h, w1)) = (Inr (), q, m, i, h, w2)" "became view wf w ?x w2"
    proof (cases ?mine)
      case True
      obtain w2 where "idDel srv ?k (q, m, i, h, w1) = (Inr (), q, m, i, h, w2)" "became view wf w1 (?v(?k := None)) w2"
        using idDel_kv [OF b1(1), of ?k q m i h] unfolding b1(4) by blast
      then show ?thesis using True that [of w2] became_trans [OF _ w1(2)] by simp
    next
      case False
      show ?thesis by (rule that [of w1], unfold if_not_P [OF False]) (simp, rule w1(2))
    qed
    note b2 = becameD [OF w2(2)]
    have rest: "identityAt ?x (linkId l') = identityAt ?v (linkId l')" if "l' \<in> set ls" for l'
    proof -
      have "linkId l' \<noteq> linkId l" using that Cons.prems(3) by (metis distinct.simps(2) image_eqI list.set_map list.simps(9))
      then show ?thesis by (simp add: identityAt_def)
    qed
    have "\<forall>l'\<in>set ls. row_at ring net (?x (IDENTITY_ROW @ linkId l'))" using Cons.prems(2) by auto
    then obtain w3 where w3: "dropRows srv a ls (q, m, i, h, w2) = (Inr (), q, m, i, h, w3)" "became view wf w2 (cleared a ls ?x) w3"
      using Cons.IH [OF b2(1)] Cons.prems(3) unfolding b2(4) by auto
    have "cleared a ls ?x k = cleared a (l # ls) ?v k" for k
    proof -
      have one: "?x k = (if k = ?k \<and> ?mine then None else ?v k)" by (cases ?mine) auto
      have some: "(\<exists>l'\<in>set ls. k = IDENTITY_ROW @ linkId l' \<and> map_option leadsTo (identityAt ?x (linkId l')) = Some a) \<longleftrightarrow>
          (\<exists>l'\<in>set ls. k = IDENTITY_ROW @ linkId l' \<and> map_option leadsTo (identityAt ?v (linkId l')) = Some a)"
        by (intro bex_cong refl) (simp only: rest)
      show ?thesis unfolding cleared_def some unfolding one by (simp only: list.set(2) bex_simps two_ifs)
    qed
    then have "cleared a ls ?x = cleared a (l # ls) ?v" by blast
    then have left1: "became view wf w (cleared a (l # ls) ?v) w3" using became_trans [OF w3(2) w2(2)] by simp
    have mine: "(case identityAt ?v (linkId l) of None \<Rightarrow> False | Some r \<Rightarrow> leadsTo r = a) \<longleftrightarrow> ?mine" by (auto split: option.splits)
    have "dropRows srv a (l # ls) (q, m, i, h, w) = (Inr (), q, m, i, h, w3)"
      by (simp only: dropRows.simps w1(1) proceed_simps mine w2(1) w3(1))
    then show ?case using left1 by blast
  qed
  then show ?thesis using assms(1) ident_okD(1) [OF assms(2)] by blast
qed

end

lemma cleared_desk:
  assumes "service_ok ring net v" "ls = filter P (linksAt net v a)" "ls' = filter (\<lambda>l. \<not> P l) (linksAt net v a)"
  defines "u \<equiv> (cleared a ls v)(listKey net a := listing ls')"
  shows "service_ok ring net u"
    "identityAt u i = (if i \<in> linkId ` set ls then None else identityAt v i)"
    "linksAt net u b = (if b = a then ls' else linksAt net v b)"
proof -
  have ok: "ident_ok ring net v" using assms(1) by (simp add: service_ok_def)
  have all: "linkId l \<in> linkId ` set (linksAt net v a)" if "l \<in> set ls" for l using that by (auto simp: assms(2))
  have gone: "cleared a ls v (IDENTITY_ROW @ j) = (if j \<in> linkId ` set ls then None else v (IDENTITY_ROW @ j))" for j
    using ident_okD(5) [OF ok] all by (auto simp: cleared_def)
  have same: "cleared a ls v k = v k" if "\<And>j. k \<noteq> IDENTITY_ROW @ j" for k using that by (auto simp: cleared_def)
  show at: "identityAt u j = (if j \<in> linkId ` set ls then None else identityAt v j)" for j
    by (simp add: u_def identityAt_def gone nonEmpty_def)
  have lu: "linksAt net u b = (if b = a then ls' else linksAt net v b)" for b
    by (auto simp: u_def linksAt_def same listing_def nonEmpty_def)
  show "linksAt net u b = (if b = a then ls' else linksAt net v b)" by (rule lu)
  have lo: "links_ok (linksAt net v a)" by (rule linksAt_ok [OF ok])
  then have inj: "inj_on linkId (set (linksAt net v a))" by (simp add: links_ok_def distinct_map)
  have kept: "j \<in> linkId ` set ls' \<longleftrightarrow> j \<in> linkId ` set (linksAt net v a) \<and> j \<notin> linkId ` set ls" for j
    using inj by (auto simp: assms(2,3) inj_on_def)
  have "row_at ring net (u (IDENTITY_ROW @ j))" for j using ident_okD(1) [OF ok] by (simp add: u_def gone)
  moreover have "list_at (u (listKey net b))" for b
    using ident_okD(2) [OF ok] links_filter [OF lo] by (simp add: u_def same assms(3))
  moreover have "strish (u (OAUTH_TICKET @ t))" "strish (u (OAUTH_STATE @ t))" for t
    using ident_okD(3,4) [OF ok] by (simp_all add: u_def same)
  moreover have "map_option leadsTo (identityAt u j) = Some b \<longleftrightarrow> j \<in> linkId ` set (linksAt net u b)" for j b
    using ident_okD(5) [OF ok, of j b] ident_okD(5) [OF ok, of j a] kept all unfolding at lu by (auto simp: assms(2))
  ultimately have "ident_ok ring net u" by (simp add: ident_ok_def)
  moreover have "other_ok v u" by (simp add: other_ok_def u_def same same_names_def)
  ultimately show "service_ok ring net u" using other_desk assms(1) by blast
qed

subsection \<open>A provider's links, all at once\<close>

definition dropped :: "string \<Rightarrow> string \<Rightarrow> provider \<Rightarrow> kv_view \<Rightarrow> kv_view" where
  "dropped net a p v = (cleared a (filter (\<lambda>l. linkVia l = p) (linksAt net v a)) v)(listKey net a := listing (filter (\<lambda>l. linkVia l \<noteq> p) (linksAt net v a)))"

lemma dropped_desk:
  assumes "service_ok ring net v"
  shows "service_ok ring net (dropped net a p v)"
    "map_option leadsTo (identityAt v i) \<noteq> Some a \<Longrightarrow> identityAt (dropped net a p v) i = identityAt v i"
proof -
  let ?ls = "filter (\<lambda>l. linkVia l = p) (linksAt net v a)"
  note c = cleared_desk [OF assms, of ?ls "\<lambda>l. linkVia l = p" a "filter (\<lambda>l. linkVia l \<noteq> p) (linksAt net v a)", OF refl refl, folded dropped_def]
  show "service_ok ring net (dropped net a p v)" by (rule c(1))
  assume other: "map_option leadsTo (identityAt v i) \<noteq> Some a"
  have "ident_ok ring net v" using assms by (simp add: service_ok_def)
  then have "i \<notin> linkId ` set ?ls" using ident_okD(5) [of ring net v i a] other by auto
  then show "identityAt (dropped net a p v) i = identityAt v i" by (simp only: c(2) if_False)
qed

context redis_commands
begin

lemma drop_kv:
  assumes "service_world view wf ring net w"
  shows "\<exists>r w'. detachProviderByAccount srv a net p (q, m, i, h, w) = (Inr r, q, m, i, h, w') \<and>
    became view wf w (dropped net a p (view (clock w) (kvs w))) w'"
proof -
  let ?v = "view (clock w) (kvs w)"
  have ok: "shelf_ok wf w" "ident_ok ring net ?v" using assms by (simp_all add: service_world_def service_ok_def)
  let ?all = "linksAt net ?v a"
  let ?ls = "filter (\<lambda>l. linkVia l = p) ?all" and ?rest = "filter (\<lambda>l. linkVia l \<noteq> p) ?all"
  obtain w1 where w1: "readLinks srv net a (q, m, i, h, w) = (Inr ?all, q, m, i, h, w1)" "became view wf w ?v w1"
    using readLinks_kv [OF ok(1) ident_okD(2) [OF ok(2)], of a q m i h] by blast
  note b1 = becameD [OF w1(2)]
  have lo: "links_ok ?all" by (rule linksAt_ok [OF ok(2)])
  then have d: "distinct (map linkId ?ls)" by (simp add: links_ok_def distinct_map_filter)
  obtain w2 where w2: "dropRows srv a ?ls (q, m, i, h, w1) = (Inr (), q, m, i, h, w2)" "became view wf w1 (cleared a ?ls ?v) w2"
    using dropRows_kv [where ls = ?ls, OF b1(1) _ d, where ring = ring and net = net and a = a and q = q and m = m and i = i and h = h]
    unfolding b1(4) using ok(2) by blast
  note b2 = becameD [OF w2(2)]
  obtain w3 where w3: "writeLinks srv net a ?rest (q, m, i, h, w2) = (Inr (), q, m, i, h, w3)" "became view wf w2 ((cleared a ?ls ?v)(listKey net a := listing ?rest)) w3"
    using writeLinks_kv [where ls = ?rest, OF b2(1) links_filter [OF lo], of net a q m i h] unfolding b2(4) by blast
  have "detachProviderByAccount srv a net p (q, m, i, h, w) = (Inr (length ?ls), q, m, i, h, w3)"
    using w1(1) w2(1) w3(1) by (simp add: detachProviderByAccount_def Let_def)
  then show ?thesis using became_trans [OF became_trans [OF w3(2) w2(2)] w1(2)] unfolding dropped_def by blast
qed

end

subsection \<open>Proving control\<close>

text \<open>Only the guesses and the code of one email differ.\<close>

definition guessed :: "kv_view \<Rightarrow> kv_view \<Rightarrow> bool" where
  "guessed v u \<longleftrightarrow> otp_ok u \<and> (\<forall>k. (\<forall>j. k \<noteq> otpKey j \<and> k \<noteq> tryKey j) \<longrightarrow> u k = v k) \<and> (\<forall>j. v (otpKey j) = None \<longrightarrow> u (otpKey j) = None)"

lemma guessed_desk: "guessed v u \<Longrightarrow> service_ok ring net v \<Longrightarrow> service_ok ring net u" "guessed v u \<Longrightarrow> same_ident net v u"
proof -
  assume g: "guessed v u"
  show i: "same_ident net v u" using g by (simp add: guessed_def same_ident_def inbox_kept_def)
  assume d: "service_ok ring net v"
  have n: "same_names v u" using g by (simp add: guessed_def same_names_def)
  have "u (OAUTH_TICKET @ t) = v (OAUTH_TICKET @ t)" "u (OAUTH_STATE @ t) = v (OAUTH_STATE @ t)" for t using g by (simp_all add: guessed_def)
  then have "ident_ok ring net u" using ident_same [OF i _ _, of ring] ident_okD(3,4) [of ring net v] d by (simp add: service_ok_def)
  moreover have "vault_ok u" using g d by (auto simp: guessed_def service_ok_def vault_ok_def prefixes_def)
  ultimately show "service_ok ring net u" using d registry_same [OF n] g by (simp add: service_ok_def guessed_def)
qed

context redis_expiry
begin

lemma verify_frame:
  assumes "shelf_ok wf w" "otp_ok (view (clock w) (kvs w))"
  shows "\<exists>r w' u. verifyOtpDetailed srv sha rawId rawCode (o1, w) = (Inr r, o1, w') \<and> became view wf w u w' \<and> guessed (view (clock w) (kvs w)) u \<and>
    (\<forall>j. r = Ok \<longrightarrow> rawId = Some j \<longrightarrow> view (clock w) (kvs w) (otpKey j) \<noteq> None)"
proof (cases "wellFormed rawId rawCode")
  case None
  then show ?thesis using became_refl [OF assms(1), where view = view] assms(2)
    by (intro exI [of _ Wrong] exI [of _ w] exI [of _ "view (clock w) (kvs w)"]) (simp add: verifyOtpDetailed_def guessed_def)
next
  case (Some y)
  obtain j c where y: "y = (j, c)" by (cases y)
  let ?t = "clock w" and ?v = "view (clock w) (kvs w)"
  have w0: "wf (kvs w)" "nets w = []" "kvConfigured w" using assms(1) by (simp_all add: shelf_ok_def online_def)
  have same: "became view wf w (view ?t (kvs w')) w'" if "wf (kvs w')" "env w' = env w" "clock w' = ?t" "nets w' = []" for w'
    using that w0 kvConfigured_cong [OF that(2)] by (simp add: became_def shelf_ok_def online_def)
  obtain n b w1 where b: "pipeline srv (bumpCmds (tryKey j) VERIFY_WINDOW_SEC) w = (Inr [Result (RInt n), b], w1)"
      "wf (kvs w1)" "env w1 = env w" "clock w1 = ?t" "nets w1 = []" "bumped (tryKey j) (?t + VERIFY_WINDOW_SEC * 1000) ?v (view ?t (kvs w1))"
    using bump_any [OF w0(1) otp_okD(1) [OF assms(2)], of VERIFY_WINDOW_SEC j] w0(2) by (auto simp: VERIFY_WINDOW_SEC_def)
  have ok1: "otp_ok (view ?t (kvs w1))" using otp_ok_bumped [OF assms(2) b(6)] by blast
  have g1: "guessed ?v (view ?t (kvs w1))" using b(6) ok1 by (auto simp: guessed_def bumped_def)
  have k1: "kvConfigured w1" using kvConfigured_cong [OF b(3)] w0(3) by simp
  obtain over where over: "overVerifyBudget srv j (o1, w) = (Inr over, o1, w1)" using b(1) w0(3) by (simp add: overVerifyBudget_def)
  obtain w2 where l: "kvGetJson srv (otpKey j) w1 = (Inr (codeOf (view ?t (kvs w1) (otpKey j))), w2)" "wf (kvs w2)" "env w2 = env w" "clock w2 = ?t"
      "nets w2 = []" "view ?t (kvs w2) = view ?t (kvs w1)"
    using load_any [of w1 j] b(2-5) ok1 by auto
  have k2: "kvConfigured w2" using kvConfigured_cong [OF l(3)] w0(3) by simp
  have load: "loadCode srv j (o1, w1) = (Inr (codeOf (view ?t (kvs w1) (otpKey j))), o1, w2)" using l(1) k1 by (simp add: loadCode_def)
  show ?thesis
  proof (cases over)
    case True
    then show ?thesis using Some y over same [OF b(2-5)] g1
      by (intro exI [of _ Spent] exI [of _ w1] exI [of _ "view ?t (kvs w1)"]) (simp add: verifyOtpDetailed_def)
  next
    case False
    show ?thesis
    proof (cases "codeOf (view ?t (kvs w1) (otpKey j))")
      case None
      then show ?thesis using Some y over False load same [OF l(2-5)] g1 l(6)
        by (intro exI [of _ Wrong] exI [of _ w2] exI [of _ "view ?t (kvs w2)"]) (simp add: verifyOtpDetailed_def)
    next
      case (Some x)
      let ?n = "settle_spec sha ?t j c x"
      obtain w3 e where st: "settleCode srv sha j c x (o1, w2) = (Inr (fst ?n), o1, w3)" "wf (kvs w3)" "env w3 = env w" "clock w3 = ?t" "nets w3 = []"
          "view ?t (kvs w3) = (view ?t (kvs w2))(otpKey j := map_option (\<lambda>y. (VStr (showOtp y), Some e)) (snd ?n))"
        using settle_any [OF l(2) k2, of sha j c x o1] l(3-5) by auto
      have "rawId = Some j" using \<open>wellFormed rawId rawCode = Some y\<close> y by (auto simp: wellFormed_def split: option.splits if_splits)
      moreover have there: "?v (otpKey j) \<noteq> None" using Some g1 unfolding guessed_def by (metis codeOf_simps(1) option.distinct(1))
      moreover have "guessed ?v (view ?t (kvs w3))" using g1 there otp_ok_settled [OF ok1, of j e "snd ?n"] unfolding st(6) l(6) by (auto simp: guessed_def)
      ultimately show ?thesis using \<open>wellFormed rawId rawCode = Some y\<close> y over False load Some same [OF st(2-5)] st(1) there
        by (intro exI [of _ "fst ?n"] exI [of _ w3] exI [of _ "view ?t (kvs w3)"]) (simp add: verifyOtpDetailed_def)
    qed
  qed
qed

lemma emailCode_kv:
  assumes "shelf_ok wf w" "otp_ok (view (clock w) (kvs w))"
  shows "\<exists>r w' u. onCodes (emailCode srv ring email c) (q, m, i, h, w) = (Inr r, q, m, i, h, w') \<and> became view wf w u w' \<and>
    guessed (view (clock w) (kvs w)) u \<and>
    (r \<longrightarrow> view (clock w) (kvs w) (otpKey (idForEmail (digest ring) email)) \<noteq> None)"
proof -
  obtain v w' u where v: "verifyOtpDetailed srv (digest ring) (Some (idForEmail (digest ring) email)) (Some c) (q, w) = (Inr v, q, w')"
      "became view wf w u w'" "guessed (view (clock w) (kvs w)) u" "v = Ok \<longrightarrow> view (clock w) (kvs w) (otpKey (idForEmail (digest ring) email)) \<noteq> None"
    using verify_frame [OF assms, of "digest ring" "Some (idForEmail (digest ring) email)" "Some c" q] by blast
  then show ?thesis by (intro exI [of _ "v = Ok"] exI [of _ w'] exI [of _ u]) (simp add: onCodes_def emailCode_def verifyOtp_def)
qed

end

text \<open>One key of the OAuth round trips, with the rest of the store as it was.\<close>

lemma oauth_desk:
  assumes "service_ok ring net v" "k = OAUTH_TICKET @ t \<or> k = OAUTH_STATE @ t" "strish c"
  shows "service_ok ring net (v(k := c))" "same_ident net v (v(k := c))"
proof -
  show i: "same_ident net v (v(k := c))" using assms(2) by (auto simp: same_ident_def inbox_kept_def)
  have ok: "ident_ok ring net v" using assms(1) by (simp add: service_ok_def)
  have "strish ((v(k := c)) (OAUTH_TICKET @ x))" "strish ((v(k := c)) (OAUTH_STATE @ x))" for x using ident_okD(3,4) [OF ok] assms(3) by simp_all
  from ident_same [OF i this ok] have "ident_ok ring net (v(k := c))" .
  moreover have "other_ok v (v(k := c))" using assms(2) by (auto simp: other_ok_def same_names_def)
  ultimately show "service_ok ring net (v(k := c))" using other_desk assms(1) by blast
qed

definition resolve_spec :: "keyring \<Rightarrow> string \<Rightarrow> string \<Rightarrow> kv_view \<Rightarrow> resolved option" where
  "resolve_spec ring j p v = (if lowerHex 64 j \<and> lowerHex 64 p \<and>
       (case Option.bind (identityAt v j) rowHash of None \<Rightarrow> True | Some x \<Rightarrow> digest ring p = x)
     then Some \<lparr>idVia = Passkey, idKey = j, idLabel = None\<rparr> else None)"

definition ticketAt :: "kv_view \<Rightarrow> string \<Rightarrow> oauth_ticket option" where
  "ticketAt v t = (case nonEmpty (cell_str (v (OAUTH_TICKET @ t))) of None \<Rightarrow> None | Some s \<Rightarrow> parseTicket s)"

lemma identityId_hex: "hex_digest ring \<Longrightarrow> identityId ring p x = Inr i \<Longrightarrow> lowerHex 64 i"
  by (auto simp: identityId_def hex_digest_def Let_def split: if_splits)

context redis_expiry
begin

lemma consume_kv:
  assumes "shelf_ok wf w" "strish (view (clock w) (kvs w) (OAUTH_TICKET @ t))" "ticketShape t"
  shows "\<exists>w'. consumeTicket srv t (q, m, i, h, w) = (Inr (ticketAt (view (clock w) (kvs w)) t), q, m, i, h, w') \<and>
    (became view wf w ((view (clock w) (kvs w))(OAUTH_TICKET @ t := None)) w' \<or>
     became view wf w (view (clock w) (kvs w)) w' \<and> nonEmpty (cell_str (view (clock w) (kvs w) (OAUTH_TICKET @ t))) = None)"
proof -
  let ?v = "view (clock w) (kvs w)" and ?k = "OAUTH_TICKET @ t"
  obtain w1 where w1: "idGet srv ?k (q, m, i, h, w) = (Inr (cell_str (?v ?k)), q, m, i, h, w1)" "became view wf w ?v w1"
    using idGet_kv [OF assms(1,2)] by blast
  note b1 = becameD [OF w1(2)]
  show ?thesis
  proof (cases "nonEmpty (cell_str (?v ?k))")
    case None
    then show ?thesis using w1 assms(3) by (auto simp: consumeTicket_def ticketAt_def)
  next
    case (Some x)
    obtain w2 where w2: "idDel srv ?k (q, m, i, h, w1) = (Inr (), q, m, i, h, w2)" "became view wf w1 (?v(?k := None)) w2"
      using idDel_kv [OF b1(1), of ?k q m i h] unfolding b1(4) by blast
    then show ?thesis using Some w1(1) assms(3) became_trans [OF w2(2) w1(2)] by (auto simp: consumeTicket_def ticketAt_def)
  qed
qed

lemma resolve_kv:
  assumes "service_world view wf ring net w" "hex_digest ring"
  defines "v \<equiv> view (clock w) (kvs w)"
  shows "\<exists>r w' u. resolveProof srv ring (emailCode srv ring) how (q, m, i, h, w) = (r, q, m, i, h, w') \<and> became view wf w u w' \<and>
    service_ok ring net u \<and> same_ident net v u \<and> (\<forall>who. r = Inr (Some who) \<longrightarrow> lowerHex 64 (idKey who)) \<and>
    (\<forall>j p. how = ByPasskey j p \<longrightarrow> r = Inr (resolve_spec ring j p v) \<and> u = v) \<and>
    (\<forall>raw c who. how = ByEmail raw c \<longrightarrow> r = Inr (Some who) \<longrightarrow> v (otpKey (idForEmail (digest ring) (toLowerCase (trim raw)))) \<noteq> None)"
proof -
  have ok: "shelf_ok wf w" "service_ok ring net v" "ident_ok ring net v" "otp_ok v" using assms(1) by (simp_all add: service_world_def service_ok_def v_def)
  note refl = became_refl [OF ok(1), where view = view, folded v_def]
  have sr: "same_ident net v v" by (simp add: same_ident_def)
  show ?thesis
  proof (cases how)
    case (ByPasskey j p)
    show ?thesis
    proof (cases "lowerHex 64 j \<and> lowerHex 64 p")
      case False
      then show ?thesis using refl ok(2) sr ByPasskey
        by (intro exI [of _ "Inr None"] exI [of _ w] exI [of _ v]) (auto simp: resolveProof_def resolve_spec_def)
    next
      case True
      obtain w1 where w1: "readIdentity srv j (q, m, i, h, w) = (Inr (identityAt v j), q, m, i, h, w1)" "became view wf w v w1"
        using readIdentity_kv [OF ok(1), where x = j and ring = ring and net = net] ident_okD(1) [OF ok(3)] unfolding v_def by blast
      have "nonEmpty (rowHash r) = rowHash r" if "identityAt v j = Some r" for r
        using identityAt_ok [OF ok(3) that] by (auto simp: row_ok_def nonEmpty_def)
      then have "resolveProof srv ring (emailCode srv ring) how (q, m, i, h, w) = (Inr (resolve_spec ring j p v), q, m, i, h, w1)"
        using True w1(1) by (cases "identityAt v j") (auto simp: resolveProof_def resolve_spec_def ByPasskey split: option.splits)
      then show ?thesis using w1(2) ok(2) sr ByPasskey True
        by (intro exI [of _ "Inr (resolve_spec ring j p v)"] exI [of _ w1] exI [of _ v]) (auto simp: resolve_spec_def split: if_splits)
    qed
  next
    case (ByEmail raw c)
    let ?email = "toLowerCase (trim raw)"
    show ?thesis
    proof (cases "emailShape ?email")
      case False
      then show ?thesis using refl ok(2) sr ByEmail
        by (intro exI [of _ "Inr None"] exI [of _ w] exI [of _ v]) (auto simp: resolveProof_def)
    next
      case True
      obtain b w1 u where w1: "onCodes (emailCode srv ring ?email c) (q, m, i, h, w) = (Inr b, q, m, i, h, w1)" "became view wf w u w1" "guessed v u" "b \<longrightarrow> v (otpKey (idForEmail (digest ring) ?email)) \<noteq> None"
        using emailCode_kv [OF ok(1)] ok(4) unfolding v_def by blast
      have "\<exists>r. resolveProof srv ring (emailCode srv ring) how (q, m, i, h, w) = (r, q, m, i, h, w1) \<and> (\<forall>who. r = Inr (Some who) \<longrightarrow> lowerHex 64 (idKey who)) \<and>
          (\<forall>who. r = Inr (Some who) \<longrightarrow> v (otpKey (idForEmail (digest ring) ?email)) \<noteq> None)"
        using True w1(1,4) identityId_hex [OF assms(2)] by (cases b) (auto simp: resolveProof_def ByEmail Let_def split: sum.splits)
      then show ?thesis using w1(2) guessed_desk [OF w1(3)] ok(2) ByEmail by blast
    qed
  next
    case (ByTicket t)
    show ?thesis
    proof (cases "ticketShape t")
      case False
      then show ?thesis using refl ok(2) sr ByTicket
        by (intro exI [of _ "Inr None"] exI [of _ w] exI [of _ v]) (auto simp: resolveProof_def consumeTicket_def)
    next
      case True
      obtain w1 where w1: "consumeTicket srv t (q, m, i, h, w) = (Inr (ticketAt v t), q, m, i, h, w1)"
          "became view wf w (v(OAUTH_TICKET @ t := None)) w1 \<or> became view wf w v w1"
        using consume_kv [OF ok(1) _ True] ident_okD(3) [OF ok(3)] unfolding v_def by blast
      then obtain u where u: "became view wf w u w1" "service_ok ring net u" "same_ident net v u"
        using oauth_desk [OF ok(2), of "OAUTH_TICKET @ t" t None] ok(2) sr by auto
      have "\<exists>r. resolveProof srv ring (emailCode srv ring) how (q, m, i, h, w) = (r, q, m, i, h, w1) \<and> (\<forall>who. r = Inr (Some who) \<longrightarrow> lowerHex 64 (idKey who))"
        using w1(1) identityId_hex [OF assms(2)] by (cases "ticketAt v t") (auto simp: resolveProof_def ByTicket split: sum.splits)
      then show ?thesis using u ByTicket by blast
    qed
  qed
qed

text \<open>A call that may be refused for its size.\<close>

lemma oauth_put:
  assumes "service_world view wf ring net w" "k = OAUTH_TICKET @ t \<or> k = OAUTH_STATE @ t" "0 < n"
  shows "\<exists>r w' u. idSet srv k x (Some n) (q, m, i, h, w) = (r, q, m, i, h, w') \<and> became view wf w u w' \<and> service_ok ring net u \<and>
    same_ident net (view (clock w) (kvs w)) u \<and> (r = Inr () \<longrightarrow> u = (view (clock w) (kvs w))(k \<mapsto> (VStr x, Some (clock w + n * 1000)))) \<and> r \<in> {Inr (), Inl RowTooLarge}"
proof -
  let ?v = "view (clock w) (kvs w)"
  have ok: "shelf_ok wf w" "service_ok ring net ?v" using assms(1) by (simp_all add: service_world_def)
  show ?thesis
  proof (cases "length x \<le> MAX_ROW_BYTES")
    case True
    obtain w' where "idSet srv k x (Some n) (q, m, i, h, w) = (Inr (), q, m, i, h, w')" "became view wf w (?v(k \<mapsto> (VStr x, Some (clock w + n * 1000)))) w'"
      using idSet_kv [OF ok(1) _ True, of "Some n" k q m i h] assms(3) by (auto simp: endAt_def)
    then show ?thesis using oauth_desk [OF ok(2) assms(2), of "Some (VStr x, Some (clock w + n * 1000))"]
      by (intro exI [of _ "Inr ()"] exI [of _ w'] exI [of _ "?v(k \<mapsto> (VStr x, Some (clock w + n * 1000)))"]) auto
  next
    case False
    then show ?thesis using became_refl [OF ok(1), where view = view] ok(2)
      by (intro exI [of _ "Inl RowTooLarge"] exI [of _ w] exI [of _ ?v]) (simp add: idSet_def)
  qed
qed

lemma start_kv:
  assumes "service_world view wf ring net w"
  shows "\<exists>r w' u. startOAuth srv s256 nonce random p account n1 (q, m, i, h, w) = (r, q, m, i, h, w') \<and> became view wf w u w' \<and> service_ok ring net u \<and>
    same_ident net (view (clock w) (kvs w)) u"
proof (cases "\<exists>cfg. oauthConfig (env w) p = Some cfg \<and> take 4 (oauthRedirectUri (env w) p) = ''http''")
  case False
  have ok: "shelf_ok wf w" "service_ok ring net (view (clock w) (kvs w))" using assms by (simp_all add: service_world_def)
  have "\<exists>r. startOAuth srv s256 nonce random p account n1 (q, m, i, h, w) = (r, q, m, i, h, w)"
    using False by (auto simp: startOAuth_def split: option.splits)
  then show ?thesis using became_refl [OF ok(1), where view = view] ok(2) by (cases "startOAuth srv s256 nonce random p account n1 (q, m, i, h, w)") fastforce
next
  case True
  then obtain cfg where cfg: "oauthConfig (env w) p = Some cfg" "take 4 (oauthRedirectUri (env w) p) = ''http''" by blast
  define x where "x = showJson (stateJson \<lparr>stVia = p, stVerifier = (if pkce cfg then random else []), stAddress = account, stNet = n1\<rparr>)"
  obtain r w' u where "idSet srv (OAUTH_STATE @ nonce) x (Some STATE_TTL_SEC) (q, m, i, h, w) = (r, q, m, i, h, w')" "became view wf w u w'"
      "service_ok ring net u" "same_ident net (view (clock w) (kvs w)) u"
    using oauth_put [OF assms, of "OAUTH_STATE @ nonce" nonce STATE_TTL_SEC x q m i h] by (auto simp: STATE_TTL_SEC_def)
  then show ?thesis using cfg by (cases r) (auto simp: startOAuth_def Let_def x_def)
qed

end

subsection \<open>The callback\<close>

text \<open>A ticket in force: the provider's own answer to a token it granted.\<close>

definition told :: "oauth_outside \<Rightarrow> environ \<Rightarrow> string \<Rightarrow> provider \<Rightarrow> string \<times> string option \<Rightarrow> bool" where
  "told out e raw p user \<longleftrightarrow> providerOf raw = Some p \<and> p \<in> set OAUTH_PROVIDERS \<and>
     (\<exists>cfg token shown. oauthConfig e p = Some cfg \<and> profile out cfg token = Inr (Some shown) \<and> readUser cfg shown = Some user)"

context redis_expiry
begin

lemma mint_kv:
  assumes "service_world view wf ring net w"
  shows "\<exists>r w' u. mintTicket srv ticket p kept user (q, m, i, h, w) = (r, q, m, i, h, w') \<and> became view wf w u w' \<and> service_ok ring net u \<and>
    same_ident net (view (clock w) (kvs w)) u \<and> (\<forall>url. r = Inr (Inr url) \<longrightarrow> u = (view (clock w) (kvs w))(OAUTH_TICKET @ ticket \<mapsto>
       (VStr (showJson (ticketJson \<lparr>ticketVia = p, ticketSubject = fst user, ticketLabel = snd user, ticketAddress = stAddress kept, ticketNet = stNet kept\<rparr>)),
        Some (clock w + TICKET_TTL_SEC * 1000))))"
proof -
  define x where "x = showJson (ticketJson \<lparr>ticketVia = p, ticketSubject = fst user, ticketLabel = snd user, ticketAddress = stAddress kept, ticketNet = stNet kept\<rparr>)"
  obtain r w' u where s: "idSet srv (OAUTH_TICKET @ ticket) x (Some TICKET_TTL_SEC) (q, m, i, h, w) = (r, q, m, i, h, w')" "became view wf w u w'"
      "service_ok ring net u" "same_ident net (view (clock w) (kvs w)) u"
      "r = Inr () \<longrightarrow> u = (view (clock w) (kvs w))(OAUTH_TICKET @ ticket \<mapsto> (VStr x, Some (clock w + TICKET_TTL_SEC * 1000)))" "r \<in> {Inr (), Inl RowTooLarge}"
    using oauth_put [OF assms, of "OAUTH_TICKET @ ticket" ticket TICKET_TTL_SEC x q m i h] by (auto simp: TICKET_TTL_SEC_def)
  show ?thesis
  proof (cases "r = Inr ()")
    case True
    let ?url = "webReturnUrl (env w') @ ''/settings?connected='' @ ticket @ ''&provider='' @ providerText p"
    have "mintTicket srv ticket p kept user (q, m, i, h, w) = (Inr (Inr ?url), q, m, i, h, w')"
      using s(1) True by (simp add: mintTicket_def x_def [symmetric])
    then show ?thesis using s(2-5) True unfolding x_def [symmetric] by blast
  next
    case False
    then have "mintTicket srv ticket p kept user (q, m, i, h, w) = (Inl RowTooLarge, q, m, i, h, w')"
      using s(1,6) by (auto simp: mintTicket_def x_def [symmetric])
    then show ?thesis using s(2-4) by blast
  qed
qed

lemma exchange_kv:
  assumes "service_world view wf ring net w" "providerOf raw = Some p" "p \<in> set OAUTH_PROVIDERS" "oauthConfig (env w) p = Some cfg"
  shows "\<exists>r w' u. exchangeCode srv out ticket p cfg given kept (q, m, i, h, w) = (r, q, m, i, h, w') \<and> became view wf w u w' \<and> service_ok ring net u \<and>
    same_ident net (view (clock w) (kvs w)) u \<and> (\<forall>url. r = Inr (Inr url) \<longrightarrow> (\<exists>user t. told out (env w) raw p user \<and>
       u (OAUTH_TICKET @ ticket) = Some (VStr (showJson (ticketJson t)), Some (clock w + TICKET_TTL_SEC * 1000)) \<and> ticketVia t = p \<and>
       ticketSubject t = fst user \<and> ticketLabel t = snd user))"
proof -
  let ?v = "view (clock w) (kvs w)"
  have stay: ?thesis if "exchangeCode srv out ticket p cfg given kept (q, m, i, h, w) = (r, q, m, i, h, w)" "\<nexists>url. r = Inr (Inr url)" for r
    using that became_refl [of wf w view] assms(1) by (fastforce simp: service_world_def)
  show ?thesis
  proof (cases "\<exists>granted token shown user. exchange out cfg (exchangeBody (env w) p cfg given (stVerifier kept)) = Inr granted \<and> nonEmpty granted = Some token \<and>
      profile out cfg token = Inr (Some shown) \<and> readUser cfg shown = Some user")
    case False
    have "\<exists>r. exchangeCode srv out ticket p cfg given kept (q, m, i, h, w) = (r, q, m, i, h, w) \<and> (\<nexists>url. r = Inr (Inr url))"
      using False by (auto simp: exchangeCode_def Option.bind_eq_Some_conv split: sum.splits option.splits)
    then show ?thesis using stay by blast
  next
    case True
    then obtain granted token shown user where x: "exchange out cfg (exchangeBody (env w) p cfg given (stVerifier kept)) = Inr granted"
        "nonEmpty granted = Some token" "profile out cfg token = Inr (Some shown)" "readUser cfg shown = Some user" by blast
    let ?t = "\<lparr>ticketVia = p, ticketSubject = fst user, ticketLabel = snd user, ticketAddress = stAddress kept, ticketNet = stNet kept\<rparr>"
    obtain r w' u where g: "mintTicket srv ticket p kept user (q, m, i, h, w) = (r, q, m, i, h, w')" "became view wf w u w'" "service_ok ring net u"
        "same_ident net ?v u" "\<And>url. r = Inr (Inr url) \<Longrightarrow> u = ?v(OAUTH_TICKET @ ticket \<mapsto> (VStr (showJson (ticketJson ?t)), Some (clock w + TICKET_TTL_SEC * 1000)))"
      using mint_kv [OF assms(1), of ticket p kept user q m i h] by blast
    have run: "exchangeCode srv out ticket p cfg given kept (q, m, i, h, w) = (r, q, m, i, h, w')"
      using x g(1) by (simp add: exchangeCode_def)
    have "told out (env w) raw p user" using assms(2-4) x(3,4) unfolding told_def by blast
    moreover have "u (OAUTH_TICKET @ ticket) = Some (VStr (showJson (ticketJson ?t)), Some (clock w + TICKET_TTL_SEC * 1000))" if "r = Inr (Inr url)" for url
      using g(5) [OF that] by simp
    ultimately have "\<forall>url. r = Inr (Inr url) \<longrightarrow> (\<exists>user t. told out (env w) raw p user \<and>
       u (OAUTH_TICKET @ ticket) = Some (VStr (showJson (ticketJson t)), Some (clock w + TICKET_TTL_SEC * 1000)) \<and> ticketVia t = p \<and>
       ticketSubject t = fst user \<and> ticketLabel t = snd user)"
      by (intro allI impI exI [of _ user] exI [of _ ?t]) simp
    then show ?thesis using run g(2-4) by blast
  qed
qed

lemma finish_kv:
  assumes "service_world view wf ring net w"
  shows "\<exists>r w' u. finishOAuth srv out ticket raw given cookie (q, m, i, h, w) = (r, q, m, i, h, w') \<and> became view wf w u w' \<and> service_ok ring net u \<and>
    same_ident net (view (clock w) (kvs w)) u \<and> (\<forall>url. r = Inr (Inr url) \<longrightarrow> (\<exists>p user t. told out (env w) raw p user \<and>
       u (OAUTH_TICKET @ ticket) = Some (VStr (showJson (ticketJson t)), Some (clock w + TICKET_TTL_SEC * 1000)) \<and> ticketVia t = p \<and>
       ticketSubject t = fst user \<and> ticketLabel t = snd user))"
proof -
  let ?v = "view (clock w) (kvs w)"
  have ok: "shelf_ok wf w" "service_ok ring net ?v" "ident_ok ring net ?v" using assms by (simp_all add: service_world_def service_ok_def)
  have sr: "same_ident net ?v ?v" by (simp add: same_ident_def)
  have stay: ?thesis if "finishOAuth srv out ticket raw given cookie (q, m, i, h, w) = (r, q, m, i, h, w')" "became view wf w u w'" "service_ok ring net u"
      "same_ident net ?v u" "\<nexists>url. r = Inr (Inr url)" for r w' u
    using that by blast
  show ?thesis
  proof (cases "\<exists>p cfg c x. providerOf raw = Some p \<and> p \<in> set OAUTH_PROVIDERS \<and> oauthConfig (env w) p = Some cfg \<and> nonEmpty given = Some c \<and> nonEmpty cookie = Some x")
    case False
    have "\<exists>r. finishOAuth srv out ticket raw given cookie (q, m, i, h, w) = (r, q, m, i, h, w) \<and> (\<nexists>url. r = Inr (Inr url))"
      using False by (auto simp: finishOAuth_def Option.bind_eq_Some_conv split: option.splits if_splits)
    then show ?thesis using stay became_refl [OF ok(1), where view = view] ok(2) sr by blast
  next
    case True
    then obtain p cfg c x where x: "providerOf raw = Some p" "p \<in> set OAUTH_PROVIDERS" "oauthConfig (env w) p = Some cfg" "nonEmpty given = Some c" "nonEmpty cookie = Some x"
      by blast
    let ?k = "OAUTH_STATE @ x"
    obtain w1 where w1: "idGet srv ?k (q, m, i, h, w) = (Inr (cell_str (?v ?k)), q, m, i, h, w1)" "became view wf w ?v w1"
      using idGet_kv [OF ok(1) ident_okD(4) [OF ok(3)]] by blast
    note b1 = becameD [OF w1(2)]
    show ?thesis
    proof (cases "nonEmpty (cell_str (?v ?k))")
      case None
      then have "finishOAuth srv out ticket raw given cookie (q, m, i, h, w) = (Inr (Inl Expired), q, m, i, h, w1)"
        using x w1(1) by (simp add: finishOAuth_def)
      then show ?thesis using stay [OF _ w1(2) ok(2) sr] by blast
    next
      case (Some s)
      obtain w2 where w2: "idDel srv ?k (q, m, i, h, w1) = (Inr (), q, m, i, h, w2)" "became view wf w1 (?v(?k := None)) w2"
        using idDel_kv [OF b1(1), of ?k q m i h] unfolding b1(4) by blast
      have w02: "became view wf w (?v(?k := None)) w2" by (rule became_trans [OF w2(2) w1(2)])
      note b2 = becameD [OF w02]
      have d2: "service_ok ring net (?v(?k := None))" "same_ident net ?v (?v(?k := None))" using oauth_desk [OF ok(2), of ?k x None] by simp_all
      show ?thesis
      proof (cases "\<exists>kept. parseState s = Some kept \<and> stVia kept = p")
        case False
        have "\<exists>r. finishOAuth srv out ticket raw given cookie (q, m, i, h, w) = (r, q, m, i, h, w2) \<and> (\<nexists>url. r = Inr (Inr url))"
          using False x w1(1) w2(1) Some by (auto simp: finishOAuth_def split: option.splits)
        then show ?thesis using stay [OF _ w02 d2] by blast
      next
        case True
        then obtain kept where kept: "parseState s = Some kept" "stVia kept = p" by blast
        have dw: "service_world view wf ring net w2" using b2(1,2) d2(1) assms unfolding service_world_def b2(4) by simp
        have cfg2: "oauthConfig (env w2) p = Some cfg" using x(3) b2(3) by simp
        obtain r w3 u where w3: "exchangeCode srv out ticket p cfg c kept (q, m, i, h, w2) = (r, q, m, i, h, w3)" "became view wf w2 u w3" "service_ok ring net u"
            "same_ident net (?v(?k := None)) u" "\<forall>url. r = Inr (Inr url) \<longrightarrow> (\<exists>user t. told out (env w2) raw p user \<and>
              u (OAUTH_TICKET @ ticket) = Some (VStr (showJson (ticketJson t)), Some (clock w2 + TICKET_TTL_SEC * 1000)) \<and> ticketVia t = p \<and>
              ticketSubject t = fst user \<and> ticketLabel t = snd user)"
          using exchange_kv [OF dw x(1,2) cfg2, of out ticket c kept q m i h] unfolding b2(4) by blast
        have "finishOAuth srv out ticket raw given cookie (q, m, i, h, w) = (r, q, m, i, h, w3)"
          using x w1(1) w2(1) w3(1) kept Some by (simp add: finishOAuth_def)
        moreover have "same_ident net ?v u" by (rule same_ident_trans [OF d2(2) w3(4)])
        ultimately show ?thesis using became_trans [OF w3(2) w02] w3(3,5) b2(2,3) by metis
      qed
    qed
  qed
qed

end

subsection \<open>Reading\<close>

context redis_commands
begin

lemma check_identity_kv:
  assumes "service_world view wf ring net w"
  shows "\<exists>r w'. checkIdentity srv ring who (q, m, i, h, w) = (Inr r, q, m, i, h, w') \<and> became view wf w (view (clock w) (kvs w)) w' \<and>
    ckAddress r = map_option leadsTo (identityAt (view (clock w) (kvs w)) (idKey who))"
proof -
  let ?v = "view (clock w) (kvs w)"
  have ok: "shelf_ok wf w" "registry_ok ring ?v" "ident_ok ring net ?v" using assms by (simp_all add: service_world_def service_ok_def)
  obtain w1 where w1: "readIdentity srv (idKey who) (q, m, i, h, w) = (Inr (identityAt ?v (idKey who)), q, m, i, h, w1)" "became view wf w ?v w1"
    using readIdentity_kv [OF ok(1) ident_okD(1) [OF ok(3)]] by blast
  note b1 = becameD [OF w1(2)]
  show ?thesis
  proof (cases "identityAt ?v (idKey who)")
    case None
    then show ?thesis using w1 by (auto simp: checkIdentity_def)
  next
    case (Some row)
    obtain nm w2 where w2: "onNames (handleOf srv ring (leadsTo row)) (q, m, i, h, w1) = (Inr nm, q, m, i, h, w2)" "became view wf w1 ?v w2"
      using names_handle_kv [OF b1(1), of ring "leadsTo row" q m i h] unfolding b1(4) using ok(2) by blast
    then show ?thesis using Some w1 became_trans [OF w2(2) w1(2)] by (auto simp: checkIdentity_def)
  qed
qed

lemma fetch_kv:
  assumes "service_world view wf ring net w"
  shows "\<exists>r w'. fetchByIdentity srv ring who (q, m, i, h, w) = (Inr r, q, m, i, h, w') \<and> became view wf w (view (clock w) (kvs w)) w' \<and>
    map_option (\<lambda>(a, n, b). (a, b)) r = map_option (\<lambda>row. (leadsTo row, rowFiled row)) (identityAt (view (clock w) (kvs w)) (idKey who))"
proof -
  let ?v = "view (clock w) (kvs w)"
  have ok: "shelf_ok wf w" "registry_ok ring ?v" "ident_ok ring net ?v" using assms by (simp_all add: service_world_def service_ok_def)
  obtain w1 where w1: "readIdentity srv (idKey who) (q, m, i, h, w) = (Inr (identityAt ?v (idKey who)), q, m, i, h, w1)" "became view wf w ?v w1"
    using readIdentity_kv [OF ok(1) ident_okD(1) [OF ok(3)]] by blast
  note b1 = becameD [OF w1(2)]
  show ?thesis
  proof (cases "identityAt ?v (idKey who)")
    case None
    then show ?thesis using w1 by (auto simp: fetchByIdentity_def)
  next
    case (Some row)
    obtain nm w2 where w2: "onNames (handleOf srv ring (leadsTo row)) (q, m, i, h, w1) = (Inr nm, q, m, i, h, w2)" "became view wf w1 ?v w2"
      using names_handle_kv [OF b1(1), of ring "leadsTo row" q m i h] unfolding b1(4) using ok(2) by blast
    then show ?thesis using Some w1 became_trans [OF w2(2) w1(2)] by (auto simp: fetchByIdentity_def)
  qed
qed

lemma list_kv:
  assumes "service_world view wf ring net w"
  shows "\<exists>r w'. listLinks srv ring a net (q, m, i, h, w) = (Inr r, q, m, i, h, w') \<and> became view wf w (view (clock w) (kvs w)) w'"
proof -
  have ok: "shelf_ok wf w" "ident_ok ring net (view (clock w) (kvs w))" using assms by (simp_all add: service_world_def service_ok_def)
  show ?thesis using readLinks_kv [OF ok(1) ident_okD(2) [OF ok(2)], of a q m i h] became_refl [OF ok(1), where view = view]
    by (cases "accountKey ring a") (auto simp: listLinks_def)
qed

end

subsection \<open>Many operations\<close>

datatype identity_op = IResolve identity_proof | IAttach resolved string "json option" "string option" "account_proof option"
  | ICheck resolved | IFetch resolved | IDetach resolved "account_proof option" | IDropAll string provider | IList string
  | IStart string string provider "string option" | IFinish oauth_outside string string "string option" "string option" | IWait int

text \<open>Every operation on the deployment's network \<open>net\<close>, as the routes call it.\<close>

fun identity_do :: "'k server \<Rightarrow> keyring \<Rightarrow> (string \<Rightarrow> string) \<Rightarrow> string \<Rightarrow> identity_op \<Rightarrow> 'k ident \<Rightarrow> 'k ident" where
  "identity_do srv ring s256 net (IResolve how) st = snd (resolveProof srv ring (emailCode srv ring) how st)"
| "identity_do srv ring s256 net (IAttach who a raw pp ap) st = snd (attachIdentity srv ring who a net raw pp ap st)"
| "identity_do srv ring s256 net (ICheck who) st = snd (checkIdentity srv ring who st)"
| "identity_do srv ring s256 net (IFetch who) st = snd (fetchByIdentity srv ring who st)"
| "identity_do srv ring s256 net (IDetach who ap) st = snd (detachIdentity srv ring who net ap st)"
| "identity_do srv ring s256 net (IDropAll a p) st = snd (detachProviderByAccount srv a net p st)"
| "identity_do srv ring s256 net (IList a) st = snd (listLinks srv ring a net st)"
| "identity_do srv ring s256 net (IStart nonce random p a) st = snd (startOAuth srv s256 nonce random p a net st)"
| "identity_do srv ring s256 net (IFinish out ticket raw given cookie) st = snd (finishOAuth srv out ticket raw given cookie st)"
| "identity_do srv ring s256 net (IWait ms) st = (case st of (q, m, i, h, w) \<Rightarrow> (q, m, i, h, w\<lparr>clock := clock w + max 0 ms\<rparr>))"

fun waits :: "identity_op \<Rightarrow> int" where
  "waits (IWait ms) = max 0 ms"
| "waits op = 0"

text \<open>An identity is attached under an identifier a proof resolved to.\<close>

fun shaped :: "identity_op \<Rightarrow> bool" where
  "shaped (IAttach who a raw pp ap) \<longleftrightarrow> lowerHex 64 (idKey who)"
| "shaped op \<longleftrightarrow> True"

text \<open>The account's signature over a name, on this network.\<close>

definition approves :: "keyring \<Rightarrow> string \<Rightarrow> string \<Rightarrow> string \<Rightarrow> account_proof \<Rightarrow> bool" where
  "approves ring net name a p \<longleftrightarrow> signedBy ring a (proof_message Links (accountInput name a net p)) (apSig p)"

lemma proof_approves: "proof_ok ring Links (accountInput name a net p) now v \<Longrightarrow> approves ring net name a p"
  by (simp add: proof_ok_def approves_def accountInput_def)

fun unties :: "keyring \<Rightarrow> string \<Rightarrow> string \<Rightarrow> string \<Rightarrow> identity_op \<Rightarrow> bool" where
  "unties ring net j a (IDetach who ap) \<longleftrightarrow> idKey who = j \<and> (case ap of None \<Rightarrow> False | Some p \<Rightarrow> approves ring net (DETACH_PROOF_PREFIX @ j) a p)"
| "unties ring net j a (IDropAll b p) \<longleftrightarrow> b = a"
| "unties ring net j a op \<longleftrightarrow> False"

fun refiles :: "keyring \<Rightarrow> string \<Rightarrow> string \<Rightarrow> string \<Rightarrow> identity_op \<Rightarrow> bool" where
  "refiles ring net j a (IAttach who b raw pp ap) \<longleftrightarrow> idKey who = j \<and> b = a \<and> (case ap of None \<Rightarrow> False | Some p \<Rightarrow> approves ring net ATTACH_PROOF_NAME a p)"
| "refiles ring net j a op \<longleftrightarrow> False"

text \<open>What one operation may do to the row of an identity.\<close>

definition ties_kept :: "keyring \<Rightarrow> string \<Rightarrow> identity_op \<Rightarrow> kv_view \<Rightarrow> kv_view \<Rightarrow> bool" where
  "ties_kept ring net op v u \<longleftrightarrow> (\<forall>j r. identityAt v j = Some r \<longrightarrow> \<not> unties ring net j (leadsTo r) op \<longrightarrow>
     (\<exists>r'. identityAt u j = Some r' \<and> leadsTo r' = leadsTo r \<and> (refiles ring net j (leadsTo r) op \<or> r' = r)))"

lemma ties_same: "(\<And>j. identityAt u j = identityAt v j) \<Longrightarrow> ties_kept ring net op v u"
  by (auto simp: ties_kept_def)

lemma ties_ident: "same_ident net v u \<Longrightarrow> ties_kept ring net op v u"
  by (rule ties_same) (rule same_identD)

lemma service_became:
  assumes "service_world view ok ring net w" "became view ok w u w'" "service_ok ring net u"
  shows "service_world view ok ring net w'" "clock w' = clock w" "env w' = env w" "view (clock w') (kvs w') = u"
  using assms becameD [OF assms(2)] by (simp_all add: service_world_def)

lemma attach_desk:
  assumes "attach_post net who a (files ring net now who a raw pp ap v) v r u" "service_ok ring net v" "in_time now" "hex_digest ring" "lowerHex 64 (idKey who)"
  shows "service_ok ring net u" "ties_kept ring net (IAttach who a raw pp ap) v u"
proof -
  obtain c where c: "calm v c" "case files ring net now who a raw pp ap v of None \<Rightarrow> u = c
      | Some (row, ls) \<Rightarrow> u = refiled net (idKey who) (Some row) a ls c"
    using assms(1) by (auto simp: attach_post_def split: option.splits)
  have dc: "service_ok ring net c" by (rule calm_desk(1) [OF c(1) assms(2)])
  have ok: "ident_ok ring net v" using assms(2) by (simp add: service_ok_def)
  have "service_ok ring net u \<and> ties_kept ring net (IAttach who a raw pp ap) v u"
  proof (cases "files ring net now who a raw pp ap v")
    case None
    then show ?thesis using c(2) dc ties_ident [OF calm_desk(2) [OF c(1)]] by simp
  next
    case (Some y)
    obtain row ls where y: "y = (row, ls)" by (cases y)
    note f = files_ok [OF Some [unfolded y] ok assms(3-5)]
    have u: "u = refiled net (idKey who) (Some row) a ls c" using c(2) Some y by simp
    have "service_ok ring net u" unfolding u
      by (rule refiled_desk [OF dc]) (use f calm_at [OF c(1)] in \<open>simp_all split: option.splits\<close>)
    moreover have "case ap of None \<Rightarrow> False | Some p \<Rightarrow> approves ring net ATTACH_PROOF_NAME a p"
      using Some proof_approves by (auto simp: files_def split: if_splits option.splits)
    then have "refiles ring net (idKey who) a (IAttach who a raw pp ap)" by simp
    moreover have "identityAt u = (identityAt v)(idKey who \<mapsto> row)" unfolding u using refiled_at(1) f(1) calm_at(1) [OF c(1)] by simp
    moreover have "leadsTo r = a" if "identityAt v (idKey who) = Some r" for r using f(6) that by simp
    ultimately show ?thesis using f(2) unfolding ties_kept_def by (metis fun_upd_apply)
  qed
  then show "service_ok ring net u" "ties_kept ring net (IAttach who a raw pp ap) v u" by blast+
qed

lemma detach_desk:
  assumes "detach_post net who (unfiles ring net now who ap v) v r u" "service_ok ring net v"
  shows "service_ok ring net u" "ties_kept ring net (IDetach who ap) v u"
proof -
  obtain c where c: "calm v c" "case unfiles ring net now who ap v of None \<Rightarrow> u = c
      | Some row \<Rightarrow> u = refiled net (idKey who) None (leadsTo row) (filter (\<lambda>l. linkId l \<noteq> idKey who) (linksAt net v (leadsTo row))) c"
    using assms(1) by (auto simp: detach_post_def split: option.splits)
  have dc: "service_ok ring net c" by (rule calm_desk(1) [OF c(1) assms(2)])
  have ok: "ident_ok ring net v" using assms(2) by (simp add: service_ok_def)
  have "service_ok ring net u \<and> ties_kept ring net (IDetach who ap) v u"
  proof (cases "unfiles ring net now who ap v")
    case None
    then show ?thesis using c(2) dc ties_ident [OF calm_desk(2) [OF c(1)]] by simp
  next
    case (Some row)
    let ?ls = "filter (\<lambda>l. linkId l \<noteq> idKey who) (linksAt net v (leadsTo row))"
    have row: "identityAt v (idKey who) = Some row" "case ap of None \<Rightarrow> False | Some p \<Rightarrow> approves ring net (DETACH_PROOF_PREFIX @ idKey who) (leadsTo row) p"
      using Some proof_approves by (auto simp: unfiles_def Option.bind_eq_Some_conv split: option.splits if_splits)
    have u: "u = refiled net (idKey who) None (leadsTo row) ?ls c" using c(2) Some by simp
    have "linkId ` set ?ls = linkId ` set (linksAt net v (leadsTo row)) - {idKey who}" by auto
    then have "service_ok ring net u" unfolding u
      by (intro refiled_desk [OF dc]) (use links_filter [OF linksAt_ok [OF ok]] row(1) calm_at [OF c(1)] in simp_all)
    moreover have "identityAt u = (identityAt v)(idKey who := None)" unfolding u using refiled_at(1) calm_at(1) [OF c(1)] by simp
    ultimately show ?thesis using row by (auto simp: ties_kept_def)
  qed
  then show "service_ok ring net u" "ties_kept ring net (IDetach who ap) v u" by blast+
qed

lemma drop_ties: "service_ok ring net v \<Longrightarrow> ties_kept ring net (IDropAll a p) v (dropped net a p v)"
  using dropped_desk(2) by (fastforce simp: ties_kept_def)

context redis_expiry
begin

lemma wait_desk:
  assumes "service_world view wf ring net w" "0 \<le> d" "in_time (clock w + d)"
  shows "service_world view wf ring net (w\<lparr>clock := clock w + d\<rparr>)" "same_ident net (view (clock w) (kvs w)) (view (clock w + d) (kvs w))"
proof -
  let ?t = "clock w + d" and ?v = "view (clock w) (kvs w)"
  have ok: "shelf_ok wf w" "registry_ok ring ?v" "otp_ok ?v" "vault_ok ?v" "ident_ok ring net ?v" using assms(1) by (simp_all add: service_world_def service_ok_def)
  have wf0: "wf (kvs w)" using ok(1) by (simp add: shelf_ok_def)
  have l: "view ?t (kvs w) = (\<lambda>k. lapse ?t (?v k))" using view_lapse [OF wf0] assms(2) by (intro ext) simp
  have "inbox_kept ?v (view ?t (kvs w))" using row_cell_lapse [OF vault_okD(1) [OF ok(4)]]
    by (auto simp: inbox_kept_def l prefixes_def lapse_def split: option.splits if_splits prod.splits)
  then show i: "same_ident net ?v (view ?t (kvs w))"
    using row_at_lapse(1) [OF ident_okD(1) [OF ok(5)]] row_at_lapse(2) [OF ident_okD(2) [OF ok(5)]] by (simp add: same_ident_def l)
  have st: "strish (lapse ?t c)" if "strish c" for c using that by (auto simp: strish_def lapse_def split: option.splits prod.splits kval.splits)
  have "ident_ok ring net (view ?t (kvs w))" using ident_same [OF i _ _ ok(5)] ident_okD(3,4) [OF ok(5)] st unfolding l by blast
  moreover have "registry_ok ring (view ?t (kvs w))" unfolding l by (rule registry_lapse [OF ok(2)])
  moreover have "otp_ok (view ?t (kvs w))" using otp_ok_later [OF wf0 ok(3), of ?t] assms(2) by simp
  moreover have "vault_ok (view ?t (kvs w))" using ok(4) row_cell_lapse st unfolding l vault_ok_def by (metis (no_types, lifting))
  ultimately show "service_world view wf ring net (w\<lparr>clock := ?t\<rparr>)"
    using ok(1) assms(3) by (simp add: service_world_def service_ok_def shelf_ok_def online_def kvConfigured_def)
qed

lemma identity_do_ok:
  assumes "service_world view wf ring net w" "hex_digest ring" "shaped op" "in_time (clock w + waits op)"
  shows "\<exists>w'. identity_do srv ring s256 net op (q, m, i, h, w) = (q, m, i, h, w') \<and> service_world view wf ring net w' \<and> clock w' = clock w + waits op \<and>
    env w' = env w \<and> ties_kept ring net op (view (clock w) (kvs w)) (view (clock w') (kvs w'))"
proof -
  let ?v = "view (clock w) (kvs w)"
  have ok: "service_ok ring net ?v" "in_time (clock w)" using assms(1) by (simp_all add: service_world_def)
  have by_view: ?thesis if "identity_do srv ring s256 net op (q, m, i, h, w) = (q, m, i, h, w')" "became view wf w u w'" "service_ok ring net u"
      "ties_kept ring net op ?v u" "waits op = 0" for w' u
    using that service_became [OF assms(1) that(2,3)] by auto
  show ?thesis
  proof (cases op)
    case (IResolve how)
    obtain r w' u where "resolveProof srv ring (emailCode srv ring) how (q, m, i, h, w) = (r, q, m, i, h, w')" "became view wf w u w'" "service_ok ring net u" "same_ident net ?v u"
      using resolve_kv [OF assms(1,2), of how q m i h] by (elim exE conjE)
    then show ?thesis by (intro by_view [of w' u]) (simp_all add: IResolve ties_ident)
  next
    case (IAttach who a raw pp ap)
    obtain r w' u where a: "attachIdentity srv ring who a net raw pp ap (q, m, i, h, w) = (r, q, m, i, h, w')" "became view wf w u w'"
        "attach_post net who a (files ring net (clock w) who a raw pp ap ?v) ?v r u"
      using attach_kv [OF assms(1,2)] assms(3) IAttach by fastforce
    have "lowerHex 64 (idKey who)" using assms(3) IAttach by simp
    note d = attach_desk [OF a(3) ok assms(2) this]
    show ?thesis by (rule by_view [OF _ a(2) d(1)]) (use a(1) d(2) in \<open>simp_all add: IAttach\<close>)
  next
    case (ICheck who)
    obtain r w' where "checkIdentity srv ring who (q, m, i, h, w) = (Inr r, q, m, i, h, w')" "became view wf w ?v w'" using check_identity_kv [OF assms(1)] by blast
    then show ?thesis by (intro by_view [of w' ?v]) (simp_all add: ICheck ok ties_same)
  next
    case (IFetch who)
    obtain r w' where "fetchByIdentity srv ring who (q, m, i, h, w) = (Inr r, q, m, i, h, w')" "became view wf w ?v w'" using fetch_kv [OF assms(1)] by blast
    then show ?thesis by (intro by_view [of w' ?v]) (simp_all add: IFetch ok ties_same)
  next
    case (IDetach who ap)
    obtain r w' u where a: "detachIdentity srv ring who net ap (q, m, i, h, w) = (r, q, m, i, h, w')" "became view wf w u w'"
        "detach_post net who (unfiles ring net (clock w) who ap ?v) ?v r u"
      using detach_kv [OF assms(1)] by blast
    note d = detach_desk [OF a(3) ok(1)]
    show ?thesis by (rule by_view [OF _ a(2) d(1)]) (use a(1) d(2) in \<open>simp_all add: IDetach\<close>)
  next
    case (IDropAll a p)
    obtain r w' where "detachProviderByAccount srv a net p (q, m, i, h, w) = (Inr r, q, m, i, h, w')" "became view wf w (dropped net a p ?v) w'"
      using drop_kv [OF assms(1)] by blast
    then show ?thesis by (intro by_view [of w' "dropped net a p ?v"]) (simp_all add: IDropAll dropped_desk(1) [OF ok(1)] drop_ties [OF ok(1)])
  next
    case (IList a)
    obtain r w' where "listLinks srv ring a net (q, m, i, h, w) = (Inr r, q, m, i, h, w')" "became view wf w ?v w'" using list_kv [OF assms(1)] by blast
    then show ?thesis by (intro by_view [of w' ?v]) (simp_all add: IList ok ties_same)
  next
    case (IStart nonce random p a)
    obtain r w' u where "startOAuth srv s256 nonce random p a net (q, m, i, h, w) = (r, q, m, i, h, w')" "became view wf w u w'" "service_ok ring net u" "same_ident net ?v u"
      using start_kv [OF assms(1)] by blast
    then show ?thesis by (intro by_view [of w' u]) (simp_all add: IStart ties_ident)
  next
    case (IFinish out ticket raw given cookie)
    obtain r w' u where "finishOAuth srv out ticket raw given cookie (q, m, i, h, w) = (r, q, m, i, h, w')" "became view wf w u w'" "service_ok ring net u" "same_ident net ?v u"
      using finish_kv [OF assms(1)] by blast
    then show ?thesis by (intro by_view [of w' u]) (simp_all add: IFinish ties_ident)
  next
    case (IWait ms)
    have t: "0 \<le> max 0 ms" "in_time (clock w + max 0 ms)" using assms(4) IWait by simp_all
    show ?thesis using wait_desk [OF assms(1) t] ties_ident by (auto simp: IWait)
  qed
qed

lemma identity_run_ok:
  assumes "service_world view wf ring net w" "hex_digest ring" "\<forall>op\<in>set ops. shaped op" "in_time (clock w + sum_list (map waits ops))"
  shows "\<exists>w'. fold (identity_do srv ring s256 net) ops (q, m, i, h, w) = (q, m, i, h, w') \<and> service_world view wf ring net w' \<and>
    (\<forall>j r. identityAt (view (clock w) (kvs w)) j = Some r \<longrightarrow> (\<forall>op\<in>set ops. \<not> unties ring net j (leadsTo r) op) \<longrightarrow>
      (\<exists>r'. identityAt (view (clock w') (kvs w')) j = Some r' \<and> leadsTo r' = leadsTo r \<and>
        ((\<exists>op\<in>set ops. refiles ring net j (leadsTo r) op) \<or> r' = r)))"
  using assms(1,3,4)
proof (induction ops arbitrary: w)
  case (Cons op ops)
  have pos: "0 \<le> waits op'" for op' by (cases op') simp_all
  then have "0 \<le> sum_list (map waits ops)" by (intro sum_list_nonneg) auto
  then have t1: "in_time (clock w + waits op)" using Cons.prems pos [of op] by (auto simp: in_time_def service_world_def)
  have sh: "shaped op" "\<forall>op\<in>set ops. shaped op" using Cons.prems(2) by simp_all
  obtain w1 where w1: "identity_do srv ring s256 net op (q, m, i, h, w) = (q, m, i, h, w1)" "service_world view wf ring net w1" "clock w1 = clock w + waits op"
      "ties_kept ring net op (view (clock w) (kvs w)) (view (clock w1) (kvs w1))"
    using identity_do_ok [OF Cons.prems(1) assms(2) sh(1) t1] by blast
  have t2: "in_time (clock w1 + sum_list (map waits ops))" using Cons.prems(3) w1(3) by (simp add: add.assoc)
  obtain w' where w': "fold (identity_do srv ring s256 net) ops (q, m, i, h, w1) = (q, m, i, h, w')" "service_world view wf ring net w'"
      "\<And>j r. identityAt (view (clock w1) (kvs w1)) j = Some r \<Longrightarrow> \<forall>op\<in>set ops. \<not> unties ring net j (leadsTo r) op \<Longrightarrow>
        \<exists>r'. identityAt (view (clock w') (kvs w')) j = Some r' \<and> leadsTo r' = leadsTo r \<and> ((\<exists>op\<in>set ops. refiles ring net j (leadsTo r) op) \<or> r' = r)"
    using Cons.IH [OF w1(2) sh(2) t2] by blast
  have "\<exists>r'. identityAt (view (clock w') (kvs w')) j = Some r' \<and> leadsTo r' = leadsTo r \<and> ((\<exists>op'\<in>set (op # ops). refiles ring net j (leadsTo r) op') \<or> r' = r)"
    if v: "identityAt (view (clock w) (kvs w)) j = Some r" and no: "\<forall>op'\<in>set (op # ops). \<not> unties ring net j (leadsTo r) op'" for j r
  proof -
    obtain r1 where r1: "identityAt (view (clock w1) (kvs w1)) j = Some r1" "leadsTo r1 = leadsTo r" "refiles ring net j (leadsTo r) op \<or> r1 = r"
      using w1(4) v no unfolding ties_kept_def by (metis list.set_intros(1))
    then show ?thesis using w'(3) [OF r1(1)] no by auto
  qed
  then show ?case using w1(1) w'(1,2) by auto
qed simp

end

subsection \<open>What the ways back in promise\<close>

text \<open>C37: whatever is proved, attached, looked up, fetched, detached, started and finished with the providers, in any order and
  with time passing: an identity that leads to an account goes on leading to it as long as the account signs no detach of
  it and drops none of its links itself, and its row stays exactly as it is unless the account signs an attach of it; so
  neither another account nor whoever proves the identity re-points it or files another box under it.\<close>

theorem identity_stays_with_account:
  fixes w :: "kv world"
  assumes "service_world cell kv_wf ring net w" "hex_digest ring" "list_all shaped ops" "in_time (clock w + sum_list (map waits ops))"
    and "identityAt (cell (clock w) (kvs w)) j = Some row" and "list_all (\<lambda>op. \<not> unties ring net j (leadsTo row) op) ops"
  shows "\<exists>w' row'. fold (identity_do runOne ring s256 net) ops (q, m, i, h, w) = (q, m, i, h, w') \<and>
    identityAt (cell (clock w') (kvs w')) j = Some row' \<and> leadsTo row' = leadsTo row \<and>
    (list_all (\<lambda>op. \<not> refiles ring net j (leadsTo row) op) ops \<longrightarrow> row' = row)"
  using fakee.identity_run_ok [OF assms(1,2) _ assms(4), of s256 q m i h] assms(3,5,6) unfolding list_all_iff by blast


text \<open>C39: what was attached is found: after an attach that succeeded, with a box, whoever proves that identity is handed that account
  and that box, and every other identity leads where it did.\<close>

theorem attached_is_found:
  fixes w :: "kv world"
  assumes "service_world cell kv_wf ring net w" "hex_digest ring" "lowerHex 64 (idKey who)" "b \<noteq> JNull"
    and "attachIdentity runOne ring who a net (Some b) pp ap (q, m, i, h, w) = (Inr (Inr ls), st1)"
    and "fetchByIdentity runOne ring who2 st1 = (r, st2)"
  shows "\<exists>found. r = Inr found \<and> map_option (\<lambda>(acct, name, box). (acct, box)) found =
    (if idKey who2 = idKey who then Some (a, Some b)
     else map_option (\<lambda>row. (leadsTo row, rowFiled row)) (identityAt (cell (clock w) (kvs w)) (idKey who2)))"
proof -
  let ?v = "cell (clock w) (kvs w)" and ?f = "files ring net (clock w) who a (Some b) pp ap (cell (clock w) (kvs w))"
  obtain w1 u where w1: "st1 = (q, m, i, h, w1)" "became cell kv_wf w u w1" "attach_post net who a ?f ?v (Inr (Inr ls)) u"
    using fakec.attach_kv [OF assms(1-3), of a "Some b" pp ap q m i h] assms(5) by auto
  have ok: "service_ok ring net ?v" "in_time (clock w)" using assms(1) by (simp_all add: service_world_def)
  have "service_ok ring net u" by (rule attach_desk(1) [OF w1(3) ok assms(2,3)])
  then have sw: "service_world cell kv_wf ring net w1" by (rule service_became(1) [OF assms(1) w1(2)])
  obtain row where f: "?f = Some (row, ls)" using w1(3) by (auto simp: attach_post_def split: option.splits)
  obtain c where c: "calm ?v c" "u = refiled net (idKey who) (Some row) a ls c" using w1(3) f by (auto simp: attach_post_def)
  note fo = files_ok [OF f _ ok(2) assms(2,3)]
  have "row_ok ring net row" using fo(1) ok(1) by (simp add: service_ok_def)
  then have at: "identityAt u = (identityAt ?v)(idKey who \<mapsto> row)" unfolding c(2) using refiled_at(1) calm_at(1) [OF c(1)] by simp
  have "leadsTo row = a" "rowFiled row = Some b"
    using f assms(4) by (auto simp: files_def attachRow_def validateBox_Inr map_sum_def split: if_splits sum.splits option.splits json.splits)
  moreover obtain found where "r = Inr found" "map_option (\<lambda>(acct, name, box). (acct, box)) found =
      map_option (\<lambda>row. (leadsTo row, rowFiled row)) (identityAt u (idKey who2))"
    using fakec.fetch_kv [OF sw, of who2 q m i h] assms(6) unfolding w1(1) becameD(4) [OF w1(2)] by auto
  ultimately show ?thesis by (auto simp: at)
qed

text \<open>C40: the ticket a callback mints stands for the account the provider named, for five minutes and once: the first to present it
  in that time proves exactly that provider's subject, and whoever presents it later proves nothing.\<close>

theorem oauth_ticket_opens_once:
  fixes w :: "kv world"
  assumes "service_world cell kv_wf ring net w" "hex_digest ring" "ticketShape ticket"
    and "finishOAuth runOne out ticket raw given cookie (q, m, i, h, w) = (Inr (Inr url), q1, m1, i1, h1, w1)"
    and "clock w1 \<le> t1" "t1 \<le> t2" "in_time t2"
    and "resolveProof runOne ring (emailCode runOne ring) (ByTicket ticket) (q1, m1, i1, h1, w1\<lparr>clock := t1\<rparr>) = (r1, q2, m2, i2, h2, w2)"
    and "resolveProof runOne ring (emailCode runOne ring) (ByTicket ticket) (q2, m2, i2, h2, w2\<lparr>clock := t2\<rparr>) = (r2, st3)"
  shows "r2 = Inr None \<and> (\<exists>p user. told out (env w) raw p user \<and>
    r1 = (if t1 < clock w + 300000 then map_sum id (\<lambda>j. Some \<lparr>idVia = p, idKey = j, idLabel = snd user\<rparr>) (identityId ring p (fst user)) else Inr None))"
proof -
  let ?k = "OAUTH_TICKET @ ticket"
  obtain u p user t where w1: "q1 = q" "m1 = m" "i1 = i" "h1 = h" "became cell kv_wf w u w1" "service_ok ring net u" "told out (env w) raw p user"
      "u ?k = Some (VStr (showJson (ticketJson t)), Some (clock w + 300000))" "ticketVia t = p" "ticketSubject t = fst user" "ticketLabel t = snd user"
    using fakee.finish_kv [OF assms(1), of out ticket raw given cookie q m i h] assms(4) by (auto simp: TICKET_TTL_SEC_def)
  have sw1: "service_world cell kv_wf ring net w1" "clock w1 = clock w" "cell (clock w) (kvs w1) = u"
    using service_became [OF assms(1) w1(5,6)] by simp_all
  have later: "service_world cell kv_wf ring net (x\<lparr>clock := t\<rparr>)" "cell t (kvs x) k = lapse t (cell (clock x) (kvs x) k)"
    if "service_world cell kv_wf ring net x" "clock x \<le> t" "in_time t" for x t k
    using fakee.wait_desk(1) [OF that(1), of "t - clock x"] fake.view_lapse [of "kvs x" "clock x" t k] that
    by (simp_all add: service_world_def shelf_ok_def)
  have t1: "in_time t1" using assms(5-7) assms(1) sw1(2) by (auto simp: in_time_def service_world_def)
  define v1 where "v1 = w1\<lparr>clock := t1\<rparr>"
  have s1: "service_world cell kv_wf ring net v1" "cell (clock v1) (kvs v1) ?k = (if t1 < clock w + 300000 then u ?k else None)"
    using later [OF sw1(1) assms(5) t1] sw1(2,3) w1(8) by (simp_all add: v1_def lapse_def not_less)
  have st: "shelf_ok kv_wf v1" "strish (cell (clock v1) (kvs v1) ?k)" using s1(1) ident_okD(3) by (auto simp: service_world_def service_ok_def)
  obtain w2' where c1: "consumeTicket runOne ticket (q, m, i, h, v1) = (Inr (ticketAt (cell (clock v1) (kvs v1)) ticket), q, m, i, h, w2')"
      "became cell kv_wf v1 ((cell (clock v1) (kvs v1))(?k := None)) w2' \<or>
       became cell kv_wf v1 (cell (clock v1) (kvs v1)) w2' \<and> nonEmpty (cell_str (cell (clock v1) (kvs v1) ?k)) = None"
    using fakee.consume_kv [OF st assms(3), of q m i h] by blast
  have two: "ticketAt (cell (clock v1) (kvs v1)) ticket = (if t1 < clock w + 300000 then Some t else None)"
    by (simp add: ticketAt_def s1(2) w1(8) nonEmpty_def)
  have r1: "r1 = (if t1 < clock w + 300000 then map_sum id (\<lambda>j. Some \<lparr>idVia = p, idKey = j, idLabel = snd user\<rparr>) (identityId ring p (fst user)) else Inr None)"
    "q2 = q" "m2 = m" "i2 = i" "h2 = h" "w2 = w2'"
    using assms(8) c1(1) two w1(1-4,9-11) by (auto simp: resolveProof_def v1_def map_sum_def split: if_splits sum.splits)
  obtain u2 where u2: "became cell kv_wf v1 u2 w2'" "service_ok ring net u2" "nonEmpty (cell_str (u2 ?k)) = None"
    using c1(2) oauth_desk(1) [of ring net "cell (clock v1) (kvs v1)" ?k ticket None] s1(1) by (auto simp: service_world_def nonEmpty_def)
  note sw2 = service_became [OF s1(1) u2(1,2)]
  define v2 where "v2 = w2'\<lparr>clock := t2\<rparr>"
  have t2: "clock w2' \<le> t2" using sw2(2) assms(6) by (simp add: v1_def)
  have s2: "service_world cell kv_wf ring net v2" "cell (clock v2) (kvs v2) ?k = lapse t2 (u2 ?k)"
    using later [OF sw2(1) t2 assms(7)] sw2(4) by (simp_all add: v2_def)
  have "nonEmpty (cell_str (lapse t2 (u2 ?k))) = None" using u2(3) by (auto simp: lapse_def nonEmpty_def split: option.splits)
  then have none: "ticketAt (cell (clock v2) (kvs v2)) ticket = None" by (simp add: ticketAt_def s2(2))
  have st2: "shelf_ok kv_wf v2" "strish (cell (clock v2) (kvs v2) ?k)" using s2(1) ident_okD(3) by (auto simp: service_world_def service_ok_def)
  have "r2 = Inr None"
    using fakee.consume_kv [OF st2 assms(3), of q m i h] assms(9) none r1(2-6) by (auto simp: resolveProof_def v2_def)
  then show ?thesis using w1(7) r1(1) by blast
qed

subsection \<open>One namespace for every provider\<close>

text \<open>The identifier of an email is a hash anybody can compute, and its row binds no passkey.  A passkey proof under that identifier, with
  any 64 hex characters as its proof, therefore resolves, and the fetch hands over the account and its box without a code.\<close>

lemma email_row_opens_to_passkey:
  fixes w :: "kv world"
  assumes "service_world cell kv_wf ring net w" "hex_digest ring" "identityId ring Email email = Inr j"
    and "identityAt (cell (clock w) (kvs w)) j = Some row" "rowHash row = None" "lowerHex 64 p"
  shows "\<exists>who name st1 st2. resolveProof runOne ring (emailCode runOne ring) (ByPasskey j p) (q, m, i, h, w) = (Inr (Some who), st1) \<and>
    fetchByIdentity runOne ring who st1 = (Inr (Some (leadsTo row, name, rowFiled row)), st2)"
proof -
  let ?v = "cell (clock w) (kvs w)" and ?who = "\<lparr>idVia = Passkey, idKey = j, idLabel = None\<rparr>"
  have "lowerHex 64 j" by (rule identityId_hex [OF assms(2,3)])
  then have "resolve_spec ring j p ?v = Some ?who" using assms(4-6) by (simp add: resolve_spec_def)
  then obtain w1 where w1: "resolveProof runOne ring (emailCode runOne ring) (ByPasskey j p) (q, m, i, h, w) = (Inr (Some ?who), q, m, i, h, w1)"
      "became cell kv_wf w ?v w1"
    using fakee.resolve_kv [OF assms(1,2), of "ByPasskey j p" q m i h] by auto
  have "service_ok ring net ?v" using assms(1) by (simp add: service_world_def)
  note sw = service_became [OF assms(1) w1(2) this]
  obtain found w2 where f: "fetchByIdentity runOne ring ?who (q, m, i, h, w1) = (Inr found, q, m, i, h, w2)"
      "map_option (\<lambda>(a, n, b). (a, b)) found = map_option (\<lambda>row. (leadsTo row, rowFiled row)) (identityAt ?v j)"
    using fakec.fetch_kv [OF sw(1), of ?who q m i h] unfolding sw(4) by auto
  then obtain name where "found = Some (leadsTo row, name, rowFiled row)" using assms(4) by (cases found) auto
  then show ?thesis using w1(1) f(1) by blast
qed

subsection \<open>On concrete identities\<close>

definition hex_ring :: keyring where
  "hex_ring = \<lparr>accountKey = (\<lambda>k. k \<noteq> []), signedBy = (\<lambda>k msg sig. sig = k), digest = (\<lambda>_. demo_id)\<rparr>"

definition no_codes :: otp_mem where
  "no_codes = \<lparr>codes = [], tryMem = [], reqMem = []\<rparr>"

definition tied_row :: identity_row where
  "tied_row = \<lparr>rowVia = Email, leadsTo = ''GA'', rowNet = ''testnet'', rowSince = 0, rowFiled = Some demo_box, rowHash = None\<rparr>"

definition tied_links :: "link_summary list" where
  "tied_links = [\<lparr>linkVia = Email, linkId = demo_id, linkedAt = 0\<rparr>]"

text \<open>The store after one key was written.\<close>

definition wrote :: "string \<Rightarrow> string \<Rightarrow> kv \<Rightarrow> kv" where
  "wrote k x s = setUntil k None (setString k x (touch 0 k s))"

definition tied_world :: "kv world" where
  "tied_world = (quiet_world kv_env 0)\<lparr>kvs := wrote (listKey ''testnet'' ''GA'') (showLinks tied_links)
     (wrote (IDENTITY_ROW @ demo_id) (showIdentity tied_row) empty_kv)\<rparr>"

lemma wrote_at: "kv_wf s \<Longrightarrow> cell t (wrote k x s) = (cell t s)(k \<mapsto> (VStr x, None))" if "t = 0" for t
  unfolding wrote_def that by (rule cell_write_plain)

lemma wrote_wf: "kv_wf s \<Longrightarrow> kv_wf (wrote k x s)"
  by (simp add: wrote_def entries_setString)

lemma hex_digest_demo: "hex_digest hex_ring"
  by (simp add: hex_digest_def hex_ring_def demo_id_hex)

lemma service_none: "service_ok ring net (\<lambda>_. None)"
proof -
  have "list_at None" using list_at_listing [of "[]"] by (simp add: links_ok_def)
  then show ?thesis using demo_world(1) [of ring] vault_empty [of 0]
    by (simp add: service_ok_def registry_world_def vault_world_def otp_ok_def ident_ok_def identityAt_def linksAt_def nonEmpty_def quiet_world_def)
qed

lemma service_start: "service_world cell kv_wf ring net (quiet_world kv_env 0)"
  using service_none demo_world(2) by (simp add: service_world_def in_time_def quiet_world_def)

lemma tied_cells: "cell 0 (kvs tied_world) = refiled ''testnet'' demo_id (Some tied_row) ''GA'' tied_links (\<lambda>_. None)"
  by (simp add: tied_world_def wrote_at wrote_wf refiled_def listing_def tied_links_def)

lemma tied_row_ok: "row_ok hex_ring ''testnet'' tied_row"
  by (simp add: row_ok_def tied_row_def hex_ring_def in_time_def demo_box_ok)

lemma tied_start: "service_world cell kv_wf hex_ring ''testnet'' tied_world" "clock tied_world = 0"
proof -
  show c: "clock tied_world = 0" by (simp add: tied_world_def quiet_world_def)
  have "links_ok tied_links" by (simp add: links_ok_def tied_links_def link_ok_def demo_id_hex in_time_def MAX_LINKS_PER_ACCOUNT_def)
  then have "service_ok hex_ring ''testnet'' (cell 0 (kvs tied_world))" unfolding tied_cells
    by (intro refiled_desk) (simp_all add: service_none tied_row_ok identityAt_def linksAt_def nonEmpty_def tied_links_def, simp add: tied_row_def)
  moreover have "shelf_ok kv_wf tied_world" using demo_world(2) by (simp add: shelf_ok_def tied_world_def wrote_wf quiet_world_def online_def kvConfigured_def)
  ultimately show "service_world cell kv_wf hex_ring ''testnet'' tied_world" by (simp add: service_world_def c in_time_def)
qed

lemma tied_at: "identityAt (cell (clock tied_world) (kvs tied_world)) demo_id = Some tied_row"
  unfolding tied_start(2) tied_cells using refiled_at(1) [where row = "Some tied_row" and ring = hex_ring] tied_row_ok by simp

text \<open>A day on which another account tries for the identity: its owner's email proves it, a stranger attaches it to GB, it is detached
  without a signature, the stranger drops GB's links.\<close>

definition stranger :: "identity_op list" where
  "stranger = [IWait 1000, IAttach \<lparr>idVia = Email, idKey = demo_id, idLabel = None\<rparr> ''GB'' (Some demo_box) None (Some \<lparr>apTs = Some 1, apNonce = ''0123456789abcdef'', apSig = ''GB''\<rparr>),
     IDetach \<lparr>idVia = Email, idKey = demo_id, idLabel = None\<rparr> None, IDropAll ''GB'' Email, IList ''GA'']"

lemma stranger_shape: "list_all shaped stranger" "in_time (clock tied_world + sum_list (map waits stranger))"
  by (simp_all add: stranger_def demo_id_hex tied_start(2) in_time_def)

theorem identity_stays_with_account_witness:
  "\<exists>w'. fold (identity_do runOne hex_ring (\<lambda>x. x) ''testnet'') stranger (no_codes, no_mem, [], [], tied_world) = (no_codes, no_mem, [], [], w') \<and>
    identityAt (cell (clock w') (kvs w')) demo_id = Some tied_row"
proof -
  have "list_all (\<lambda>op. \<not> unties hex_ring ''testnet'' demo_id (leadsTo tied_row) op) stranger"
    "list_all (\<lambda>op. \<not> refiles hex_ring ''testnet'' demo_id (leadsTo tied_row) op) stranger"
    by (simp_all add: stranger_def tied_row_def)
  then show ?thesis using identity_stays_with_account [OF tied_start(1) hex_digest_demo stranger_shape tied_at, of "\<lambda>x. x" no_codes no_mem "[]" "[]"] by blast
qed


text \<open>The account behind the row, attached afresh.\<close>

definition ada :: resolved where
  "ada = \<lparr>idVia = Email, idKey = demo_id, idLabel = None\<rparr>"

definition ada_signs :: account_proof where
  "ada_signs = \<lparr>apTs = Some 0, apNonce = ''0123456789abcdef'', apSig = ''GA''\<rparr>"

lemma ada_files: "files hex_ring ''testnet'' 0 ada ''GA'' (Some demo_box) None (Some ada_signs) (\<lambda>_. None) = Some (tied_row, tied_links)"
proof -
  have "proof_ok hex_ring Links (accountInput ATTACH_PROOF_NAME ''GA'' ''testnet'' ada_signs) 0 (\<lambda>_. None)"
    using demo_name(3) by (simp add: proof_ok_def accountInput_def ada_signs_def hex_ring_def PROOF_SKEW_SEC_def)
  moreover have "length (showIdentity tied_row) \<le> MAX_ROW_BYTES" by code_simp
  moreover have "attachRow hex_ring ada ''GA'' ''testnet'' (Some demo_box) None None 0 = Inr tied_row"
  proof -
    have v: "validateBox (Some demo_box) = Inr demo_box" by (simp add: validateBox_Inr demo_box_ok)
    obtain ms where ms: "demo_box = JObj ms" by (simp add: demo_box_def)
    show ?thesis using v unfolding ms by (simp add: attachRow_def ada_def tied_row_def ms)
  qed
  ultimately show ?thesis
    by (simp add: files_def room_for_def identityAt_def linksAt_def nonEmpty_def added_def MAX_LINKS_PER_ACCOUNT_def tied_links_def)
      (simp add: hex_ring_def ada_def tied_row_def)
qed

theorem attached_is_found_witness:
  "case attachIdentity runOne hex_ring ada ''GA'' ''testnet'' (Some demo_box) None (Some ada_signs) (no_codes, no_mem, [], [], quiet_world kv_env 0) of (r, st1) \<Rightarrow>
     r = Inr (Inr tied_links) \<and> (\<exists>name. fst (fetchByIdentity runOne hex_ring ada st1) = Inr (Some (''GA'', name, Some demo_box)))"
proof -
  have id: "lowerHex 64 (idKey ada)" and nn: "demo_box \<noteq> JNull" by (simp_all add: ada_def demo_id_hex demo_box_def)
  obtain r w' u where r: "attachIdentity runOne hex_ring ada ''GA'' ''testnet'' (Some demo_box) None (Some ada_signs) (no_codes, no_mem, [], [], quiet_world kv_env 0) =
      (r, no_codes, no_mem, [], [], w')" "attach_post ''testnet'' ada ''GA'' (Some (tied_row, tied_links)) (\<lambda>_. None) r u"
    using fakec.attach_kv [OF service_start hex_digest_demo id, of "''GA''" "''testnet''" "Some demo_box" None "Some ada_signs" no_codes no_mem "[]" "[]"]
    by (auto simp: quiet_world_def ada_files)
  then have ok: "r = Inr (Inr tied_links)" by (auto simp: attach_post_def)
  obtain r2 st2 where f: "fetchByIdentity runOne hex_ring ada (no_codes, no_mem, [], [], w') = (r2, st2)" by (metis surj_pair)
  obtain found where found: "r2 = Inr found" "map_option (\<lambda>(acct, name, box). (acct, box)) found = Some (''GA'', Some demo_box)"
    using attached_is_found [OF service_start hex_digest_demo id nn r(1) [unfolded ok] f] by auto
  then have "\<exists>name. r2 = Inr (Some (''GA'', name, Some demo_box))" by auto
  then show ?thesis using r(1) f ok by simp
qed

text \<open>A callback of GitHub's, for a state that waits.\<close>

definition hub_state :: oauth_state where
  "hub_state = \<lparr>stVia = Github, stVerifier = [], stAddress = None, stNet = ''testnet''\<rparr>"

definition hub_world :: "kv world" where
  "hub_world = (quiet_world (kv_env(''OAUTH_GITHUB_CLIENT_ID'' \<mapsto> ''id'', ''OAUTH_GITHUB_CLIENT_SECRET'' \<mapsto> ''secret'')) 0)\<lparr>kvs :=
     wrote (OAUTH_STATE @ ''s'') (showJson (stateJson hub_state)) empty_kv\<rparr>"

definition hub :: oauth_outside where
  "hub = \<lparr>exchange = (\<lambda>cfg body. Inr (Some ''token'')), profile = (\<lambda>cfg token. Inr (Some (JObj [(''id'', JInt 7), (''login'', JStr ''ada'')])))\<rparr>"

definition hub_ticket :: string where
  "hub_ticket = replicate 32 (CHR ''b'')"

definition on_clock :: "int \<Rightarrow> 'k ident \<Rightarrow> 'k ident" where
  "on_clock t st = (case st of (q, m, i, h, w) \<Rightarrow> (q, m, i, h, w\<lparr>clock := t\<rparr>))"

lemma hub_cells: "cell 0 (kvs hub_world) = [OAUTH_STATE @ ''s'' \<mapsto> (VStr (showJson (stateJson hub_state)), None)]"
  by (simp add: hub_world_def wrote_at)

lemma hub_start: "service_world cell kv_wf hex_ring ''testnet'' hub_world" "clock hub_world = 0"
proof -
  show c: "clock hub_world = 0" by (simp add: hub_world_def quiet_world_def)
  have "service_ok hex_ring ''testnet'' (cell 0 (kvs hub_world))" unfolding hub_cells
    by (rule oauth_desk(1) [OF service_none]) simp_all
  moreover have "shelf_ok kv_wf hub_world"
    by (simp add: shelf_ok_def hub_world_def wrote_wf quiet_world_def online_def kvConfigured_def kvConfigFromEnv_def kv_env_def)
  ultimately show "service_world cell kv_wf hex_ring ''testnet'' hub_world" by (simp add: service_world_def c in_time_def)
qed

lemma hub_config: "\<exists>cfg. oauthConfig (env hub_world) Github = Some cfg \<and> readUser cfg = githubUser"
proof -
  have "envPair (env hub_world) Github = (Some ''id'', Some ''secret'')" by (simp add: hub_world_def quiet_world_def) code_simp
  then show ?thesis by (simp add: oauthConfig_def)
qed

lemma hub_finishes:
  "\<exists>url w'. finishOAuth runOne hub hub_ticket ''github'' (Some ''c'') (Some ''s'') (no_codes, no_mem, [], [], hub_world) =
     (Inr (Inr url), no_codes, no_mem, [], [], w') \<and> clock w' = 0"
proof -
  let ?k = "OAUTH_STATE @ ''s''" and ?v = "cell (clock hub_world) (kvs hub_world)"
  let ?t = "\<lparr>ticketVia = Github, ticketSubject = ''7'', ticketLabel = Some ''@ada'', ticketAddress = None, ticketNet = ''testnet''\<rparr>"
  have sh: "shelf_ok kv_wf hub_world" using hub_start(1) by (simp add: service_world_def)
  have v: "?v ?k = Some (VStr (showJson (stateJson hub_state)), None)" by (simp add: hub_start(2) hub_cells)
  obtain w1 where w1: "idGet runOne ?k (no_codes, no_mem, [], [], hub_world) = (Inr (Some (showJson (stateJson hub_state))), no_codes, no_mem, [], [], w1)"
      "became cell kv_wf hub_world ?v w1"
    using fakec.idGet_kv [OF sh, of ?k no_codes no_mem "[]" "[]"] v by auto
  obtain w2 where w2: "idDel runOne ?k (no_codes, no_mem, [], [], w1) = (Inr (), no_codes, no_mem, [], [], w2)" "became cell kv_wf w1 (?v(?k := None)) w2"
    using fakec.idDel_kv [OF becameD(1) [OF w1(2)], of ?k no_codes no_mem "[]" "[]"] unfolding becameD(4) [OF w1(2)] by blast
  have len: "length (showJson (ticketJson ?t)) \<le> MAX_ROW_BYTES" by code_simp
  obtain w3 where w3: "idSet runOne (OAUTH_TICKET @ hub_ticket) (showJson (ticketJson ?t)) (Some TICKET_TTL_SEC) (no_codes, no_mem, [], [], w2) =
      (Inr (), no_codes, no_mem, [], [], w3)" "clock w3 = clock w2"
    using fakec.idSet_kv [OF becameD(1) [OF w2(2)] _ len, of "Some TICKET_TTL_SEC" "OAUTH_TICKET @ hub_ticket" no_codes no_mem "[]" "[]"]
      becameD(2) by (fastforce simp: TICKET_TTL_SEC_def)
  have e: "env w2 = env hub_world" "clock w2 = 0" using becameD(2,3) [OF w1(2)] becameD(2,3) [OF w2(2)] hub_start(2) by simp_all
  obtain cfg where cfg: "oauthConfig (env hub_world) Github = Some cfg" "readUser cfg = githubUser" using hub_config by blast
  have who: "githubUser (JObj [(''id'', JInt 7), (''login'', JStr ''ada'')]) = Some (''7'', Some ''@ada'')" by code_simp
  have pr: "providerOf ''github'' = Some Github" using providerOf_text [of Github] by simp
  have "exchangeCode runOne hub hub_ticket Github cfg ''c'' hub_state (no_codes, no_mem, [], [], w2) =
      (Inr (Inr (webReturnUrl (env w3) @ ''/settings?connected='' @ hub_ticket @ ''&provider='' @ ''github'')), no_codes, no_mem, [], [], w3)"
    using w3(1) by (simp add: exchangeCode_def hub_def nonEmpty_def cfg(2) who mintTicket_def hub_state_def)
  then show ?thesis using w1(1) w2(1) w3(2) cfg(1) e
    by (simp add: finishOAuth_def pr OAUTH_PROVIDERS_def nonEmpty_def) (simp add: hub_state_def)
qed

theorem oauth_ticket_opens_once_witness:
  "case finishOAuth runOne hub hub_ticket ''github'' (Some ''c'') (Some ''s'') (no_codes, no_mem, [], [], hub_world) of (r0, st0) \<Rightarrow>
    (case resolveProof runOne hex_ring (emailCode runOne hex_ring) (ByTicket hub_ticket) (on_clock 1000 st0) of (r1, st1) \<Rightarrow>
      r1 = Inr (Some \<lparr>idVia = Github, idKey = demo_id, idLabel = Some ''@ada''\<rparr>) \<and>
      fst (resolveProof runOne hex_ring (emailCode runOne hex_ring) (ByTicket hub_ticket) (on_clock 2000 st1)) = Inr None)"
proof -
  obtain url w1 where w1: "finishOAuth runOne hub hub_ticket ''github'' (Some ''c'') (Some ''s'') (no_codes, no_mem, [], [], hub_world) =
      (Inr (Inr url), no_codes, no_mem, [], [], w1)" "clock w1 = 0"
    using hub_finishes by blast
  obtain r1 q2 m2 i2 h2 w2 where a: "resolveProof runOne hex_ring (emailCode runOne hex_ring) (ByTicket hub_ticket)
      (no_codes, no_mem, [], [], w1\<lparr>clock := 1000\<rparr>) = (r1, q2, m2, i2, h2, w2)" by (metis surj_pair)
  obtain r2 st3 where b: "resolveProof runOne hex_ring (emailCode runOne hex_ring) (ByTicket hub_ticket) (q2, m2, i2, h2, w2\<lparr>clock := 2000\<rparr>) = (r2, st3)"
    by (metis surj_pair)
  have t: "ticketShape hub_ticket" by code_simp
  have i: "in_time 2000" by (simp add: in_time_def)
  have who: "githubUser (JObj [(''id'', JInt 7), (''login'', JStr ''ada'')]) = Some (''7'', Some ''@ada'')" by code_simp
  have key: "identityId hex_ring Github ''7'' = Inr demo_id" by code_simp
  have only: "p = Github \<and> user = (''7'', Some ''@ada'')" if "told hub (env hub_world) ''github'' p user" for p user
  proof -
    have "p = Github" using that providerOf_text [of Github] by (simp add: told_def)
    moreover from this have "githubUser (JObj [(''id'', JInt 7), (''login'', JStr ''ada'')]) = Some user"
      using that hub_config by (auto simp: told_def hub_def)
    ultimately show ?thesis using who by simp
  qed
  have "0 < t1 \<Longrightarrow> t1 < 300000 \<Longrightarrow> t1 < clock hub_world + 300000" for t1 :: int by (simp add: hub_start(2))
  from this [of 1000] obtain p user where z: "r2 = Inr None" "told hub (env hub_world) ''github'' p user"
      "r1 = map_sum id (\<lambda>j. Some \<lparr>idVia = p, idKey = j, idLabel = snd user\<rparr>) (identityId hex_ring p (fst user))"
    using oauth_ticket_opens_once [OF hub_start(1) hex_digest_demo t w1(1) _ _ i a b] w1(2) by auto
  have "r1 = Inr (Some \<lparr>idVia = Github, idKey = demo_id, idLabel = Some ''@ada''\<rparr>)" using only [OF z(2)] z(3) by (simp add: key)
  then show ?thesis using w1(1) a b z(1) by (simp add: on_clock_def)
qed

end
