(* ===== verification/Spec2Isabelle.thy ===== *)
theory Spec2Isabelle
  imports CapsConcurrent RateLimit Onboarding FeeBudget KillSwitch Channels SorobanRelay Handles CreateAccount IdentityLaws
begin

text \<open>
  Lumenia sends dollars by link.  This development models its sponsor service (\<open>apps/sponsor/src\<close>): the
  program that holds a funded Stellar key and a shared counter store, and that must spend neither on anything but what
  it promises.

  THE PROGRAM.  A request reaches a route; the route asks the kill switch, spends a rate limit, asks the pilot gate and
  the caps, parses the client's envelope, validates it (the anti-drain policies), charges the day's fee budget, signs and
  submits, and settles the charge and the reservations by what the network answered.  Opening an account leases a channel
  account from a pool.  Beside the money stand the registries: names (\<open>@handle\<close>), emailed codes,
  recovery boxes and the ways back in.  Every part shares state through one store, Upstash Redis over REST, with the isolate's own maps as a
  fallback; calls are lost, delayed and interleaved.

  THE STORE.  \<open>KvStore\<close> and \<open>KvEval\<close> are \<open>cli/fake-kv.ts\<close>, the store the repository ships for local
  runs, command by command, with its script interpreter (parsed before it runs, as the code does).  \<open>KvRefine\<close> abstracts a
  store at an instant to a map from keys to a value and an expiry; \<open>KvLaws\<close> states what the clients rely on as the locale
  \<open>redis\<close> and interprets it on that store (\<open>fake\<close>).  The locale is extended where a component relies on more:
  \<open>redis_window\<close> (INCR and PEXPIRE, in \<open>RateLimit\<close>), \<open>redis_commands\<close> (DECR and SET NX, in
  \<open>KvCommands\<close>), \<open>redis_expiry\<close> (EXPIRE with NX, in \<open>RecoveryOtp\<close>) and \<open>redis_lease\<close> (the
  pool's script, in \<open>Channels\<close>), each interpreted on the same store.  The other interface is the TypeScript interface
  \<open>LeaseStore\<close>, the locale \<open>leases\<close>, interpreted on the in-memory store and, by a sublocale, on every store with
  \<open>redis_lease\<close>.  \<open>KvClient\<close> is a round trip: the commands of a pipeline run one by one, and the answer may
  be lost after any of them.  \<open>KvMoves\<close> says what such a pipeline leaves behind.

  THE PARTS AND THEIR THEORIES, under \<open>apps/sponsor/src/lib/\<close> unless a path is given.
    \<^item> \<open>Caps\<close>, \<open>CapsConcurrent\<close>: the canary caps of caps.ts (\<open>checkCaps\<close>, \<open>release\<close>); the second
      runs any number of requests command by command (\<open>cap_step\<close>, \<open>cap_reach\<close>) and proves the day cap and the
      sender cap over every interleaving.
    \<^item> \<open>Onboarding\<close>, \<open>FeeBudget\<close>: the budgets of caps.ts, a slot per recipient with a fenced marker, and the fee
      charged before a signature.
    \<^item> \<open>RateLimit\<close> (rate-limit.ts), \<open>KillSwitch\<close> (kill-switch.ts), \<open>Channels\<close> (channels.ts).
    \<^item> \<open>AntiDrain\<close> (anti-drain.ts), \<open>HorizonSubmit\<close> (stellar.ts), \<open>SponsorRoutes\<close> (feebump.ts, payout.ts,
      sweep.ts, send.ts), \<open>SorobanRelay\<close> (soroban-relay.ts, subrequests.ts), \<open>CreateAccount\<close> (create-account.ts):
      the routes that sign, from the parsed envelope to the answer, over the parts above.
    \<^item> \<open>Pilot\<close>, \<open>PilotSlots\<close> (pilot.ts): applications, approval links and the slots of a wallet.
    \<^item> \<open>RecoveryOtp\<close> (recovery-otp.ts), \<open>Handles\<close> (handles.ts), \<open>RecoveryStore\<close>
      (recovery-store.ts), \<open>IdentityLinks\<close> (identity-links.ts): the registries.
      \<open>IdentityLaws\<close> proves what holds of the last one, over \<open>service_ok\<close>, the invariant of the store they share.
    \<^item> \<open>Prelude\<close>, \<open>Json\<close>, \<open>JsNumber\<close>, \<open>UtcDay\<close>: the strings, maps, JSON, doubles and dates of
      JavaScript the sources use.
  A definition has the name of the function it models.  A closure that a function returns is data (what it captured), and
  applying it is a definition.  An exception is the left side of a sum; a module's variables are a record that is passed
  along with the world.

  WHAT IS SHOWN.  For each part: what every branch of an operation answers and does to the store, over any store with the
  laws (the lemmas inside the locales); then the properties, over the repository's own store.  Money: over every
  interleaving and every lost round trip the caps, the slots and the fee counter never undercount what may have moved, and
  no transaction the sponsor signs takes anything out of it but the reserves and fees it means to pay.  State: the leases
  exclude each other while their transactions can still use the sequence, a slot released by an overtaken request stays
  taken, a halt reaches every isolate.  Registries: names stay distinct up to confusables, a signature is honoured once, at
  most twelve guesses reach the comparison, a bound recovery row is only replaced or released by the account that signed it,
  every stored box is ciphertext.  An identity leads to its
  account until that account lets it go, and every listing is exactly what leads to its account.  \<open>pilot_spec\<close>, \<open>claim_spec\<close>, \<open>verify_spec\<close> and the fee charge's contract are
  the abstract specifications the operations refine.  Lemmas that are no property record where the code departs from its
  comments (PROJECT.json, findings).

  BOUNDS.  Recursion is structural or over a finite list (the answers a poll will get, the passes of a lease, the names of
  a batch), so every definition is total and no fuel is used.  Integers are unbounded where the code has bigint, whole
  numbers below 2^53 where it has a number that only counts, and IEEE doubles (\<open>JsNumber\<close>) where it computes with
  fractions of money; token buckets are exact rationals.  JSON numbers are whole.

  ARGUMENTS OF THE MODEL.  The Stellar SDK (parsing, key and asset checks, fees), the signer, Horizon and the RPC, SHA-256,
  HMAC and Ed25519, random values and the mailer are arguments of the definitions that use them; what a property needs of
  one is a hypothesis of its statement, and its witness satisfies it.

  NOT MODELLED.  Routing, CORS and body limits (worker.ts, index.ts, service.ts) and reads of the environment into records (config.ts): glue
  between what is modelled.  The watchdog (watchdog.ts) and the CCTP relay (cctp-relay.ts): polls of other services.  Mails
  and reports (pilot-request.ts, pilot-report.ts), telemetry and contact lists, the testnet faucet, scripts, spikes and
  self-tests: input and output.  The redaction of log lines in soroban-relay.ts and the fetch wrapper of subrequests.ts.  The
  web app, the extension and the Rust contracts are other programs; the browser code is screens, WebCrypto and calls of the
  modelled routes.
\<close>

end
